(* ===== verification/JS_Prelude.thy ===== *)
theory JS_Prelude
  imports Main "HOL-Library.AList"
begin

text \<open>
  The part of the JavaScript language the modelled scripts rest on, and the vocabulary every
  component shares.

  \<^item> Values are trees of type \<open>'f jsv\<close>; \<open>'f\<close> names the functions a page may hand
    to the scripts, which are not in the repository and reach the model through an
    environment (\<open>'f env\<close>).
  \<^item> A plain object is an association list in insertion order, an array a dense list.
  \<^item> Finite numbers are integers: no modelled routine produces a fraction.
  \<^item> A thrown exception is a value of \<open>js_error\<close> in the left summand of a sum.
  \<^item> A string is a list of code units; \<open>json2.js\<close>, where units above 255 matter, has its
    own 16-bit strings.
\<close>

section \<open>Shared hint collections\<close>

named_theorems js_simps "unfolding equations of the JavaScript primitives"
named_theorems wf_intros "preservation of well-formedness and invariants"

section \<open>Values\<close>

datatype jsnum = NFin int | NNaN | NInf bool

datatype 'f jsv =
    Undef
  | Null
  | Bool bool
  | Num jsnum
  | Str string
  | Arr "'f jsv list"
  | Obj "(string \<times> 'f jsv) list"
  | Fn 'f

datatype js_error =
    TypeError
  | SyntaxError string
  | ErrorMsg string

type_synonym 'a throws = "js_error + 'a"

definition bindE :: "'a throws \<Rightarrow> ('a \<Rightarrow> 'b throws) \<Rightarrow> 'b throws" where
  "bindE m k = (case m of Inl e \<Rightarrow> Inl e | Inr a \<Rightarrow> k a)"

lemma bindE_simps [simp]:
  "bindE (Inl e) k = Inl e"
  "bindE (Inr a) k = k a"
  by (simp_all add: bindE_def)

lemma bindE_eq_Inr: "bindE m k = Inr b \<longleftrightarrow> (\<exists>a. m = Inr a \<and> k a = Inr b)"
  by (cases m) simp_all

subsection \<open>Truthiness, \<open>typeof\<close>, loose comparison with \<open>null\<close>\<close>

fun truthy :: "'f jsv \<Rightarrow> bool" where
  "truthy Undef = False"
| "truthy Null = False"
| "truthy (Bool b) = b"
| "truthy (Num (NFin n)) = (n \<noteq> 0)"
| "truthy (Num NNaN) = False"
| "truthy (Num (NInf _)) = True"
| "truthy (Str s) = (s \<noteq> [])"
| "truthy (Arr _) = True"
| "truthy (Obj _) = True"
| "truthy (Fn _) = True"

text \<open>\<open>v == null\<close> holds of \<open>undefined\<close> and \<open>null\<close> only.\<close>

fun is_nullish :: "'f jsv \<Rightarrow> bool" where
  "is_nullish Undef = True"
| "is_nullish Null = True"
| "is_nullish _ = False"

datatype js_type = TUndefined | TObject | TBoolean | TNumber | TString | TFunction

fun typeof :: "'f jsv \<Rightarrow> js_type" where
  "typeof Undef = TUndefined"
| "typeof Null = TObject"
| "typeof (Bool _) = TBoolean"
| "typeof (Num _) = TNumber"
| "typeof (Str _) = TString"
| "typeof (Arr _) = TObject"
| "typeof (Obj _) = TObject"
| "typeof (Fn _) = TFunction"

fun is_Arr :: "'f jsv \<Rightarrow> bool" where
  "is_Arr (Arr _) = True"
| "is_Arr _ = False"

lemma truthy_not_nullish [simp]: "truthy v \<Longrightarrow> \<not> is_nullish v"
  by (cases v) simp_all

lemma not_nullish_if_typeof_function: "typeof v = TFunction \<Longrightarrow> truthy v"
  by (cases v) simp_all

section \<open>Numerals\<close>

definition digit_char :: "nat \<Rightarrow> char" where
  "digit_char d = char_of (48 + d)"

function dec_nat :: "nat \<Rightarrow> string" where
  "dec_nat n = (if n < 10 then [digit_char n] else dec_nat (n div 10) @ [digit_char (n mod 10)])"
  by pat_completeness auto
termination
  by (relation "measure id") auto

declare dec_nat.simps [simp del]

definition dec_int :: "int \<Rightarrow> string" where
  "dec_int n = (if n < 0 then CHR ''-'' # dec_nat (nat (- n)) else dec_nat (nat n))"

fun num_str :: "jsnum \<Rightarrow> string" where
  "num_str (NFin n) = dec_int n"
| "num_str NNaN = ''NaN''"
| "num_str (NInf neg) = (if neg then ''-Infinity'' else ''Infinity'')"

definition is_digit :: "char \<Rightarrow> bool" where
  "is_digit c \<longleftrightarrow> 48 \<le> (of_char c :: nat) \<and> (of_char c :: nat) \<le> 57"

definition digit_val :: "char \<Rightarrow> nat" where
  "digit_val c = (of_char c :: nat) - 48"

fun read_dec :: "nat \<Rightarrow> string \<Rightarrow> nat" where
  "read_dec acc [] = acc"
| "read_dec acc (c # cs) = read_dec (10 * acc + digit_val c) cs"

lemma is_digit_digit_char: "d < 10 \<Longrightarrow> is_digit (digit_char d)"
  by (simp add: is_digit_def digit_char_def)

lemma digit_val_digit_char [simp]: "d < 10 \<Longrightarrow> digit_val (digit_char d) = d"
  by (simp add: digit_val_def digit_char_def)

lemma read_dec_append: "read_dec acc (xs @ ys) = read_dec (read_dec acc xs) ys"
  by (induction xs arbitrary: acc) simp_all

lemma dec_nat_digits: "\<forall>c \<in> set (dec_nat n). is_digit c"
proof (induction n rule: dec_nat.induct)
  case (1 n)
  then show ?case
    by (subst dec_nat.simps) (auto simp: is_digit_digit_char)
qed

lemma dec_nat_nonempty [simp]: "dec_nat n \<noteq> []"
  by (subst dec_nat.simps) simp

lemma read_dec_dec_nat [simp]: "read_dec 0 (dec_nat n) = n"
proof (induction n rule: dec_nat.induct)
  case (1 n)
  then show ?case
    by (subst dec_nat.simps) (auto simp: read_dec_append)
qed

lemma dec_nat_inject [simp]: "dec_nat m = dec_nat n \<longleftrightarrow> m = n"
  by (metis read_dec_dec_nat)

text \<open>A property key that is a canonical array index.\<close>

definition arr_index :: "string \<Rightarrow> nat option" where
  "arr_index k = (let n = read_dec 0 k in if dec_nat n = k then Some n else None)"

lemma arr_index_dec_nat [simp]: "arr_index (dec_nat n) = Some n"
  by (simp add: arr_index_def)

lemma arr_index_Some: "arr_index k = Some n \<Longrightarrow> k = dec_nat n"
  by (auto simp: arr_index_def Let_def split: if_splits)

section \<open>Properties and the environment\<close>

datatype proto = PObject | PArray | PString | PNumber | PBoolean | PFunction

text \<open>
  What the page supplies: the properties a value inherits from its prototype (a page may
  extend the built-in prototypes), the functions of the view called without arguments, and
  the string an object or function converts to (its \<open>toString\<close>).
\<close>

record 'f env =
  inherited :: "proto \<Rightarrow> string \<Rightarrow> 'f jsv option"
  call0 :: "'f \<Rightarrow> 'f jsv \<Rightarrow> 'f jsv"
  obj_str :: "'f jsv \<Rightarrow> string"

definition inherit :: "'f env \<Rightarrow> proto \<Rightarrow> string \<Rightarrow> 'f jsv" where
  "inherit E p k = (case inherited E p k of Some v \<Rightarrow> v | None \<Rightarrow> Undef)"

definition num_of_nat :: "nat \<Rightarrow> 'f jsv" where
  "num_of_nat n = Num (NFin (int n))"

text \<open>\<open>v[k]\<close>: reading a property of \<open>undefined\<close> or \<open>null\<close> throws.\<close>

fun get_prop :: "'f env \<Rightarrow> 'f jsv \<Rightarrow> string \<Rightarrow> 'f jsv throws" where
  "get_prop E Undef k = Inl TypeError"
| "get_prop E Null k = Inl TypeError"
| "get_prop E (Bool _) k = Inr (inherit E PBoolean k)"
| "get_prop E (Num _) k = Inr (inherit E PNumber k)"
| "get_prop E (Str s) k = Inr (
     if k = ''length'' then num_of_nat (length s)
     else case arr_index k of
       Some i \<Rightarrow> (if i < length s then Str [s ! i] else inherit E PString k)
     | None \<Rightarrow> inherit E PString k)"
| "get_prop E (Arr xs) k = Inr (
     if k = ''length'' then num_of_nat (length xs)
     else case arr_index k of
       Some i \<Rightarrow> (if i < length xs then xs ! i else inherit E PArray k)
     | None \<Rightarrow> inherit E PArray k)"
| "get_prop E (Obj ps) k = Inr (case map_of ps k of Some v \<Rightarrow> v | None \<Rightarrow> inherit E PObject k)"
| "get_prop E (Fn f) k = Inr (inherit E PFunction k)"

lemma get_prop_not_nullish: "\<not> is_nullish v \<Longrightarrow> \<exists>w. get_prop E v k = Inr w"
  by (cases v) simp_all

lemma get_prop_nullish: "is_nullish v \<Longrightarrow> get_prop E v k = Inl TypeError"
  by (cases v) simp_all

lemma get_prop_truthy: "truthy v \<Longrightarrow> \<exists>w. get_prop E v k = Inr w"
  by (simp add: get_prop_not_nullish)

text \<open>
  A bare \<open>{}\<close> used as a dictionary: an absent key falls through to the prototype of
  objects, as in \<open>cache["constructor"]\<close>.
\<close>

datatype 'a slot = Own 'a | Proto | Absent

definition dict_get :: "(string \<Rightarrow> bool) \<Rightarrow> (string \<rightharpoonup> 'a) \<Rightarrow> string \<Rightarrow> 'a slot" where
  "dict_get inh d k = (case d k of Some v \<Rightarrow> Own v | None \<Rightarrow> if inh k then Proto else Absent)"

lemma dict_get_upd [simp]:
  "dict_get inh (d(k \<mapsto> v)) k' = (if k' = k then Own v else dict_get inh d k')"
  by (simp add: dict_get_def)

lemma dict_get_Own: "dict_get inh d k = Own v \<longleftrightarrow> d k = Some v"
  by (simp add: dict_get_def split: option.splits)

section \<open>Conversion to a string\<close>

fun join :: "'a list \<Rightarrow> 'a list list \<Rightarrow> 'a list" where
  "join sep [] = []"
| "join sep [x] = x"
| "join sep (x # y # zs) = x @ sep @ join sep (y # zs)"

fun to_str :: "'f env \<Rightarrow> 'f jsv \<Rightarrow> string" where
  "to_str E Undef = ''undefined''"
| "to_str E Null = ''null''"
| "to_str E (Bool b) = (if b then ''true'' else ''false'')"
| "to_str E (Num n) = num_str n"
| "to_str E (Str s) = s"
| "to_str E (Arr xs) = join '','' (map (\<lambda>x. if is_nullish x then [] else to_str E x) xs)"
| "to_str E (Obj ps) = obj_str E (Obj ps)"
| "to_str E (Fn f) = obj_str E (Fn f)"

section \<open>Strings\<close>

text \<open>The code units below 256 that \<open>\s\<close> matches.\<close>

definition is_ws :: "char \<Rightarrow> bool" where
  "is_ws c \<longleftrightarrow> (of_char c :: nat) \<in> {9, 10, 11, 12, 13, 32, 160}"

text \<open>What \<open>\w\<close> matches, and the characters a regular expression gives a meaning to.\<close>

definition is_word :: "char \<Rightarrow> bool" where
  "is_word c \<longleftrightarrow> is_digit c \<or> c = CHR ''_'' \<or>
     (let n = (of_char c :: nat) in (65 \<le> n \<and> n \<le> 90) \<or> (97 \<le> n \<and> n \<le> 122))"

definition syntax_chars :: string where
  "syntax_chars = ''^$.*+?()[]{}|'' @ [CHR 0x5C]"

text \<open>\<open>s.toLowerCase()\<close>\<close>

definition is_upper :: "char \<Rightarrow> bool" where
  "is_upper c \<longleftrightarrow> 65 \<le> (of_char c :: nat) \<and> (of_char c :: nat) \<le> 90"

definition to_lower :: "char \<Rightarrow> char" where
  "to_lower c = (if is_upper c then char_of ((of_char c :: nat) + 32) else c)"

definition lower :: "string \<Rightarrow> string" where
  "lower s = map to_lower s"

lemma to_lower_idem [simp]: "to_lower (to_lower c) = to_lower c"
  by (auto simp: to_lower_def is_upper_def)

lemma lower_idem [simp]: "lower (lower s) = lower s"
  by (simp add: lower_def)

fun index_of :: "'a \<Rightarrow> 'a list \<Rightarrow> nat option" where
  "index_of c [] = None"
| "index_of c (x # xs) = (if x = c then Some 0 else map_option Suc (index_of c xs))"

text \<open>\<open>s.split(c)\<close> for a one-character separator: never the empty list.\<close>

fun split_at :: "'a \<Rightarrow> 'a list \<Rightarrow> 'a list list" where
  "split_at c [] = [[]]"
| "split_at c (x # xs) =
     (if x = c then [] # split_at c xs
      else case split_at c xs of [] \<Rightarrow> [[x]] | w # ws \<Rightarrow> (x # w) # ws)"

lemma split_at_nonempty [simp]: "split_at c xs \<noteq> []"
  by (induction xs) (auto split: list.splits)

lemma index_of_None: "index_of c xs = None \<longleftrightarrow> c \<notin> set xs"
  by (induction xs) auto

lemma split_at_no_sep: "c \<notin> set xs \<Longrightarrow> split_at c xs = [xs]"
  by (induction xs) auto

text \<open>\<open>s.split(/\s+/)\<close>\<close>

lemma dropWhile_shorter: "xs \<noteq> [] \<Longrightarrow> P (hd xs) \<Longrightarrow> length (dropWhile P xs) < length xs"
  by (cases xs) (simp_all add: length_dropWhile_le le_imp_less_Suc)

function split_ws :: "string \<Rightarrow> string list" where
  "split_ws s =
     (let r = dropWhile (\<lambda>c. \<not> is_ws c) s
      in if r = [] then [s]
         else takeWhile (\<lambda>c. \<not> is_ws c) s # split_ws (dropWhile is_ws r))"
  by pat_completeness auto
termination
proof (relation "measure length")
  fix s :: string and r
  assume r: "r = dropWhile (\<lambda>c. \<not> is_ws c) s" and "r \<noteq> []"
  then have "is_ws (hd r)" using hd_dropWhile [of "\<lambda>c. \<not> is_ws c" s] by simp
  with \<open>r \<noteq> []\<close> have "length (dropWhile is_ws r) < length r" by (rule dropWhile_shorter)
  moreover have "length r \<le> length s" using r by (simp add: length_dropWhile_le)
  ultimately show "(dropWhile is_ws r, s) \<in> measure length" by simp
qed simp

declare split_ws.simps [simp del]

text \<open>\<open>xs.splice(i, 1)\<close>\<close>

definition list_remove_at :: "nat \<Rightarrow> 'a list \<Rightarrow> 'a list" where
  "list_remove_at i xs = take i xs @ drop (Suc i) xs"

lemma list_remove_at_append [simp]: "list_remove_at (length xs) (xs @ y # ys) = xs @ ys"
  by (simp add: list_remove_at_def)

lemma list_remove_at_subset: "set (list_remove_at i xs) \<subseteq> set xs"
  by (auto simp: list_remove_at_def dest: in_set_takeD in_set_dropD)

definition str_trim :: "string \<Rightarrow> string" where
  "str_trim s = rev (dropWhile is_ws (rev (dropWhile is_ws s)))"

lemma hd_dropWhile_rev:
  "s \<noteq> [] \<Longrightarrow> \<not> P (hd s) \<Longrightarrow> rev (dropWhile P (rev s)) \<noteq> [] \<and> hd (rev (dropWhile P (rev s))) = hd s"
proof (induction s rule: rev_induct)
  case Nil
  then show ?case by simp
next
  case (snoc x xs)
  then show ?case by (cases xs) auto
qed

lemma str_trim_left_nonempty:
  assumes "str_trim s \<noteq> []"
  shows "dropWhile is_ws s \<noteq> []"
proof
  assume "dropWhile is_ws s = []"
  then have "str_trim s = []" by (simp only: str_trim_def rev.simps dropWhile.simps)
  with assms show False ..
qed

lemma str_trim_hd:
  assumes "str_trim s \<noteq> []"
  shows "\<not> is_ws (hd (str_trim s))"
proof -
  have t: "dropWhile is_ws s \<noteq> []"
    by (rule str_trim_left_nonempty [OF assms])
  then have "\<not> is_ws (hd (dropWhile is_ws s))" by (rule hd_dropWhile)
  with hd_dropWhile_rev [where P = is_ws, OF t] show ?thesis
    unfolding str_trim_def by metis
qed

lemma str_trim_last:
  assumes "str_trim s \<noteq> []"
  shows "\<not> is_ws (last (str_trim s))"
proof -
  let ?u = "dropWhile is_ws (rev (dropWhile is_ws s))"
  have "?u \<noteq> []" using assms unfolding str_trim_def by (metis rev.simps(1))
  then have "\<not> is_ws (hd ?u)" by (rule hd_dropWhile)
  then show ?thesis unfolding str_trim_def by (simp only: last_rev not_False_eq_True)
qed

lemma dropWhile_id: "xs = [] \<or> \<not> P (hd xs) \<Longrightarrow> dropWhile P xs = xs"
  by (cases xs) simp_all

lemma str_trim_idem [simp]: "str_trim (str_trim s) = str_trim s"
proof -
  have l: "dropWhile is_ws (str_trim s) = str_trim s"
    by (rule dropWhile_id) (use str_trim_hd in blast)
  have r: "dropWhile is_ws (rev (str_trim s)) = rev (str_trim s)"
    by (rule dropWhile_id) (metis hd_rev rev_is_Nil_conv str_trim_last)
  show ?thesis
    unfolding str_trim_def [of "str_trim s"] l r by simp
qed

section \<open>Memo tables\<close>

text \<open>
  Several components keep a table of results they have already computed. What makes such a
  table invisible is that every entry is what the computation would return.
\<close>

definition memo_consistent ::
  "('s \<Rightarrow> 'k \<Rightarrow> 'v option) \<Rightarrow> ('s \<Rightarrow> 'k \<Rightarrow> 'v \<Rightarrow> bool) \<Rightarrow> 's \<Rightarrow> bool" where
  "memo_consistent get result s \<longleftrightarrow> (\<forall>k v. get s k = Some v \<longrightarrow> result s k v)"

locale memo_table =
  fixes get :: "'s \<Rightarrow> 'k \<Rightarrow> 'v option"
    and put :: "'k \<Rightarrow> 'v \<Rightarrow> 's \<Rightarrow> 's"
    and result :: "'s \<Rightarrow> 'k \<Rightarrow> 'v \<Rightarrow> bool"
  assumes get_put: "get (put k v s) k' = (if k' = k then Some v else get s k')"
    and result_put: "result (put k v s) = result s"
begin

lemma store: "memo_consistent get result s \<Longrightarrow> result s k v \<Longrightarrow>
    memo_consistent get result (put k v s)"
  by (auto simp: memo_consistent_def get_put result_put split: if_splits)

lemma hit: "memo_consistent get result s \<Longrightarrow> get s k = Some v \<Longrightarrow> result s k v"
  by (simp add: memo_consistent_def)

lemma empty: "(\<And>k. get s k = None) \<Longrightarrow> memo_consistent get result s"
  by (simp add: memo_consistent_def)

end

section \<open>Invariants of step relations\<close>

text \<open>
  What a component guarantees in every state it can reach follows from what each of its steps
  preserves.
\<close>

locale preserved_invariant =
  fixes step :: "'s \<Rightarrow> 's \<Rightarrow> bool"
    and inv :: "'s \<Rightarrow> bool"
  assumes preserved: "step s t \<Longrightarrow> inv s \<Longrightarrow> inv t"
begin

lemma reachable: "step\<^sup>*\<^sup>* s t \<Longrightarrow> inv s \<Longrightarrow> inv t"
  by (induction rule: rtranclp_induct) (auto intro: preserved)

end

end
