(* ===== verification/Mustache_Scanner.thy ===== *)
theory Mustache_Scanner
  imports JS_Prelude
begin

text \<open>
  \<open>mustache.js\<close>, lines 30 to 126: the regular expressions the template parser uses, the
  two escaping functions, and the \<open>Scanner\<close> that the parser moves over a template.
  The interface \<open>scanner_op\<close> collects what the parser relies on: an operation consumes a
  prefix of the tail and keeps the position in step with it.
\<close>

section \<open>Regular expressions\<close>

text \<open>
  The expressions of the script are sequences of single-character classes and of greedily
  repeated ones. Matching follows ECMAScript: the candidate lengths are listed in the order a
  backtracking matcher tries them, and the first is the match.
\<close>

datatype cls = CWs | CNotWs | CChr char | CIn string

fun cls_has :: "cls \<Rightarrow> char \<Rightarrow> bool" where
  "cls_has CWs c = is_ws c"
| "cls_has CNotWs c = (\<not> is_ws c)"
| "cls_has (CChr d) c = (c = d)"
| "cls_has (CIn ds) c = (c \<in> set ds)"

datatype atom = One cls | Many cls

type_synonym regex = "atom list"

fun rx_lens :: "regex \<Rightarrow> string \<Rightarrow> nat list" where
  "rx_lens [] s = [0]"
| "rx_lens (One c # r) [] = []"
| "rx_lens (One c # r) (x # xs) = (if cls_has c x then map Suc (rx_lens r xs) else [])"
| "rx_lens (Many c # r) [] = rx_lens r []"
| "rx_lens (Many c # r) (x # xs) =
     (if cls_has c x then map Suc (rx_lens (Many c # r) xs) else []) @ rx_lens r (x # xs)"

definition rx_match :: "regex \<Rightarrow> string \<Rightarrow> nat option" where
  "rx_match r s = (case rx_lens r s of [] \<Rightarrow> None | n # _ \<Rightarrow> Some n)"

text \<open>The leftmost match: its index and its length.\<close>

fun rx_search :: "regex \<Rightarrow> string \<Rightarrow> (nat \<times> nat) option" where
  "rx_search r [] = map_option (Pair 0) (rx_match r [])"
| "rx_search r (x # xs) =
     (case rx_match r (x # xs) of
        Some n \<Rightarrow> Some (0, n)
      | None \<Rightarrow> map_option (apfst Suc) (rx_search r xs))"

lemma rx_lens_bound: "n \<in> set (rx_lens r s) \<Longrightarrow> n \<le> length s"
  by (induction r s arbitrary: n rule: rx_lens.induct) (auto split: if_splits)

lemma rx_match_bound: "rx_match r s = Some n \<Longrightarrow> n \<le> length s"
  by (auto simp: rx_match_def split: list.splits intro: rx_lens_bound [of _ r s])

lemma rx_search_Some:
  "rx_search r s = Some (i, n) \<Longrightarrow> i \<le> length s \<and> rx_match r (drop i s) = Some n"
proof (induction s arbitrary: i)
  case Nil
  then show ?case by auto
next
  case (Cons x xs)
  then show ?case by (cases "rx_match r (x # xs)") auto
qed

lemma rx_search_first:
  "rx_search r s = Some (i, n) \<Longrightarrow> j < i \<Longrightarrow> rx_match r (drop j s) = None"
proof (induction s arbitrary: i j)
  case Nil
  then show ?case by auto
next
  case (Cons x xs)
  then show ?case
    by (cases "rx_match r (x # xs)"; cases j) auto
qed

lemma rx_search_None: "rx_search r s = None \<Longrightarrow> rx_match r (drop j s) = None"
proof (induction s arbitrary: j)
  case Nil
  then show ?case by auto
next
  case (Cons x xs)
  then show ?case
    by (cases "rx_match r (x # xs)"; cases j) auto
qed

lemma rx_search_bound: "rx_search r s = Some (i, n) \<Longrightarrow> i + n \<le> length s"
  using rx_search_Some [of r s i n] rx_match_bound [of r "drop i s" n] by fastforce

lemma rx_search_0: "rx_search r s = Some (0, n) \<longleftrightarrow> rx_match r s = Some n"
  by (cases s) (auto split: option.splits)

subsection \<open>The expressions of the script\<close>

definition whiteRe :: regex where "whiteRe = [Many CWs]"
definition spaceRe :: regex where "spaceRe = [One CWs, Many CWs]"
definition nonSpaceRe :: regex where "nonSpaceRe = [One CNotWs]"
definition eqRe :: regex where "eqRe = [Many CWs, One (CChr CHR ''='')]"
definition curlyRe :: regex where "curlyRe = [Many CWs, One (CChr CHR ''}'')]"
definition tagRe :: regex where "tagRe = [One (CIn ''#^/>{&=!'')]"

definition testRe :: "regex \<Rightarrow> string \<Rightarrow> bool" where
  "testRe re s \<longleftrightarrow> rx_search re s \<noteq> None"

definition isWhitespace :: "string \<Rightarrow> bool" where
  "isWhitespace s \<longleftrightarrow> \<not> testRe nonSpaceRe s"

lemma isWhitespace_iff: "isWhitespace s \<longleftrightarrow> (\<forall>c \<in> set s. is_ws c)"
proof (induction s)
  case Nil
  then show ?case by (simp add: isWhitespace_def testRe_def nonSpaceRe_def rx_match_def)
next
  case (Cons c cs)
  then show ?case
    by (auto simp: isWhitespace_def testRe_def nonSpaceRe_def rx_match_def split: option.splits)
qed

subsection \<open>\<open>new RegExp(source)\<close>\<close>

text \<open>
  The sources the script builds at run time: literal characters, \<open>\s*\<close>, and a backslash
  before a character that is neither a letter nor a digit. \<open>None\<close> is a source outside this
  fragment.
\<close>

function rx_source :: "string \<Rightarrow> regex option" where
  "rx_source s = (case s of
     [] \<Rightarrow> Some []
   | c # r \<Rightarrow>
       if c = CHR 0x5C then
         (case r of
            [] \<Rightarrow> None
          | d # r' \<Rightarrow>
              if d = CHR ''s'' then
                (case r' of
                   q # r'' \<Rightarrow>
                     if q = CHR ''*'' then map_option ((#) (Many CWs)) (rx_source r'') else None
                 | [] \<Rightarrow> None)
              else if is_word d then None
              else map_option ((#) (One (CChr d))) (rx_source r'))
       else if c \<in> set syntax_chars then None
       else map_option ((#) (One (CChr c))) (rx_source r))"
  by pat_completeness auto
termination
  by (relation "measure length") auto

declare rx_source.simps [simp del]

definition new_RegExp :: "string \<Rightarrow> regex throws" where
  "new_RegExp src = (case rx_source src of Some r \<Rightarrow> Inr r | None \<Rightarrow> Inl (SyntaxError src))"

definition re_special :: string where
  "re_special = ''-[]{}()*+?.,^$|#'' @ [CHR 0x5C]"

definition escapeRe :: "string \<Rightarrow> string" where
  "escapeRe s = concat (map (\<lambda>c. if c \<in> set re_special \<or> is_ws c then [CHR 0x5C, c] else [c]) s)"

definition lit :: "string \<Rightarrow> regex" where
  "lit s = map (\<lambda>c. One (CChr c)) s"

lemma escapeRe_simps [simp]:
  "escapeRe [] = []"
  "escapeRe (c # s) =
     (if c \<in> set re_special \<or> is_ws c then [CHR 0x5C, c] else [c]) @ escapeRe s"
  by (simp_all add: escapeRe_def)

lemma ws_not_word: "is_ws c \<Longrightarrow> \<not> is_word c"
  by (auto simp: is_ws_def is_word_def is_digit_def Let_def)

lemma special_not_word: "c \<in> set re_special \<Longrightarrow> \<not> is_word c"
  by (auto simp: re_special_def is_word_def is_digit_def Let_def)

lemma word_s: "is_word (CHR ''s'')"
  by (simp add: is_word_def Let_def)

lemma backslash_special: "CHR 0x5C \<in> set re_special"
  by (simp add: re_special_def)

lemma syntax_special: "c \<in> set syntax_chars \<Longrightarrow> c \<in> set re_special"
  by (auto simp: syntax_chars_def re_special_def)

lemma rx_source_escaped:
  "\<not> is_word d \<Longrightarrow>
   rx_source (CHR 0x5C # d # r) = map_option ((#) (One (CChr d))) (rx_source r)"
  using word_s by (subst rx_source.simps) auto

lemma rx_source_plain:
  "c \<notin> set re_special \<Longrightarrow> rx_source (c # r) = map_option ((#) (One (CChr c))) (rx_source r)"
  using syntax_special [of c] backslash_special by (subst rx_source.simps) auto

lemma rx_source_spaces:
  "rx_source (CHR 0x5C # CHR ''s'' # CHR ''*'' # r) = map_option ((#) (Many CWs)) (rx_source r)"
  by (subst rx_source.simps) simp

lemma rx_source_Nil [simp]: "rx_source [] = Some []"
  by (subst rx_source.simps) simp

lemma rx_source_escapeRe:
  "rx_source (escapeRe s @ r) = map_option ((@) (lit s)) (rx_source r)"
proof (induction s)
  case Nil
  then show ?case by (simp add: lit_def option.map_ident)
next
  case (Cons c s)
  have "rx_source (escapeRe (c # s) @ r)
      = map_option ((#) (One (CChr c))) (rx_source (escapeRe s @ r))"
    by (auto simp: rx_source_escaped rx_source_plain ws_not_word special_not_word)
  then show ?case
    by (simp add: Cons.IH lit_def option.map_comp comp_def)
qed

definition ws_star :: string where
  "ws_star = [CHR 0x5C, CHR ''s'', CHR ''*'']"

lemma new_RegExp_open [simp]: "new_RegExp (escapeRe s @ ws_star) = Inr (lit s @ [Many CWs])"
  by (simp add: new_RegExp_def rx_source_escapeRe ws_star_def rx_source_spaces)

lemma new_RegExp_close [simp]: "new_RegExp (ws_star @ escapeRe s) = Inr (Many CWs # lit s)"
  using rx_source_escapeRe [of s "[]"]
  by (simp add: new_RegExp_def ws_star_def rx_source_spaces)

subsection \<open>What a literal matches\<close>

lemma rx_lens_lit_append:
  "rx_lens (lit s @ r) t =
     (if take (length s) t = s then map ((+) (length s)) (rx_lens r (drop (length s) t)) else [])"
proof (induction s arbitrary: t)
  case Nil
  have "(+) (0::nat) = id" by auto
  then show ?case by (simp add: lit_def)
next
  case (Cons c s)
  then show ?case
    by (cases t) (auto simp: lit_def comp_def)
qed

lemma rx_lens_white: "\<exists>ns. rx_lens [Many CWs] u = length (takeWhile is_ws u) # ns"
  by (induction u) auto

lemma rx_match_open:
  "rx_match (lit s @ [Many CWs]) t =
     (if take (length s) t = s
      then Some (length s + length (takeWhile is_ws (drop (length s) t))) else None)"
proof -
  obtain ns where "rx_lens [Many CWs] (drop (length s) t)
      = length (takeWhile is_ws (drop (length s) t)) # ns"
    using rx_lens_white by blast
  then show ?thesis by (simp add: rx_match_def rx_lens_lit_append)
qed

text \<open>
  for every opening tag, whatever characters it is made of, the expression that
  \<open>escapeTags\<close> builds from \<open>escapeRe\<close> is a valid one and matches at a position exactly
  when the tag stands there literally; the match is the tag and all white space after it.
\<close>

theorem escapeRe_literal:
  "\<exists>re. new_RegExp (escapeRe s @ ws_star) = Inr re \<and>
     (\<forall>t n. rx_match re t = Some n \<longleftrightarrow>
        take (length s) t = s \<and> n = length s + length (takeWhile is_ws (drop (length s) t)))"
  by (auto simp: rx_match_open)

section \<open>\<open>escapeHtml\<close>\<close>

definition entityMap :: "(char \<times> string) list" where
  "entityMap =
     [(CHR ''&'', ''&amp;''), (CHR ''<'', ''&lt;''), (CHR ''>'', ''&gt;''),
      (CHR 0x22, ''&quot;''), (CHR 0x27, ''&#39;''), (CHR ''/'', ''&#x2F;'')]"

definition html_class :: string where
  "html_class = [CHR ''&'', CHR ''<'', CHR ''>'', CHR 0x22, CHR 0x27, CHR ''/'']"

definition escapeHtml :: "string \<Rightarrow> string" where
  "escapeHtml s = concat (map (\<lambda>c.
     if c \<in> set html_class
     then (case map_of entityMap c of Some e \<Rightarrow> e | None \<Rightarrow> ''undefined'')
     else [c]) s)"

text \<open>How a browser reads the entities back.\<close>

fun unescapeHtml :: "string \<Rightarrow> string" where
  "unescapeHtml [] = []"
| "unescapeHtml (c # s) =
     (case List.find (\<lambda>(k, e). take (length e) (c # s) = e) entityMap of
        Some (k, e) \<Rightarrow> k # unescapeHtml (drop (length e - 1) s)
      | None \<Rightarrow> c # unescapeHtml s)"

lemma escapeHtml_Nil [simp]: "escapeHtml [] = []"
  by (simp add: escapeHtml_def)

lemma escapeHtml_Cons:
  "escapeHtml (c # s) =
     (if c = CHR ''&'' then ''&amp;''
      else if c = CHR ''<'' then ''&lt;''
      else if c = CHR ''>'' then ''&gt;''
      else if c = CHR 0x22 then ''&quot;''
      else if c = CHR 0x27 then ''&#39;''
      else if c = CHR ''/'' then ''&#x2F;''
      else [c]) @ escapeHtml s"
  by (simp add: escapeHtml_def html_class_def entityMap_def)

text \<open>
  no character that opens or closes a tag or an attribute value survives escaping: the
  output has no \<open><\<close>, \<open>>\<close> or quote of either kind, and no \<open>/\<close>.
\<close>

theorem escapeHtml_no_markup:
  "set (escapeHtml s) \<inter> {CHR ''<'', CHR ''>'', CHR 0x22, CHR 0x27, CHR ''/''} = {}"
  by (induction s) (simp_all add: escapeHtml_Cons)

text \<open>
  C20: escaping loses nothing: a reader that decodes the six entities gets the original text
  back, so two different texts never escape to the same output.
\<close>

theorem unescapeHtml_escapeHtml: "unescapeHtml (escapeHtml s) = s"
proof (induction s)
  case Nil
  then show ?case by simp
next
  case (Cons c s)
  then show ?case by (simp add: escapeHtml_Cons entityMap_def)
qed

section \<open>\<open>Scanner\<close>\<close>

record scanner =
  sc_string :: string
  sc_tail :: string
  sc_pos :: nat

definition Scanner :: "string \<Rightarrow> scanner" where
  "Scanner s = \<lparr>sc_string = s, sc_tail = s, sc_pos = 0\<rparr>"

definition eos :: "scanner \<Rightarrow> bool" where
  "eos sc \<longleftrightarrow> sc_tail sc = []"

definition scan :: "regex \<Rightarrow> scanner \<Rightarrow> string \<times> scanner" where
  "scan re sc = (case rx_search re (sc_tail sc) of
     Some (i, n) \<Rightarrow>
       if i = 0 then (take n (sc_tail sc),
         sc\<lparr>sc_tail := drop n (sc_tail sc), sc_pos := sc_pos sc + n\<rparr>)
       else ([], sc)
   | None \<Rightarrow> ([], sc))"

definition scanUntil :: "regex \<Rightarrow> scanner \<Rightarrow> string \<times> scanner" where
  "scanUntil re sc = (case rx_search re (sc_tail sc) of
     None \<Rightarrow> (sc_tail sc, sc\<lparr>sc_pos := sc_pos sc + length (sc_tail sc), sc_tail := []\<rparr>)
   | Some (i, n) \<Rightarrow>
       if i = 0 then ([], sc)
       else (take i (sc_tail sc),
         sc\<lparr>sc_tail := drop i (sc_tail sc), sc_pos := sc_pos sc + i\<rparr>))"

definition sc_ok :: "scanner \<Rightarrow> bool" where
  "sc_ok sc \<longleftrightarrow> sc_pos sc \<le> length (sc_string sc) \<and> sc_tail sc = drop (sc_pos sc) (sc_string sc)"

lemma sc_ok_Scanner [wf_intros]: "sc_ok (Scanner s)"
  by (simp add: sc_ok_def Scanner_def)

subsection \<open>The interface the parser uses\<close>

text \<open>What a sequence of operations keeps.\<close>

definition advances :: "scanner \<Rightarrow> scanner \<Rightarrow> bool" where
  "advances sc sc' \<longleftrightarrow> sc_pos sc \<le> sc_pos sc' \<and> sc_string sc' = sc_string sc \<and>
     length (sc_tail sc') \<le> length (sc_tail sc) \<and> (sc_ok sc \<longrightarrow> sc_ok sc')"

lemma advances_trans [trans]: "advances a b \<Longrightarrow> advances b c \<Longrightarrow> advances a c"
  by (auto simp: advances_def)

locale scanner_op =
  fixes run :: "scanner \<Rightarrow> string \<times> scanner"
  assumes consumes: "run sc = (w, sc') \<Longrightarrow> sc_tail sc = w @ sc_tail sc'"
    and moves: "run sc = (w, sc') \<Longrightarrow> sc_pos sc' = sc_pos sc + length w"
    and source: "run sc = (w, sc') \<Longrightarrow> sc_string sc' = sc_string sc"
begin

lemma keeps_ok: "run sc = (w, sc') \<Longrightarrow> sc_ok sc \<Longrightarrow> sc_ok sc'"
proof -
  assume r: "run sc = (w, sc')" and ok: "sc_ok sc"
  from consumes [OF r] ok have d: "drop (sc_pos sc) (sc_string sc) = w @ sc_tail sc'"
    by (simp add: sc_ok_def)
  then have "drop (sc_pos sc + length w) (sc_string sc) = sc_tail sc'"
    by (metis add.commute append_eq_conv_conj drop_drop)
  moreover have "sc_pos sc + length w \<le> length (sc_string sc)"
    using arg_cong [OF d, of length] ok unfolding sc_ok_def length_drop length_append by linarith
  ultimately show "sc_ok sc'" by (simp add: sc_ok_def moves [OF r] source [OF r])
qed

lemma yields_substring:
  "run sc = (w, sc') \<Longrightarrow> sc_ok sc \<Longrightarrow>
   w = take (sc_pos sc' - sc_pos sc) (drop (sc_pos sc) (sc_string sc))"
  using consumes [of sc w sc'] moves [of sc w sc']
  by (metis add_diff_cancel_left' append_eq_conv_conj sc_ok_def)

lemma never_longer: "run sc = (w, sc') \<Longrightarrow> length (sc_tail sc') \<le> length (sc_tail sc)"
  using consumes [of sc w sc'] by simp

lemma shorter: "run sc = (w, sc') \<Longrightarrow> w \<noteq> [] \<Longrightarrow> length (sc_tail sc') < length (sc_tail sc)"
  using consumes [of sc w sc'] by simp

lemma run_advances: "run sc = (w, sc') \<Longrightarrow> advances sc sc'"
  using never_longer keeps_ok moves source by (auto simp: advances_def)

lemma pos_mono: "run sc = (w, sc') \<Longrightarrow> sc_pos sc \<le> sc_pos sc'"
  using moves [of sc w sc'] by simp

end

interpretation scan: scanner_op "scan re" for re
proof
  fix sc sc' :: scanner and w
  assume r: "scan re sc = (w, sc')"
  then show "sc_tail sc = w @ sc_tail sc'" and "sc_string sc' = sc_string sc"
    by (auto simp: scan_def split: option.splits if_splits)
  from r show "sc_pos sc' = sc_pos sc + length w"
    using rx_search_bound [of re "sc_tail sc"]
    by (fastforce simp: scan_def split: option.splits if_splits)
qed

interpretation until: scanner_op "scanUntil re" for re
proof
  fix sc sc' :: scanner and w
  assume r: "scanUntil re sc = (w, sc')"
  then show "sc_tail sc = w @ sc_tail sc'" and "sc_string sc' = sc_string sc"
    by (auto simp: scanUntil_def split: option.splits if_splits)
  from r show "sc_pos sc' = sc_pos sc + length w"
    using rx_search_bound [of re "sc_tail sc"]
    by (fastforce simp: scanUntil_def split: option.splits if_splits)
qed

end
