(* ===== verification/Mustache_Parser.thy ===== *)
theory Mustache_Parser
  imports Mustache_Scanner
begin

text \<open>
  \<open>mustache.js\<close>, lines 304 to 320 and 374 to 567: the template parser. A template is
  scanned into a flat list of tokens, adjacent text tokens are merged, and the list is nested
  into a tree of sections. Errors are the messages the code throws.
\<close>

section \<open>Tokens\<close>

text \<open>
  A token is the array \<open>[type, value, start, end]\<close>, with a fifth item once it is a nested
  section. The constructors of \<open>ttype\<close> are the strings of the source's first item.
\<close>

datatype ttype =
    TSection | TInverted | TClose | TPartial | TUnescaped
  | TTriple | TComment | TSetDelim | TName | TText

datatype token =
  Token (ttype: ttype) (tvalue: string) (tstart: nat) (tend: nat) (tsub: "token list option")

fun tag_type :: "string \<Rightarrow> ttype" where
  "tag_type s =
     (if s = ''#'' then TSection
      else if s = ''^'' then TInverted
      else if s = ''/'' then TClose
      else if s = ''>'' then TPartial
      else if s = ''{'' then TTriple
      else if s = ''&'' then TUnescaped
      else if s = ''='' then TSetDelim
      else if s = ''!'' then TComment
      else TName)"

declare tag_type.simps [simp del]

lemma tag_type_not_text [simp]: "tag_type m \<noteq> TText"
  by (simp add: tag_type.simps)

definition opens :: "token \<Rightarrow> bool" where
  "opens t \<longleftrightarrow> ttype t = TSection \<or> ttype t = TInverted"

definition closes :: "token \<Rightarrow> bool" where
  "closes t \<longleftrightarrow> ttype t = TClose"

definition is_text :: "token \<Rightarrow> bool" where
  "is_text t \<longleftrightarrow> ttype t = TText"

definition with_sub :: "token \<Rightarrow> token list \<Rightarrow> token" where
  "with_sub t ks = Token (ttype t) (tvalue t) (tstart t) (tend t) (Some ks)"

lemma opens_closes [simp]: "opens t \<Longrightarrow> \<not> closes t" "closes t \<Longrightarrow> \<not> opens t"
  by (auto simp: opens_def closes_def)

lemma text_not_opens: "is_text t \<Longrightarrow> \<not> opens t \<and> \<not> closes t"
  by (auto simp: opens_def closes_def is_text_def)

lemma with_sub_sel [simp]:
  "ttype (with_sub t ks) = ttype t" "tvalue (with_sub t ks) = tvalue t"
  "tstart (with_sub t ks) = tstart t" "tend (with_sub t ks) = tend t"
  "tsub (with_sub t ks) = Some ks"
  by (simp_all add: with_sub_def)

section \<open>\<open>squashTokens\<close>\<close>

text \<open>\<open>lastToken\<close> is the last token pushed; merging updates it in place.\<close>

definition merge_text :: "token \<Rightarrow> token \<Rightarrow> token" where
  "merge_text l t = Token (ttype l) (tvalue l @ tvalue t) (tstart l) (tend t) (tsub l)"

fun squash_loop :: "token list \<Rightarrow> token list \<Rightarrow> token list" where
  "squash_loop acc [] = acc"
| "squash_loop acc (t # ts) =
     (if acc \<noteq> [] \<and> is_text (last acc) \<and> is_text t
      then squash_loop (butlast acc @ [merge_text (last acc) t]) ts
      else squash_loop (acc @ [t]) ts)"

definition squashTokens :: "token list \<Rightarrow> token list" where
  "squashTokens ts = squash_loop [] ts"

definition text_of :: "token list \<Rightarrow> string" where
  "text_of ts = concat (map tvalue (filter is_text ts))"

fun no_adjacent_text :: "token list \<Rightarrow> bool" where
  "no_adjacent_text (a # b # ts) = (\<not> (is_text a \<and> is_text b) \<and> no_adjacent_text (b # ts))"
| "no_adjacent_text _ = True"

lemma merge_text_is_text [simp]: "is_text (merge_text l t) = is_text l"
  by (simp add: merge_text_def is_text_def)

lemma text_of_append [simp]: "text_of (xs @ ys) = text_of xs @ text_of ys"
  by (simp add: text_of_def)

lemma text_of_single: "text_of [t] = (if is_text t then tvalue t else [])"
  by (simp add: text_of_def)

lemma no_adjacent_snoc:
  "no_adjacent_text (xs @ [t]) \<longleftrightarrow>
     no_adjacent_text xs \<and> \<not> (xs \<noteq> [] \<and> is_text (last xs) \<and> is_text t)"
  by (induction xs rule: no_adjacent_text.induct) auto

lemma squash_loop_text:
  "text_of (squash_loop acc ts) = text_of acc @ text_of ts"
proof (induction acc ts rule: squash_loop.induct)
  case (1 acc)
  then show ?case by (simp add: text_of_def)
next
  case (2 acc t ts)
  have "text_of acc = text_of (butlast acc) @ tvalue (last acc)"
    if "acc \<noteq> []" "is_text (last acc)"
    using that append_butlast_last_id [of acc] text_of_append [of "butlast acc" "[last acc]"]
    by (simp add: text_of_single)
  then show ?case
    using 2 by (auto simp: text_of_def merge_text_def is_text_def)
qed

lemma squash_loop_tags:
  "filter (\<lambda>t. \<not> is_text t) (squash_loop acc ts)
     = filter (\<lambda>t. \<not> is_text t) acc @ filter (\<lambda>t. \<not> is_text t) ts"
proof (induction acc ts rule: squash_loop.induct)
  case (1 acc)
  then show ?case by simp
next
  case (2 acc t ts)
  have "filter (\<lambda>t. \<not> is_text t) acc = filter (\<lambda>t. \<not> is_text t) (butlast acc)"
    if "acc \<noteq> []" "is_text (last acc)"
    using that append_butlast_last_id [of acc]
      filter_append [of "\<lambda>t. \<not> is_text t" "butlast acc" "[last acc]"] by simp
  then show ?case using 2 by auto
qed

lemma squash_loop_no_adjacent:
  "no_adjacent_text acc \<Longrightarrow> no_adjacent_text (squash_loop acc ts)"
proof (induction acc ts rule: squash_loop.induct)
  case (1 acc)
  then show ?case by simp
next
  case (2 acc t ts)
  have "no_adjacent_text (butlast acc @ [merge_text (last acc) t])" if "acc \<noteq> []"
    using that 2(3) append_butlast_last_id [of acc] no_adjacent_snoc [of "butlast acc" "last acc"]
    by (simp add: no_adjacent_snoc)
  then show ?case using 2 by (auto simp: no_adjacent_snoc)
qed

text \<open>
  merging changes no content and reorders nothing: the concatenated text and the sequence
  of tag tokens are those of the input, and no two text tokens remain adjacent.
\<close>

theorem squashTokens_correct:
  "text_of (squashTokens ts) = text_of ts \<and>
   filter (\<lambda>t. \<not> is_text t) (squashTokens ts) = filter (\<lambda>t. \<not> is_text t) ts \<and>
   no_adjacent_text (squashTokens ts)"
  by (simp add: squashTokens_def squash_loop_text squash_loop_tags squash_loop_no_adjacent
      text_of_def [of "[]"])

section \<open>\<open>nestTokens\<close>\<close>

text \<open>
  The section stack holds each open section token together with the tokens its parent's
  collector held when it was opened; the token is put into that collector, with its collected
  children, when its closing tag is met.
\<close>

fun nest_loop ::
  "token list \<Rightarrow> (token \<times> token list) list \<Rightarrow> token list \<Rightarrow> token list throws" where
  "nest_loop collector sections [] =
     (case sections of
        [] \<Rightarrow> Inr collector
      | (sec, _) # _ \<Rightarrow> Inl (ErrorMsg (''Unclosed section: '' @ tvalue sec)))"
| "nest_loop collector sections (t # ts) =
     (if opens t then nest_loop [] ((t, collector) # sections) ts
      else if closes t then
        (case sections of
           [] \<Rightarrow> Inl (ErrorMsg (''Unopened section: '' @ tvalue t))
         | (sec, outer) # rest \<Rightarrow>
             if tvalue sec \<noteq> tvalue t
             then Inl (ErrorMsg (''Unclosed section: '' @ tvalue sec))
             else nest_loop (outer @ [with_sub sec collector]) rest ts)
      else nest_loop (collector @ [t]) sections ts)"

definition nestTokens :: "token list \<Rightarrow> token list throws" where
  "nestTokens ts = nest_loop [] [] ts"

text \<open>The specification: a flat list is the linear form of a tree of matched sections.\<close>

inductive nests :: "token list \<Rightarrow> token list \<Rightarrow> bool" where
  nests_Nil: "nests [] []"
| nests_leaf: "\<not> opens t \<Longrightarrow> \<not> closes t \<Longrightarrow> nests ts tree \<Longrightarrow> nests (t # ts) (t # tree)"
| nests_section: "opens t \<Longrightarrow> closes c \<Longrightarrow> tvalue c = tvalue t \<Longrightarrow> nests inner kids \<Longrightarrow>
    nests ts tree \<Longrightarrow> nests (t # inner @ c # ts) (with_sub t kids # tree)"

inductive_simps nests_Nil_iff [simp]: "nests [] tree"

lemma nests_run:
  "nests inner kids \<Longrightarrow>
   nest_loop col secs (inner @ rest) = nest_loop (col @ kids) secs rest"
proof (induction inner kids arbitrary: col secs rest rule: nests.induct)
  case nests_Nil
  then show ?case by simp
next
  case (nests_leaf t ts tree)
  then show ?case by simp
next
  case (nests_section t c inner kids ts tree)
  then show ?case by simp
qed

text \<open>What remains to be read when a stack of sections is open.\<close>

fun completes ::
  "(token \<times> token list) list \<Rightarrow> token list \<Rightarrow> token list \<Rightarrow> token list \<Rightarrow> bool" where
  "completes [] col ts tree \<longleftrightarrow> (\<exists>k. nests ts k \<and> tree = col @ k)"
| "completes ((sec, outer) # rest) col ts tree \<longleftrightarrow>
     (\<exists>inner kids c ts'. ts = inner @ c # ts' \<and> nests inner kids \<and> closes c \<and>
        tvalue c = tvalue sec \<and> completes rest (outer @ [with_sub sec (col @ kids)]) ts' tree)"

lemma completes_leaf:
  assumes "\<not> opens t" "\<not> closes t" "completes secs (col @ [t]) ts tree"
  shows "completes secs col (t # ts) tree"
proof (cases secs)
  case Nil
  with assms show ?thesis by (auto intro: nests_leaf)
next
  case (Cons a rest)
  obtain sec outer where a: "a = (sec, outer)" by force
  from assms(3) obtain inner kids c ts' where
    *: "ts = inner @ c # ts'" "nests inner kids" "closes c" "tvalue c = tvalue sec"
      "completes rest (outer @ [with_sub sec (col @ t # kids)]) ts' tree"
    by (auto simp: Cons a)
  have "nests (t # inner) (t # kids)" using assms(1,2) *(2) by (rule nests_leaf)
  moreover have "t # ts = (t # inner) @ c # ts'" using *(1) by simp
  ultimately show ?thesis unfolding Cons a completes.simps using *(3,4,5) by blast
qed

lemma completes_section:
  assumes t: "opens t" and c: "closes c" "tvalue c = tvalue t" and n: "nests inner kids"
    and rest: "completes secs (col @ [with_sub t kids]) ts tree"
  shows "completes secs col (t # inner @ c # ts) tree"
proof (cases secs)
  case Nil
  with rest obtain k where "nests ts k" "tree = col @ with_sub t kids # k" by auto
  with Nil t c n show ?thesis by (auto intro: nests_section)
next
  case (Cons a fs)
  obtain sec outer where a: "a = (sec, outer)" by force
  from rest obtain inner' kids' c' ts' where
    *: "ts = inner' @ c' # ts'" "nests inner' kids'" "closes c'" "tvalue c' = tvalue sec"
      "completes fs (outer @ [with_sub sec (col @ with_sub t kids # kids')]) ts' tree"
    by (auto simp: Cons a)
  have "nests (t # inner @ c # inner') (with_sub t kids # kids')"
    by (rule nests_section [OF t c n *(2)])
  moreover have "t # inner @ c # ts = (t # inner @ c # inner') @ c' # ts'" using *(1) by simp
  ultimately show ?thesis unfolding Cons a completes.simps using *(3,4,5) by blast
qed

lemma nest_loop_completes:
  "nest_loop col secs ts = Inr tree \<Longrightarrow> completes secs col ts tree"
proof (induction col secs ts rule: nest_loop.induct)
  case (1 col secs)
  then show ?case by (auto split: list.splits)
next
  case (2 col secs t ts)
  consider "opens t" | "closes t" "\<not> opens t" | "\<not> opens t" "\<not> closes t" by blast
  then show ?case
  proof cases
    case 1
    with 2 have "completes ((t, col) # secs) [] ts tree" by simp
    with 1 show ?thesis by (auto intro: completes_section)
  next
    case 2
    with "2.prems" obtain sec outer rest where secs: "secs = (sec, outer) # rest"
      by (auto split: list.splits)
    with 2 "2.prems" have eq: "tvalue sec = tvalue t"
      by (auto split: if_splits)
    with 2 "2.prems" "2.IH"(2) secs have "completes rest (outer @ [with_sub sec col]) ts tree"
      by simp
    with 2 eq have "t # ts = [] @ t # ts \<and> nests [] [] \<and> closes t \<and> tvalue t = tvalue sec \<and>
        completes rest (outer @ [with_sub sec (col @ [])]) ts tree"
      by simp
    then show ?thesis unfolding secs completes.simps by blast
  next
    case 3
    with 2 show ?thesis by (auto intro: completes_leaf)
  qed
qed

text \<open>
  C1: \<open>nestTokens\<close> accepts a token list exactly when every section is closed by a tag of
  its own name in the right order, and then it returns that tree; in every other case it throws.
\<close>

theorem nestTokens_iff: "nestTokens ts = Inr tree \<longleftrightarrow> nests ts tree"
proof
  assume "nestTokens ts = Inr tree"
  then show "nests ts tree"
    by (auto simp: nestTokens_def dest: nest_loop_completes)
next
  assume "nests ts tree"
  from nests_run [OF this, of "[]" "[]" "[]"] show "nestTokens ts = Inr tree"
    by (simp add: nestTokens_def)
qed

section \<open>\<open>parse\<close>\<close>

subsection \<open>Tags\<close>

definition default_tags :: "string list" where
  "default_tags = [''{{'', ''}}'']"

definition escapeTags :: "string list \<Rightarrow> (regex \<times> regex) throws" where
  "escapeTags tags =
     (case tags of
        [opening, closing] \<Rightarrow>
          bindE (new_RegExp (escapeRe opening @ ws_star)) (\<lambda>ro.
          bindE (new_RegExp (ws_star @ escapeRe closing)) (\<lambda>rc. Inr (ro, rc)))
      | _ \<Rightarrow> Inl (ErrorMsg (''Invalid tags: '' @ join '' '' tags)))"

lemma escapeTags_pair [simp]:
  "escapeTags [a, b] = Inr (lit a @ [Many CWs], Many CWs # lit b)"
  by (simp add: escapeTags_def)

lemma escapeTags_Inr: "escapeTags tags = Inr r \<Longrightarrow> length tags = 2"
  by (auto simp: escapeTags_def split: list.splits)

subsection \<open>The parser's state\<close>

record pstate =
  p_scanner :: scanner
  p_tokens :: "token list"
  p_spaces :: "nat list"
  p_hasTag :: bool
  p_nonSpace :: bool
  p_tags :: "string list"
  p_tagRes :: "regex \<times> regex"

definition stripSpace :: "pstate \<Rightarrow> pstate" where
  "stripSpace st =
     (let st1 = (if p_hasTag st \<and> \<not> p_nonSpace st
                 then st\<lparr>p_tokens := foldr list_remove_at (p_spaces st) (p_tokens st),
                         p_spaces := []\<rparr>
                 else st\<lparr>p_spaces := []\<rparr>)
      in st1\<lparr>p_hasTag := False, p_nonSpace := False\<rparr>)"

definition push_char :: "char \<Rightarrow> nat \<Rightarrow> pstate \<Rightarrow> pstate" where
  "push_char chr start st =
     (let st1 = (if isWhitespace [chr]
                 then st\<lparr>p_spaces := p_spaces st @ [length (p_tokens st)]\<rparr>
                 else st\<lparr>p_nonSpace := True\<rparr>);
          st2 = st1\<lparr>p_tokens := p_tokens st1 @ [Token TText [chr] start (start + 1) None]\<rparr>
      in if chr = CHR 0x0A then stripSpace st2 else st2)"

fun push_text :: "string \<Rightarrow> nat \<Rightarrow> pstate \<Rightarrow> pstate" where
  "push_text [] start st = st"
| "push_text (chr # cs) start st = push_text cs (start + 1) (push_char chr start st)"

text \<open>The value of a tag, up to its closing delimiter: three forms.\<close>

definition tag_value :: "pstate \<Rightarrow> ttype \<Rightarrow> scanner \<Rightarrow> (ttype \<times> string \<times> scanner) throws" where
  "tag_value st ty sc =
     (let closeTag = snd (p_tagRes st) in
      if ty = TSetDelim then
        (let (v, s1) = scanUntil eqRe sc;
             (_, s2) = scan eqRe s1;
             (_, s3) = scanUntil closeTag s2
         in Inr (ty, v, s3))
      else if ty = TTriple then
        bindE (new_RegExp (ws_star @ escapeRe (CHR ''}'' # p_tags st ! 1))) (\<lambda>closeRe.
          let (v, s1) = scanUntil closeRe sc;
              (_, s2) = scan curlyRe s1;
              (_, s3) = scanUntil closeTag s2
          in Inr (TUnescaped, v, s3))
      else
        (let (v, s1) = scanUntil closeTag sc in Inr (ty, v, s1)))"

datatype 'a ctrl = Break 'a | Continue 'a

text \<open>The part of an iteration after the opening tag: \<open>start\<close> is where the tag began.\<close>

definition parse_tag :: "pstate \<Rightarrow> nat \<Rightarrow> scanner \<Rightarrow> pstate throws" where
  "parse_tag st start sc2 =
     (let (m, sc3) = scan tagRe sc2;
          (_, sc4) = scan whiteRe sc3
      in bindE (tag_value st (tag_type m) sc4) (\<lambda>(ty, value, sc5).
           let (closed, sc6) = scan (snd (p_tagRes st)) sc5 in
           if closed = [] then Inl (ErrorMsg (''Unclosed tag at '' @ dec_nat (sc_pos sc5)))
           else
             let st1 = st\<lparr>p_scanner := sc6, p_hasTag := True,
                   p_tokens := p_tokens st @ [Token ty value start (sc_pos sc6) None]\<rparr>;
                 st2 = (if ty = TName \<or> ty = TTriple \<or> ty = TUnescaped
                        then st1\<lparr>p_nonSpace := True\<rparr> else st1)
             in if ty = TSetDelim
                then bindE (escapeTags (split_ws value)) (\<lambda>res.
                       Inr (st2\<lparr>p_tags := split_ws value, p_tagRes := res\<rparr>))
                else Inr st2))"

definition parse_step :: "pstate \<Rightarrow> pstate ctrl throws" where
  "parse_step st =
     (let start = sc_pos (p_scanner st);
          (value, sc1) = scanUntil (fst (p_tagRes st)) (p_scanner st);
          st1 = (push_text value start st)\<lparr>p_scanner := sc1\<rparr>;
          (opened, sc2) = scan (fst (p_tagRes st)) sc1
      in if opened = [] then Inr (Break st1)
         else bindE (parse_tag st1 (sc_pos sc1) sc2) (\<lambda>st2. Inr (Continue st2)))"

lemma tag_value_advances:
  assumes "tag_value st ty sc = Inr (ty', v, sc')"
  shows "advances sc sc'"
  using assms
  by (auto simp: tag_value_def Let_def bindE_def split: prod.splits if_splits sum.splits
      dest!: scan.run_advances until.run_advances intro: advances_trans)

lemma tag_value_type:
  "tag_value st ty sc = Inr (ty', v, sc') \<Longrightarrow> ty \<noteq> TText \<Longrightarrow> ty' \<noteq> TText"
  by (auto simp: tag_value_def Let_def bindE_def split: prod.splits if_splits sum.splits)

lemma parse_tag_run:
  assumes "parse_tag st start sc = Inr st'"
  obtains ty v sc6 ns tg tr where
    "advances sc sc6" "ty \<noteq> TText"
    "st' = st\<lparr>p_scanner := sc6,
       p_tokens := p_tokens st @ [Token ty v start (sc_pos sc6) None], p_hasTag := True,
       p_nonSpace := (p_nonSpace st \<or> ns), p_spaces := p_spaces st, p_tags := tg, p_tagRes := tr\<rparr>"
proof -
  obtain m sc3 where 1: "scan tagRe sc = (m, sc3)" by force
  obtain w sc4 where 2: "scan whiteRe sc3 = (w, sc4)" by force
  from assms 1 2 obtain ty v sc5 where 3: "tag_value st (tag_type m) sc4 = Inr (ty, v, sc5)"
    by (cases "tag_value st (tag_type m) sc4") (auto simp: parse_tag_def Let_def)
  obtain c sc6 where 4: "scan (snd (p_tagRes st)) sc5 = (c, sc6)" by force
  have adv: "advances sc sc6"
    using scan.run_advances [OF 1] scan.run_advances [OF 2] tag_value_advances [OF 3]
      scan.run_advances [OF 4] by (blast intro: advances_trans)
  have ty: "ty \<noteq> TText" using tag_value_type [OF 3] by simp
  define ns where "ns = (ty = TName \<or> ty = TTriple \<or> ty = TUnescaped)"
  define st2 where "st2 = (let st1 = st\<lparr>p_scanner := sc6, p_hasTag := True,
        p_tokens := p_tokens st @ [Token ty v start (sc_pos sc6) None]\<rparr> in
        if ns then st1\<lparr>p_nonSpace := True\<rparr> else st1)"
  from assms 1 2 3 4 have "st' = (if ty = TSetDelim
      then st2\<lparr>p_tags := split_ws v, p_tagRes := p_tagRes st'\<rparr> else st2)"
    by (auto simp: parse_tag_def Let_def ns_def st2_def bindE_eq_Inr split: if_splits)
  then obtain tg tr where "st' = st2\<lparr>p_tags := tg, p_tagRes := tr\<rparr>"
    by (metis pstate.surjective pstate.update_convs(6,7))
  then have "st' = st\<lparr>p_scanner := sc6,
       p_tokens := p_tokens st @ [Token ty v start (sc_pos sc6) None], p_hasTag := True,
       p_nonSpace := (p_nonSpace st \<or> ns), p_spaces := p_spaces st, p_tags := tg, p_tagRes := tr\<rparr>"
    by (cases st) (simp add: st2_def Let_def)
  with adv ty show ?thesis by (rule that)
qed

lemma parse_tag_never_longer:
  assumes "parse_tag st start sc = Inr st'"
  shows "length (sc_tail (p_scanner st')) \<le> length (sc_tail sc)"
  using assms by (rule parse_tag_run) (simp add: advances_def)

lemma parse_step_shorter:
  assumes "parse_step st = Inr (Continue st')"
  shows "length (sc_tail (p_scanner st')) < length (sc_tail (p_scanner st))"
proof -
  obtain v sc1 where 1: "scanUntil (fst (p_tagRes st)) (p_scanner st) = (v, sc1)" by force
  obtain w sc2 where 2: "scan (fst (p_tagRes st)) sc1 = (w, sc2)" by force
  from assms 1 2 have w: "w \<noteq> []" by (auto simp: parse_step_def Let_def)
  with assms 1 2 have "parse_tag ((push_text v (sc_pos (p_scanner st)) st)\<lparr>p_scanner := sc1\<rparr>)
      (sc_pos sc1) sc2 = Inr st'"
    by (auto simp: parse_step_def Let_def bindE_eq_Inr)
  from parse_tag_never_longer [OF this] show ?thesis
    using until.never_longer [OF 1] scan.shorter [OF 2 w] by simp
qed

function parse_loop :: "pstate \<Rightarrow> pstate throws" where
  "parse_loop st =
     (if eos (p_scanner st) then Inr st
      else case parse_step st of
        Inl e \<Rightarrow> Inl e
      | Inr (Break st') \<Rightarrow> Inr st'
      | Inr (Continue st') \<Rightarrow> parse_loop st')"
  by pat_completeness auto
termination
  by (relation "measure (\<lambda>st. length (sc_tail (p_scanner st)))") (auto dest: parse_step_shorter)

declare parse_loop.simps [simp del]

definition parse_init :: "string \<Rightarrow> string list \<Rightarrow> regex \<times> regex \<Rightarrow> pstate" where
  "parse_init template tags res =
     \<lparr>p_scanner = Scanner template, p_tokens = [], p_spaces = [], p_hasTag = False,
      p_nonSpace = False, p_tags = tags, p_tagRes = res\<rparr>"

definition parse_flat :: "string \<Rightarrow> string list option \<Rightarrow> token list throws" where
  "parse_flat template tags =
     (let ts = (case tags of Some t \<Rightarrow> t | None \<Rightarrow> default_tags)
      in bindE (escapeTags ts) (\<lambda>res.
         bindE (parse_loop (parse_init template ts res)) (\<lambda>st. Inr (p_tokens st))))"

definition parse :: "string \<Rightarrow> string list option \<Rightarrow> token list throws" where
  "parse template tags =
     bindE (parse_flat template tags) (\<lambda>ts. nestTokens (squashTokens ts))"

section \<open>Where the tokens of a parse come from\<close>

definition slice :: "'a list \<Rightarrow> nat \<Rightarrow> nat \<Rightarrow> 'a list" where
  "slice s i j = take (j - i) (drop i s)"

lemma slice_append:
  assumes "i \<le> j" "j \<le> k"
  shows "slice s i j @ slice s j k = slice s i k"
proof -
  have "drop j s = drop (j - i) (drop i s)" and "k - i = (j - i) + (k - j)"
    using assms by simp_all
  then show ?thesis by (simp only: slice_def take_add)
qed

lemma slice_single: "i < length s \<Longrightarrow> slice s i (Suc i) = [s ! i]"
  by (simp add: slice_def take_Suc_conv_app_nth Suc_diff_le)

definition tok_ok :: "string \<Rightarrow> token \<Rightarrow> bool" where
  "tok_ok T t \<longleftrightarrow> tstart t < tend t \<and> tend t \<le> length T \<and>
     (is_text t \<longrightarrow> tvalue t = slice T (tstart t) (tend t))"

definition spans :: "string \<Rightarrow> nat \<Rightarrow> token list \<Rightarrow> bool" where
  "spans T p ts \<longleftrightarrow> (\<forall>t \<in> set ts. tok_ok T t \<and> tend t \<le> p \<and> tsub t = None) \<and>
     sorted_wrt (\<lambda>a b. tend a \<le> tstart b) ts"

fun contig :: "token list \<Rightarrow> bool" where
  "contig (a # b # ts) = ((is_text a \<and> is_text b \<longrightarrow> tend a = tstart b) \<and> contig (b # ts))"
| "contig _ = True"

lemma contig_append:
  "contig (xs @ ys) \<longleftrightarrow> contig xs \<and> contig ys \<and>
     (xs \<noteq> [] \<and> ys \<noteq> [] \<and> is_text (last xs) \<and> is_text (hd ys) \<longrightarrow> tend (last xs) = tstart (hd ys))"
proof (induction xs rule: contig.induct [case_names pair nil single])
  case (pair a b ts)
  then show ?case by (simp add: conj_assoc)
next
  case nil
  then show ?case by simp
next
  case (single v)
  then show ?case by (cases ys) auto
qed

lemma contig_no_text: "\<forall>t \<in> set ts. \<not> is_text t \<Longrightarrow> contig ts"
  by (induction ts rule: contig.induct) auto

lemma spans_snoc:
  "spans T p ts \<Longrightarrow> tok_ok T t \<Longrightarrow> p \<le> tstart t \<Longrightarrow> tsub t = None \<Longrightarrow> spans T (tend t) (ts @ [t])"
  by (auto simp: spans_def sorted_wrt_append tok_ok_def intro: order_trans less_imp_le)

lemma spans_mono: "spans T p ts \<Longrightarrow> p \<le> q \<Longrightarrow> spans T q ts"
  by (auto simp: spans_def intro: order_trans)

lemma spans_append: "spans T p (xs @ ys) \<Longrightarrow> spans T p xs \<and> spans T p ys"
  by (auto simp: spans_def sorted_wrt_append)

lemma sorted_wrt_filter_right:
  "sorted_wrt R (xs @ ys) \<Longrightarrow> sorted_wrt R (xs @ filter P ys)"
  by (auto simp: sorted_wrt_append sorted_wrt_filter)

lemma spans_filter_right: "spans T p (xs @ ys) \<Longrightarrow> spans T p (xs @ filter P ys)"
  unfolding spans_def using sorted_wrt_filter_right by auto

subsection \<open>The lines of the template\<close>

text \<open>
  The tokens of the current line are \<open>cur\<close>, those before it \<open>pre\<close>; as long as the line
  holds nothing but white space and tags, \<open>spaces\<close> are the indices of its text tokens.
\<close>

definition text_idxs :: "nat \<Rightarrow> token list \<Rightarrow> nat list" where
  "text_idxs n cur = map ((+) n) (filter (\<lambda>i. is_text (cur ! i)) [0..<length cur])"

lemma text_idxs_snoc:
  "text_idxs n (cur @ [t]) = text_idxs n cur @ (if is_text t then [n + length cur] else [])"
proof -
  have "filter (\<lambda>i. is_text ((cur @ [t]) ! i)) [0..<length cur]
      = filter (\<lambda>i. is_text (cur ! i)) [0..<length cur]"
    by (rule filter_cong) (simp_all add: nth_append)
  then show ?thesis by (simp add: text_idxs_def)
qed

lemma strip_text_idxs:
  "foldr list_remove_at (text_idxs (length pre) cur) (pre @ cur @ suf)
     = pre @ filter (\<lambda>t. \<not> is_text t) cur @ suf"
proof (induction cur arbitrary: suf rule: rev_induct)
  case Nil
  then show ?case by (simp add: text_idxs_def)
next
  case (snoc t cur)
  show ?case
  proof (cases "is_text t")
    case True
    then show ?thesis
      using list_remove_at_append [of "pre @ cur" t suf] by (simp add: text_idxs_snoc snoc.IH)
  next
    case False
    then show ?thesis using snoc.IH [of "t # suf"] by (simp add: text_idxs_snoc)
  qed
qed

definition lines_ok :: "nat \<Rightarrow> pstate \<Rightarrow> bool" where
  "lines_ok p st \<longleftrightarrow> contig (p_tokens st) \<and>
     (p_tokens st \<noteq> [] \<and> is_text (last (p_tokens st)) \<longrightarrow> tend (last (p_tokens st)) = p) \<and>
     (\<exists>pre cur. p_tokens st = pre @ cur \<and>
        (p_hasTag st \<longrightarrow> (\<exists>t \<in> set cur. \<not> is_text t)) \<and>
        (\<not> p_nonSpace st \<longrightarrow> p_spaces st = text_idxs (length pre) cur))"

definition pinv :: "string \<Rightarrow> nat \<Rightarrow> pstate \<Rightarrow> bool" where
  "pinv T p st \<longleftrightarrow> spans T p (p_tokens st) \<and> lines_ok p st"

lemma lines_ok_new_line:
  "contig (p_tokens st) \<Longrightarrow>
   p_tokens st \<noteq> [] \<and> is_text (last (p_tokens st)) \<longrightarrow> tend (last (p_tokens st)) = p \<Longrightarrow>
   lines_ok p (st\<lparr>p_spaces := [], p_hasTag := False, p_nonSpace := False\<rparr>)"
  unfolding lines_ok_def
  by (rule conjI, simp, rule conjI, simp,
      rule exI [where x = "p_tokens st"], rule exI [where x = "[]"], simp add: text_idxs_def)

lemma stripSpace_pinv:
  assumes "pinv T p st"
  shows "pinv T p (stripSpace st)"
proof -
  from assms have sp: "spans T p (p_tokens st)" and ct: "contig (p_tokens st)"
    and glue: "p_tokens st \<noteq> [] \<and> is_text (last (p_tokens st)) \<longrightarrow> tend (last (p_tokens st)) = p"
    by (auto simp: pinv_def lines_ok_def)
  from assms obtain pre cur where
    pc: "p_tokens st = pre @ cur" "p_hasTag st \<longrightarrow> (\<exists>t \<in> set cur. \<not> is_text t)"
      "\<not> p_nonSpace st \<longrightarrow> p_spaces st = text_idxs (length pre) cur"
    unfolding pinv_def lines_ok_def by blast
  show ?thesis
  proof (cases "p_hasTag st \<and> \<not> p_nonSpace st")
    case False
    then have eq: "stripSpace st = st\<lparr>p_spaces := [], p_hasTag := False, p_nonSpace := False\<rparr>"
      by (auto simp: stripSpace_def)
    show ?thesis unfolding eq pinv_def using sp lines_ok_new_line [OF ct glue] by simp
  next
    case True
    let ?cur = "filter (\<lambda>t. \<not> is_text t) cur"
    have rm: "foldr list_remove_at (p_spaces st) (p_tokens st) = pre @ ?cur"
      using True pc strip_text_idxs [of pre cur "[]"] by simp
    have ne: "?cur \<noteq> []" using True pc(2) by (auto simp: filter_empty_conv)
    have last: "\<not> is_text (last (pre @ ?cur))"
      using ne last_in_set [OF ne] by auto
    have "contig (pre @ ?cur)"
    proof -
      have "contig pre" using ct pc(1) by (simp add: contig_append)
      moreover have "contig ?cur" by (rule contig_no_text) simp
      moreover have "\<not> is_text (hd ?cur)" using hd_in_set [OF ne] by auto
      ultimately show ?thesis by (simp add: contig_append)
    qed
    then have "lines_ok p ((st\<lparr>p_tokens := pre @ ?cur\<rparr>)
        \<lparr>p_spaces := [], p_hasTag := False, p_nonSpace := False\<rparr>)"
      by (intro lines_ok_new_line) (use last in auto)
    moreover have "spans T p (pre @ ?cur)"
      using sp pc(1) by (simp add: spans_filter_right)
    moreover have "stripSpace st = (st\<lparr>p_tokens := pre @ ?cur\<rparr>)
        \<lparr>p_spaces := [], p_hasTag := False, p_nonSpace := False\<rparr>"
      using True rm by (simp add: stripSpace_def)
    ultimately show ?thesis by (simp add: pinv_def)
  qed
qed

lemma lines_ok_push:
  assumes "lines_ok p st" and "is_text t \<longrightarrow> tstart t = p" and "is_text t \<longrightarrow> tend t = q"
    and "tokens' = p_tokens st @ [t]"
    and "hasTag' \<longrightarrow> p_hasTag st \<or> \<not> is_text t"
    and "\<not> nonSpace' \<longrightarrow> \<not> p_nonSpace st \<and>
      spaces' = p_spaces st @ (if is_text t then [length (p_tokens st)] else [])"
  shows "lines_ok q (st\<lparr>p_scanner := sc, p_tokens := tokens', p_hasTag := hasTag',
    p_nonSpace := nonSpace', p_spaces := spaces', p_tags := tg, p_tagRes := tr\<rparr>)"
proof -
  from assms(1) obtain pre cur where
    pc: "p_tokens st = pre @ cur" "p_hasTag st \<longrightarrow> (\<exists>t \<in> set cur. \<not> is_text t)"
      "\<not> p_nonSpace st \<longrightarrow> p_spaces st = text_idxs (length pre) cur"
    unfolding lines_ok_def by blast
  have "contig tokens'"
    using assms(1,2,4) by (auto simp: lines_ok_def contig_append)
  moreover have "\<not> nonSpace' \<longrightarrow> spaces' = text_idxs (length pre) (cur @ [t])"
    using assms(6) pc(1,3) by (auto simp: text_idxs_snoc)
  moreover have "hasTag' \<longrightarrow> (\<exists>t \<in> set (cur @ [t]). \<not> is_text t)"
    using assms(5) pc(2) by auto
  moreover have "tokens' = pre @ (cur @ [t])" using assms(4) pc(1) by simp
  ultimately show ?thesis
    unfolding lines_ok_def using assms(3,4)
    by (intro conjI exI [where x = pre] exI [where x = "cur @ [t]"]) simp_all
qed

lemma is_ws_single [simp]: "isWhitespace [c] = is_ws c"
  by (simp add: isWhitespace_iff)

lemma push_char_pinv:
  assumes "pinv T p st" and "p < length T" and "T ! p = c"
  shows "pinv T (Suc p) (push_char c p st)"
proof -
  let ?t = "Token TText [c] p (p + 1) None"
  let ?st = "st\<lparr>p_scanner := p_scanner st, p_tokens := p_tokens st @ [?t], p_hasTag := p_hasTag st,
    p_nonSpace := (p_nonSpace st \<or> \<not> is_ws c),
    p_spaces := (if is_ws c then p_spaces st @ [length (p_tokens st)] else p_spaces st),
    p_tags := p_tags st, p_tagRes := p_tagRes st\<rparr>"
  have "tok_ok T ?t"
    using assms(2,3) by (simp add: tok_ok_def slice_single)
  then have "spans T (Suc p) (p_tokens st @ [?t])"
    using assms(1) spans_snoc [of T p "p_tokens st" ?t] by (simp add: pinv_def)
  moreover have "lines_ok (Suc p) ?st"
    using assms(1) by (intro lines_ok_push) (auto simp: pinv_def is_text_def)
  ultimately have "pinv T (Suc p) ?st" by (simp add: pinv_def)
  moreover have "push_char c p st = (if c = CHR 0x0A then stripSpace ?st else ?st)"
    by (cases st; cases "is_ws c") (auto simp: push_char_def Let_def)
  ultimately show ?thesis
    by (cases "c = CHR 0x0A") (simp_all only: if_True if_False refl stripSpace_pinv)
qed

lemma push_text_pinv:
  "pinv T p st \<Longrightarrow> take (length cs) (drop p T) = cs \<Longrightarrow> pinv T (p + length cs) (push_text cs p st)"
proof (induction cs arbitrary: p st)
  case Nil
  then show ?case by simp
next
  case (Cons c cs)
  from Cons.prems(2) obtain r where r: "drop p T = c # r" "take (length cs) r = cs"
    by (cases "drop p T") auto
  then have p: "p < length T" and c: "T ! p = c" and d: "drop (Suc p) T = r"
    by (metis drop_eq_Nil list.distinct(1) not_le, metis nth_via_drop, metis drop_Suc list.sel(3) tl_drop)
  from Cons.IH [OF push_char_pinv [OF Cons.prems(1) p c]] r(2) d
  show ?case by simp
qed

text \<open>Between iterations the position is the scanner's.\<close>

definition loop_inv :: "string \<Rightarrow> pstate \<Rightarrow> bool" where
  "loop_inv T st \<longleftrightarrow> sc_ok (p_scanner st) \<and> sc_string (p_scanner st) = T \<and>
     pinv T (sc_pos (p_scanner st)) st"

lemma pinv_scanner [simp]: "pinv T p (st\<lparr>p_scanner := sc\<rparr>) = pinv T p st"
  by (simp add: pinv_def lines_ok_def)

lemma sc_ok_bound: "sc_ok sc \<Longrightarrow> sc_pos sc \<le> length (sc_string sc)"
  by (simp add: sc_ok_def)

lemma pinv_push_tag:
  assumes "pinv T start st" and "start < q" and "q \<le> length T" and "ty \<noteq> TText"
  shows "pinv T q (st\<lparr>p_scanner := sc, p_tokens := p_tokens st @ [Token ty v start q None],
    p_hasTag := True, p_nonSpace := (p_nonSpace st \<or> ns), p_spaces := p_spaces st,
    p_tags := tg, p_tagRes := tr\<rparr>)"
proof -
  let ?t = "Token ty v start q None"
  have "spans T q (p_tokens st @ [?t])"
    using assms spans_snoc [of T start "p_tokens st" ?t]
    by (simp add: pinv_def tok_ok_def is_text_def)
  moreover have "lines_ok q (st\<lparr>p_scanner := sc, p_tokens := p_tokens st @ [?t],
      p_hasTag := True, p_nonSpace := (p_nonSpace st \<or> ns), p_spaces := p_spaces st,
      p_tags := tg, p_tagRes := tr\<rparr>)"
    using assms(1,4) by (intro lines_ok_push) (auto simp: pinv_def is_text_def)
  ultimately show ?thesis by (simp add: pinv_def)
qed

lemma parse_tag_inv:
  assumes ret: "parse_tag st start sc = Inr st'"
    and inv: "pinv T start st" and sc: "sc_ok sc" "sc_string sc = T" "start < sc_pos sc"
  shows "loop_inv T st'"
  using ret
proof (rule parse_tag_run)
  fix ty v sc6 ns tg tr
  assume adv: "advances sc sc6" and ty: "ty \<noteq> TText"
    and st': "st' = st\<lparr>p_scanner := sc6,
       p_tokens := p_tokens st @ [Token ty v start (sc_pos sc6) None], p_hasTag := True,
       p_nonSpace := (p_nonSpace st \<or> ns), p_spaces := p_spaces st, p_tags := tg, p_tagRes := tr\<rparr>"
  have ok6: "sc_ok sc6" "sc_string sc6 = T" and pos: "start < sc_pos sc6"
    using adv sc by (auto simp: advances_def)
  have "pinv T (sc_pos sc6) st'"
    unfolding st' using inv pos sc_ok_bound [OF ok6(1)] ok6(2) ty by (intro pinv_push_tag) auto
  with st' ok6 show "loop_inv T st'" by (simp add: loop_inv_def)
qed

lemma parse_step_inv:
  assumes inv: "loop_inv T st"
  shows "parse_step st = Inr (Break st') \<Longrightarrow> loop_inv T st'"
    and "parse_step st = Inr (Continue st') \<Longrightarrow> loop_inv T st'"
proof -
  let ?sc = "p_scanner st"
  obtain v sc1 where 1: "scanUntil (fst (p_tagRes st)) ?sc = (v, sc1)" by force
  obtain w sc2 where 2: "scan (fst (p_tagRes st)) sc1 = (w, sc2)" by force
  let ?st1 = "(push_text v (sc_pos ?sc) st)\<lparr>p_scanner := sc1\<rparr>"
  from inv have ok: "sc_ok ?sc" and T: "sc_string ?sc = T" and p: "pinv T (sc_pos ?sc) st"
    by (simp_all add: loop_inv_def)
  have "take (length v) (drop (sc_pos ?sc) T) = v"
    using until.consumes [OF 1] ok T by (metis append_eq_conv_conj sc_ok_def)
  from push_text_pinv [OF p this] have p1: "pinv T (sc_pos sc1) ?st1"
    by (simp add: until.moves [OF 1])
  have ok1: "sc_ok sc1" "sc_string sc1 = T"
    using until.keeps_ok [OF 1 ok] until.source [OF 1] T by simp_all
  show "loop_inv T st'" if "parse_step st = Inr (Break st')"
  proof -
    from that 1 2 have "st' = ?st1"
      by (auto simp: parse_step_def Let_def bindE_eq_Inr split: if_splits)
    with p1 ok1 show ?thesis by (simp add: loop_inv_def)
  qed
  show "loop_inv T st'" if "parse_step st = Inr (Continue st')"
  proof -
    from that 1 2 have w: "w \<noteq> []" and t: "parse_tag ?st1 (sc_pos sc1) sc2 = Inr st'"
      by (auto simp: parse_step_def Let_def bindE_eq_Inr split: if_splits)
    show ?thesis
      by (rule parse_tag_inv [OF t p1])
        (use scan.keeps_ok [OF 2 ok1(1)] scan.source [OF 2] ok1(2) scan.moves [OF 2] w in auto)
  qed
qed

lemma parse_loop_inv: "loop_inv T st \<Longrightarrow> parse_loop st = Inr st' \<Longrightarrow> loop_inv T st'"
proof (induction st rule: parse_loop.induct)
  case (1 st)
  show ?case
  proof (cases "eos (p_scanner st)")
    case True
    with 1 show ?thesis by (simp add: parse_loop.simps [of st])
  next
    case False
    with "1.prems"(2) obtain r where r: "parse_step st = Inr r"
      by (auto simp: parse_loop.simps [of st] split: sum.splits)
    show ?thesis
    proof (cases r)
      case (Break x)
      with r False "1.prems" show ?thesis
        by (auto simp: parse_loop.simps [of st] dest: parse_step_inv(1))
    next
      case (Continue x)
      with r False "1.prems" 1(1) show ?thesis
        by (auto simp: parse_loop.simps [of st] dest: parse_step_inv(2))
    qed
  qed
qed

lemma parse_init_inv: "loop_inv T (parse_init T tags res)"
  by (simp add: loop_inv_def parse_init_def sc_ok_Scanner pinv_def spans_def lines_ok_def
      text_idxs_def) (simp add: Scanner_def)

lemma parse_flat_spans:
  assumes "parse_flat T tags = Inr ts"
  shows "spans T (length T) ts \<and> contig ts"
proof -
  from assms obtain tg res st where
    "parse_loop (parse_init T tg res) = Inr st" and ts: "ts = p_tokens st"
    by (auto simp: parse_flat_def Let_def bindE_eq_Inr)
  then have inv: "loop_inv T st" by (blast intro: parse_loop_inv parse_init_inv)
  then have "sc_pos (p_scanner st) \<le> length T"
    using sc_ok_bound by (auto simp: loop_inv_def)
  with inv show ?thesis
    by (auto simp: ts loop_inv_def pinv_def lines_ok_def intro: spans_mono)
qed

subsection \<open>From the flat list to the tree\<close>

lemma merge_text_ok:
  assumes "tok_ok T l" "tok_ok T t" "is_text l" "is_text t" "tend l = tstart t"
  shows "tok_ok T (merge_text l t)"
  using assms slice_append [of "tstart l" "tend l" "tend t" T]
  by (auto simp: tok_ok_def merge_text_def is_text_def)

lemma squash_loop_spans:
  "spans T p (acc @ ts) \<Longrightarrow> contig (acc @ ts) \<Longrightarrow> spans T p (squash_loop acc ts)"
proof (induction acc ts rule: squash_loop.induct)
  case (1 acc)
  then show ?case by simp
next
  case (2 acc t ts)
  show ?case
  proof (cases "acc \<noteq> [] \<and> is_text (last acc) \<and> is_text t")
    case False
    with 2 show ?thesis by auto
  next
    case True
    let ?l = "last acc" and ?b = "butlast acc"
    have acc: "acc = ?b @ [?l]" using True by simp
    have sp: "spans T p (?b @ ?l # t # ts)" and ct: "contig (?b @ ?l # t # ts)"
      using 2(3,4) acc by (metis append.assoc append_Cons append_Nil)+
    then have "tend ?l = tstart t" using True by (simp add: contig_append)
    then have m: "tok_ok T (merge_text ?l t)"
      using sp True by (intro merge_text_ok) (auto simp: spans_def)
    have "spans T p (?b @ merge_text ?l t # ts)"
      using sp m by (auto simp: spans_def sorted_wrt_append merge_text_def tok_ok_def)
    moreover have "contig (?b @ merge_text ?l t # ts)"
      using ct True by (cases ts) (auto simp: contig_append merge_text_def is_text_def)
    ultimately show ?thesis using 2(1) True by simp
  qed
qed

fun tree_tokens :: "token \<Rightarrow> token list" where
  "tree_tokens (Token ty v s e sub) =
     Token ty v s e sub # (case sub of None \<Rightarrow> [] | Some ks \<Rightarrow> concat (map tree_tokens ks))"

lemma tree_tokens_with_sub:
  "tree_tokens (with_sub t ks) = with_sub t ks # concat (map tree_tokens ks)"
  by (simp add: with_sub_def)

lemma tree_tokens_leaf: "tsub t = None \<Longrightarrow> tree_tokens t = [t]"
  by (cases t) simp

lemma tok_ok_with_sub [simp]: "tok_ok T (with_sub t ks) = tok_ok T t"
  by (simp add: tok_ok_def is_text_def)

lemma nests_tree_tokens:
  "nests ts tree \<Longrightarrow> \<forall>t \<in> set ts. tok_ok T t \<and> tsub t = None \<Longrightarrow>
   x \<in> set (concat (map tree_tokens tree)) \<Longrightarrow> tok_ok T x"
proof (induction ts tree arbitrary: x rule: nests.induct)
  case nests_Nil
  then show ?case by simp
next
  case (nests_leaf t ts tree)
  then show ?case by (auto simp: tree_tokens_leaf)
next
  case (nests_section t c inner kids ts tree)
  then show ?case by (auto simp: tree_tokens_with_sub)
qed

lemma parse_flat_squashed: "parse_flat T tags = Inr ts \<Longrightarrow> spans T (length T) (squashTokens ts)"
  by (auto simp: squashTokens_def dest!: parse_flat_spans intro: squash_loop_spans)

lemma parse_nests:
  assumes "parse T tags = Inr tree"
  obtains ts where "spans T (length T) ts" "nests ts tree"
proof -
  from assms obtain us where "parse_flat T tags = Inr us" "nestTokens (squashTokens us) = Inr tree"
    by (auto simp: parse_def bindE_eq_Inr)
  then have "spans T (length T) (squashTokens us)" "nests (squashTokens us) tree"
    using nest_loop_completes [of "[]" "[]" "squashTokens us" tree]
    by (auto simp: nestTokens_def intro: parse_flat_squashed)
  then show ?thesis by (rule that)
qed

text \<open>
  every token of the tree that \<open>parse\<close> returns, at any depth, covers a non-empty range of
  the template, and every text token carries exactly the characters of its range, although
  white space around standalone tags has been cut out of the token list by then.
\<close>

theorem parse_positions:
  assumes "parse T tags = Inr tree" and "t \<in> set (concat (map tree_tokens tree))"
  shows "tstart t < tend t \<and> tend t \<le> length T \<and>
    (is_text t \<longrightarrow> tvalue t = slice T (tstart t) (tend t))"
proof -
  from assms(1) obtain ts where "spans T (length T) ts" "nests ts tree" by (rule parse_nests)
  with assms(2) have "tok_ok T t"
    by (intro nests_tree_tokens) (auto simp: spans_def)
  then show ?thesis by (simp add: tok_ok_def)
qed

lemma parse_example:
  "parse ''a {{#b}}c{{/b}}'' None =
     Inr [Token TText ''a '' 0 2 None,
          Token TSection ''b'' 2 8 (Some [Token TText ''c'' 8 9 None])]"
  by code_simp

theorem parse_positions_witness:
  "(8::nat) < 9 \<and> 9 \<le> length ''a {{#b}}c{{/b}}'' \<and> ''c'' = slice ''a {{#b}}c{{/b}}'' 8 9"
  using parse_positions [OF parse_example, of "Token TText ''c'' 8 9 None"]
  by (simp add: is_text_def)

section \<open>\<open>sectionBounds\<close>\<close>

lemma size_last_less [termination_simp]: "ks \<noteq> [] \<Longrightarrow> size (last ks) < Suc (size_list size ks)"
  using size_list_estimation' [of "last ks" ks "size (last ks)" size] by (simp add: less_Suc_eq_le)

fun sectionEnd :: "token \<Rightarrow> nat" where
  "sectionEnd (Token ty v s e sub) =
     (case sub of
        Some ks \<Rightarrow> (if ks = [] then e else sectionEnd (last ks))
      | None \<Rightarrow> e)"

definition sectionBounds :: "token \<Rightarrow> nat \<times> nat" where
  "sectionBounds t = (tend t, sectionEnd t)"

definition sectionText :: "string \<Rightarrow> token \<Rightarrow> string" where
  "sectionText template t = (case sectionBounds t of (i, j) \<Rightarrow> slice template i j)"

lemma sectionEnd_leaf: "tsub t = None \<Longrightarrow> sectionEnd t = tend t"
  by (cases t) simp

lemma sectionEnd_with_sub:
  "sectionEnd (with_sub t ks) = (if ks = [] then tend t else sectionEnd (last ks))"
  by (simp add: with_sub_def)

lemma nests_sectionEnd:
  "nests ts tree \<Longrightarrow> \<forall>t \<in> set ts. tsub t = None \<Longrightarrow> k \<in> set tree \<Longrightarrow>
   sectionEnd k \<in> tend ` set ts"
proof (induction ts tree arbitrary: k rule: nests.induct)
  case nests_Nil
  then show ?case by simp
next
  case (nests_leaf t ts tree)
  then show ?case by (auto simp: sectionEnd_leaf)
next
  case (nests_section t c inner kids ts tree)
  have "sectionEnd (with_sub t kids) \<in> insert (tend t) (tend ` set inner)"
    using nests_section.IH(1) [of "last kids"] nests_section.prems(1)
    by (auto simp: sectionEnd_with_sub)
  with nests_section show ?case by auto
qed

definition bounds_ok :: "string \<Rightarrow> token \<Rightarrow> bool" where
  "bounds_ok T t \<longleftrightarrow> tend t \<le> sectionEnd t \<and> sectionEnd t \<le> length T"

lemma nests_bounds:
  "nests ts tree \<Longrightarrow> spans T (length T) ts \<Longrightarrow>
   x \<in> set (concat (map tree_tokens tree)) \<Longrightarrow> bounds_ok T x"
proof (induction ts tree arbitrary: x rule: nests.induct)
  case nests_Nil
  then show ?case by simp
next
  case (nests_leaf t ts tree)
  have "spans T (length T) ts" using nests_leaf.prems(1) spans_append [of T _ "[t]"] by simp
  moreover have "bounds_ok T t" "tree_tokens t = [t]"
    using nests_leaf.prems(1)
    by (auto simp: spans_def bounds_ok_def sectionEnd_leaf tree_tokens_leaf tok_ok_def)
  ultimately show ?case using nests_leaf by auto
next
  case (nests_section t c inner kids ts tree)
  have sp: "spans T (length T) inner" "spans T (length T) ts"
    using nests_section.prems(1) by (auto simp: spans_def sorted_wrt_append)
  have "sectionEnd (last kids) \<in> tend ` set inner" if "kids \<noteq> []"
    using nests_sectionEnd [OF nests_section.hyps(4)] sp(1) that by (auto simp: spans_def)
  then obtain u where u: "kids \<noteq> [] \<longrightarrow> u \<in> set inner \<and> sectionEnd (last kids) = tend u" by auto
  have "tend t \<le> tend u \<and> tend u \<le> length T" if "u \<in> set inner"
  proof -
    from that nests_section.prems(1) have "tend t \<le> tstart u" "tok_ok T u"
      by (auto simp: spans_def)
    then show ?thesis by (simp add: tok_ok_def)
  qed
  moreover have "tend t \<le> length T"
    using nests_section.prems(1) by (simp add: spans_def)
  ultimately have "bounds_ok T (with_sub t kids)"
    using u by (simp add: bounds_ok_def sectionEnd_with_sub)
  with nests_section sp show ?case by (auto simp: tree_tokens_with_sub)
qed

text \<open>
  the section text handed to a lambda lies inside the template: for every section of a
  parse, at any depth, \<open>sectionBounds\<close> starts right after the opening tag and does not run
  backwards or past the end of the template.
\<close>

theorem sectionBounds_in_template:
  assumes "parse T tags = Inr tree" and "t \<in> set (concat (map tree_tokens tree))"
  shows "fst (sectionBounds t) = tend t \<and> fst (sectionBounds t) \<le> snd (sectionBounds t) \<and>
    snd (sectionBounds t) \<le> length T"
proof -
  from assms(1) obtain ts where "spans T (length T) ts" "nests ts tree" by (rule parse_nests)
  with assms(2) have "bounds_ok T t" by (blast intro: nests_bounds)
  then show ?thesis by (simp add: sectionBounds_def bounds_ok_def)
qed

theorem sectionBounds_in_template_witness:
  "sectionBounds (Token TSection ''b'' 2 8 (Some [Token TText ''c'' 8 9 None])) = (8, 9) \<and>
   (9::nat) \<le> length ''a {{#b}}c{{/b}}''"
  using sectionBounds_in_template
    [OF parse_example, of "Token TSection ''b'' 2 8 (Some [Token TText ''c'' 8 9 None])"]
  by (simp add: sectionBounds_def)

lemma parse_nested_example:
  "parse ''{{#a}}{{#b}}x{{/b}}{{/a}}'' None =
     Inr [Token TSection ''a'' 0 6
            (Some [Token TSection ''b'' 6 12 (Some [Token TText ''x'' 12 13 None])])]"
  by code_simp

text \<open>
  when the last thing in a section is another section, \<open>sectionBounds\<close> stops before that
  inner section's closing tag, so the text a lambda receives is not a template at all: for
  \<open>{{#a}}{{#b}}x{{/b}}{{/a}}\<close> it is \<open>{{#b}}x\<close>, which does not parse.
\<close>

theorem section_text_loses_closing_tag:
  "\<exists>t. parse ''{{#a}}{{#b}}x{{/b}}{{/a}}'' None = Inr [t] \<and>
     sectionText ''{{#a}}{{#b}}x{{/b}}{{/a}}'' t = ''{{#b}}x'' \<and>
     parse ''{{#b}}x'' None = Inl (ErrorMsg ''Unclosed section: b'')"
proof -
  have "sectionText ''{{#a}}{{#b}}x{{/b}}{{/a}}'' (Token TSection ''a'' 0 6
      (Some [Token TSection ''b'' 6 12 (Some [Token TText ''x'' 12 13 None])])) = ''{{#b}}x''"
    by code_simp
  moreover have "parse ''{{#b}}x'' None = Inl (ErrorMsg ''Unclosed section: b'')"
    by code_simp
  ultimately show ?thesis using parse_nested_example by blast
qed

section \<open>Templates without tags\<close>

fun char_tokens :: "nat \<Rightarrow> string \<Rightarrow> token list" where
  "char_tokens start [] = []"
| "char_tokens start (c # cs) = Token TText [c] start (start + 1) None # char_tokens (start + 1) cs"

lemma push_char_no_tag:
  "\<not> p_hasTag st \<Longrightarrow>
   p_tokens (push_char c start st) = p_tokens st @ [Token TText [c] start (start + 1) None] \<and>
   \<not> p_hasTag (push_char c start st)"
  by (simp add: push_char_def Let_def stripSpace_def)

lemma push_text_no_tag:
  "\<not> p_hasTag st \<Longrightarrow> p_tokens (push_text cs start st) = p_tokens st @ char_tokens start cs"
proof (induction cs arbitrary: start st)
  case Nil
  then show ?case by simp
next
  case (Cons c cs)
  then show ?case using push_char_no_tag [of st c start] by simp
qed

lemma squash_char_tokens:
  "squash_loop [Token TText v a b None] (char_tokens b cs)
     = [Token TText (v @ cs) a (b + length cs) None]"
  by (induction cs arbitrary: v b) (simp_all add: is_text_def merge_text_def)

lemma search_open_None:
  assumes "\<forall>i. take (length tag) (drop i T) \<noteq> tag"
  shows "rx_search (lit tag @ [Many CWs]) T = None"
proof (cases "rx_search (lit tag @ [Many CWs]) T")
  case (Some r)
  then obtain i n where "rx_match (lit tag @ [Many CWs]) (drop i T) = Some n"
    using rx_search_Some by (cases r) blast
  with assms show ?thesis by (simp add: rx_match_open)
qed

lemma parse_untagged:
  assumes "\<forall>i. take 2 (drop i T) \<noteq> ''{{''" and "T \<noteq> []"
  shows "parse T None = Inr [Token TText T 0 (length T) None]"
proof -
  let ?res = "(lit ''{{'' @ [Many CWs], Many CWs # lit ''}}'')"
  let ?st = "parse_init T default_tags ?res"
  have none: "rx_search (lit ''{{'' @ [Many CWs]) T = None"
    by (rule search_open_None) (use assms(1) in \<open>simp add: numeral_2_eq_2\<close>)
  have until: "scanUntil (fst ?res) (p_scanner ?st)
      = (T, \<lparr>sc_string = T, sc_tail = [], sc_pos = length T\<rparr>)"
    using none by (simp add: parse_init_def Scanner_def scanUntil_def)
  have "rx_match (lit ''{{'' @ [Many CWs]) [] = None" by (simp add: rx_match_open)
  then have shut: "scan (fst ?res) \<lparr>sc_string = T, sc_tail = [], sc_pos = length T\<rparr>
      = ([], \<lparr>sc_string = T, sc_tail = [], sc_pos = length T\<rparr>)"
    by (simp add: scan_def)
  have res: "p_tagRes ?st = ?res" "sc_pos (p_scanner ?st) = 0" "\<not> p_hasTag ?st"
    by (simp_all add: parse_init_def Scanner_def)
  have step: "parse_step ?st = Inr (Break ((push_text T 0 ?st)
      \<lparr>p_scanner := \<lparr>sc_string = T, sc_tail = [], sc_pos = length T\<rparr>\<rparr>))"
    using until shut unfolding parse_step_def Let_def res by simp
  have "\<not> eos (p_scanner ?st)"
    using assms(2) by (simp add: parse_init_def Scanner_def eos_def)
  with step have loop: "\<exists>st. parse_loop ?st = Inr st \<and> p_tokens st = char_tokens 0 T"
    using push_text_no_tag [of ?st T 0] res(3)
    by (simp add: parse_loop.simps [of ?st]) (simp add: parse_init_def)
  have "squashTokens (char_tokens 0 T) = [Token TText T 0 (length T) None]"
    using assms(2) squash_char_tokens [of "[hd T]" 0 1 "tl T"]
    by (cases T) (simp_all add: squashTokens_def)
  then show ?thesis
    using loop
    by (auto simp: parse_def parse_flat_def default_tags_def nestTokens_def opens_def closes_def)
qed

end
