(* ===== verification/Mustache_Context.thy ===== *)
theory Mustache_Context
  imports JS_Prelude
begin

text \<open>
  \<open>mustache.js\<close>, lines 128 to 184: the stack of views a template is rendered against. Each
  context has a cache of the names it has resolved; the specification \<open>resolve\<close> has none,
  and the refinement says when the two agree.
\<close>

datatype 'f ctx =
  Context (cview: "'f jsv") (cparent: "'f ctx option") (ccache: "string \<rightharpoonup> 'f jsv")

definition new_Context :: "'f jsv \<Rightarrow> 'f ctx option \<Rightarrow> 'f ctx" where
  "new_Context v p = Context v p Map.empty"

text \<open>What \<open>Context.make\<close> is given: a value or a context.\<close>

datatype 'f view = Plain "'f jsv" | InContext "'f ctx"

fun context_make :: "'f view \<Rightarrow> 'f ctx" where
  "context_make (InContext c) = c"
| "context_make (Plain v) = new_Context v None"

definition push :: "'f ctx \<Rightarrow> 'f jsv \<Rightarrow> 'f ctx" where
  "push c v = new_Context v (Some c)"

definition put_cache :: "string \<Rightarrow> 'f jsv \<Rightarrow> 'f ctx \<Rightarrow> 'f ctx" where
  "put_cache k v c = Context (cview c) (cparent c) ((ccache c)(k \<mapsto> v))"

lemma put_cache_sel [simp]:
  "cview (put_cache k v c) = cview c" "cparent (put_cache k v c) = cparent c"
  "ccache (put_cache k v c) = (ccache c)(k \<mapsto> v)"
  by (simp_all add: put_cache_def)

section \<open>\<open>lookup\<close>\<close>

text \<open>The inner loop: \<open>while (value && i < names.length)\<close>.\<close>

fun dotted :: "'f env \<Rightarrow> 'f jsv \<Rightarrow> string list \<Rightarrow> 'f jsv throws" where
  "dotted E v [] = Inr v"
| "dotted E v (n # ns) = (if truthy v then bindE (get_prop E v n) (\<lambda>w. dotted E w ns) else Inr v)"

definition is_dotted :: "string \<Rightarrow> bool" where
  "is_dotted name = (case index_of CHR ''.'' name of Some i \<Rightarrow> 0 < i | None \<Rightarrow> False)"

definition context_value :: "'f env \<Rightarrow> 'f jsv \<Rightarrow> string \<Rightarrow> 'f jsv throws" where
  "context_value E v name =
     (if is_dotted name then dotted E v (split_at CHR ''.'' name) else get_prop E v name)"

fun lookup_chain :: "'f env \<Rightarrow> string \<Rightarrow> 'f ctx \<Rightarrow> 'f jsv throws" where
  "lookup_chain E name (Context v p c) =
     bindE (context_value E v name) (\<lambda>value.
       if \<not> is_nullish value then Inr value
       else case p of None \<Rightarrow> Inr value | Some q \<Rightarrow> lookup_chain E name q)"

definition call_value :: "'f env \<Rightarrow> 'f jsv \<Rightarrow> 'f jsv \<Rightarrow> 'f jsv" where
  "call_value E this value = (case value of Fn f \<Rightarrow> call0 E f this | _ \<Rightarrow> value)"

definition cached :: "'f env \<Rightarrow> 'f ctx \<Rightarrow> string \<Rightarrow> 'f jsv" where
  "cached E c name = (case ccache c name of Some v \<Rightarrow> v | None \<Rightarrow> inherit E PObject name)"

definition resolve :: "'f env \<Rightarrow> 'f ctx \<Rightarrow> string \<Rightarrow> 'f jsv throws" where
  "resolve E c name = (if name = ''.'' then Inr (cview c) else lookup_chain E name c)"

definition lookup :: "'f env \<Rightarrow> 'f ctx \<Rightarrow> string \<Rightarrow> ('f ctx \<times> 'f jsv) throws" where
  "lookup E c name =
     (if truthy (cached E c name)
      then Inr (c, call_value E (cview c) (cached E c name))
      else bindE (resolve E c name) (\<lambda>value.
             Inr (put_cache name value c, call_value E (cview c) value)))"

section \<open>Laws\<close>

lemma dotted_total: "\<exists>w. dotted E v ns = Inr w"
proof (induction ns arbitrary: v)
  case Nil
  then show ?case by simp
next
  case (Cons n ns)
  then show ?case using get_prop_truthy [of v E n] by auto
qed

lemma resolve_put_cache [simp]: "resolve E (put_cache k v c) = resolve E c"
proof
  fix name
  show "resolve E (put_cache k v c) name = resolve E c name"
    by (cases c) (simp add: resolve_def put_cache_def)
qed

interpretation ctx_cache: memo_table ccache put_cache "\<lambda>c k v. resolve E c k = Inr v" for E
  by unfold_locales auto

definition cache_ok :: "'f env \<Rightarrow> 'f ctx \<Rightarrow> bool" where
  "cache_ok E c \<longleftrightarrow> memo_consistent ccache (\<lambda>c k v. resolve E c k = Inr v) c"

lemma cache_ok_new [wf_intros]: "cache_ok E (new_Context v p)"
  unfolding cache_ok_def by (rule ctx_cache.empty) (simp add: new_Context_def)

lemma cached_ok:
  assumes "cache_ok E c" "\<not> truthy (inherit E PObject name)" "truthy (cached E c name)"
  shows "resolve E c name = Inr (cached E c name)"
proof -
  from assms(2,3) obtain v where "ccache c name = Some v"
    by (auto simp: cached_def split: option.splits)
  with assms(1) show ?thesis
    unfolding cache_ok_def by (auto simp: cached_def dest: ctx_cache.hit)
qed

lemma lookup_frame: "lookup E c name = Inr (c', v) \<Longrightarrow> cview c' = cview c \<and> cparent c' = cparent c"
  by (auto simp: lookup_def bindE_eq_Inr split: if_splits)

lemma lookup_cache_ok [wf_intros]: "lookup E c name = Inr (c', v) \<Longrightarrow> cache_ok E c \<Longrightarrow> cache_ok E c'"
  unfolding cache_ok_def
  by (auto simp: lookup_def bindE_eq_Inr split: if_splits intro: ctx_cache.store)


definition bare_env :: "nat env" where
  "bare_env = \<lparr>inherited = (\<lambda>_ _. None), call0 = (\<lambda>f v. Num (NFin (int f))),
     obj_str = (\<lambda>_. ''[object Object]'')\<rparr>"

lemma bare_env_sel [simp]:
  "inherited bare_env p k = None" "call0 bare_env f v = Num (NFin (int f))"
  "obj_str bare_env v = ''[object Object]''"
  by (simp_all add: bare_env_def)

lemma bare_inherit [simp]: "inherit bare_env p k = Undef"
  by (simp add: inherit_def)

definition demo_context :: "nat ctx" where
  "demo_context = put_cache ''x'' (Fn 7) (new_Context (Obj [(''x'', Fn 7)]) None)"

lemma demo_context_ok: "cache_ok bare_env demo_context"
  using cache_ok_new [of bare_env "Obj [(''x'', Fn 7)]" None]
  unfolding demo_context_def cache_ok_def
  by (rule ctx_cache.store)
    (simp add: new_Context_def resolve_def context_value_def is_dotted_def)


text \<open>
  inheriting makes the cache visible: when the prototype of objects has a function under
  the looked-up name, the lookup finds that function in its empty cache and never reads the
  view, even though the view has a property of that name.
\<close>

theorem lookup_inherited_shadows_view:
  assumes "inherited E PObject name = Some (Fn f)"
  shows "lookup E (new_Context (Obj [(name, v)]) p) name
    = Inr (new_Context (Obj [(name, v)]) p, call0 E f (Obj [(name, v)]))"
  using assms by (simp add: lookup_def cached_def new_Context_def inherit_def call_value_def)

definition page_env :: "nat env" where
  "page_env = bare_env\<lparr>inherited :=
     (\<lambda>p k. if p = PObject \<and> k = ''constructor'' then Some (Fn 1) else None)\<rparr>"

theorem lookup_inherited_shadows_view_witness:
  "map_sum id snd (lookup page_env
      (new_Context (Obj [(''constructor'', Str ''Bob'')]) None) ''constructor'')
    = Inr (Num (NFin 1))"
proof -
  have "inherited page_env PObject ''constructor'' = Some (Fn 1)" by (simp add: page_env_def)
  from lookup_inherited_shadows_view [OF this, of "Str ''Bob''" None]
  show ?thesis by (simp add: page_env_def bare_env_def)
qed

text \<open>
  the nearest view wins: a name without a dot that the innermost object defines with a value
  other than \<open>null\<close> and \<open>undefined\<close> is never taken from an enclosing view; one it does not
  define is looked up exactly as in the enclosing context.
\<close>

theorem resolve_scoping:
  assumes "\<not> is_dotted name" and "name \<noteq> ''.''" and "inherited E PObject name = None"
  shows "resolve E (push c (Obj ps)) name =
    (case map_of ps name of
       Some v \<Rightarrow> (if is_nullish v then resolve E c name else Inr v)
     | None \<Rightarrow> resolve E c name)"
  using assms
  by (auto simp: resolve_def push_def new_Context_def context_value_def inherit_def
      split: option.splits)

theorem resolve_scoping_witness:
  "resolve bare_env (push (new_Context (Obj [(''b'', Bool True)]) None) (Obj [(''a'', Null)])) ''b''
     = Inr (Bool True)"
proof -
  have "\<not> is_dotted ''b''" "''b'' \<noteq> ''.''" "inherited bare_env PObject ''b'' = None"
    by (simp_all add: is_dotted_def)
  from resolve_scoping [OF this, of "new_Context (Obj [(''b'', Bool True)]) None" "[(''a'', Null)]"]
  show ?thesis
    by (simp add: resolve_def new_Context_def context_value_def is_dotted_def)
qed

end
