(* ===== verification/Mustache_Writer.thy ===== *)
theory Mustache_Writer
  imports Mustache_Parser Mustache_Context
begin

text \<open>
  \<open>mustache.js\<close>, lines 186 to 302, 322 to 372 and 569 to 621: the writer with its two caches,
  the renderer, and the exported operations of the default writer.

  A compiled template, a closure in the source, is the token tree and the template it was made
  from. Partials and lambdas can make a template render itself, so rendering takes fuel, spent
  only there; \<open>NoFuel\<close> stands for a run that has not ended yet.
\<close>

section \<open>State\<close>

datatype compiled = Compiled (ctokens: "token list") (ctemplate: string)

record writer =
  w_cache :: "string \<rightharpoonup> compiled"
  w_partials :: "string \<rightharpoonup> compiled"
  w_load :: "(string \<Rightarrow> string) option"

definition new_Writer :: writer where
  "new_Writer = \<lparr>w_cache = Map.empty, w_partials = Map.empty, w_load = None\<rparr>"

definition clearCache :: "writer \<Rightarrow> writer" where
  "clearCache w = w\<lparr>w_cache := Map.empty, w_partials := Map.empty\<rparr>"

text \<open>
  \<open>Foreign\<close>: a cache lookup has found a function inherited from the prototype of objects, and
  the writer calls that function instead of a compiled template.
\<close>

datatype 'a outcome = Ok 'a | Throw js_error | Foreign | NoFuel

definition bindO :: "'a outcome \<Rightarrow> ('a \<Rightarrow> 'b outcome) \<Rightarrow> 'b outcome" where
  "bindO m k = (case m of Ok a \<Rightarrow> k a | Throw e \<Rightarrow> Throw e | Foreign \<Rightarrow> Foreign | NoFuel \<Rightarrow> NoFuel)"

lemma bindO_simps [simp]:
  "bindO (Ok a) k = k a" "bindO (Throw e) k = Throw e"
  "bindO Foreign k = Foreign" "bindO NoFuel k = NoFuel"
  by (simp_all add: bindO_def)

lemma bindO_cong [fundef_cong]:
  "m = m' \<Longrightarrow> (\<And>a. m' = Ok a \<Longrightarrow> k a = k' a) \<Longrightarrow> bindO m k = bindO m' k'"
  by (cases m') simp_all

lemma bindO_eq_Ok: "bindO m k = Ok b \<longleftrightarrow> (\<exists>a. m = Ok a \<and> k a = Ok b)"
  by (cases m) simp_all

lemma bindO_eq_NoFuel: "bindO m k = NoFuel \<longleftrightarrow> m = NoFuel \<or> (\<exists>a. m = Ok a \<and> k a = NoFuel)"
  by (cases m) simp_all

fun lift :: "'a throws \<Rightarrow> 'a outcome" where
  "lift (Inl e) = Throw e"
| "lift (Inr a) = Ok a"

lemma lift_eq_Ok [simp]: "lift m = Ok a \<longleftrightarrow> m = Inr a"
  by (cases m) simp_all

lemma lift_not_NoFuel [simp]: "lift m \<noteq> NoFuel" "lift m \<noteq> Foreign"
  by (cases m; simp)+

section \<open>\<open>compile\<close> and \<open>compilePartial\<close>\<close>

definition compile ::
  "'f env \<Rightarrow> writer \<Rightarrow> string \<Rightarrow> string list option \<Rightarrow> (writer \<times> compiled) outcome" where
  "compile E w template tags =
     (case w_cache w template of
        Some fn \<Rightarrow> Ok (w, fn)
      | None \<Rightarrow>
          if truthy (inherit E PObject template) then Foreign
          else bindO (lift (parse template tags)) (\<lambda>tokens.
                 let fn = Compiled tokens template
                 in Ok (w\<lparr>w_cache := (w_cache w)(template \<mapsto> fn)\<rparr>, fn)))"

definition compilePartial ::
  "'f env \<Rightarrow> writer \<Rightarrow> string \<Rightarrow> string \<Rightarrow> string list option \<Rightarrow> (writer \<times> compiled) outcome" where
  "compilePartial E w name template tags =
     bindO (compile E w template tags) (\<lambda>(w', fn).
       Ok (w'\<lparr>w_partials := (w_partials w')(name \<mapsto> fn)\<rparr>, fn))"

text \<open>The third argument of \<open>render\<close>: a loading function or a table of templates.\<close>

datatype partials = NoPartials | Loader "string \<Rightarrow> string" | Table "(string \<times> string) list"

fun compile_table :: "'f env \<Rightarrow> writer \<Rightarrow> (string \<times> string) list \<Rightarrow> writer outcome" where
  "compile_table E w [] = Ok w"
| "compile_table E w ((name, template) # ps) =
     bindO (compilePartial E w name template None) (\<lambda>(w', _). compile_table E w' ps)"

fun use_partials :: "'f env \<Rightarrow> writer \<Rightarrow> partials \<Rightarrow> writer outcome" where
  "use_partials E w NoPartials = Ok w"
| "use_partials E w (Loader f) = Ok (w\<lparr>w_load := Some f\<rparr>)"
| "use_partials E w (Table ps) = compile_table E w ps"

text \<open>
  \<open>_partial\<close>, up to the call of the function it finds: \<open>None\<close> is the empty rendering of an
  unknown partial.
\<close>

definition find_partial :: "'f env \<Rightarrow> writer \<Rightarrow> string \<Rightarrow> (writer \<times> compiled option) outcome" where
  "find_partial E w name =
     (let known = w_partials w name \<noteq> None \<or> inherited E PObject name \<noteq> None in
      bindO (case w_load w of
               Some load \<Rightarrow>
                 if known then Ok w
                 else bindO (compilePartial E w name (load name) None) (\<lambda>(w', _). Ok w')
             | None \<Rightarrow> Ok w)
        (\<lambda>w'. case w_partials w' name of
                Some fn \<Rightarrow> Ok (w', Some fn)
              | None \<Rightarrow> if truthy (inherit E PObject name) then Foreign else Ok (w', None)))"

section \<open>Rendering\<close>

text \<open>
  A function found as the value of a section gets the section's text and a function that
  renders a template in the current context, which it may call any number of times: what it
  does is a tree of such calls ending in a result.
\<close>

datatype 'f lam = Return "'f jsv" | AskRender string "string \<Rightarrow> 'f lam"

record 'f host =
  page :: "'f env"
  lambda :: "'f \<Rightarrow> 'f jsv \<Rightarrow> string \<Rightarrow> 'f lam"

text \<open>\<open>_name\<close>\<close>

definition name_value :: "'f env \<Rightarrow> 'f ctx \<Rightarrow> string \<Rightarrow> ('f ctx \<times> string) throws" where
  "name_value E c name =
     bindE (lookup E c name) (\<lambda>(c', v).
       let value = call_value E (cview c') v
       in Inr (c', if is_nullish value then [] else to_str E value))"

fun is_empty_array :: "'f jsv \<Rightarrow> bool" where
  "is_empty_array (Arr xs) = (xs = [])"
| "is_empty_array _ = False"

text \<open>The \<open>switch (typeof value)\<close> of \<open>_section\<close>.\<close>

datatype 'f sect = EachOf "'f jsv list" | Inside "'f jsv" | CallLambda 'f | Here | Skip

definition section_action :: "'f jsv \<Rightarrow> 'f sect" where
  "section_action value =
     (case typeof value of
        TObject \<Rightarrow>
          (case value of
             Arr vs \<Rightarrow> EachOf vs
           | _ \<Rightarrow> if truthy value then Inside value else Skip)
      | TFunction \<Rightarrow> (case value of Fn f \<Rightarrow> CallLambda f | _ \<Rightarrow> Skip)
      | _ \<Rightarrow> if truthy value then Here else Skip)"

lemma section_action_simps [simp]:
  "section_action Undef = Skip" "section_action Null = Skip"
  "section_action (Bool b) = (if b then Here else Skip)"
  "section_action (Num n :: 'f jsv) = (if truthy (Num n :: 'f jsv) then Here else Skip)"
  "section_action (Str s) = (if s = [] then Skip else Here)"
  "section_action (Arr vs) = EachOf vs" "section_action (Obj ps) = Inside (Obj ps)"
  "section_action (Fn f) = CallLambda f"
  by (simp_all add: section_action_def)

type_synonym 'f rendered = "(writer \<times> 'f ctx \<times> string) outcome"

function (sequential) render_tokens ::
    "'f host \<Rightarrow> nat \<Rightarrow> token list \<Rightarrow> string \<Rightarrow> writer \<Rightarrow> 'f ctx \<Rightarrow> 'f rendered"
  and render_token ::
    "'f host \<Rightarrow> nat \<Rightarrow> token \<Rightarrow> string \<Rightarrow> writer \<Rightarrow> 'f ctx \<Rightarrow> 'f rendered"
  and render_sub ::
    "'f host \<Rightarrow> nat \<Rightarrow> token list option \<Rightarrow> string \<Rightarrow> writer \<Rightarrow> 'f ctx \<Rightarrow> 'f rendered"
  and render_each ::
    "'f host \<Rightarrow> nat \<Rightarrow> token list option \<Rightarrow> string \<Rightarrow> writer \<Rightarrow> 'f ctx \<Rightarrow> 'f jsv list \<Rightarrow> 'f rendered"
  and render_lam ::
    "'f host \<Rightarrow> nat \<Rightarrow> 'f lam \<Rightarrow> writer \<Rightarrow> 'f ctx \<Rightarrow> 'f rendered"
where
  "render_tokens H n [] tpl w c = Ok (w, c, [])"
| "render_tokens H n (t # ts) tpl w c =
     bindO (render_token H n t tpl w c) (\<lambda>(w1, c1, s1).
     bindO (render_tokens H n ts tpl w1 c1) (\<lambda>(w2, c2, s2). Ok (w2, c2, s1 @ s2)))"
| "render_token H n (Token ty name s e sub) tpl w c =
     (case ty of
        TSection \<Rightarrow>
          bindO (lift (lookup (page H) c name)) (\<lambda>(c', value).
            case section_action value of
              EachOf vs \<Rightarrow> render_each H n sub tpl w c' vs
            | Inside v \<Rightarrow>
                bindO (render_sub H n sub tpl w (push c' v)) (\<lambda>(w1, _, r). Ok (w1, c', r))
            | CallLambda f \<Rightarrow>
                render_lam H n (lambda H f (cview c') (sectionText tpl (Token ty name s e sub))) w c'
            | Here \<Rightarrow> render_sub H n sub tpl w c'
            | Skip \<Rightarrow> Ok (w, c', []))
      | TInverted \<Rightarrow>
          bindO (lift (lookup (page H) c name)) (\<lambda>(c', value).
            if \<not> truthy value \<or> is_empty_array value
            then render_sub H n sub tpl w c' else Ok (w, c', []))
      | TPartial \<Rightarrow>
          bindO (find_partial (page H) w name) (\<lambda>(w1, fn).
            case fn of
              None \<Rightarrow> Ok (w1, c, [])
            | Some (Compiled ts tpl') \<Rightarrow>
                (case n of 0 \<Rightarrow> NoFuel | Suc m \<Rightarrow> render_tokens H m ts tpl' w1 c))
      | TUnescaped \<Rightarrow>
          bindO (lift (name_value (page H) c name)) (\<lambda>(c', r). Ok (w, c', r))
      | TName \<Rightarrow>
          bindO (lift (name_value (page H) c name)) (\<lambda>(c', r). Ok (w, c', escapeHtml r))
      | TText \<Rightarrow> Ok (w, c, name)
      | _ \<Rightarrow> Ok (w, c, []))"
| "render_sub H n None tpl w c = Throw TypeError"
| "render_sub H n (Some ks) tpl w c = render_tokens H n ks tpl w c"
| "render_each H n sub tpl w c [] = Ok (w, c, [])"
| "render_each H n sub tpl w c (v # vs) =
     bindO (render_sub H n sub tpl w (push c v)) (\<lambda>(w1, _, s1).
     bindO (render_each H n sub tpl w1 c vs) (\<lambda>(w2, c2, s2). Ok (w2, c2, s1 @ s2)))"
| "render_lam H n (Return v) w c = Ok (w, c, if is_nullish v then [] else to_str (page H) v)"
| "render_lam H n (AskRender tpl k) w c =
     (case n of
        0 \<Rightarrow> NoFuel
      | Suc m \<Rightarrow>
          bindO (compile (page H) w tpl None) (\<lambda>(w1, fn).
          bindO (render_tokens H m (ctokens fn) (ctemplate fn) w1 c) (\<lambda>(w2, c2, r).
            render_lam H m (k r) w2 c2)))"

  by pat_completeness auto
termination
proof (relation "measures [
     case_sum (case_sum (\<lambda>(H, n, _). n) (\<lambda>(H, n, _). n))
       (case_sum (\<lambda>(H, n, _). n) (case_sum (\<lambda>(H, n, _). n) (\<lambda>(H, n, _). n))),
     case_sum (case_sum (\<lambda>(H, n, ts, _). 2 * size_list size ts) (\<lambda>(H, n, t, _). 2 * size t + 1))
       (case_sum (\<lambda>(H, n, sub, _). 2 * size_option (size_list size) sub)
         (case_sum (\<lambda>(H, n, sub, _). 2 * size_option (size_list size) sub + 1) (\<lambda>_. 0))),
     case_sum (\<lambda>_. 0) (case_sum (\<lambda>_. 0) (case_sum (\<lambda>(H, n, sub, tpl, w, c, vs). length vs) (\<lambda>_. 0)))]")
qed auto

declare render_token.simps [simp del]

definition render ::
  "'f host \<Rightarrow> nat \<Rightarrow> writer \<Rightarrow> string \<Rightarrow> 'f view \<Rightarrow> partials \<Rightarrow> (writer \<times> string) outcome" where
  "render H n w template view ps =
     bindO (compile (page H) w template None) (\<lambda>(w1, fn).
     bindO (use_partials (page H) w1 ps) (\<lambda>w2.
     bindO (render_tokens H n (ctokens fn) (ctemplate fn) w2 (context_make view)) (\<lambda>(w3, _, r).
       Ok (w3, r))))"

text \<open>
  \<open>to_html\<close>: with a \<open>send\<close> function the text goes to it and nothing is returned.
\<close>

record delivery =
  sent :: "string option"
  returned :: "string option"

definition to_html ::
  "'f host \<Rightarrow> nat \<Rightarrow> writer \<Rightarrow> string \<Rightarrow> 'f view \<Rightarrow> partials \<Rightarrow> bool \<Rightarrow> (writer \<times> delivery) outcome" where
  "to_html H n w template view ps send_is_function =
     bindO (render H n w template view ps) (\<lambda>(w', r).
       Ok (w', if send_is_function then \<lparr>sent = Some r, returned = None\<rparr>
               else \<lparr>sent = None, returned = Some r\<rparr>))"

section \<open>Fuel\<close>

lemma bindO_mono:
  assumes "bindO m k \<noteq> NoFuel" "m \<noteq> NoFuel \<Longrightarrow> m' = m"
    and "\<And>a. m = Ok a \<Longrightarrow> k a \<noteq> NoFuel \<Longrightarrow> k' a = k a"
  shows "bindO m' k' = bindO m k"
  using assms by (cases m) auto

lemma fuel_mono:
  "render_tokens H n ts tpl w c \<noteq> NoFuel \<Longrightarrow> n \<le> m \<Longrightarrow>
    render_tokens H m ts tpl w c = render_tokens H n ts tpl w c"
  "render_token H n t tpl w c \<noteq> NoFuel \<Longrightarrow> n \<le> m \<Longrightarrow>
    render_token H m t tpl w c = render_token H n t tpl w c"
  "render_sub H n sub tpl w c \<noteq> NoFuel \<Longrightarrow> n \<le> m \<Longrightarrow>
    render_sub H m sub tpl w c = render_sub H n sub tpl w c"
  "render_each H n sub tpl w c vs \<noteq> NoFuel \<Longrightarrow> n \<le> m \<Longrightarrow>
    render_each H m sub tpl w c vs = render_each H n sub tpl w c vs"
  "render_lam H n l w c \<noteq> NoFuel \<Longrightarrow> n \<le> m \<Longrightarrow>
    render_lam H m l w c = render_lam H n l w c"
proof (induction H n ts tpl w c and H n t tpl w c and H n sub tpl w c and H n sub tpl w c vs
    and H n l w c arbitrary: m and m and m and m and m
    rule: render_tokens_render_token_render_sub_render_each_render_lam.induct)
  case (2 H n t ts tpl w c)
  from "2.prems"(1) show ?case unfolding render_tokens.simps
    by (rule bindO_mono) (auto intro!: bindO_mono "2.IH" "2.prems"(2))
next
  case (3 H n ty name s e sub tpl w c)
  show ?case
  proof (cases ty)
    case TSection
    note IH = "3.IH"(1-4) [OF TSection _ refl]
    show ?thesis
    proof (cases "lookup (page H) c name")
      case (Inr r)
      then obtain c' v where r: "lookup (page H) c name = Inr (c', v)" by (cases r) auto
      show ?thesis
      proof (cases "section_action v")
        case (EachOf vs)
        with "3.prems" IH(1) [where m = m, OF _ EachOf] r show ?thesis
          by (simp add: render_token.simps TSection)
      next
        case (Inside u)
        from "3.prems"(1) show ?thesis
          unfolding render_token.simps TSection ttype.case r lift.simps bindO_simps prod.case
            Inside sect.case
          by (rule bindO_mono) (use "3.prems"(2) IH(2) [where m = m, OF _ Inside] r in simp_all)
      next
        case (CallLambda f)
        with "3.prems" IH(3) [where m = m, OF _ CallLambda] r show ?thesis
          by (simp add: render_token.simps TSection)
      next
        case Here
        with "3.prems" IH(4) [where m = m, OF _ Here] r show ?thesis
          by (simp add: render_token.simps TSection)
      next
        case Skip
        with "3.prems" r show ?thesis by (simp add: render_token.simps TSection)
      qed
    qed (simp add: render_token.simps TSection)
  next
    case TInverted
    show ?thesis
    proof (cases "lookup (page H) c name")
      case (Inr r)
      then obtain c' v where r: "lookup (page H) c name = Inr (c', v)" by (cases r) auto
      show ?thesis
      proof (cases "\<not> truthy v \<or> is_empty_array v")
        case True
        have e: "render_token H k (Token ty name s e sub) tpl w c = render_sub H k sub tpl w c'" for k
          using True r by (simp add: render_token.simps TInverted)
        have "lift (lookup (page H) c name) = Ok (c', v)" by (simp add: r)
        have "render_sub H m sub tpl w c' = render_sub H n sub tpl w c'"
        proof (rule "3.IH"(5) [OF TInverted \<open>lift (lookup (page H) c name) = Ok (c', v)\<close> refl True])
          show "render_sub H n sub tpl w c' \<noteq> NoFuel" using "3.prems"(1) unfolding e .
          show "n \<le> m" by (rule "3.prems"(2))
        qed
        then show ?thesis unfolding e .
      next
        case False
        with r show ?thesis by (simp add: render_token.simps TInverted)
      qed
    qed (simp add: render_token.simps TInverted)
  next
    case TPartial
    from "3.prems"(1) show ?thesis
      unfolding render_token.simps TPartial ttype.case
    proof (rule bindO_mono, goal_cases)
      case (2 a)
      obtain w1 fn where a: "a = (w1, fn)" by force
      show ?case
      proof (cases fn)
        case None
        then show ?thesis by (simp add: a)
      next
        case (Some cp)
        obtain ts tpl' where cp: "cp = Compiled ts tpl'" by (cases cp)
        obtain n' where n: "n = Suc n'" using 2(2) by (cases n) (auto simp: a Some cp)
        obtain m' where m: "m = Suc m'" "n' \<le> m'" using "3.prems"(2) n by (cases m) auto
        have "render_tokens H m' ts tpl' w1 c = render_tokens H n' ts tpl' w1 c"
          by (rule "3.IH"(6) [OF TPartial 2(1) a [symmetric] Some cp n])
            (use 2(2) m(2) in \<open>simp_all add: a Some cp n\<close>)
        then show ?thesis by (simp add: a Some cp n m(1))
      qed
    qed simp
  qed (simp_all add: render_token.simps)
next
  case (5 H n ks tpl w c)
  from "5.prems" show ?case unfolding render_sub.simps by (rule "5.IH")
next
  case (7 H n sub tpl w c v vs)
  from "7.prems"(1) show ?case unfolding render_each.simps
    by (rule bindO_mono) (auto intro!: bindO_mono "7.IH" "7.prems"(2))
next
  case (9 H n tpl k w c)
  then obtain n' where n: "n = Suc n'" by (cases n) auto
  with "9.prems"(2) obtain m' where m: "m = Suc m'" "n' \<le> m'" by (cases m) auto
  from "9.prems"(1) show ?case unfolding render_lam.simps n m(1) nat.case
  proof (rule bindO_mono, goal_cases)
    case (2 a)
    obtain w1 fn where a: "a = (w1, fn)" by force
    from 2(2) show ?case unfolding a prod.case
    proof (rule bindO_mono, goal_cases)
      case 1
      show ?case by (rule "9.IH"(1) [OF n 2(1) a [symmetric] 1 m(2)])
    next
      case (2 b)
      obtain w2 c2 r where b: "b = (w2, c2, r)" by (cases b) force
      show ?case unfolding b prod.case
        by (rule "9.IH"(2) [OF n \<open>compile (page H) w tpl None = Ok a\<close> a [symmetric] 2(1)
              b [symmetric] refl _ m(2)]) (use 2(2) in \<open>simp add: b\<close>)
    qed
  qed simp
qed simp_all

text \<open>
  fuel only decides whether a rendering has finished: once a run returns, throws or leaves
  the library, every larger amount of fuel gives that same outcome.
\<close>

theorem render_fuel_irrelevant:
  assumes "render H n w template view ps \<noteq> NoFuel" and "n \<le> m"
  shows "render H m w template view ps = render H n w template view ps"
  unfolding render_def
  by (rule bindO_mono [OF assms(1) [unfolded render_def]])
    (auto intro!: bindO_mono fuel_mono(1) assms(2) split: prod.splits)

subsection \<open>Templates that need none\<close>

fun plain :: "token \<Rightarrow> bool" where
  "plain (Token ty v s e sub) \<longleftrightarrow> ty \<noteq> TPartial \<and>
     (case sub of None \<Rightarrow> True | Some ks \<Rightarrow> (\<forall>k \<in> set ks. plain k))"

definition data_only :: "'f host \<Rightarrow> bool" where
  "data_only H \<longleftrightarrow> (\<forall>f v. typeof (call0 (page H) f v) \<noteq> TFunction)"

lemma call_value_data: "data_only H \<Longrightarrow> typeof (call_value (page H) this v) \<noteq> TFunction"
  by (cases v) (simp_all add: call_value_def data_only_def)

lemma lookup_data: "data_only H \<Longrightarrow> lookup (page H) c name = Inr (c', v) \<Longrightarrow> typeof v \<noteq> TFunction"
  by (auto simp: lookup_def bindE_eq_Inr call_value_data split: if_splits)

lemma render_plain_total:
  assumes H: "data_only H"
  shows "\<forall>t \<in> set ts. plain t \<Longrightarrow> render_tokens H n ts tpl w c \<noteq> NoFuel"
    and "plain t \<Longrightarrow> render_token H n t tpl w c \<noteq> NoFuel"
    and "\<forall>ks. sub = Some ks \<longrightarrow> (\<forall>t \<in> set ks. plain t) \<Longrightarrow> render_sub H n sub tpl w c \<noteq> NoFuel"
    and "\<forall>ks. sub = Some ks \<longrightarrow> (\<forall>t \<in> set ks. plain t) \<Longrightarrow> render_each H n sub tpl w c vs \<noteq> NoFuel"
    and "render_lam H n l w c = render_lam H n l w c"
using H proof (induction H n ts tpl w c and H n t tpl w c and H n sub tpl w c and H n sub tpl w c vs
    and H n l w c
    rule: render_tokens_render_token_render_sub_render_each_render_lam.induct)
  case (2 H n t ts tpl w c)
  then show ?case by (auto simp: bindO_eq_NoFuel)
next
  case (3 H n ty name s e sub tpl w c)
  note data = lookup_data [OF "3.prems"(2)]
  have sub: "\<forall>ks. sub = Some ks \<longrightarrow> (\<forall>t \<in> set ks. plain t)" and ty: "ty \<noteq> TPartial"
    using "3.prems"(1) by (auto split: option.splits)
  show ?case
  proof (cases ty)
    case TSection
    show ?thesis
    proof (cases "lookup (page H) c name")
      case (Inr r)
      then obtain c' v where r: "lookup (page H) c name = Inr (c', v)" by (cases r) auto
      have "section_action v \<noteq> CallLambda f" for f
        using data [OF r] by (cases v) auto
      then show ?thesis
        using "3.IH"(1) [OF TSection _ refl _ sub "3.prems"(2)] "3.IH"(2) [OF TSection _ refl _ sub "3.prems"(2)]
          "3.IH"(4) [OF TSection _ refl _ sub "3.prems"(2)] r
        by (cases "section_action v") (auto simp: render_token.simps TSection bindO_eq_NoFuel)
    qed (simp add: render_token.simps TSection)
  next
    case TInverted
    show ?thesis
      using "3.IH"(5) [OF TInverted _ refl _ sub "3.prems"(2)]
      by (cases "lookup (page H) c name") (auto simp: render_token.simps TInverted split: if_splits)
  next
    case TPartial
    with ty show ?thesis by simp
  qed (auto simp: render_token.simps bindO_eq_NoFuel)
next
  case (7 H n sub tpl w c v vs)
  then show ?case by (auto simp: bindO_eq_NoFuel)
qed simp_all


definition demo_host :: "nat host" where
  "demo_host = \<lparr>page = bare_env, lambda = (\<lambda>f this text. Return (Str text))\<rparr>"

lemma demo_host_sel [simp]:
  "page demo_host = bare_env" "lambda demo_host f this text = Return (Str text)"
  by (simp_all add: demo_host_def)

lemma demo_host_data: "data_only demo_host"
  by (simp add: data_only_def)


lemma parse_hi: "parse ''hi'' None = Inr [Token TText ''hi'' 0 2 None]"
  by code_simp

theorem render_fuel_irrelevant_witness:
  "render demo_host 5 new_Writer ''hi'' (Plain Null) NoPartials
     = render demo_host 0 new_Writer ''hi'' (Plain Null) NoPartials"
  by (rule render_fuel_irrelevant)
    (simp_all add: render_def compile_def new_Writer_def parse_hi Let_def render_token.simps)

section \<open>What a rendering keeps\<close>

definition made_by :: "string \<Rightarrow> compiled \<Rightarrow> bool" where
  "made_by T fn \<longleftrightarrow> ctemplate fn = T \<and> parse T None = Inr (ctokens fn)"

definition put_template :: "string \<Rightarrow> compiled \<Rightarrow> writer \<Rightarrow> writer" where
  "put_template T fn w = w\<lparr>w_cache := (w_cache w)(T \<mapsto> fn)\<rparr>"

interpretation templates: memo_table w_cache put_template "\<lambda>_. made_by"
  by unfold_locales (auto simp: put_template_def made_by_def)

text \<open>
  Every cached template, and every partial, is what parsing a template with the default tags
  gives.
\<close>

definition writer_ok :: "writer \<Rightarrow> bool" where
  "writer_ok w \<longleftrightarrow> memo_consistent w_cache (\<lambda>_. made_by) w \<and>
     (\<forall>name fn. w_partials w name = Some fn \<longrightarrow> made_by (ctemplate fn) fn)"

lemma writer_ok_new [wf_intros]: "writer_ok new_Writer"
  by (simp add: writer_ok_def templates.empty new_Writer_def)

lemma writer_ok_clear [wf_intros]: "writer_ok (clearCache w)"
  by (simp add: writer_ok_def templates.empty clearCache_def)

lemma compile_ok:
  assumes "compile E w T None = Ok (w', fn)" "writer_ok w"
  shows "writer_ok w' \<and> made_by T fn"
proof (cases "w_cache w T")
  case (Some f)
  with assms show ?thesis
    by (auto simp: compile_def writer_ok_def dest: templates.hit)
next
  case None
  with assms(1) have fn: "made_by T fn" and w': "w' = put_template T fn w"
    by (auto simp: compile_def Let_def bindO_eq_Ok made_by_def put_template_def split: if_splits)
  have "memo_consistent w_cache (\<lambda>_. made_by) w'"
    unfolding w' by (rule templates.store) (use assms(2) fn in \<open>simp_all add: writer_ok_def\<close>)
  with assms(2) fn w' show ?thesis by (auto simp: writer_ok_def put_template_def made_by_def)
qed

lemma compilePartial_ok:
  "compilePartial E w name T None = Ok (w', fn) \<Longrightarrow> writer_ok w \<Longrightarrow> writer_ok w'"
  by (auto simp: compilePartial_def bindO_eq_Ok writer_ok_def made_by_def memo_consistent_def
      split: if_splits dest!: compile_ok)

lemma compile_table_ok: "compile_table E w ps = Ok w' \<Longrightarrow> writer_ok w \<Longrightarrow> writer_ok w'"
proof (induction E w ps rule: compile_table.induct)
  case (2 E w name template ps)
  then obtain w1 fn where 1: "compilePartial E w name template None = Ok (w1, fn)"
    and 2: "compile_table E w1 ps = Ok w'"
    by (auto simp: bindO_eq_Ok)
  from "2.IH" [OF 1 refl 2 compilePartial_ok [OF 1 "2.prems"(2)]] show ?case .
qed simp

lemma use_partials_ok: "use_partials E w ps = Ok w' \<Longrightarrow> writer_ok w \<Longrightarrow> writer_ok w'"
proof (induction E w ps rule: use_partials.induct)
  case (3 E w ps)
  then show ?case
    by (simp add: compile_table_ok)
qed (auto simp: writer_ok_def memo_consistent_def made_by_def)

lemma find_partial_ok: "find_partial E w name = Ok (w', fn) \<Longrightarrow> writer_ok w \<Longrightarrow> writer_ok w'"
  by (auto simp: find_partial_def Let_def bindO_eq_Ok split: option.splits if_splits
      dest: compilePartial_ok)

text \<open>The effect of a run on the two states it threads.\<close>

definition keeps :: "'f env \<Rightarrow> writer \<Rightarrow> 'f ctx \<Rightarrow> writer \<Rightarrow> 'f ctx \<Rightarrow> bool" where
  "keeps E w c w' c' \<longleftrightarrow> (writer_ok w \<longrightarrow> writer_ok w') \<and> (cache_ok E c \<longrightarrow> cache_ok E c') \<and>
     cview c' = cview c \<and> cparent c' = cparent c"

lemma keeps_refl [simp]: "keeps E w c w c"
  by (simp add: keeps_def)

lemma keeps_trans: "keeps E w c w1 c1 \<Longrightarrow> keeps E w1 c1 w2 c2 \<Longrightarrow> keeps E w c w2 c2"
  by (auto simp: keeps_def)

lemma keeps_lookup: "lookup E c name = Inr (c', v) \<Longrightarrow> keeps E w c w c'"
  using lookup_frame lookup_cache_ok by (fastforce simp: keeps_def)

lemma keeps_name: "name_value E c name = Inr (c', r) \<Longrightarrow> keeps E w c w c'"
  by (auto simp: name_value_def bindE_eq_Inr Let_def intro: keeps_lookup)

lemma keeps_writer: "(writer_ok w \<Longrightarrow> writer_ok w') \<Longrightarrow> keeps E w c w' c"
  by (simp add: keeps_def)

lemma keeps_inside: "keeps E w (push c v) w' c2 \<Longrightarrow> keeps E w c w' c"
  by (simp add: keeps_def)

lemma render_keeps:
  "render_tokens H n ts tpl w c = Ok (w', c', r) \<Longrightarrow> keeps (page H) w c w' c'"
  "render_token H n t tpl w c = Ok (w', c', r) \<Longrightarrow> keeps (page H) w c w' c'"
  "render_sub H n sub tpl w c = Ok (w', c', r) \<Longrightarrow> keeps (page H) w c w' c'"
  "render_each H n sub tpl w c vs = Ok (w', c', r) \<Longrightarrow> keeps (page H) w c w' c'"
  "render_lam H n l w c = Ok (w', c', r) \<Longrightarrow> keeps (page H) w c w' c'"
proof (induction H n ts tpl w c and H n t tpl w c and H n sub tpl w c and H n sub tpl w c vs
    and H n l w c arbitrary: w' c' r and w' c' r and w' c' r and w' c' r and w' c' r
    rule: render_tokens_render_token_render_sub_render_each_render_lam.induct)
  case (2 H n t ts tpl w c)
  from "2.prems" obtain w1 c1 s1 s2 where 1: "render_token H n t tpl w c = Ok (w1, c1, s1)"
    and 2: "render_tokens H n ts tpl w1 c1 = Ok (w', c', s2)"
    by (auto simp: bindO_eq_Ok)
  show ?case by (rule keeps_trans [OF "2.IH"(1) [OF 1] "2.IH"(2) [OF 1 refl refl 2]])
next
  case (3 H n ty name s e sub tpl w c)
  show ?case
  proof (cases ty)
    case TSection
    from "3.prems" obtain c1 v where l: "lookup (page H) c name = Inr (c1, v)"
      by (auto simp: render_token.simps TSection bindO_eq_Ok)
    then have l': "lift (lookup (page H) c name) = Ok (c1, v)" by simp
    note IH = "3.IH"(1-4) [OF TSection l' refl]
    have "keeps (page H) w c1 w' c'"
    proof (cases "section_action v")
      case (EachOf vs)
      show ?thesis
        by (rule IH(1) [OF EachOf]) (use "3.prems" l EachOf in \<open>simp add: render_token.simps TSection\<close>)
    next
      case (Inside u)
      with "3.prems" l have "bindO (render_sub H n sub tpl w (push c1 u)) (\<lambda>(w1, _, r). Ok (w1, c1, r))
          = Ok (w', c', r)"
        by (simp add: render_token.simps TSection)
      then have "c' = c1" and "\<exists>c2. render_sub H n sub tpl w (push c1 u) = Ok (w', c2, r)"
        by (cases "render_sub H n sub tpl w (push c1 u)"; simp split: prod.splits)+
      then show ?thesis using keeps_inside [OF IH(2) [OF Inside]] by blast
    next
      case (CallLambda f)
      show ?thesis
        by (rule IH(3) [OF CallLambda])
          (use "3.prems" l CallLambda in \<open>simp add: render_token.simps TSection\<close>)
    next
      case Here
      show ?thesis
        by (rule IH(4) [OF Here]) (use "3.prems" l Here in \<open>simp add: render_token.simps TSection\<close>)
    next
      case Skip
      with "3.prems" l show ?thesis by (simp add: render_token.simps TSection)
    qed
    then show ?thesis by (rule keeps_trans [OF keeps_lookup [OF l]])
  next
    case TInverted
    from "3.prems" obtain c1 v where l: "lookup (page H) c name = Inr (c1, v)"
      by (auto simp: render_token.simps TInverted bindO_eq_Ok)
    then have l': "lift (lookup (page H) c name) = Ok (c1, v)" by simp
    have "keeps (page H) w c1 w' c'"
    proof (cases "\<not> truthy v \<or> is_empty_array v")
      case True
      show ?thesis
        by (rule "3.IH"(5) [OF TInverted l' refl True])
          (use "3.prems" l True in \<open>simp add: render_token.simps TInverted\<close>)
    next
      case False
      with "3.prems" l show ?thesis by (simp add: render_token.simps TInverted)
    qed
    then show ?thesis by (rule keeps_trans [OF keeps_lookup [OF l]])
  next
    case TPartial
    from "3.prems" obtain w1 fn where f: "find_partial (page H) w name = Ok (w1, fn)"
      by (auto simp: render_token.simps TPartial bindO_eq_Ok)
    have "keeps (page H) w1 c w' c'"
    proof (cases fn)
      case None
      with "3.prems" f show ?thesis by (simp add: render_token.simps TPartial)
    next
      case (Some cp)
      obtain ts tpl' where cp: "cp = Compiled ts tpl'" by (cases cp)
      from "3.prems" f Some cp obtain n' where n: "n = Suc n'"
        by (cases n) (auto simp: render_token.simps TPartial)
      show ?thesis
        by (rule "3.IH"(6) [OF TPartial f refl Some cp n])
          (use "3.prems" f Some cp n in \<open>simp add: render_token.simps TPartial\<close>)
    qed
    then show ?thesis
      by (rule keeps_trans [OF keeps_writer, rotated]) (rule find_partial_ok [OF f])
  qed (use "3.prems" in \<open>auto simp: render_token.simps bindO_eq_Ok dest: keeps_name\<close>)
next
  case (5 H n ks tpl w c)
  from "5.prems" show ?case unfolding render_sub.simps by (rule "5.IH")
next
  case (7 H n sub tpl w c v vs)
  from "7.prems" obtain w1 c1 s1 s2 where
    1: "render_sub H n sub tpl w (push c v) = Ok (w1, c1, s1)" and
    2: "render_each H n sub tpl w1 c vs = Ok (w', c', s2)"
    by (auto simp: bindO_eq_Ok)
  show ?case
    by (rule keeps_trans [OF keeps_inside [OF "7.IH"(1) [OF 1]] "7.IH"(2) [OF 1 refl refl 2]])
next
  case (9 H n tpl k w c)
  then obtain n' where n: "n = Suc n'" by (cases n) auto
  from "9.prems" obtain w1 fn w2 c2 r2 where
    1: "compile (page H) w tpl None = Ok (w1, fn)" and
    2: "render_tokens H n' (ctokens fn) (ctemplate fn) w1 c = Ok (w2, c2, r2)" and
    3: "render_lam H n' (k r2) w2 c2 = Ok (w', c', r)"
    by (auto simp: n bindO_eq_Ok)
  have "keeps (page H) w c w1 c"
    by (rule keeps_writer) (use compile_ok [OF 1] in blast)
  then show ?case
    by (rule keeps_trans [OF _ keeps_trans [OF "9.IH"(1) [OF n 1 refl 2]
          "9.IH"(2) [OF n 1 refl 2 refl refl 3]]])
qed (simp_all add: keeps_def)

text \<open>
  The caches stay true to their keys: however a rendering nests sections, partials and
  lambdas, every template in the writer's caches afterwards is still the parse of the text it is
  stored under.
\<close>

lemma render_keeps_writer:
  assumes "writer_ok w" and "render H n w template view ps = Ok (w', r)"
  shows "writer_ok w'"
proof -
  from assms(2) obtain w1 fn w2 c where 1: "compile (page H) w template None = Ok (w1, fn)"
    and 2: "use_partials (page H) w1 ps = Ok w2"
    and 3: "render_tokens H n (ctokens fn) (ctemplate fn) w2 (context_make view) = Ok (w', c, r)"
    by (auto simp: render_def bindO_eq_Ok)
  have "writer_ok w2" using compile_ok [OF 1 assms(1)] use_partials_ok [OF 2] by simp
  with render_keeps(1) [OF 3] show ?thesis by (simp add: keeps_def)
qed

text \<open>
  C16: a variable tag cannot inject markup: whatever value, function or string conversion the view
  supplies, what \<open>{{name}}\<close> adds to the output has no angle bracket, quote or slash in it.
\<close>

theorem name_tag_is_escaped:
  assumes "render_token H n (Token TName name s e sub) tpl w c = Ok (w', c', r)"
  shows "set r \<inter> {CHR ''<'', CHR ''>'', CHR 0x22, CHR 0x27, CHR ''/''} = {}"
proof -
  from assms obtain v where "r = escapeHtml v"
    by (auto simp: render_token.simps bindO_eq_Ok)
  moreover have "set (escapeHtml v) \<inter> {CHR ''<'', CHR ''>'', CHR 0x22, CHR 0x27, CHR ''/''} = {}" for v
    by (induction v) (simp_all add: escapeHtml_Cons)
  ultimately show ?thesis by simp
qed

theorem name_tag_is_escaped_witness:
  "\<exists>c'. render_token demo_host 0 (Token TName ''x'' 0 5 None) ''{{x}}'' new_Writer
     (new_Context (Obj [(''x'', Str ''<b>'')]) None) = Ok (new_Writer, c', ''&lt;b&gt;'') \<and>
   set ''&lt;b&gt;'' \<inter> {CHR ''<'', CHR ''>'', CHR 0x22, CHR 0x27, CHR ''/''} = {}"
proof -
  let ?c = "new_Context (Obj [(''x'', Str ''<b>'')]) None :: nat ctx"
  have "lookup bare_env ?c ''x'' = Inr (put_cache ''x'' (Str ''<b>'') ?c, Str ''<b>'')"
    by (simp add: lookup_def cached_def new_Context_def resolve_def context_value_def
        is_dotted_def call_value_def)
  then have r: "render_token demo_host 0 (Token TName ''x'' 0 5 None) ''{{x}}'' new_Writer ?c
      = Ok (new_Writer, put_cache ''x'' (Str ''<b>'') ?c, ''&lt;b&gt;'')"
    by (simp add: render_token.simps name_value_def call_value_def escapeHtml_Cons Let_def)
  from name_tag_is_escaped [OF r] r show ?thesis by blast
qed

text \<open>
  \<open>{{#name}}\<close> and \<open>{{^name}}\<close> are complementary: for the same name and body, in a context
  where the name does not resolve to a function, the inverted section renders the body exactly
  when the section is falsy or an empty array, and then the section renders nothing.
\<close>

theorem section_inverted_complement:
  assumes "lookup (page H) c name = Inr (c', v)" and "typeof v \<noteq> TFunction"
  shows "if \<not> truthy v \<or> is_empty_array v
    then render_token H n (Token TInverted name s e sub) tpl w c = render_sub H n sub tpl w c' \<and>
         render_token H n (Token TSection name s e sub) tpl w c = Ok (w, c', [])
    else render_token H n (Token TInverted name s e sub) tpl w c = Ok (w, c', [])"
  using assms by (cases v) (auto simp: render_token.simps)

theorem section_inverted_complement_witness:
  "let c = new_Context (Obj [(''x'', Arr [])]) None; c' = put_cache ''x'' (Arr []) c in
   render_token demo_host 0 (Token TSection ''x'' 0 6 (Some [])) ''{{#x}}{{/x}}'' new_Writer c
     = Ok (new_Writer, c', [])"
proof -
  let ?c = "new_Context (Obj [(''x'', Arr [])]) None :: nat ctx"
  have l: "lookup (page demo_host) ?c ''x'' = Inr (put_cache ''x'' (Arr []) ?c, Arr [])"
    by (simp add: lookup_def cached_def new_Context_def resolve_def context_value_def
        is_dotted_def call_value_def)
  from section_inverted_complement [OF l, of 0 0 6 "Some []" "''{{#x}}{{/x}}''" new_Writer]
  show ?thesis by (simp add: Let_def)
qed

text \<open>
  a template in which the opening tag does not occur renders to itself, in every view and
  with a fresh or a consistent cache.
\<close>

theorem render_untagged:
  assumes "\<forall>i. take 2 (drop i T) \<noteq> ''{{''" and "T \<noteq> []" and "writer_ok w"
    and "\<not> truthy (inherit (page H) PObject T)"
  shows "\<exists>w'. render H n w T view NoPartials = Ok (w', T)"
proof -
  note p = parse_untagged [OF assms(1,2)]
  obtain w1 fn where 1: "compile (page H) w T None = Ok (w1, fn)"
    using p assms(4) by (cases "w_cache w T") (simp_all add: compile_def Let_def)
  with compile_ok [OF 1 assms(3)] p have "ctokens fn = [Token TText T 0 (length T) None]"
    by (simp add: made_by_def)
  with 1 show ?thesis by (simp add: render_def render_token.simps)
qed

theorem render_untagged_witness:
  "\<exists>w'. render demo_host 0 new_Writer ''hi'' (Plain Null) NoPartials = Ok (w', ''hi'')"
proof (rule render_untagged)
  show "\<forall>i. take 2 (drop i ''hi'') \<noteq> ''{{''"
  proof
    fix i
    show "take 2 (drop i ''hi'') \<noteq> ''{{''"
      by (cases i; cases "i - 1") (simp_all add: drop_Cons')
  qed
qed (simp_all add: writer_ok_new)

text \<open>
  \<open>compile\<close> remembers a template by its text alone: once it has been compiled with some
  tags, compiling it with any other tags returns the first compilation and parses nothing.
\<close>

theorem compile_ignores_new_tags:
  assumes "compile E w T tags = Ok (w', fn)"
  shows "compile E w' T tags' = Ok (w', fn)"
  using assms by (cases "w_cache w T") (auto simp: compile_def Let_def bindO_eq_Ok split: if_splits)

lemma parse_erb: "parse ''<%x%>'' (Some [''<%'', ''%>'']) = Inr [Token TName ''x'' 0 5 None]"
  by code_simp

lemma parse_erb_default: "parse ''<%x%>'' None = Inr [Token TText ''<%x%>'' 0 5 None]"
  by code_simp

theorem compile_ignores_new_tags_witness:
  "let fn = Compiled [Token TText ''<%x%>'' 0 5 None] ''<%x%>'';
       w = put_template ''<%x%>'' fn new_Writer
   in compile bare_env w ''<%x%>'' (Some [''<%'', ''%>'']) = Ok (w, fn) \<and>
      parse ''<%x%>'' (Some [''<%'', ''%>'']) \<noteq> Inr (ctokens fn)"
proof -
  have "compile bare_env new_Writer ''<%x%>'' None
      = Ok (put_template ''<%x%>'' (Compiled [Token TText ''<%x%>'' 0 5 None] ''<%x%>'') new_Writer,
          Compiled [Token TText ''<%x%>'' 0 5 None] ''<%x%>'')"
    by (simp add: compile_def new_Writer_def parse_erb_default Let_def put_template_def)
  from compile_ignores_new_tags [OF this] show ?thesis
    by (simp add: Let_def parse_erb)
qed

end
