(* ===== verification/Mustache_Plugin.thy ===== *)
theory Mustache_Plugin
  imports Mustache_Writer
begin

text \<open>
  \<open>jquery-mustache.js\<close>: the registry of named templates that sits on \<open>mustache.js\<close>, and the
  getter of jQuery's \<open>html\<close> it reads templates with.

  The document is a parameter: the scripts of its body, and the inner HTML of an element by its
  id. Every operation says what the registry is afterwards also when it throws, since templates
  added before the exception stay. Only an exception out of \<open>to_html\<close> does not: which of its
  caches the library had filled by then is not tracked (\<open>RaisedInMustache\<close>).
\<close>

section \<open>State\<close>

text \<open>The variable \<open>instance\<close>: \<open>null\<close>, \<open>undefined\<close> or the library.\<close>

datatype instance_var = INull | IUndefined | IMustache

record plugin =
  templateMap :: "(string \<times> string) list"
  warnOnMissingTemplates :: bool
  allowOverwrite :: bool
  domTemplateType :: string
  instance_of :: instance_var
  mustache_lib :: "writer option"

text \<open>\<open>mustache_lib\<close> is \<open>window.Mustache\<close>, absent when the script has not been loaded.\<close>

definition new_plugin :: "writer option \<Rightarrow> plugin" where
  "new_plugin m = \<lparr>templateMap = [], warnOnMissingTemplates = False, allowOverwrite = True,
     domTemplateType = ''text/html'', instance_of = INull, mustache_lib = m\<rparr>"

datatype 'a ended =
    Done plugin 'a
  | Raised plugin js_error
  | RaisedInMustache js_error
  | Escaped
  | Running

fun andThen :: "'a ended \<Rightarrow> (plugin \<Rightarrow> 'a \<Rightarrow> 'b ended) \<Rightarrow> 'b ended" where
  "andThen (Done p a) k = k p a"
| "andThen (Raised p e) k = Raised p e"
| "andThen (RaisedInMustache e) k = RaisedInMustache e"
| "andThen Escaped k = Escaped"
| "andThen Running k = Running"

lemma andThen_eq_Done: "andThen m k = Done p b \<longleftrightarrow> (\<exists>q a. m = Done q a \<and> k q a = Done p b)"
  by (cases m) simp_all

section \<open>The registry\<close>

definition set_template :: "string \<Rightarrow> string \<Rightarrow> plugin \<Rightarrow> plugin" where
  "set_template name T p = p\<lparr>templateMap := AList.update name T (templateMap p)\<rparr>"

definition delete_template :: "string \<Rightarrow> plugin \<Rightarrow> plugin" where
  "delete_template name p = p\<lparr>templateMap := AList.delete name (templateMap p)\<rparr>"

definition template_named :: "plugin \<Rightarrow> string \<Rightarrow> string option" where
  "template_named p name = map_of (templateMap p) name"

text \<open>\<open>has\<close> reads a bare object, so it also sees what every object inherits.\<close>

definition has :: "'f env \<Rightarrow> plugin \<Rightarrow> string \<Rightarrow> bool" where
  "has E p name = (template_named p name \<noteq> None \<or> inherit E PObject name \<noteq> Undef)"

text \<open>\<open>$.trim\<close>\<close>

definition trim_value :: "'f env \<Rightarrow> 'f jsv \<Rightarrow> string" where
  "trim_value E v = (if is_nullish v then [] else str_trim (to_str E v))"

definition add :: "'f env \<Rightarrow> plugin \<Rightarrow> string \<Rightarrow> 'f jsv \<Rightarrow> unit ended" where
  "add E p name html =
     (if \<not> allowOverwrite p \<and> has E p name
      then Raised p (ErrorMsg (''TemplateName: '' @ name @ '' is already mapped.''))
      else Done (set_template name (trim_value E html) p) ())"

definition remove :: "plugin \<Rightarrow> string \<Rightarrow> plugin \<times> string option" where
  "remove p name = (delete_template name p, template_named p name)"

definition templates :: "plugin \<Rightarrow> string list" where
  "templates p = map fst (templateMap p)"

definition registry_ok :: "plugin \<Rightarrow> bool" where
  "registry_ok p \<longleftrightarrow> distinct (map fst (templateMap p))"

text \<open>What the rest of the plugin relies on the registry for.\<close>

locale template_registry =
  fixes get :: "'s \<Rightarrow> string \<Rightarrow> string option"
    and put :: "string \<Rightarrow> string \<Rightarrow> 's \<Rightarrow> 's"
    and del :: "string \<Rightarrow> 's \<Rightarrow> 's"
    and names :: "'s \<Rightarrow> string list"
    and ok :: "'s \<Rightarrow> bool"
  assumes get_put: "get (put k v s) = (get s)(k \<mapsto> v)"
    and get_del: "get (del k s) = (get s)(k := None)"
    and names_dom: "set (names s) = dom (get s)"
    and names_distinct: "ok s \<Longrightarrow> distinct (names s)"
    and ok_put: "ok s \<Longrightarrow> ok (put k v s)"
    and ok_del: "ok s \<Longrightarrow> ok (del k s)"
begin

lemma get_put_many:
  "get (fold (\<lambda>(k, v). put k v) kvs s) = get s ++ map_of (rev kvs)"
proof (induction kvs arbitrary: s)
  case Nil
  then show ?case by simp
next
  case (Cons kv kvs)
  obtain k v where "kv = (k, v)" by (cases kv)
  with Cons [of "put k v s"] show ?case by (simp add: get_put map_add_upd_left [symmetric] fun_eq_iff map_add_def split: option.splits)
qed

lemma ok_put_many: "ok s \<Longrightarrow> ok (fold (\<lambda>(k, v). put k v) kvs s)"
  by (induction kvs arbitrary: s) (auto simp: ok_put)

lemma put_del: "get s k = None \<Longrightarrow> get (del k (put k v s)) = get s"
  by (auto simp: get_put get_del)

lemma length_names_put:
  "ok s \<Longrightarrow> length (names (put k v s)) = length (names s) + (if get s k = None then 1 else 0)"
proof -
  assume "ok s"
  then have "distinct (names s)" "distinct (names (put k v s))"
    by (simp_all add: names_distinct ok_put)
  then have l: "length (names s) = card (dom (get s))"
    "length (names (put k v s)) = card (dom (get (put k v s)))"
    by (simp_all add: distinct_card [symmetric] names_dom)
  have "finite (dom (get s))" by (metis List.finite_set names_dom)
  then show ?thesis unfolding l by (auto simp: get_put insert_absorb domI card_insert_if domIff)
qed

end

lemma set_templates: "set (templates p) = dom (template_named p)"
  by (simp add: templates_def template_named_def [abs_def] dom_map_of_conv_image_fst)

interpretation reg: template_registry template_named set_template delete_template templates registry_ok
proof
  show "set (templates p) = dom (template_named p)" for p by (rule set_templates)
qed (auto simp: template_named_def [abs_def] set_template_def delete_template_def templates_def
    registry_ok_def update_conv' delete_conv' distinct_update distinct_delete)

section \<open>Reaching the library\<close>

definition getMustache :: "plugin \<Rightarrow> instance_var ended" where
  "getMustache p =
     (if instance_of p = INull then
        (case mustache_lib p of
           Some _ \<Rightarrow> Done (p\<lparr>instance_of := IMustache\<rparr>) IMustache
         | None \<Rightarrow> Raised (p\<lparr>instance_of := IUndefined\<rparr>)
             (ErrorMsg ''Failed to locate Mustache instance, are you sure it has been loaded?''))
      else Done p (instance_of p))"

text \<open>A method call on what \<open>getMustache\<close> returns.\<close>

definition call_library :: "plugin \<Rightarrow> (plugin \<Rightarrow> writer \<Rightarrow> 'a ended) \<Rightarrow> 'a ended" where
  "call_library p k =
     andThen (getMustache p) (\<lambda>q i.
       case (i, mustache_lib q) of
         (IMustache, Some w) \<Rightarrow> k q w
       | _ \<Rightarrow> Raised q TypeError)"

definition clear :: "plugin \<Rightarrow> unit ended" where
  "clear p =
     (let p1 = p\<lparr>templateMap := []\<rparr>
      in call_library p1 (\<lambda>q w. Done (q\<lparr>mustache_lib := Some (clearCache w)\<rparr>) ()))"

text \<open>
  \<open>render\<close>: a name that only the prototype of objects has passes \<open>has\<close>, and \<open>to_html\<close> is then
  handed a function.
\<close>

definition render_template ::
  "'f host \<Rightarrow> nat \<Rightarrow> plugin \<Rightarrow> string \<Rightarrow> 'f view \<Rightarrow> string ended" where
  "render_template H n p name data =
     (if \<not> has (page H) p name then
        (if warnOnMissingTemplates p
         then Raised p (ErrorMsg (''No template registered for: '' @ name))
         else Done p [])
      else call_library p (\<lambda>q w.
        case template_named q name of
          None \<Rightarrow> Escaped
        | Some T \<Rightarrow>
            (case to_html H n w T data (Table (templateMap q)) False of
               Ok (w', d) \<Rightarrow> Done (q\<lparr>mustache_lib := Some w'\<rparr>) (case returned d of Some r \<Rightarrow> r | None \<Rightarrow> [])
             | Throw e \<Rightarrow> RaisedInMustache e
             | Foreign \<Rightarrow> Escaped
             | NoFuel \<Rightarrow> Running)))"

section \<open>Templates from the document\<close>

text \<open>
  \<open>elem.innerHTML.replace(rinlinejQuery, "")\<close>: the length of a match of
  \<open>/ jQuery\d+="(?:\d+|null)"/\<close> at the front, and the removal of every one.
\<close>

definition inline_match :: "string \<Rightarrow> nat option" where
  "inline_match s =
     (if take 7 s \<noteq> '' jQuery'' then None
      else let a = takeWhile is_digit (drop 7 s); r = drop (7 + length a) s in
        if a = [] \<or> take 2 r \<noteq> [CHR ''='', CHR 0x22] then None
        else let b = takeWhile is_digit (drop 2 r);
                 l = (if b \<noteq> [] then length b else if take 4 (drop 2 r) = ''null'' then 4 else 0)
             in if l \<noteq> 0 \<and> take 1 (drop (2 + l) r) = [CHR 0x22]
                then Some (7 + length a + 2 + l + 1) else None)"

function strip_inline :: "string \<Rightarrow> string" where
  "strip_inline [] = []"
| "strip_inline (c # s) =
     (case inline_match (c # s) of
        Some n \<Rightarrow> strip_inline (drop (n - 1) s)
      | None \<Rightarrow> c # strip_inline s)"
  by pat_completeness auto
termination
  by (relation "measure length") (auto simp: le_imp_less_Suc)

text \<open>
  \<open>html()\<close> of a set: the inner HTML of its first element, or \<open>null\<close> (not \<open>undefined\<close>) when the
  set is empty.
\<close>

definition jq_html :: "string option \<Rightarrow> 'f jsv" where
  "jq_html elem = (case elem of Some inner \<Rightarrow> Str (strip_inline inner) | None \<Rightarrow> Null)"

record document =
  body_scripts :: "(string \<times> string) list"
  inner_html :: "string \<Rightarrow> string option"

fun add_each :: "'f env \<Rightarrow> document \<Rightarrow> plugin \<Rightarrow> string list \<Rightarrow> unit ended" where
  "add_each E D p [] = Done p ()"
| "add_each E D p (i # is) =
     (let html = jq_html (inner_html D i) :: 'f jsv in
      andThen
        (if html = Undef then Raised p (ErrorMsg (''No such elementId: #'' @ i)) else add E p i html)
        (\<lambda>q _. add_each E D q is))"

definition addFromDom :: "'f env \<Rightarrow> document \<Rightarrow> plugin \<Rightarrow> string list \<Rightarrow> unit ended" where
  "addFromDom E D p args =
     add_each E D p
       (if args = [] then map fst (filter (\<lambda>(i, ty). ty = domTemplateType p) (body_scripts D))
        else args)"

text \<open>
  \<open>load\<close>: what the success handler does with the scripts of the response, each its id and
  inner HTML; the result tells whether \<open>onComplete\<close> gets called.
\<close>

fun add_loaded :: "'f env \<Rightarrow> plugin \<Rightarrow> (string \<times> string) list \<Rightarrow> unit ended" where
  "add_loaded E p [] = Done p ()"
| "add_loaded E p ((i, inner) # ss) =
     andThen (if i \<noteq> [] then add E p i (jq_html (Some inner)) else Done p ())
       (\<lambda>q _. add_loaded E q ss)"

definition load_done :: "'f env \<Rightarrow> plugin \<Rightarrow> (string \<times> string) list \<Rightarrow> bool \<Rightarrow> bool ended" where
  "load_done E p scripts has_onComplete =
     andThen (add_loaded E p scripts) (\<lambda>q _. Done q has_onComplete)"

section \<open>\<open>$.fn.mustache\<close>\<close>

text \<open>
  The calls the plugin makes on the elements of a set, in order: element, method of jQuery,
  and the rendered text.
\<close>

type_synonym call_log = "(nat \<times> string \<times> string) list"

fun render_models ::
  "'f host \<Rightarrow> nat \<Rightarrow> (string \<Rightarrow> bool) \<Rightarrow> string \<Rightarrow> string \<Rightarrow> plugin \<Rightarrow> (nat \<times> 'f jsv) list \<Rightarrow> call_log ended" where
  "render_models H n is_method meth name p [] = Done p []"
| "render_models H n is_method meth name p ((e, v) # evs) =
     andThen (render_template H n p name (Plain v)) (\<lambda>q r.
       if \<not> is_method meth then Raised q TypeError
       else andThen (render_models H n is_method meth name q evs) (\<lambda>q' log. Done q' ((e, meth, r) # log)))"

definition models_of :: "'f jsv \<Rightarrow> 'f jsv list" where
  "models_of data = (case data of Arr vs \<Rightarrow> vs | _ \<Rightarrow> [data])"

definition fn_mustache ::
  "'f host \<Rightarrow> nat \<Rightarrow> (string \<Rightarrow> bool) \<Rightarrow> plugin \<Rightarrow> nat list \<Rightarrow> string \<Rightarrow> 'f jsv \<Rightarrow> string option \<Rightarrow> call_log ended" where
  "fn_mustache H n is_method p elems name data meth =
     render_models H n is_method (case meth of Some m \<Rightarrow> m | None \<Rightarrow> ''append'') name p
       (concat (map (\<lambda>e. map (Pair e) (models_of data)) elems))"

section \<open>What callers rely on\<close>

lemma templateMap_frame [simp]:
  "templateMap (p\<lparr>instance_of := i\<rparr>) = templateMap p"
  "template_named (p\<lparr>instance_of := i\<rparr>) name = template_named p name"
  "template_named (p\<lparr>mustache_lib := l\<rparr>) name = template_named p name"
  by (simp_all add: template_named_def)

lemma set_template_sel [simp]:
  "allowOverwrite (set_template n T p) = allowOverwrite p"
  "instance_of (set_template n T p) = instance_of p"
  "mustache_lib (set_template n T p) = mustache_lib p"
  "warnOnMissingTemplates (set_template n T p) = warnOnMissingTemplates p"
  by (simp_all add: set_template_def)

lemma trim_inner [simp]: "trim_value E (jq_html (Some inner)) = str_trim (strip_inline inner)"
  by (simp add: trim_value_def jq_html_def)

lemma add_loaded_overwrite:
  "allowOverwrite p \<Longrightarrow> add_loaded E p ss =
     Done (fold (\<lambda>(k, v). set_template k v)
       (map (\<lambda>(i, inner). (i, str_trim (strip_inline inner))) (filter (\<lambda>(i, _). i \<noteq> []) ss)) p) ()"
  by (induction E p ss rule: add_loaded.induct) (auto simp: add_def)

text \<open>
  loading a file of templates with overwriting allowed always succeeds; afterwards each
  script with an id is registered under it with its trimmed text, the last one where an id
  occurs twice, and every other template is the one it was.
\<close>

theorem load_registers:
  assumes "allowOverwrite p" and "registry_ok p"
  shows "\<exists>q. load_done E p scripts cb = Done q cb \<and> registry_ok q \<and>
    template_named q = template_named p ++
      map_of (rev (map (\<lambda>(i, inner). (i, str_trim (strip_inline inner)))
        (filter (\<lambda>(i, _). i \<noteq> []) scripts)))"
  using assms by (simp add: load_done_def add_loaded_overwrite reg.get_put_many reg.ok_put_many)

theorem load_registers_witness:
  "\<exists>q. load_done bare_env (new_plugin None :: plugin)
        [(''a'', '' x ''), ([], ''y''), (''a'', [CHR 0x0A] @ ''z'')] True = Done q True \<and>
     template_named q ''a'' = Some ''z'' \<and> templates q = [''a'']"
proof -
  have "allowOverwrite (new_plugin None)" "registry_ok (new_plugin None)"
    by (simp_all add: new_plugin_def registry_ok_def)
  from load_registers [OF this, of bare_env "[(''a'', '' x ''), ([], ''y''), (''a'', [CHR 0x0A] @ ''z'')]" True]
  obtain q where q: "load_done bare_env (new_plugin None)
        [(''a'', '' x ''), ([], ''y''), (''a'', [CHR 0x0A] @ ''z'')] True = Done q True"
    and ok: "registry_ok q"
    and t: "template_named q = template_named (new_plugin None) ++
      map_of (rev (map (\<lambda>(i, inner). (i, str_trim (strip_inline inner)))
        (filter (\<lambda>(i, _). i \<noteq> []) [(''a'', '' x ''), ([], ''y''), (''a'', [CHR 0x0A] @ ''z'')])))"
    by blast
  have z: "str_trim (strip_inline ([CHR 0x0A] @ ''z'')) = ''z''"
    by (simp add: inline_match_def str_trim_def is_ws_def)
  have d: "dom (template_named q) = {''a''}"
    unfolding t by (auto simp: template_named_def new_plugin_def dom_def)
  have "set (templates q) = {''a''}" "distinct (templates q)"
    using reg.names_dom [of q] reg.names_distinct [OF ok] d by simp_all
  then have "templates q = [''a'']"
    by (metis distinct_card card_1_singletonE One_nat_def card.empty card.insert empty_iff
        finite.emptyI length_0_conv length_Suc_conv list.set_intros(1) singletonD)
  moreover have "template_named q ''a'' = Some ''z''" unfolding t using z by simp
  ultimately show ?thesis using q by blast
qed

lemma add_each_overwrite:
  "allowOverwrite p \<Longrightarrow> add_each E D p is =
     Done (fold (\<lambda>(k, v). set_template k v)
       (map (\<lambda>i. (i, case inner_html D i of
           Some inner \<Rightarrow> str_trim (strip_inline inner) | None \<Rightarrow> [])) is) p) ()"
  by (induction E D p "is" rule: add_each.induct)
    (auto simp: add_def Let_def jq_html_def trim_value_def split: option.splits)

text \<open>
  \<open>addFromDom\<close> never reports a missing element: for every id it registers the trimmed inner
  HTML of that element, and for an id no element has the empty template, because \<open>html()\<close>
  returns \<open>null\<close> where the plugin tests for \<open>undefined\<close>.
\<close>

theorem addFromDom_missing_element:
  assumes "allowOverwrite p" and "ids \<noteq> []"
  shows "\<exists>q. addFromDom E D p ids = Done q () \<and>
    template_named q = template_named p ++
      map_of (rev (map (\<lambda>i. (i, case inner_html D i of
        Some inner \<Rightarrow> str_trim (strip_inline inner) | None \<Rightarrow> [])) ids))"
  using assms by (simp add: addFromDom_def add_each_overwrite reg.get_put_many)

theorem addFromDom_missing_element_witness:
  "\<exists>q. addFromDom bare_env \<lparr>body_scripts = [], inner_html = Map.empty\<rparr> (new_plugin None) [''gone'']
      = Done q () \<and> template_named q ''gone'' = Some []"
  using addFromDom_missing_element
    [of "new_plugin None" "[''gone'']" bare_env "\<lparr>body_scripts = [], inner_html = Map.empty\<rparr>"]
  by (auto simp: new_plugin_def)

text \<open>
  a first use before the library has loaded disables the plugin for good: \<open>instance\<close> is left
  \<open>undefined\<close>, which is not \<open>null\<close>, so after the library has loaded every call still fails, and
  no longer with the message that says why.
\<close>

theorem early_use_is_permanent:
  assumes "instance_of p = INull" and "mustache_lib p = None"
  shows "\<exists>q. clear p = Raised q
      (ErrorMsg ''Failed to locate Mustache instance, are you sure it has been loaded?'') \<and>
    (\<forall>w. clear (q\<lparr>mustache_lib := Some w\<rparr>) = Raised (q\<lparr>mustache_lib := Some w\<rparr>) TypeError)"
  using assms by (simp add: clear_def call_library_def getMustache_def Let_def)

theorem early_use_is_permanent_witness:
  "\<exists>q. clear (new_plugin None) = Raised q
      (ErrorMsg ''Failed to locate Mustache instance, are you sure it has been loaded?'') \<and>
     clear (q\<lparr>mustache_lib := Some new_Writer\<rparr>) = Raised (q\<lparr>mustache_lib := Some new_Writer\<rparr>) TypeError"
  using early_use_is_permanent [of "new_plugin None"] by (auto simp: new_plugin_def)

subsection \<open>A template that does not parse\<close>

lemma compile_bad:
  "writer_ok w \<Longrightarrow> parse T None = Inl e \<Longrightarrow> compile E w T None \<noteq> Ok r"
  by (auto simp: compile_def writer_ok_def memo_consistent_def made_by_def split: option.splits)

lemma compile_table_bad:
  "writer_ok w \<Longrightarrow> (nm, T) \<in> set ps \<Longrightarrow> parse T None = Inl e \<Longrightarrow> compile_table E w ps \<noteq> Ok w'"
proof (induction E w ps rule: compile_table.induct)
  case (2 E w name tpl ps)
  show ?case
  proof
    assume "compile_table E w ((name, tpl) # ps) = Ok w'"
    then obtain w1 fn where c: "compilePartial E w name tpl None = Ok (w1, fn)"
      and r: "compile_table E w1 ps = Ok w'"
      by (auto simp: bindO_eq_Ok)
    from c obtain r0 where "compile E w tpl None = Ok r0"
      by (auto simp: compilePartial_def bindO_eq_Ok)
    with compile_bad [OF "2.prems"(1,3)] have "tpl \<noteq> T" by blast
    with "2.prems"(2) have "(nm, T) \<in> set ps" by auto
    from "2.IH" [OF c refl compilePartial_ok [OF c "2.prems"(1)] this "2.prems"(3)] r
    show False by simp
  qed
qed simp

lemma bindO_not_Ok: "(\<And>a. m \<noteq> Ok a) \<Longrightarrow> bindO m k \<noteq> Ok b"
  by (simp add: bindO_eq_Ok)

text \<open>
  one registered template with a syntax error makes the plugin unusable: \<open>render\<close> hands the
  whole registry to \<open>to_html\<close>, which compiles every entry, so no registered template renders any
  more, whether or not it refers to the broken one.
\<close>

theorem broken_template_blocks_rendering:
  assumes "template_named p bad = Some T" and "parse T None = Inl e"
    and "mustache_lib p = Some w" and "writer_ok w" and "template_named p name = Some T'"
  shows "render_template H n p name data \<noteq> Done q r"
proof -
  have bad: "(bad, T) \<in> set (templateMap p)"
    using assms(1) by (simp add: template_named_def map_of_SomeD)
  have "render H n w T' data (Table (templateMap p)) \<noteq> Ok x" for x
  proof
    assume "render H n w T' data (Table (templateMap p)) = Ok x"
    then obtain w1 fn w2 where "compile (page H) w T' None = Ok (w1, fn)"
      and t: "compile_table (page H) w1 (templateMap p) = Ok w2"
      by (auto simp: render_def bindO_eq_Ok)
    with assms(4) have "writer_ok w1" using compile_ok by blast
    from compile_table_bad [OF this bad assms(2)] t show False by blast
  qed
  then have "to_html H n w T' data (Table (templateMap p)) False \<noteq> Ok x" for x
    unfolding to_html_def by (rule bindO_not_Ok)
  then show ?thesis
    using assms(3,5)
    by (cases "instance_of p")
      (auto simp: render_template_def has_def call_library_def getMustache_def split: outcome.splits)
qed

lemma parse_unclosed: "parse ''{{#a}}'' None = Inl (ErrorMsg ''Unclosed section: a'')"
  by code_simp

theorem broken_template_blocks_rendering_witness:
  "render_template demo_host 0
     (set_template ''ok'' ''hi'' (set_template ''bad'' ''{{#a}}'' (new_plugin (Some new_Writer))))
     ''ok'' (Plain Null) \<noteq> Done (new_plugin None) ''hi''"
proof -
  let ?p = "set_template ''ok'' ''hi'' (set_template ''bad'' ''{{#a}}'' (new_plugin (Some new_Writer)))"
  have "template_named ?p ''bad'' = Some ''{{#a}}''" "template_named ?p ''ok'' = Some ''hi''"
    "mustache_lib ?p = Some new_Writer"
    by (simp_all add: reg.get_put new_plugin_def)
  from broken_template_blocks_rendering [OF this(1) parse_unclosed this(3) writer_ok_new this(2)]
  show ?thesis .
qed

section \<open>Reachable states\<close>

text \<open>
  What a page can do with the plugin, in any order: each operation of its interface, whether it
  returns or throws, a change of its options, and the loading of \<open>mustache.js\<close>. A step out of
  which the library threw leaves no known state and is the end of the run.
\<close>

inductive ended_in :: "'a ended \<Rightarrow> plugin \<Rightarrow> bool" where
  returns: "ended_in (Done q a) q"
| throws: "ended_in (Raised q e) q"

inductive_simps ended_in_simps [simp]:
  "ended_in (Done p a) q" "ended_in (Raised p e) q" "ended_in (RaisedInMustache e) q"
  "ended_in Escaped q" "ended_in Running q"

inductive plugin_step :: "'f host \<Rightarrow> plugin \<Rightarrow> plugin \<Rightarrow> bool" for H where
  do_add: "ended_in (add (page H) p name html) q \<Longrightarrow> plugin_step H p q"
| do_addFromDom: "ended_in (addFromDom (page H) D p ids) q \<Longrightarrow> plugin_step H p q"
| do_load: "ended_in (load_done (page H) p scripts cb) q \<Longrightarrow> plugin_step H p q"
| do_remove: "plugin_step H p (fst (remove p name))"
| do_clear: "ended_in (clear p) q \<Longrightarrow> plugin_step H p q"
| do_mustache: "ended_in (fn_mustache H n is_method p elems name data meth) q \<Longrightarrow> plugin_step H p q"
| do_options: "plugin_step H p (p\<lparr>warnOnMissingTemplates := a, allowOverwrite := b, domTemplateType := c\<rparr>)"
| do_script: "mustache_lib p = None \<Longrightarrow> plugin_step H p (p\<lparr>mustache_lib := Some new_Writer\<rparr>)"

definition plugin_ok :: "plugin \<Rightarrow> bool" where
  "plugin_ok p \<longleftrightarrow> registry_ok p \<and> (\<forall>w. mustache_lib p = Some w \<longrightarrow> writer_ok w) \<and>
     (instance_of p = IMustache \<longrightarrow> mustache_lib p \<noteq> None)"

lemma plugin_ok_set [wf_intros]: "plugin_ok p \<Longrightarrow> plugin_ok (set_template n T p)"
  using reg.ok_put by (simp add: plugin_ok_def)

lemma plugin_ok_andThen:
  assumes "ended_in (andThen m k) q" and "\<And>q. ended_in m q \<Longrightarrow> plugin_ok q"
    and "\<And>p a. m = Done p a \<Longrightarrow> plugin_ok p \<Longrightarrow> ended_in (k p a) q \<Longrightarrow> plugin_ok q"
  shows "plugin_ok q"
  using assms by (cases m) auto

lemma add_keeps [wf_intros]: "ended_in (add E p name html) q \<Longrightarrow> plugin_ok p \<Longrightarrow> plugin_ok q"
  by (auto simp: add_def split: if_splits intro: wf_intros)

lemma add_each_keeps: "ended_in (add_each E D p is) q \<Longrightarrow> plugin_ok p \<Longrightarrow> plugin_ok q"
proof (induction E D p "is" rule: add_each.induct)
  case (2 E D p i "is")
  from "2.prems"(1) show ?case unfolding add_each.simps Let_def
    by (rule plugin_ok_andThen) (use 2 in \<open>auto split: if_splits intro: add_keeps\<close>)
qed simp

lemma add_loaded_keeps: "ended_in (add_loaded E p ss) q \<Longrightarrow> plugin_ok p \<Longrightarrow> plugin_ok q"
proof (induction E p ss rule: add_loaded.induct)
  case (2 E p i inner ss)
  from "2.prems"(1) show ?case unfolding add_loaded.simps
    by (rule plugin_ok_andThen) (use 2 in \<open>auto split: if_splits intro: add_keeps\<close>)
qed simp

lemma registry_ok_frame [simp]:
  "registry_ok (p\<lparr>instance_of := i\<rparr>) = registry_ok p"
  "registry_ok (p\<lparr>mustache_lib := l\<rparr>) = registry_ok p"
  by (simp_all add: registry_ok_def)

lemma call_library_keeps:
  assumes "ended_in (call_library p k) q" and "plugin_ok p"
    and "\<And>q' w. plugin_ok q' \<Longrightarrow> mustache_lib q' = Some w \<Longrightarrow> ended_in (k q' w) q \<Longrightarrow> plugin_ok q"
  shows "plugin_ok q"
proof -
  have n: "plugin_ok (p\<lparr>instance_of := i\<rparr>)" if "i \<noteq> IMustache \<or> mustache_lib p \<noteq> None" for i
    using assms(2) that by (auto simp: plugin_ok_def)
  show ?thesis
  proof (cases "instance_of p")
    case INull
    show ?thesis
    proof (cases "mustache_lib p")
      case None
      with assms(1) INull n [of IUndefined] show ?thesis
        by (auto simp: call_library_def getMustache_def)
    next
      case (Some w)
      then show ?thesis
        using assms(1) assms(3) [OF n [of IMustache]] INull
        by (auto simp: call_library_def getMustache_def)
    qed
  next
    case IUndefined
    with assms(1,2) show ?thesis by (auto simp: call_library_def getMustache_def)
  next
    case IMustache
    with assms(1,2) assms(3) [OF assms(2)] show ?thesis
      by (auto simp: call_library_def getMustache_def split: option.splits)
  qed
qed

lemma render_template_keeps:
  assumes "ended_in (render_template H n p name data) q" and "plugin_ok p"
  shows "plugin_ok q"
proof (cases "has (page H) p name")
  case True
  with assms(1) have "ended_in (call_library p (\<lambda>q w.
        case template_named q name of
          None \<Rightarrow> Escaped
        | Some T \<Rightarrow>
            (case to_html H n w T data (Table (templateMap q)) False of
               Ok (w', d) \<Rightarrow> Done (q\<lparr>mustache_lib := Some w'\<rparr>) (case returned d of Some r \<Rightarrow> r | None \<Rightarrow> [])
             | Throw e \<Rightarrow> RaisedInMustache e
             | Foreign \<Rightarrow> Escaped
             | NoFuel \<Rightarrow> Running))) q"
    by (simp add: render_template_def)
  from this assms(2) show ?thesis
  proof (rule call_library_keeps)
    fix q' w
    assume ok: "plugin_ok q'" "mustache_lib q' = Some w"
      and e: "ended_in (case template_named q' name of
          None \<Rightarrow> Escaped
        | Some T \<Rightarrow>
            (case to_html H n w T data (Table (templateMap q')) False of
               Ok (w', d) \<Rightarrow> Done (q'\<lparr>mustache_lib := Some w'\<rparr>) (case returned d of Some r \<Rightarrow> r | None \<Rightarrow> [])
             | Throw e \<Rightarrow> RaisedInMustache e
             | Foreign \<Rightarrow> Escaped
             | NoFuel \<Rightarrow> Running)) q"
    then obtain T w' d where T: "to_html H n w T data (Table (templateMap q')) False = Ok (w', d)"
      and q: "q = q'\<lparr>mustache_lib := Some w'\<rparr>"
      by (auto split: option.splits outcome.splits prod.splits)
    from ok have "writer_ok w" by (simp add: plugin_ok_def)
    with T have "writer_ok w'" by (auto simp: to_html_def bindO_eq_Ok intro: render_keeps_writer)
    with ok show "plugin_ok q" by (simp add: plugin_ok_def q)
  qed
next
  case False
  with assms show ?thesis by (auto simp: render_template_def split: if_splits)
qed

lemma render_models_keeps:
  "ended_in (render_models H n is_method meth name p evs) q \<Longrightarrow> plugin_ok p \<Longrightarrow> plugin_ok q"
proof (induction H n is_method meth name p evs arbitrary: q rule: render_models.induct)
  case (2 H n is_method meth name p e v evs)
  from "2.prems"(1) show ?case unfolding render_models.simps
  proof (rule plugin_ok_andThen)
    fix p' a
    assume m: "render_template H n p name (Plain v) = Done p' a" "plugin_ok p'"
      and k: "ended_in (if \<not> is_method meth then Raised p' TypeError
       else andThen (render_models H n is_method meth name p' evs) (\<lambda>q' log. Done q' ((e, meth, a) # log))) q"
    show "plugin_ok q"
    proof (cases "is_method meth")
      case True
      with k have "ended_in (andThen (render_models H n is_method meth name p' evs)
          (\<lambda>q' log. Done q' ((e, meth, a) # log))) q" by simp
      then show ?thesis
        by (rule plugin_ok_andThen) (use "2.IH" m True in auto)
    qed (use k m in simp)
  qed (use "2.prems"(2) render_template_keeps in blast)
qed simp

lemma clear_keeps: "ended_in (clear p) q \<Longrightarrow> plugin_ok p \<Longrightarrow> plugin_ok q"
  unfolding clear_def Let_def
  by (erule call_library_keeps)
    (auto simp: plugin_ok_def registry_ok_def intro: writer_ok_clear)

lemma plugin_step_ok: "plugin_step H p q \<Longrightarrow> plugin_ok p \<Longrightarrow> plugin_ok q"
proof (induction rule: plugin_step.induct)
  case (do_load p scripts cb q)
  from do_load(1) show ?case unfolding load_done_def
    by (rule plugin_ok_andThen) (use do_load(2) add_loaded_keeps in auto)
next
  case (do_remove p name)
  then show ?case using reg.ok_del [of p name]
    by (simp add: remove_def plugin_ok_def) (simp add: delete_template_def)
qed (auto simp: addFromDom_def fn_mustache_def plugin_ok_def registry_ok_def writer_ok_new
    dest: add_keeps add_each_keeps clear_keeps render_models_keeps)



end
