(* ===== verification/Json2.thy ===== *)
theory Json2
  imports JS_Prelude "HOL-Library.Word"
begin

text \<open>
  \<open>json2.js\<close>: \<open>JSON.stringify\<close> and \<open>JSON.parse\<close>.

  Strings are lists of 16-bit code units here, because the escaping rules speak of units above
  255. A finite number is a sign, its shortest decimal digits and the position of the decimal
  point, which is what the language's conversion of a number to a string starts from. The
  functions a page supplies (\<open>toJSON\<close> methods, replacer, reviver) are parameters and take
  part as functions of their arguments. A \<open>toJSON\<close> or a replacer may return ever larger values,
  so \<open>str\<close> takes fuel.
\<close>

section \<open>Code units\<close>

type_synonym unit16 = "16 word"
type_synonym ustr = "unit16 list"

definition lit :: "string \<Rightarrow> ustr" where
  "lit s = map (\<lambda>c. of_nat (of_char c)) s"

lemma lit_simps [simp]: "lit [] = []" "lit (c # s) = of_nat (of_char c) # lit s"
  by (simp_all add: lit_def)

definition in_ranges :: "(nat \<times> nat) list \<Rightarrow> unit16 \<Rightarrow> bool" where
  "in_ranges rs u \<longleftrightarrow> (\<exists>(a, b) \<in> set rs. a \<le> unat u \<and> unat u \<le> b)"

text \<open>The character classes \<open>cx\<close> and \<open>escapable\<close>, and the class \<open>\s\<close> of the language.\<close>

definition format_ranges :: "(nat \<times> nat) list" where
  "format_ranges =
     [(0x00ad, 0x00ad), (0x0600, 0x0604), (0x070f, 0x070f), (0x17b4, 0x17b4), (0x17b5, 0x17b5),
      (0x200c, 0x200f), (0x2028, 0x202f), (0x2060, 0x206f), (0xfeff, 0xfeff), (0xfff0, 0xffff)]"

definition cx :: "unit16 \<Rightarrow> bool" where
  "cx = in_ranges ((0, 0) # format_ranges)"

definition escapable :: "unit16 \<Rightarrow> bool" where
  "escapable = in_ranges ((92, 92) # (34, 34) # (0, 0x1f) # (0x7f, 0x9f) # format_ranges)"

definition uspace :: "unit16 \<Rightarrow> bool" where
  "uspace = in_ranges [(9, 13), (32, 32), (160, 160), (0x1680, 0x1680), (0x180e, 0x180e),
     (0x2000, 0x200a), (0x2028, 0x2029), (0x202f, 0x202f), (0x205f, 0x205f), (0x3000, 0x3000),
     (0xfeff, 0xfeff)]"

definition udigit :: "unit16 \<Rightarrow> bool" where
  "udigit = in_ranges [(48, 57)]"

definition uhex :: "unit16 \<Rightarrow> bool" where
  "uhex = in_ranges [(48, 57), (97, 102), (65, 70)]"

section \<open>Values\<close>

datatype jnum = Fin bool "nat list" int | NaN | Infty bool

text \<open>The UTC fields of a date; a date whose time value is not finite is invalid.\<close>

record date =
  d_finite :: bool
  d_year :: int
  d_month :: nat
  d_day :: nat
  d_hours :: nat
  d_minutes :: nat
  d_seconds :: nat

datatype 'f jval =
    JUndef
  | JNull
  | JBool bool
  | JNum jnum
  | JStr ustr
  | JArr "'f jval list"
  | JObj "(ustr \<times> 'f jval) list"
  | JDate date
  | JFun 'f

datatype jkey = KName ustr | KIndex nat

record 'f jenv =
  call_toJSON :: "'f \<Rightarrow> 'f jval \<Rightarrow> jkey \<Rightarrow> 'f jval"
  call_replacer :: "'f \<Rightarrow> 'f jval \<Rightarrow> jkey \<Rightarrow> 'f jval \<Rightarrow> 'f jval"
  call_reviver :: "'f \<Rightarrow> 'f jval \<Rightarrow> ustr \<Rightarrow> 'f jval \<Rightarrow> 'f jval"

subsection \<open>Conversion of numbers to strings\<close>

definition unit_of_digit :: "nat \<Rightarrow> unit16" where
  "unit_of_digit d = of_nat (48 + d)"

definition zeros :: "nat \<Rightarrow> ustr" where
  "zeros n = replicate n 48"

definition dec_units :: "nat \<Rightarrow> ustr" where
  "dec_units n = lit (dec_nat n)"

definition num_units :: "jnum \<Rightarrow> ustr" where
  "num_units x =
     (case x of
        NaN \<Rightarrow> lit ''NaN''
      | Infty neg \<Rightarrow> (if neg then lit ''-Infinity'' else lit ''Infinity'')
      | Fin neg ds p \<Rightarrow>
          (if ds = [] then [48]
           else (if neg then [45] else []) @
             (let us = map unit_of_digit ds; k = int (length ds) in
              if k \<le> p \<and> p \<le> 21 then us @ zeros (nat (p - k))
              else if 0 < p \<and> p \<le> 21 then take (nat p) us @ [46] @ drop (nat p) us
              else if - 6 < p \<and> p \<le> 0 then [48, 46] @ zeros (nat (- p)) @ us
              else (if k = 1 then us else take 1 us @ [46] @ drop 1 us) @ [101] @
                (if p - 1 < 0 then [45] else [43]) @ dec_units (nat \<bar>p - 1\<bar>))))"

text \<open>How many of 0, 1, 2, ... are below the number; \<open>None\<close> when all are.\<close>

fun digits_val :: "nat \<Rightarrow> nat list \<Rightarrow> nat" where
  "digits_val acc [] = acc"
| "digits_val acc (d # ds) = digits_val (10 * acc + d) ds"

definition count_below :: "jnum \<Rightarrow> nat option" where
  "count_below x =
     (case x of
        NaN \<Rightarrow> Some 0
      | Infty neg \<Rightarrow> (if neg then Some 0 else None)
      | Fin neg ds p \<Rightarrow>
          (if neg then Some 0
           else let s = digits_val 0 ds; e = p - int (length ds) in
             if 0 \<le> e then Some (s * 10 ^ nat e)
             else let q = 10 ^ nat (- e) in Some ((s + q - 1) div q)))"

section \<open>\<open>quote\<close>\<close>

definition hex_unit :: "nat \<Rightarrow> unit16" where
  "hex_unit d = of_nat (if d < 10 then 48 + d else 87 + d)"

function hex_nat :: "nat \<Rightarrow> ustr" where
  "hex_nat n = (if n < 16 then [hex_unit n] else hex_nat (n div 16) @ [hex_unit (n mod 16)])"
  by pat_completeness auto
termination
  by (relation "measure id") auto

declare hex_nat.simps [simp del]

text \<open>\<open>'\\u' + ('0000' + a.charCodeAt(0).toString(16)).slice(-4)\<close>\<close>

definition u_escape :: "unit16 \<Rightarrow> ustr" where
  "u_escape a = [92, 117] @ (let s = zeros 4 @ hex_nat (unat a) in drop (length s - 4) s)"

definition meta :: "unit16 \<Rightarrow> ustr option" where
  "meta a = map_of [(8, [92, 98]), (9, [92, 116]), (10, [92, 110]), (12, [92, 102]),
     (13, [92, 114]), (34, [92, 34]), (92, [92, 92])] a"

definition escape_unit :: "unit16 \<Rightarrow> ustr" where
  "escape_unit a =
     (if escapable a then (case meta a of Some c \<Rightarrow> c | None \<Rightarrow> u_escape a) else [a])"

definition quote :: "ustr \<Rightarrow> ustr" where
  "quote s =
     (if \<exists>a \<in> set s. escapable a then [34] @ concat (map escape_unit s) @ [34]
      else [34] @ s @ [34])"

section \<open>\<open>toJSON\<close>\<close>

text \<open>\<open>f\<close>: at least two digits.\<close>

definition f_two :: "nat \<Rightarrow> ustr" where
  "f_two n = (if n < 10 then [48] @ dec_units n else dec_units n)"

definition int_units :: "int \<Rightarrow> ustr" where
  "int_units n = lit (dec_int n)"

definition date_toJSON :: "date \<Rightarrow> 'f jval" where
  "date_toJSON d =
     (if d_finite d then
        JStr (int_units (d_year d) @ [45] @ f_two (d_month d + 1) @ [45] @ f_two (d_day d) @ [84] @
          f_two (d_hours d) @ [58] @ f_two (d_minutes d) @ [58] @ f_two (d_seconds d) @ [90])
      else JNull)"

text \<open>
  \<open>value && typeof value === 'object' && typeof value.toJSON === 'function'\<close>, and the call.
\<close>

definition apply_toJSON :: "'f jenv \<Rightarrow> jkey \<Rightarrow> 'f jval \<Rightarrow> 'f jval" where
  "apply_toJSON E key value =
     (case value of
        JObj ps \<Rightarrow> (case map_of ps (lit ''toJSON'') of
                      Some (JFun g) \<Rightarrow> call_toJSON E g value key | _ \<Rightarrow> value)
      | JDate d \<Rightarrow> date_toJSON d
      | _ \<Rightarrow> value)"

section \<open>\<open>str\<close>\<close>

text \<open>
  The variable \<open>rep\<close>, once \<open>stringify\<close> has checked the replacer; \<open>RepEndless\<close> is an object
  whose \<open>length\<close> is infinite.
\<close>

datatype 'f replacer = NoRep | RepFn 'f | RepKeys "'f jval list" | RepEndless

definition get_key :: "'f jval \<Rightarrow> jkey \<Rightarrow> 'f jval" where
  "get_key holder key =
     (case (holder, key) of
        (JObj ps, KName k) \<Rightarrow> (case map_of ps k of Some v \<Rightarrow> v | None \<Rightarrow> JUndef)
      | (JArr xs, KIndex i) \<Rightarrow> (if i < length xs then xs ! i else JUndef)
      | _ \<Rightarrow> JUndef)"

text \<open>
  A call of \<open>str\<close> from the value of \<open>gap\<close> at the call: \<open>None\<close> when the fuel ran out, otherwise
  the value of \<open>gap\<close> afterwards and the text, \<open>None\<close> for \<open>undefined\<close>.
\<close>

type_synonym 'f str_call = "ustr \<Rightarrow> jkey \<Rightarrow> 'f jval \<Rightarrow> (ustr \<times> ustr option) option"

fun str_elems :: "'f str_call \<Rightarrow> ustr \<Rightarrow> 'f jval \<Rightarrow> nat list \<Rightarrow> (ustr \<times> ustr list) option" where
  "str_elems call gap value [] = Some (gap, [])"
| "str_elems call gap value (i # is) =
     Option.bind (call gap (KIndex i) value) (\<lambda>(g1, r).
     Option.bind (str_elems call g1 value is) (\<lambda>(g2, ps).
       Some (g2, (case r of Some (c # t) \<Rightarrow> c # t | _ \<Rightarrow> lit ''null'') # ps)))"

fun str_members :: "'f str_call \<Rightarrow> ustr \<Rightarrow> 'f jval \<Rightarrow> ustr list \<Rightarrow> (ustr \<times> ustr list) option" where
  "str_members call gap value [] = Some (gap, [])"
| "str_members call gap value (k # ks) =
     Option.bind (call gap (KName k) value) (\<lambda>(g1, r).
     Option.bind (str_members call g1 value ks) (\<lambda>(g2, ps).
       Some (g2, (case r of
           Some (c # t) \<Rightarrow> (quote k @ (if g1 \<noteq> [] then [58, 32] else [58]) @ c # t) # ps
         | _ \<Rightarrow> ps))))"

text \<open>Brackets around the partial results, with line breaks when there is a gap.\<close>

definition wrap :: "unit16 \<Rightarrow> unit16 \<Rightarrow> ustr \<Rightarrow> ustr \<Rightarrow> ustr list \<Rightarrow> ustr" where
  "wrap l r gap mind ps =
     (if ps = [] then [l, r]
      else if gap \<noteq> [] then [l, 10] @ gap @ join ([44, 10] @ gap) ps @ [10] @ mind @ [r]
      else [l] @ join [44] ps @ [r])"

fun string_keys :: "'f jval list \<Rightarrow> ustr list" where
  "string_keys [] = []"
| "string_keys (JStr k # xs) = k # string_keys xs"
| "string_keys (_ # xs) = string_keys xs"

definition member_keys :: "'f replacer \<Rightarrow> 'f jval \<Rightarrow> ustr list option" where
  "member_keys rep value =
     (case rep of
        RepKeys xs \<Rightarrow> Some (string_keys xs)
      | RepEndless \<Rightarrow> None
      | _ \<Rightarrow> Some (case value of JObj ps \<Rightarrow> map fst ps | _ \<Rightarrow> []))"

fun str :: "'f jenv \<Rightarrow> 'f replacer \<Rightarrow> ustr \<Rightarrow> nat \<Rightarrow> 'f str_call" where
  "str E rep indent 0 gap key holder = None"
| "str E rep indent (Suc n) gap key holder =
     (let mind = gap;
          value0 = apply_toJSON E key (get_key holder key);
          value = (case rep of RepFn g \<Rightarrow> call_replacer E g holder key value0 | _ \<Rightarrow> value0)
      in case value of
           JStr s \<Rightarrow> Some (gap, Some (quote s))
         | JNum x \<Rightarrow> Some (gap, Some (case x of Fin neg ds p \<Rightarrow> num_units x | _ \<Rightarrow> lit ''null''))
         | JBool b \<Rightarrow> Some (gap, Some (if b then lit ''true'' else lit ''false''))
         | JNull \<Rightarrow> Some (gap, Some (lit ''null''))
         | JArr xs \<Rightarrow>
             Option.bind (str_elems (str E rep indent n) (gap @ indent) value [0..<length xs])
               (\<lambda>(g, ps). Some (mind, Some (wrap 91 93 g mind ps)))
         | JUndef \<Rightarrow> Some (gap, None)
         | JFun g \<Rightarrow> Some (gap, None)
         | _ \<Rightarrow>
             Option.bind (member_keys rep value) (\<lambda>ks.
             Option.bind (str_members (str E rep indent n) (gap @ indent) value ks)
               (\<lambda>(g, ps). Some (mind, Some (wrap 123 125 g mind ps)))))"

section \<open>\<open>stringify\<close>\<close>

datatype 'a jresult = Returns 'a | Throws js_error | NoReturn

text \<open>
  The check of the replacer: a function, or an object with a numeric \<open>length\<close> whose elements
  are then read by index. A value that is not truthy counts as none.
\<close>

fun falsy :: "'f jval \<Rightarrow> bool" where
  "falsy JUndef = True"
| "falsy JNull = True"
| "falsy (JBool b) = (\<not> b)"
| "falsy (JNum (Fin neg ds p)) = (ds = [])"
| "falsy (JNum NaN) = True"
| "falsy (JNum (Infty neg)) = False"
| "falsy (JStr s) = (s = [])"
| "falsy (JArr xs) = False"
| "falsy (JObj ps) = False"
| "falsy (JDate d) = False"
| "falsy (JFun g) = False"

definition check_replacer :: "'f jval \<Rightarrow> 'f replacer throws" where
  "check_replacer r =
     (if falsy r then Inr NoRep
      else case r of
        JFun g \<Rightarrow> Inr (RepFn g)
      | JArr xs \<Rightarrow> Inr (RepKeys xs)
      | JObj ps \<Rightarrow> (case map_of ps (lit ''length'') of
          Some (JNum x) \<Rightarrow> (case count_below x of
              Some n \<Rightarrow> Inr (RepKeys (map (\<lambda>i. get_key r (KName (dec_units i))) [0..<n]))
            | None \<Rightarrow> Inr RepEndless)
        | _ \<Rightarrow> Inl (ErrorMsg ''JSON.stringify''))
      | _ \<Rightarrow> Inl (ErrorMsg ''JSON.stringify''))"

definition indent_of :: "'f jval \<Rightarrow> ustr option" where
  "indent_of space =
     (case space of
        JNum x \<Rightarrow> map_option (\<lambda>n. replicate n 32) (count_below x)
      | JStr s \<Rightarrow> Some s
      | _ \<Rightarrow> Some [])"

definition stringify ::
  "'f jenv \<Rightarrow> nat \<Rightarrow> 'f jval \<Rightarrow> 'f jval \<Rightarrow> 'f jval \<Rightarrow> ustr option jresult" where
  "stringify E n value replacer space =
     (case indent_of space of
        None \<Rightarrow> NoReturn
      | Some indent \<Rightarrow>
          (case check_replacer replacer of
             Inl e \<Rightarrow> Throws e
           | Inr rep \<Rightarrow>
               (case str E rep indent n [] (KName []) (JObj [([], value)]) of
                  Some (g, r) \<Rightarrow> Returns r
                | None \<Rightarrow> NoReturn)))"

section \<open>\<open>walk\<close>\<close>

text \<open>
  \<open>walk\<close> calls itself on every own property of an object in place, assigning what comes back
  or deleting the property, and then calls the reviver. \<open>mk v\<close> is the object that holds the
  value under \<open>key\<close> when its current state is \<open>v\<close>: the reviver sees there what has been
  assigned so far. A deleted array element reads as \<open>undefined\<close>.
\<close>

type_synonym 'f reviver = "'f jval \<Rightarrow> ustr \<Rightarrow> 'f jval \<Rightarrow> 'f jval"

fun walk :: "'f reviver \<Rightarrow> ('f jval \<Rightarrow> 'f jval) \<Rightarrow> ustr \<Rightarrow> 'f jval \<Rightarrow> 'f jval"
  and walk_children :: "'f reviver \<Rightarrow> 'f jval \<Rightarrow> 'f jval"
  and walk_elems :: "'f reviver \<Rightarrow> 'f jval list \<Rightarrow> 'f jval list \<Rightarrow> 'f jval list"
  and walk_members ::
    "'f reviver \<Rightarrow> (ustr \<times> 'f jval) list \<Rightarrow> (ustr \<times> 'f jval) list \<Rightarrow> (ustr \<times> 'f jval) list"
where
  "walk R mk key value = (let value' = walk_children R value in R (mk value') key value')"
| "walk_children R (JArr xs) = JArr (walk_elems R [] xs)"
| "walk_children R (JObj ps) = JObj (walk_members R [] ps)"
| "walk_children R value = value"
| "walk_elems R done [] = done"
| "walk_elems R done (x # xs) =
     walk_elems R
       (done @ [walk R (\<lambda>y. JArr (done @ y # xs)) (dec_units (length done)) x]) xs"
| "walk_members R done [] = done"
| "walk_members R done ((k, x) # ps) =
     (let v = walk R (\<lambda>y. JObj (done @ (k, y) # ps)) k x
      in walk_members R (if v \<noteq> JUndef then done @ [(k, v)] else done) ps)"

section \<open>The check before \<open>eval\<close>\<close>

text \<open>
  \<open>text.replace(re, f)\<close> for a global expression that never matches the empty string: \<open>m\<close>
  gives the length of the match at the front of a text.
\<close>

function replace_all :: "(ustr \<Rightarrow> nat option) \<Rightarrow> (ustr \<Rightarrow> ustr) \<Rightarrow> ustr \<Rightarrow> ustr" where
  "replace_all m f [] = []"
| "replace_all m f (c # s) =
     (case m (c # s) of
        Some (Suc n) \<Rightarrow> f (take (Suc n) (c # s)) @ replace_all m f (drop n s)
      | _ \<Rightarrow> c # replace_all m f s)"
  by pat_completeness auto
termination
  by (relation "measure (\<lambda>(m, f, s). length s)") auto

definition match_cx :: "ustr \<Rightarrow> nat option" where
  "match_cx s = (case s of c # t \<Rightarrow> if cx c then Some 1 else None | [] \<Rightarrow> None)"

text \<open>\<open>/\\(?:["\\\/bfnrt]|u[0-9a-fA-F]{4})/\<close>\<close>

definition simple_escape :: "unit16 \<Rightarrow> bool" where
  "simple_escape u \<longleftrightarrow> u \<in> {34, 92, 47, 98, 102, 110, 114, 116}"

definition match_pair :: "ustr \<Rightarrow> nat option" where
  "match_pair s =
     (case s of
        b # c # t \<Rightarrow>
          (if b \<noteq> 92 then None
           else if simple_escape c then Some 2
           else if c = 117 \<and> 4 \<le> length t \<and> (\<forall>h \<in> set (take 4 t). uhex h) then Some 6
           else None)
      | _ \<Rightarrow> None)"

text \<open>\<open>/"[^"\\\n\r]*"|true|false|null|-?\d+(?:\.\d*)?(?:[eE][+\-]?\d+)?/\<close>\<close>

definition plain_unit :: "unit16 \<Rightarrow> bool" where
  "plain_unit u \<longleftrightarrow> u \<notin> {34, 92, 10, 13}"

definition match_string :: "ustr \<Rightarrow> nat option" where
  "match_string s =
     (case s of
        c # t \<Rightarrow>
          (let b = takeWhile plain_unit t in
           if c = 34 \<and> take 1 (drop (length b) t) = [34] then Some (length b + 2) else None)
      | [] \<Rightarrow> None)"

definition match_word :: "string \<Rightarrow> ustr \<Rightarrow> nat option" where
  "match_word w s = (if take (length w) s = lit w then Some (length w) else None)"

definition digits_at :: "ustr \<Rightarrow> nat" where
  "digits_at s = length (takeWhile udigit s)"

definition fraction_at :: "ustr \<Rightarrow> nat" where
  "fraction_at s = (if take 1 s = [46] then 1 + digits_at (drop 1 s) else 0)"

definition exponent_at :: "ustr \<Rightarrow> nat" where
  "exponent_at s =
     (if take 1 s = [101] \<or> take 1 s = [69] then
        (let r = drop 1 s; sg = (if take 1 r = [43] \<or> take 1 r = [45] then 1 else 0);
             n = digits_at (drop sg r)
         in if n = 0 then 0 else 1 + sg + n)
      else 0)"

definition match_number :: "ustr \<Rightarrow> nat option" where
  "match_number s =
     (let sg = (if take 1 s = [45] then 1 else 0); a = digits_at (drop sg s);
          b = fraction_at (drop (sg + a) s); c = exponent_at (drop (sg + a + b) s)
      in if a = 0 then None else Some (sg + a + b + c))"

fun first_match :: "(ustr \<Rightarrow> nat option) list \<Rightarrow> ustr \<Rightarrow> nat option" where
  "first_match [] s = None"
| "first_match (m # ms) s = (case m s of Some n \<Rightarrow> Some n | None \<Rightarrow> first_match ms s)"

definition match_value :: "ustr \<Rightarrow> nat option" where
  "match_value = first_match
     [match_string, match_word ''true'', match_word ''false'', match_word ''null'', match_number]"

text \<open>
  \<open>/(?:^|:|,)(?:\s*\[)+/\<close>: the length of \<open>(?:\s*\[)*\<close> at the front, and the two places the
  expression can match at.
\<close>

function brackets_at :: "ustr \<Rightarrow> nat" where
  "brackets_at s =
     (let w = length (takeWhile uspace s) in
      if take 1 (drop w s) = [91] then w + 1 + brackets_at (drop (w + 1) s) else 0)"
  by pat_completeness auto
termination
proof (relation "measure length")
  fix s :: ustr and w
  assume "w = length (takeWhile uspace s)" "take 1 (drop w s) = [91]"
  then show "(drop (w + 1) s, s) \<in> measure length" by (cases s) auto
qed simp

declare brackets_at.simps [simp del]

definition match_open :: "ustr \<Rightarrow> nat option" where
  "match_open s =
     (case s of
        c # t \<Rightarrow> (if (c = 58 \<or> c = 44) \<and> brackets_at t \<noteq> 0 then Some (1 + brackets_at t) else None)
      | [] \<Rightarrow> None)"

definition strip_open :: "ustr \<Rightarrow> ustr" where
  "strip_open s = replace_all match_open (\<lambda>_. []) (drop (brackets_at s) s)"

definition structural :: "unit16 \<Rightarrow> bool" where
  "structural u \<longleftrightarrow> u \<in> {93, 44, 58, 123, 125} \<or> uspace u"

definition gate :: "ustr \<Rightarrow> bool" where
  "gate text \<longleftrightarrow>
     list_all structural
       (strip_open (replace_all match_value (\<lambda>_. [93]) (replace_all match_pair (\<lambda>_. [64]) text)))"

section \<open>\<open>parse\<close>\<close>

definition guard_text :: "ustr \<Rightarrow> ustr" where
  "guard_text text =
     (if \<exists>a \<in> set text. cx a
      then replace_all match_cx (\<lambda>a. u_escape (hd a)) text else text)"

text \<open>
  \<open>eval\<close> is a parameter; \<open>reviver\<close> is \<open>None\<close> unless it is a function. The argument \<open>text\<close> is
  the string it converts to.
\<close>

definition parse_json ::
  "'f jenv \<Rightarrow> (ustr \<Rightarrow> 'f jval throws) \<Rightarrow> ustr \<Rightarrow> 'f option \<Rightarrow> 'f jval throws" where
  "parse_json E eval text reviver =
     (let text = guard_text text in
      if gate text then
        bindE (eval ([40] @ text @ [41])) (\<lambda>j.
          Inr (case reviver of
                 Some g \<Rightarrow> walk (call_reviver E g) (\<lambda>v. JObj [([], v)]) [] j
               | None \<Rightarrow> j))
      else Inl (SyntaxError ''JSON.parse''))"

end
