(* ===== verification/Json2_Print.thy ===== *)
theory Json2_Print
  imports Json2
begin

text \<open>
  What \<open>JSON.stringify\<close> writes: a document type for what JSON can express, the printer that is
  the specification of the text, and the proof that \<open>str\<close>, which threads the variable \<open>gap\<close>
  through its recursive calls, implements it.
\<close>

section \<open>Specification\<close>

datatype jdoc =
    DNull
  | DBool bool
  | DNum bool "nat list" int
  | DStr ustr
  | DArr "jdoc list"
  | DObj "(ustr \<times> jdoc) list"

definition colon :: "ustr \<Rightarrow> ustr" where
  "colon gap = (if gap \<noteq> [] then [58, 32] else [58])"

fun print_doc :: "ustr \<Rightarrow> ustr \<Rightarrow> jdoc \<Rightarrow> ustr" where
  "print_doc indent gap DNull = lit ''null''"
| "print_doc indent gap (DBool b) = (if b then lit ''true'' else lit ''false'')"
| "print_doc indent gap (DNum neg ds p) = num_units (Fin neg ds p)"
| "print_doc indent gap (DStr s) = quote s"
| "print_doc indent gap (DArr xs) =
     wrap 91 93 (gap @ indent) gap (map (print_doc indent (gap @ indent)) xs)"
| "print_doc indent gap (DObj ps) =
     wrap 123 125 (gap @ indent) gap
       (map (\<lambda>(k, d). quote k @ colon (gap @ indent) @ print_doc indent (gap @ indent) d) ps)"

text \<open>
  The document of a value: functions and \<open>undefined\<close> have none, are dropped from objects and
  become \<open>null\<close> in arrays; with a list of keys, objects show the listed members in its order.
\<close>

definition keep_members :: "ustr list option \<Rightarrow> (ustr \<times> jdoc option) list \<Rightarrow> (ustr \<times> jdoc) list" where
  "keep_members ks ms =
     List.map_filter (\<lambda>k. case map_of ms k of Some (Some d) \<Rightarrow> Some (k, d) | _ \<Rightarrow> None)
       (case ks of None \<Rightarrow> map fst ms | Some l \<Rightarrow> l)"

definition date_doc :: "date \<Rightarrow> jdoc" where
  "date_doc d = (case date_toJSON d :: nat jval of JStr s \<Rightarrow> DStr s | _ \<Rightarrow> DNull)"

fun json_of :: "ustr list option \<Rightarrow> 'f jval \<Rightarrow> jdoc option" where
  "json_of ks JUndef = None"
| "json_of ks JNull = Some DNull"
| "json_of ks (JBool b) = Some (DBool b)"
| "json_of ks (JNum x) = Some (case x of Fin neg ds p \<Rightarrow> DNum neg ds p | _ \<Rightarrow> DNull)"
| "json_of ks (JStr s) = Some (DStr s)"
| "json_of ks (JArr xs) = Some (DArr (map (\<lambda>x. case json_of ks x of Some d \<Rightarrow> d | None \<Rightarrow> DNull) xs))"
| "json_of ks (JObj ps) = Some (DObj (keep_members ks (map (\<lambda>(k, v). (k, json_of ks v)) ps)))"
| "json_of ks (JDate d) = Some (date_doc d)"
| "json_of ks (JFun g) = None"

text \<open>Values whose text does not depend on any function: no object has a \<open>toJSON\<close> method.\<close>

fun data_val :: "'f jval \<Rightarrow> bool" where
  "data_val (JArr xs) = (\<forall>x \<in> set xs. data_val x)"
| "data_val (JObj ps) =
     ((\<forall>(k, v) \<in> set ps. data_val v) \<and>
      (case map_of ps (lit ''toJSON'') of Some (JFun g) \<Rightarrow> False | _ \<Rightarrow> True))"
| "data_val _ = True"

fun height :: "'f jval \<Rightarrow> nat" where
  "height (JArr xs) = Suc (Max (insert 0 (set (map height xs))))"
| "height (JObj ps) = Suc (Max (insert 0 (set (map (\<lambda>(k, v). height v) ps))))"
| "height _ = 0"

definition keys_of :: "'f replacer \<Rightarrow> ustr list option option" where
  "keys_of rep =
     (case rep of NoRep \<Rightarrow> Some None | RepKeys xs \<Rightarrow> Some (Some (string_keys xs)) | _ \<Rightarrow> None)"

section \<open>\<open>str\<close> implements it\<close>

lemma height_elem: "x \<in> set xs \<Longrightarrow> height x < height (JArr xs)"
  by (simp add: less_Suc_eq_le)

lemma height_member: "(k, v) \<in> set ps \<Longrightarrow> height v < height (JObj ps)"
  by (auto simp: less_Suc_eq_le intro!: Max_ge rev_image_eqI)

lemma lit_nonempty [simp]: "s \<noteq> [] \<Longrightarrow> lit s \<noteq> []"
  by (cases s) simp_all

lemma quote_nonempty [simp]: "quote s \<noteq> []"
  by (simp add: quote_def)

lemma wrap_nonempty [simp]: "wrap l r g m ps \<noteq> []"
  by (simp add: wrap_def)

lemma num_units_nonempty [simp]: "num_units x \<noteq> []"
  by (cases x) (auto simp: num_units_def Let_def)

lemma print_nonempty [simp]: "print_doc indent gap d \<noteq> []"
  by (cases d) auto

text \<open>What \<open>str\<close> has to deliver for a value, \<open>gap\<close> included.\<close>

definition delivers :: "ustr list option \<Rightarrow> ustr \<Rightarrow> 'f str_call \<Rightarrow> 'f jval \<Rightarrow> 'f jval \<Rightarrow> jkey \<Rightarrow> bool" where
  "delivers ks indent call value holder key \<longleftrightarrow>
     (\<forall>gap. call gap key holder = Some (gap, map_option (print_doc indent gap) (json_of ks value)))"

lemma str_elems_print:
  assumes "\<And>i. i \<in> set is \<Longrightarrow> delivers ks indent call (f i) value (KIndex i)"
  shows "str_elems call gap value is = Some (gap,
     map (\<lambda>i. print_doc indent gap (case json_of ks (f i) of Some d \<Rightarrow> d | None \<Rightarrow> DNull)) is)"
  using assms
  by (induction "is") (auto simp: delivers_def neq_Nil_conv split: option.splits list.splits
      dest: arg_cong [of _ _ "\<lambda>x. x = []"])

lemma str_members_print:
  assumes "\<And>k. k \<in> set ks' \<Longrightarrow> delivers ks indent call (f k) value (KName k)"
  shows "str_members call gap value ks' = Some (gap,
     map (\<lambda>(k, d). quote k @ colon gap @ print_doc indent gap d)
       (List.map_filter (\<lambda>k. map_option (Pair k) (json_of ks (f k))) ks'))"
  using assms
  by (induction ks')
    (auto simp: delivers_def colon_def map_filter_simps neq_Nil_conv split: option.splits list.splits
      dest: arg_cong [of _ _ "\<lambda>x. x = []"])

lemma keep_members_get:
  "keep_members ks (map (\<lambda>(k, v). (k, json_of ks v)) ps) =
     List.map_filter (\<lambda>k. map_option (Pair k) (json_of ks (get_key (JObj ps) (KName k))))
       (case ks of None \<Rightarrow> map fst ps | Some l \<Rightarrow> l)"
proof -
  have "map_of (map (\<lambda>(k, v). (k, json_of ks v)) ps) k = map_option (json_of ks) (map_of ps k)" for k
    by (simp add: map_of_map)
  then have "(case map_of (map (\<lambda>(k, v). (k, json_of ks v)) ps) k of Some (Some d) \<Rightarrow> Some (k, d) | _ \<Rightarrow> None)
      = map_option (Pair k) (json_of ks (get_key (JObj ps) (KName k)))" for k
    by (auto simp: get_key_def split: option.splits)
  then show ?thesis by (simp add: keep_members_def comp_def case_prod_beta cong: option.case_cong)
qed

lemma str_print:
  assumes "keys_of rep = Some ks" "height (get_key holder key) < n" "data_val (get_key holder key)"
  shows "str E rep indent n gap key holder =
    Some (gap, map_option (print_doc indent gap) (json_of ks (get_key holder key)))"
  using assms(2,3)
proof (induction n arbitrary: gap key holder)
  case 0
  then show ?case by simp
next
  case (Suc n)
  have noFn: "(case rep of RepFn g \<Rightarrow> F g | _ \<Rightarrow> u) = u" for F and u :: "'a jval"
    using assms(1) by (cases rep) (auto simp: keys_of_def)
  define v where "v = get_key holder key"
  have below: "delivers ks indent (str E rep indent n) (get_key h k) h k"
    if "height (get_key h k) < n" "data_val (get_key h k)" for h k
    unfolding delivers_def using Suc.IH that by blast
  show ?case
  proof (cases v)
    case (JArr xs)
    have e: "xs ! i \<in> set xs" if "i < length xs" for i using that by simp
    have "str_elems (str E rep indent n) (gap @ indent) v [0..<length xs] = Some (gap @ indent,
        map (\<lambda>i. print_doc indent (gap @ indent)
          (case json_of ks (get_key v (KIndex i)) of Some d \<Rightarrow> d | None \<Rightarrow> DNull)) [0..<length xs])"
    proof (rule str_elems_print)
      fix i assume "i \<in> set [0..<length xs]"
      then have "get_key v (KIndex i) \<in> set xs" by (simp add: get_key_def JArr)
      moreover from this have "height (get_key v (KIndex i)) < n"
        using height_elem Suc.prems(1) JArr v_def by fastforce
      ultimately show "delivers ks indent (str E rep indent n) (get_key v (KIndex i)) v (KIndex i)"
        using Suc.prems(2) JArr v_def by (intro below) auto
    qed
    moreover have "map (\<lambda>i. print_doc indent (gap @ indent)
          (case json_of ks (get_key v (KIndex i)) of Some d \<Rightarrow> d | None \<Rightarrow> DNull)) [0..<length xs]
        = map (\<lambda>x. print_doc indent (gap @ indent) (case json_of ks x of Some d \<Rightarrow> d | None \<Rightarrow> DNull)) xs"
      by (rule nth_equalityI) (simp_all add: get_key_def JArr)
    ultimately show ?thesis
      by (simp add: noFn Let_def v_def [symmetric] JArr apply_toJSON_def comp_def)
  next
    case (JObj ps)
    have t: "apply_toJSON E key v = v"
      using Suc.prems(2) by (auto simp: v_def [symmetric] JObj apply_toJSON_def split: option.splits jval.splits)
    have m: "member_keys rep v = Some (case ks of None \<Rightarrow> map fst ps | Some l \<Rightarrow> l)"
      using assms(1) by (cases rep) (auto simp: keys_of_def member_keys_def JObj)
    have "str_members (str E rep indent n) (gap @ indent) v (case ks of None \<Rightarrow> map fst ps | Some l \<Rightarrow> l)
      = Some (gap @ indent, map (\<lambda>(k, d). quote k @ colon (gap @ indent) @ print_doc indent (gap @ indent) d)
          (List.map_filter (\<lambda>k. map_option (Pair k) (json_of ks (get_key v (KName k))))
            (case ks of None \<Rightarrow> map fst ps | Some l \<Rightarrow> l)))"
    proof (rule str_members_print)
      fix k
      show "delivers ks indent (str E rep indent n) (get_key v (KName k)) v (KName k)"
      proof (cases "map_of ps k")
        case None
        have "0 < n" using Suc.prems(1) by (simp add: v_def [symmetric] JObj)
        with None show ?thesis by (intro below) (simp_all add: get_key_def JObj)
      next
        case (Some u)
        then have "(k, u) \<in> set ps" by (rule map_of_SomeD)
        have g: "get_key v (KName k) = u" using Some by (simp add: get_key_def JObj)
        have "height v < Suc n" "data_val v" using Suc.prems by (simp_all add: v_def)
        with height_member [OF \<open>(k, u) \<in> set ps\<close>] \<open>(k, u) \<in> set ps\<close> show ?thesis
          by (intro below; simp only: g) (auto simp: JObj simp del: height.simps)
      qed
    qed
    then show ?thesis using keep_members_get [of ks ps]
      by (simp add: noFn Let_def v_def [symmetric] JObj t [unfolded JObj] m [unfolded JObj])
  next
    case (JDate d)
    then show ?thesis
      by (auto simp: noFn Let_def v_def [symmetric] apply_toJSON_def date_doc_def date_toJSON_def)
  next
    case (JNum x)
    then show ?thesis
      by (cases x) (simp_all add: noFn Let_def v_def [symmetric] apply_toJSON_def)
  qed (simp_all add: noFn Let_def v_def [symmetric] apply_toJSON_def)
qed


definition quiet :: "nat jenv" where
  "quiet = \<lparr>call_toJSON = (\<lambda>f this k. this), call_replacer = (\<lambda>f holder k v. v),
     call_reviver = (\<lambda>f holder k v. v)\<rparr>"

definition sample :: "nat jval" where
  "sample = JObj [(lit ''a'', JArr [JNum (Fin True [1, 5] 1), JFun 0]), (lit ''b'', JUndef),
     (lit ''c'', JStr [0x2028, 34])]"

definition sample_doc :: jdoc where
  "sample_doc = DObj [(lit ''a'', DArr [DNum True [1, 5] 1, DNull]), (lit ''c'', DStr [0x2028, 34])]"


end
