(* ===== verification/Json2_Read.thy ===== *)
theory Json2_Read
  imports Json2_Print
begin

text \<open>
  How the language reads a JSON text: the literals of strings, numbers, arrays and objects, as a
  function on code units, and the proof that it reads back what \<open>stringify\<close> writes. \<open>eval\<close> is
  modelled by it on JSON texts only; what it makes of any other text stays a parameter.
\<close>

section \<open>Code units as numbers\<close>

lemma unat_small: "n < 65536 \<Longrightarrow> unat (of_nat n :: unit16) = n"
  by (simp add: unat_of_nat)

lemma unat_lit_char: "unat (of_nat (of_char c) :: unit16) = (of_char c :: nat)"
  by (rule unat_small) (rule order.strict_trans [OF nat_of_char_less_256], simp)

lemma unat_below: "unat (a :: unit16) < 65536"
  using unsigned_less [of a, where ?'a = nat] by simp

lemma unit_of_digit_sel: "d < 10 \<Longrightarrow> unat (unit_of_digit d) = 48 + d"
  unfolding unit_of_digit_def by (rule unat_small) simp

lemma udigit_unit_of_digit [simp]: "d < 10 \<Longrightarrow> udigit (unit_of_digit d)"
  by (simp add: udigit_def in_ranges_def unit_of_digit_sel)

definition udigit_val :: "unit16 \<Rightarrow> nat" where
  "udigit_val u = unat u - 48"

lemma udigit_val_unit_of_digit [simp]: "d < 10 \<Longrightarrow> udigit_val (unit_of_digit d) = d"
  by (simp add: udigit_val_def unit_of_digit_sel)

lemma zero_unit: "unit_of_digit 0 = 48"
  by (simp add: unit_of_digit_def)

lemma length_zeros [simp]: "length (zeros n) = n"
  by (simp add: zeros_def)

lemma zeros_digits: "zeros n = map unit_of_digit (replicate n 0)"
  by (simp add: zeros_def zero_unit)

lemma digits_val_lit: "digits_val acc (map udigit_val (lit s)) = read_dec acc s"
  by (induction s arbitrary: acc) (simp_all add: udigit_val_def digit_val_def unat_lit_char)

lemma dec_units_read [simp]: "digits_val 0 (map udigit_val (dec_units n)) = n"
  by (simp add: dec_units_def digits_val_lit)

lemma dec_units_digits: "u \<in> set (dec_units n) \<Longrightarrow> udigit u"
  using dec_nat_digits [of n]
  by (auto simp: dec_units_def lit_def udigit_def in_ranges_def unat_lit_char is_digit_def)

lemma dec_units_nonempty [simp]: "dec_units n \<noteq> []"
  by (simp add: dec_units_def)

section \<open>Reading a string\<close>

definition hex_val :: "unit16 \<Rightarrow> nat" where
  "hex_val u = (let n = unat u in if n \<le> 57 then n - 48 else if n \<le> 70 then n - 55 else n - 87)"

definition read_hex :: "ustr \<Rightarrow> unit16 option" where
  "read_hex s =
     (if length s = 4 \<and> list_all uhex s then Some (of_nat (foldl (\<lambda>n u. 16 * n + hex_val u) 0 s))
      else None)"

definition escaped_value :: "unit16 \<Rightarrow> unit16 option" where
  "escaped_value c = map_of [(34, 34), (92, 92), (47, 47), (98, 8), (102, 12), (110, 10),
     (114, 13), (116, 9)] c"

definition literal_unit :: "unit16 \<Rightarrow> bool" where
  "literal_unit u \<longleftrightarrow> 32 \<le> unat u \<and> u \<notin> {34, 92, 0x2028, 0x2029}"

function read_chars :: "ustr \<Rightarrow> (ustr \<times> ustr) option" where
  "read_chars s =
     (case s of
        [] \<Rightarrow> None
      | c # t \<Rightarrow>
          (if c = 34 then Some ([], t)
           else if c = 92 then
             (case t of
                [] \<Rightarrow> None
              | e # r \<Rightarrow>
                  (if e = 117 then
                     (case read_hex (take 4 r) of
                        Some u \<Rightarrow> map_option (map_prod (Cons u) id) (read_chars (drop 4 r))
                      | None \<Rightarrow> None)
                   else
                     (case escaped_value e of
                        Some u \<Rightarrow> map_option (map_prod (Cons u) id) (read_chars r)
                      | None \<Rightarrow> None)))
           else if literal_unit c then map_option (map_prod (Cons c) id) (read_chars t)
           else None))"
  by pat_completeness auto
termination
  by (relation "measure length") auto

declare read_chars.simps [simp del]

lemma hex_unit_val:
  assumes "d < 16"
  shows "uhex (hex_unit d) \<and> hex_val (hex_unit d) = d"
proof -
  have "unat (hex_unit d) = (if d < 10 then 48 + d else 87 + d)"
    unfolding hex_unit_def by (subst unat_small) (use assms in simp_all)
  with assms show ?thesis by (auto simp: uhex_def in_ranges_def hex_val_def)
qed

lemma hex_unit_0 [simp]: "hex_unit 0 = 48"
  by (simp add: hex_unit_def)

lemma zeros4: "zeros 4 = [48, 48, 48, 48]"
  by (simp add: zeros_def numeral_eq_Suc)

lemma escapable_bounds: "escapable u \<Longrightarrow> u = 34 \<or> u = 92 \<or> unat u < 32 \<or> 126 < unat u"
proof -
  assume "escapable u"
  then obtain a b where "(a, b) \<in> set ((92, 92) # (34, 34) # (0, 0x1f) # (0x7f, 0x9f) # format_ranges)"
    and "a \<le> unat u" "unat u \<le> b"
    by (auto simp only: escapable_def in_ranges_def)
  moreover have "\<forall>(a, b) \<in> set ((92, 92) # (34, 34) # (0, 0x1f) # (0x7f, 0x9f) # format_ranges).
      (a, b) = (92, 92) \<or> (a, b) = (34, 34) \<or> b < 32 \<or> 126 < a"
    by (simp add: format_ranges_def)
  ultimately have "unat u = 92 \<or> unat u = 34 \<or> unat u < 32 \<or> 126 < unat u" by (auto simp del: set_simps dest!: bspec)
  moreover have "u = 34" if "unat u = 34" using that by (metis of_nat_numeral of_nat_unat ucast_id)
  moreover have "u = 92" if "unat u = 92" using that by (metis of_nat_numeral of_nat_unat ucast_id)
  ultimately show ?thesis by blast
qed

text \<open>The padding always yields the four hexadecimal digits of the unit.\<close>

lemma u_escape_digits:
  "u_escape a = [92, 117, hex_unit (unat a div 4096), hex_unit (unat a div 256 mod 16),
     hex_unit (unat a div 16 mod 16), hex_unit (unat a mod 16)]"
proof -
  define n where "n = unat a"
  have n: "n < 65536" by (simp add: n_def unat_below)
  have small: "hex_nat m = [hex_unit m]" if "m < 16" for m
    by (subst hex_nat.simps) (simp add: that)
  have big: "hex_nat m = hex_nat (m div 16) @ [hex_unit (m mod 16)]" if "16 \<le> m" for m
    by (subst hex_nat.simps) (use that in simp)
  have pad: "u_escape a = [92, 117] @ drop (length h) (zeros 4 @ h)" if "hex_nat n = h" for h
    using that by (simp add: u_escape_def Let_def n_def zeros4)
  have d2: "n div 16 div 16 = n div 256" and d3: "n div 256 div 16 = n div 4096"
    by (simp_all add: div_mult2_eq [symmetric])
  have "u_escape a = [92, 117, hex_unit (n div 4096), hex_unit (n div 256 mod 16),
     hex_unit (n div 16 mod 16), hex_unit (n mod 16)]"
  proof (cases "n < 16")
    case True
    then have "n div 4096 = 0" "n div 256 = 0" "n div 16 = 0" "n mod 16 = n" by simp_all
    with pad [OF small [OF True]] show ?thesis by (simp add: zeros4)
  next
    case False
    then have h1: "hex_nat n = hex_nat (n div 16) @ [hex_unit (n mod 16)]" by (simp add: big)
    show ?thesis
    proof (cases "n < 256")
      case True
      then have z: "n div 4096 = 0" "n div 256 = 0" "n div 16 < 16" "n div 16 mod 16 = n div 16"
        by simp_all
      have "hex_nat n = [hex_unit (n div 16), hex_unit (n mod 16)]"
        unfolding h1 small [OF z(3)] by simp
      from pad [OF this] z show ?thesis by (simp add: zeros4)
    next
      case False
      then have "16 \<le> n div 16" by simp
      from big [OF this] have h2: "hex_nat n = hex_nat (n div 256) @ [hex_unit (n div 16 mod 16), hex_unit (n mod 16)]"
        unfolding h1 d2 by simp
      show ?thesis
      proof (cases "n < 4096")
        case True
        then have z: "n div 4096 = 0" "n div 256 < 16" "n div 256 mod 16 = n div 256" by simp_all
        have "hex_nat n = [hex_unit (n div 256), hex_unit (n div 16 mod 16), hex_unit (n mod 16)]"
          unfolding h2 small [OF z(2)] by simp
        from pad [OF this] z show ?thesis by (simp add: zeros4)
      next
        case False
        then have "16 \<le> n div 256" "n div 4096 < 16" using n by simp_all
        then have "hex_nat n = [hex_unit (n div 4096), hex_unit (n div 256 mod 16),
            hex_unit (n div 16 mod 16), hex_unit (n mod 16)]"
          unfolding h2 by (simp only: big d3 small append.simps)
        from pad [OF this] show ?thesis by (simp add: zeros4)
      qed
    qed
  qed
  then show ?thesis by (simp add: n_def)
qed

lemma read_hex_u_escape:
  "read_hex [hex_unit (unat a div 4096), hex_unit (unat a div 256 mod 16),
     hex_unit (unat a div 16 mod 16), hex_unit (unat a mod 16)] = Some a"
proof -
  define n where "n = unat a"
  have n: "n < 65536" by (simp add: n_def unat_below)
  have d: "n div 4096 < 16" using n by simp
  have "16 * (16 * (16 * (n div 4096) + n div 256 mod 16) + n div 16 mod 16) + n mod 16 = n"
  proof -
    have "16 * (n div 4096) + n div 256 mod 16 = n div 256"
      using mult_div_mod_eq [of 16 "n div 256"] by (simp add: div_mult2_eq [symmetric])
    moreover have "16 * (n div 256) + n div 16 mod 16 = n div 16"
      using mult_div_mod_eq [of 16 "n div 16"] by (simp add: div_mult2_eq [symmetric])
    ultimately show ?thesis by simp
  qed
  with d show ?thesis
    by (simp add: read_hex_def hex_unit_val n_def [symmetric]) (simp add: n_def)
qed

lemma escapable_literal: "\<not> escapable a \<Longrightarrow> literal_unit a"
proof -
  assume a: "\<not> escapable a"
  have "escapable 34" "escapable 92" "escapable 0x2028" "escapable 0x2029"
    by (simp_all add: escapable_def in_ranges_def format_ranges_def)
  moreover have "unat a < 32 \<Longrightarrow> escapable a"
    by (simp add: escapable_def in_ranges_def)
  ultimately show ?thesis using a unfolding literal_unit_def by (auto simp: not_le [symmetric])
qed

lemma meta_cases:
  assumes "meta a = Some c"
  obtains e where "c = [92, e]" "e \<noteq> 117" "escaped_value e = Some a"
  using assms by (auto simp: meta_def escaped_value_def split: if_splits)

lemma read_chars_escape:
  "read_chars (escape_unit a @ r) = map_option (map_prod (Cons a) id) (read_chars r)"
proof (cases "escapable a")
  case False
  moreover from this have "literal_unit a" by (rule escapable_literal)
  moreover from this have "a \<noteq> 34" "a \<noteq> 92" by (auto simp: literal_unit_def)
  ultimately show ?thesis by (subst read_chars.simps) (simp add: escape_unit_def)
next
  case True
  show ?thesis
  proof (cases "meta a")
    case None
    with True show ?thesis
      by (subst read_chars.simps) (simp add: escape_unit_def u_escape_digits read_hex_u_escape)
  next
    case (Some c)
    then obtain e where "c = [92, e]" "e \<noteq> 117" "escaped_value e = Some a" by (rule meta_cases)
    with Some True show ?thesis by (subst read_chars.simps) (simp add: escape_unit_def)
  qed
qed

lemma quote_body: "quote s = [34] @ concat (map escape_unit s) @ [34]"
proof (cases "\<exists>a \<in> set s. escapable a")
  case False
  then have "concat (map escape_unit s) = s" by (induction s) (auto simp: escape_unit_def)
  with False show ?thesis by (auto simp: quote_def)
qed (simp add: quote_def)

lemma read_chars_quote: "read_chars (tl (quote s @ r)) = Some (s, r)"
proof -
  have "read_chars (concat (map escape_unit s) @ 34 # r) = Some (s, r)"
    by (induction s) (subst read_chars.simps, simp, simp add: read_chars_escape)
  then show ?thesis by (simp add: quote_body)
qed

lemma escape_unit_units: "u \<in> set (escape_unit a) \<Longrightarrow> u = 34 \<or> u = 92 \<or> \<not> escapable u"
proof -
  have hex: "hex_unit d = 34 \<or> hex_unit d = 92 \<or> \<not> escapable (hex_unit d)" if "d < 16" for d
    using hex_unit_val [OF that] escapable_bounds [of "hex_unit d"]
    by (auto simp: uhex_def in_ranges_def)
  have plain: "\<not> escapable e" if "meta a = Some [92, e]" "e \<noteq> 34" "e \<noteq> 92" for a e
    using that by (auto simp: meta_def escapable_def in_ranges_def format_ranges_def split: if_splits)
  assume that: "u \<in> set (escape_unit a)"
  show ?thesis
  proof (cases "escapable a")
    case True
    have n: "unat a div 4096 < 16" using unat_below [of a] by simp
    have u: "\<not> escapable 117" by (simp add: escapable_def in_ranges_def format_ranges_def)
    show ?thesis
    proof (cases "meta a")
      case None
      with True that have "u \<in> {92, 117, hex_unit (unat a div 4096), hex_unit (unat a div 256 mod 16),
          hex_unit (unat a div 16 mod 16), hex_unit (unat a mod 16)}"
        by (simp add: escape_unit_def u_escape_digits)
      with n u hex [of "unat a div 4096"] hex [of "unat a div 256 mod 16"]
        hex [of "unat a div 16 mod 16"] hex [of "unat a mod 16"]
      show ?thesis by auto
    next
      case (Some c)
      then obtain e where "c = [92, e]" by (rule meta_cases)
      with that True Some plain [of a e] show ?thesis by (auto simp: escape_unit_def)
    qed
  qed (use that in \<open>auto simp: escape_unit_def\<close>)
qed

lemma quote_units: "u \<in> set (quote s) \<Longrightarrow> u = 34 \<or> u = 92 \<or> \<not> escapable u"
  using escape_unit_units by (auto simp: quote_body)

text \<open>
  quoting loses nothing and hides every unit that could be misread: a reader of string
  literals gets the string back, and no control character, format character or line separator
  appears in the quoted text.
\<close>

theorem quote_roundtrip:
  "read_chars (tl (quote s)) = Some (s, []) \<and>
   (\<nexists>u. u \<in> set (quote s) \<and> u \<noteq> 34 \<and> u \<noteq> 92 \<and> escapable u)"
  using read_chars_quote [of s "[]"] quote_units by auto

section \<open>Reading a number\<close>

text \<open>The shortest digits of a decimal literal and the position of its point.\<close>

definition norm_num :: "bool \<Rightarrow> nat list \<Rightarrow> int \<Rightarrow> jdoc" where
  "norm_num neg ds p =
     (let z = length (takeWhile (\<lambda>d. d = 0) ds);
          ds' = rev (dropWhile (\<lambda>d. d = 0) (rev (drop z ds)))
      in if ds' = [] then DNum neg [] 0 else DNum neg ds' (p - int z))"

definition read_number :: "ustr \<Rightarrow> (jdoc \<times> ustr) option" where
  "read_number s =
     (let neg = (take 1 s = [45]); s1 = (if neg then drop 1 s else s);
          a = takeWhile udigit s1; s2 = drop (length a) s1;
          b = (if take 1 s2 = [46] then takeWhile udigit (drop 1 s2) else []);
          s3 = drop (fraction_at s2) s2;
          e = exponent_at s3; ex = take e s3; s4 = drop e s3;
          ev = (if e = 0 then 0
                else if take 1 (drop 1 ex) = [45] then - int (digits_val 0 (map udigit_val (drop 2 ex)))
                else if take 1 (drop 1 ex) = [43] then int (digits_val 0 (map udigit_val (drop 2 ex)))
                else int (digits_val 0 (map udigit_val (drop 1 ex))))
      in if a = [] \<or> (length a \<noteq> 1 \<and> hd a = 48) \<or> fraction_at s2 = 1 then None
         else Some (norm_num neg (map udigit_val (a @ b)) (int (length a) + ev), s4))"

definition good_num :: "bool \<Rightarrow> nat list \<Rightarrow> int \<Rightarrow> bool" where
  "good_num neg ds p \<longleftrightarrow> (\<forall>d \<in> set ds. d < 10) \<and>
     (if ds = [] then \<not> neg \<and> p = 0 else hd ds \<noteq> 0 \<and> last ds \<noteq> 0)"

text \<open>A text that cannot continue a number.\<close>

definition ends_number :: "ustr \<Rightarrow> bool" where
  "ends_number s \<longleftrightarrow> (case s of [] \<Rightarrow> True | c # t \<Rightarrow> \<not> udigit c \<and> c \<noteq> 46 \<and> c \<noteq> 101 \<and> c \<noteq> 69)"

lemma norm_num_pad:
  assumes "good_num neg ds p" "ds \<noteq> []"
  shows "norm_num neg (replicate z 0 @ ds @ replicate t 0) (p + int z) = DNum neg ds p"
proof -
  from assms have h: "hd ds \<noteq> 0" "last ds \<noteq> 0" by (simp_all add: good_num_def)
  have tw: "takeWhile (\<lambda>d. d = 0) (replicate z 0 @ ds @ replicate t 0) = replicate z 0"
    using h(1) assms(2) by (cases ds) (simp_all add: takeWhile_append)
  have "rev ds \<noteq> []" "hd (rev ds) \<noteq> 0" using h(2) assms(2) by (simp_all add: hd_rev)
  then have "dropWhile (\<lambda>d. d = 0) (replicate t 0 @ rev ds) = rev ds"
    by (cases "rev ds") (simp_all add: dropWhile_append)
  then have "rev (dropWhile (\<lambda>d. d = 0) (rev (ds @ replicate t 0))) = ds" by simp
  moreover have "drop z (replicate z 0 @ ds @ replicate t 0) = ds @ replicate t 0" by simp
  ultimately show ?thesis using assms(2)
    unfolding norm_num_def tw Let_def length_replicate by (simp only: if_False add_diff_cancel_right')
qed

lemma udigit_values: "\<not> udigit 46" "\<not> udigit 45" "\<not> udigit 43" "\<not> udigit 101" "\<not> udigit 69" "udigit 48"
  by (simp_all add: udigit_def in_ranges_def)

lemma takeWhile_digits:
  "(\<forall>u \<in> set us. udigit u) \<Longrightarrow> (s = [] \<or> \<not> udigit (hd s)) \<Longrightarrow> takeWhile udigit (us @ s) = us"
  by (cases s) (simp_all add: takeWhile_append)

text \<open>A literal taken apart: sign, integer digits, fraction and exponent.\<close>

lemma read_number_parts:
  assumes a: "a \<noteq> []" "\<forall>u \<in> set a. udigit u" "length a = 1 \<or> hd a \<noteq> 48"
    and b: "\<forall>u \<in> set b. udigit u" and r: "ends_number r"
    and ex: "ex = [] \<and> ev = 0 \<or> (\<exists>n. ex = [101, 43] @ dec_units n \<and> ev = int n) \<or>
      (\<exists>n. ex = [101, 45] @ dec_units n \<and> ev = - int n)"
  shows "read_number ((if neg then [45] else []) @ a @ (if b = [] then [] else [46] @ b) @ ex @ r)
    = Some (norm_num neg (map udigit_val (a @ b)) (int (length a) + ev), r)"
proof -
  let ?f = "if b = [] then [] else [46] @ b"
  have r0: "r = [] \<or> \<not> udigit (hd r)" using r by (cases r) (auto simp: ends_number_def)
  have er: "ex @ r = [] \<or> (\<not> udigit (hd (ex @ r)) \<and> hd (ex @ r) \<noteq> 46)"
    using ex r by (cases r) (auto simp: ends_number_def udigit_values)
  then have fer: "?f @ ex @ r = [] \<or> \<not> udigit (hd (?f @ ex @ r))"
    by (auto simp: udigit_values)
  have s1: "takeWhile udigit (a @ ?f @ ex @ r) = a" by (rule takeWhile_digits [OF a(2) fer])
  have tb: "takeWhile udigit (b @ ex @ r) = b" by (rule takeWhile_digits [OF b]) (use er in blast)
  have t1: "take 1 (ex @ r) \<noteq> [46]" using er by (cases "ex @ r") auto
  have fr: "fraction_at (?f @ ex @ r) = length ?f"
    using t1 tb by (auto simp: fraction_at_def digits_at_def)
  have hb: "(if take 1 (?f @ ex @ r) = [46] then takeWhile udigit (drop 1 (?f @ ex @ r)) else []) = b"
    using t1 tb by auto
  have td: "takeWhile udigit (dec_units n @ r) = dec_units n" for n
    by (rule takeWhile_digits) (use dec_units_digits r0 in auto)
  have x: "exponent_at (ex @ r) = length ex"
    using ex
  proof (elim disjE conjE exE)
    assume "ex = []"
    then show ?thesis using r by (cases r) (auto simp: exponent_at_def ends_number_def)
  next
    fix n assume "ex = [101, 43] @ dec_units n"
    then show ?thesis by (simp add: exponent_at_def digits_at_def td Let_def)
  next
    fix n assume "ex = [101, 45] @ dec_units n"
    then show ?thesis by (simp add: exponent_at_def digits_at_def td Let_def)
  qed
  have ha: "take 1 (a @ ?f @ ex @ r) \<noteq> [45]"
    using a(1,2) by (cases a) (auto simp: udigit_values)
  have f1: "length ?f \<noteq> 1" by (cases b) auto
  have neg: "(take 1 ((if neg then [45] else []) @ a @ ?f @ ex @ r) = [45]) = neg"
    using ha by simp
  have dr: "(if neg then drop 1 ((if neg then [45] else []) @ a @ ?f @ ex @ r)
      else (if neg then [45] else []) @ a @ ?f @ ex @ r) = a @ ?f @ ex @ r" by simp
  have ev: "(if length ex = 0 then 0
      else if take 1 (drop 1 ex) = [45] then - int (digits_val 0 (map udigit_val (drop 2 ex)))
      else if take 1 (drop 1 ex) = [43] then int (digits_val 0 (map udigit_val (drop 2 ex)))
      else int (digits_val 0 (map udigit_val (drop 1 ex)))) = ev"
    using ex by (elim disjE conjE exE) simp_all
  have d: "drop (length a) (a @ ?f @ ex @ r) = ?f @ ex @ r"
    "drop (length ?f) (?f @ ex @ r) = ex @ r" "take (length ex) (ex @ r) = ex"
    "drop (length ex) (ex @ r) = r" by simp_all
  have c: "\<not> (a = [] \<or> (length a \<noteq> 1 \<and> hd a = 48) \<or> length ?f = 1)" using a(1,3) f1 by blast
  show ?thesis
    unfolding read_number_def neg dr s1 Let_def d fr hb x ev using c by (simp only: if_False)
qed

lemma map_udigit_val: "\<forall>d \<in> set ds. d < 10 \<Longrightarrow> map udigit_val (map unit_of_digit ds) = ds"
  by (induction ds) simp_all

lemma read_number_pad:
  assumes g: "good_num neg ds p" "ds \<noteq> []" and r: "ends_number r"
    and split: "map udigit_val (a @ b) = replicate z 0 @ ds @ replicate t 0"
      "int (length a) + ev = p + int z"
    and a: "a \<noteq> []" "\<forall>u \<in> set a. udigit u" "length a = 1 \<or> hd a \<noteq> 48"
    and b: "\<forall>u \<in> set b. udigit u"
    and ex: "ex = [] \<and> ev = 0 \<or> (\<exists>n. ex = [101, 43] @ dec_units n \<and> ev = int n) \<or>
      (\<exists>n. ex = [101, 45] @ dec_units n \<and> ev = - int n)"
  shows "read_number ((if neg then [45] else []) @ a @ (if b = [] then [] else [46] @ b) @ ex @ r)
    = Some (DNum neg ds p, r)"
  unfolding read_number_parts [OF a b r ex] split norm_num_pad [OF g] ..

lemma read_number_units:
  assumes "good_num neg ds p" "ends_number r"
  shows "read_number (num_units (Fin neg ds p) @ r) = Some (DNum neg ds p, r)"
proof (cases "ds = []")
  case True
  with assms have [simp]: "\<not> neg" "p = 0" by (simp_all add: good_num_def)
  have "read_number ((if False then [45] else []) @ [48] @ (if ([] :: ustr) = [] then [] else [46] @ []) @ [] @ r)
      = Some (norm_num False (map udigit_val ([48] @ [])) (int (length [48 :: unit16]) + 0), r)"
    by (rule read_number_parts) (simp_all add: udigit_values assms(2))
  then show ?thesis using True
    by (simp add: num_units_def norm_num_def udigit_val_def)
next
  case False
  note pad = read_number_pad [OF assms(1) False assms(2)]
  have lt: "\<forall>d \<in> set ds. d < 10" using assms(1) by (simp add: good_num_def)
  define us where "us = map unit_of_digit ds"
  have us: "us \<noteq> []" "\<forall>u \<in> set us. udigit u" "map udigit_val us = ds" "length us = length ds"
    using False lt map_udigit_val [OF lt] by (auto simp: us_def)
  have h: "hd us \<noteq> 48"
    using us(3) False assms(1) by (cases us) (auto simp: good_num_def udigit_val_def)
  have z: "map udigit_val (zeros n) = replicate n 0" "\<forall>u \<in> set (zeros n). udigit u" for n
    by (auto simp: zeros_def udigit_val_def udigit_values)
  let ?k = "int (length ds)"
  consider (whole) "?k \<le> p" "p \<le> 21" | (point) "0 < p" "p < ?k" "p \<le> 21" | (small) "- 6 < p" "p \<le> 0"
    | (exp) "\<not> (?k \<le> p \<and> p \<le> 21)" "\<not> (0 < p \<and> p \<le> 21)" "\<not> (- 6 < p \<and> p \<le> 0)"
    by linarith
  then show ?thesis
  proof cases
    case whole
    have "read_number ((if neg then [45] else []) @ (us @ zeros (nat (p - ?k))) @
        (if ([] :: ustr) = [] then [] else [46] @ []) @ [] @ r) = Some (DNum neg ds p, r)"
      by (rule pad [where z = 0 and t = "nat (p - ?k)" and ev = 0]) (use us h z whole in auto)
    with whole False show ?thesis by (simp add: num_units_def Let_def us_def)
  next
    case point
    have t: "take (nat p) us \<noteq> []" "drop (nat p) us \<noteq> []" using point us(1,4) by auto
    have "read_number ((if neg then [45] else []) @ take (nat p) us @
        (if drop (nat p) us = [] then [] else [46] @ drop (nat p) us) @ [] @ r) = Some (DNum neg ds p, r)"
      by (rule pad [where z = 0 and t = 0 and ev = 0])
        (use us h t point in \<open>auto dest: in_set_takeD in_set_dropD simp: hd_take\<close>)
    with point t False show ?thesis by (simp add: num_units_def Let_def us_def)
  next
    case small
    have "read_number ((if neg then [45] else []) @ [48] @
        (if zeros (nat (- p)) @ us = [] then [] else [46] @ zeros (nat (- p)) @ us) @ [] @ r)
        = Some (DNum neg ds p, r)"
      by (rule pad [where z = "Suc (nat (- p))" and t = 0 and ev = 0])
        (use us z small in \<open>auto simp: udigit_values udigit_val_def\<close>)
    moreover have "\<not> ?k \<le> p" using small False by (cases ds) auto
    ultimately show ?thesis using small False by (simp add: num_units_def Let_def us_def)
  next
    case exp
    let ?ex = "[101] @ (if p - 1 < 0 then [45] else [43]) @ dec_units (nat \<bar>p - 1\<bar>)"
    have ex: "?ex = [] \<and> p - 1 = 0 \<or> (\<exists>n. ?ex = [101, 43] @ dec_units n \<and> p - 1 = int n) \<or>
      (\<exists>n. ?ex = [101, 45] @ dec_units n \<and> p - 1 = - int n)"
    proof (cases "p - 1 < 0")
      case True
      then have "?ex = [101, 45] @ dec_units (nat \<bar>p - 1\<bar>)" "p - 1 = - int (nat \<bar>p - 1\<bar>)" by auto
      then show ?thesis by blast
    next
      case False
      then have "?ex = [101, 43] @ dec_units (nat \<bar>p - 1\<bar>)" "p - 1 = int (nat \<bar>p - 1\<bar>)" by auto
      then show ?thesis by blast
    qed
    obtain u ut where cu: "us = u # ut" using us(1) by (cases us) auto
    have "read_number ((if neg then [45] else []) @ take 1 us @
        (if drop 1 us = [] then [] else [46] @ drop 1 us) @ ?ex @ r) = Some (DNum neg ds p, r)"
      by (rule pad [where z = 0 and t = 0 and ev = "p - 1", OF _ _ _ _ _ _ ex])
        (use us h cu in auto)
    moreover have "(if ?k = 1 then us else take 1 us @ [46] @ drop 1 us)
        = take 1 us @ (if drop 1 us = [] then [] else [46] @ drop 1 us)"
      using us(1,4) by (cases us) auto
    moreover have "num_units (Fin neg ds p) = (if neg then [45] else []) @
        (if ?k = 1 then us else take 1 us @ [46] @ drop 1 us) @ ?ex"
      by (simp only: num_units_def jnum.case False if_False Let_def us_def [symmetric]
          if_not_P [OF exp(1)] if_not_P [OF exp(2)] if_not_P [OF exp(3)])
    ultimately show ?thesis by (simp only: append_assoc)
  qed
qed

section \<open>Reading a value\<close>

definition json_ws :: "unit16 \<Rightarrow> bool" where
  "json_ws u \<longleftrightarrow> u \<in> {9, 10, 13, 32}"

definition skip_ws :: "ustr \<Rightarrow> ustr" where
  "skip_ws = dropWhile json_ws"

definition read_word :: "string \<Rightarrow> jdoc \<Rightarrow> ustr \<Rightarrow> (jdoc \<times> ustr) option" where
  "read_word w d s = (if take (length w) s = lit w then Some (d, drop (length w) s) else None)"

fun read_value :: "nat \<Rightarrow> ustr \<Rightarrow> (jdoc \<times> ustr) option"
  and read_elems :: "nat \<Rightarrow> ustr \<Rightarrow> (jdoc list \<times> ustr) option"
  and read_members :: "nat \<Rightarrow> ustr \<Rightarrow> ((ustr \<times> jdoc) list \<times> ustr) option"
where
  "read_value 0 s = None"
| "read_value (Suc n) s =
     (case skip_ws s of
        [] \<Rightarrow> None
      | c # t \<Rightarrow>
          (if c = 34 then map_option (map_prod DStr id) (read_chars t)
           else if c = 91 then
             (if take 1 (skip_ws t) = [93] then Some (DArr [], drop 1 (skip_ws t))
              else map_option (map_prod DArr id) (read_elems n t))
           else if c = 123 then
             (if take 1 (skip_ws t) = [125] then Some (DObj [], drop 1 (skip_ws t))
              else map_option (map_prod DObj id) (read_members n t))
           else if c = 110 then read_word ''null'' DNull (c # t)
           else if c = 116 then read_word ''true'' (DBool True) (c # t)
           else if c = 102 then read_word ''false'' (DBool False) (c # t)
           else read_number (c # t)))"
| "read_elems 0 s = None"
| "read_elems (Suc n) s =
     (case read_value n s of
        None \<Rightarrow> None
      | Some (d, r) \<Rightarrow>
          (case skip_ws r of
             c # r' \<Rightarrow> (if c = 44 then map_option (map_prod (Cons d) id) (read_elems n r')
                         else if c = 93 then Some ([d], r') else None)
           | [] \<Rightarrow> None))"
| "read_members 0 s = None"
| "read_members (Suc n) s =
     (if take 1 (skip_ws s) \<noteq> [34] then None
      else case read_chars (drop 1 (skip_ws s)) of
        None \<Rightarrow> None
      | Some (k, r) \<Rightarrow>
          (if take 1 (skip_ws r) \<noteq> [58] then None
           else case read_value n (drop 1 (skip_ws r)) of
             None \<Rightarrow> None
           | Some (d, r1) \<Rightarrow>
               (case skip_ws r1 of
                  c # r' \<Rightarrow> (if c = 44 then map_option (map_prod (Cons (k, d)) id) (read_members n r')
                              else if c = 125 then Some ([(k, d)], r') else None)
                | [] \<Rightarrow> None)))"

definition read_json :: "ustr \<Rightarrow> jdoc option" where
  "read_json s =
     (case read_value (length s) s of Some (d, r) \<Rightarrow> if skip_ws r = [] then Some d else None | None \<Rightarrow> None)"

subsection \<open>It reads back what the printer writes\<close>

fun good_doc :: "jdoc \<Rightarrow> bool" where
  "good_doc (DNum neg ds p) = good_num neg ds p"
| "good_doc (DArr xs) = (\<forall>x \<in> set xs. good_doc x)"
| "good_doc (DObj ps) = (\<forall>(k, d) \<in> set ps. good_doc d)"
| "good_doc _ = True"

fun need :: "jdoc \<Rightarrow> nat"
  and needs :: "jdoc list \<Rightarrow> nat"
  and needs' :: "(ustr \<times> jdoc) list \<Rightarrow> nat"
where
  "need (DArr xs) = Suc (needs xs)"
| "need (DObj ps) = Suc (needs' ps)"
| "need _ = 1"
| "needs [] = 0"
| "needs (d # ds) = Suc (max (need d) (needs ds))"
| "needs' [] = 0"
| "needs' ((k, d) # ps) = Suc (max (need d) (needs' ps))"

lemma skip_ws_append [simp]: "\<forall>u \<in> set w. json_ws u \<Longrightarrow> skip_ws (w @ s) = skip_ws s"
  by (simp add: skip_ws_def dropWhile_append2)

lemma skip_ws_stop [simp]: "\<not> json_ws c \<Longrightarrow> skip_ws (c # s) = c # s"
  by (simp add: skip_ws_def)

lemma json_ws_values [simp]:
  "\<not> json_ws 34" "\<not> json_ws 91" "\<not> json_ws 93" "\<not> json_ws 123" "\<not> json_ws 125" "\<not> json_ws 44"
  "\<not> json_ws 58" "\<not> json_ws 110" "\<not> json_ws 116" "\<not> json_ws 102" "json_ws 10" "json_ws 32"
  by (simp_all add: json_ws_def)

lemma ends_number_simps [simp]:
  "ends_number []" "ends_number (93 # s)" "ends_number (125 # s)" "ends_number (44 # s)"
  "json_ws c \<Longrightarrow> ends_number (c # s)"
  by (auto simp: ends_number_def json_ws_def udigit_def in_ranges_def)

lemma ends_number_append: "\<forall>u \<in> set w. json_ws u \<Longrightarrow> ends_number s \<Longrightarrow> ends_number (w @ s)"
  by (cases w) simp_all

text \<open>A number starts with a digit or a minus sign.\<close>

lemma num_units_start:
  assumes "good_num neg ds p"
  obtains c t where "num_units (Fin neg ds p) = c # t" "udigit c \<or> c = 45"
proof -
  have "hd (num_units (Fin neg ds p)) = 45 \<or> udigit (hd (num_units (Fin neg ds p)))"
  proof (cases "ds = [] \<or> neg")
    case True
    then show ?thesis by (auto simp: num_units_def udigit_values)
  next
    case False
    then obtain d ds' where "ds = d # ds'" by (cases ds) auto
    moreover from this have "udigit (unit_of_digit d)" using assms by (simp add: good_num_def)
    ultimately show ?thesis using False
      by (auto simp: num_units_def Let_def udigit_values take_Cons')
  qed
  with that show ?thesis by (metis list.collapse num_units_nonempty)
qed

lemma digit_start:
  assumes "udigit c \<or> c = 45"
  shows "\<not> json_ws c \<and> c \<noteq> 34 \<and> c \<noteq> 91 \<and> c \<noteq> 123 \<and> c \<noteq> 110 \<and> c \<noteq> 116 \<and> c \<noteq> 102 \<and> c \<noteq> 93"
  using assms by (auto simp: json_ws_def udigit_def in_ranges_def)

text \<open>The parts of \<open>wrap\<close>, with and without line breaks.\<close>

lemma wrap_parts:
  assumes "ps \<noteq> []" "\<forall>u \<in> set gap. json_ws u" "\<forall>u \<in> set mind. json_ws u"
  obtains w post where "wrap l r gap mind ps = l # w @ join (44 # w) ps @ post @ [r]"
    "\<forall>u \<in> set w. json_ws u" "\<forall>u \<in> set post. json_ws u"
proof (cases "gap = []")
  case True
  with assms that [of "[]" "[]"] show ?thesis by (simp add: wrap_def)
next
  case False
  with assms that [of "10 # gap" "10 # mind"] show ?thesis by (simp add: wrap_def)
qed

lemma wrap_Cons: "\<exists>t. wrap l r g m ps = l # t"
  by (simp add: wrap_def)

lemma print_start:
  assumes "good_doc d"
  shows "\<exists>c t. print_doc indent gap d = c # t \<and> \<not> json_ws c \<and> c \<noteq> 93"
proof (cases d)
  case (DNum neg ds p)
  with assms have "good_num neg ds p" by simp
  then obtain c t where "num_units (Fin neg ds p) = c # t" "udigit c \<or> c = 45"
    by (rule num_units_start)
  with digit_start [OF this(2)] DNum show ?thesis by simp
next
  case (DArr xs)
  with wrap_Cons [of 91 93 "gap @ indent" gap] show ?thesis by fastforce
next
  case (DObj ps)
  with wrap_Cons [of 123 125 "gap @ indent" gap] show ?thesis by fastforce
qed (simp_all add: quote_body)

lemma colon_parts:
  obtains cs where "colon g = 58 # cs" "\<forall>u \<in> set cs. json_ws u"
  using that [of "[32]"] that [of "[]"] by (cases "g = []") (simp_all add: colon_def)

definition reads_back :: "nat \<Rightarrow> ustr \<Rightarrow> jdoc \<Rightarrow> bool" where
  "reads_back n s d \<longleftrightarrow>
     (\<forall>w r. (\<forall>u \<in> set w. json_ws u) \<longrightarrow> ends_number r \<longrightarrow> read_value n (w @ s @ r) = Some (d, r))"

lemma read_elems_join:
  assumes "xs \<noteq> []" "\<And>m x. x \<in> set xs \<Longrightarrow> need x \<le> m \<Longrightarrow> reads_back m (pr x) x" "needs xs \<le> n"
    and "\<forall>u \<in> set w. json_ws u" "\<forall>u \<in> set post. json_ws u"
  shows "read_elems n (w @ join (44 # w) (map pr xs) @ post @ 93 # r) = Some (xs, r)"
  using assms(1-3)
proof (induction xs arbitrary: n rule: list_nonempty_induct)
  case (single x)
  then obtain m where n: "n = Suc m" "need x \<le> m" by (cases n) auto
  with single have "read_value m (w @ pr x @ post @ 93 # r) = Some (x, post @ 93 # r)"
    using assms(4,5) by (simp add: reads_back_def ends_number_append)
  with assms(5) show ?case by (simp add: n)
next
  case (cons x xs)
  then obtain m where n: "n = Suc m" "need x \<le> m" "needs xs \<le> m" by (cases n) auto
  obtain y ys where xs: "xs = y # ys" using cons.hyps by (cases xs) auto
  let ?t = "join (44 # w) (map pr xs) @ post @ 93 # r"
  have "read_value m (w @ pr x @ 44 # w @ ?t) = Some (x, 44 # w @ ?t)"
    using cons.prems(1) [of x m] n assms(4) by (simp add: reads_back_def)
  moreover have "read_elems m (w @ ?t) = Some (xs, r)"
    by (rule cons.IH) (use cons.prems n in auto)
  ultimately show ?case by (simp add: n xs)
qed

lemma read_members_join:
  assumes "ps \<noteq> []"
    "\<And>m k d. (k, d) \<in> set ps \<Longrightarrow> need d \<le> m \<Longrightarrow> reads_back m (pr d) d" "needs' ps \<le> n"
    and "\<forall>u \<in> set w. json_ws u" "\<forall>u \<in> set post. json_ws u"
  shows "read_members n
      (w @ join (44 # w) (map (\<lambda>(k, d). quote k @ colon g @ pr d) ps) @ post @ 125 # r) = Some (ps, r)"
  using assms(1-3)
proof (induction ps arbitrary: n rule: list_nonempty_induct)
  case (single p)
  obtain k d where p: "p = (k, d)" by (cases p)
  with single obtain m where n: "n = Suc m" "need d \<le> m" by (cases n) auto
  let ?r = "post @ 125 # r"
  obtain cs where cs: "colon g = 58 # cs" "\<forall>u \<in> set cs. json_ws u" by (rule colon_parts)
  have "read_value m (cs @ pr d @ ?r) = Some (d, ?r)"
    using single(1) [of k d m] n assms(5) p cs(2)
    by (simp add: reads_back_def ends_number_append)
  with assms(4,5) read_chars_quote [of k "colon g @ pr d @ ?r"] show ?case
    by (simp add: n p quote_body cs(1))
next
  case (cons p ps)
  obtain k d where p: "p = (k, d)" by (cases p)
  with cons obtain m where n: "n = Suc m" "need d \<le> m" "needs' ps \<le> m" by (cases n) auto
  obtain y ys where ps: "ps = y # ys" using cons.hyps by (cases ps) auto
  let ?t = "join (44 # w) (map (\<lambda>(k, d). quote k @ colon g @ pr d) ps) @ post @ 125 # r"
  obtain cs where cs: "colon g = 58 # cs" "\<forall>u \<in> set cs. json_ws u" by (rule colon_parts)
  have "read_value m (cs @ pr d @ 44 # w @ ?t) = Some (d, 44 # w @ ?t)"
    using cons.prems(1) [of k d m] n p cs(2) by (simp add: reads_back_def)
  moreover have "read_members m (w @ ?t) = Some (ps, r)"
    by (rule cons.IH) (use cons.prems n in auto)
  ultimately show ?case using assms(4) read_chars_quote [of k "colon g @ pr d @ 44 # w @ ?t"]
    by (simp add: n p ps quote_body cs(1))
qed

lemma read_value_print:
  assumes "good_doc d" "need d \<le> n" "\<forall>u \<in> set indent. json_ws u" "\<forall>u \<in> set gap. json_ws u"
  shows "reads_back n (print_doc indent gap d) d"
  using assms
proof (induction d arbitrary: n gap)
  case DNull
  then show ?case by (cases n) (simp_all add: reads_back_def read_word_def)
next
  case (DBool b)
  then show ?case by (cases n) (simp_all add: reads_back_def read_word_def)
next
  case (DNum neg ds p)
  then obtain m where n: "n = Suc m" by (cases n) simp_all
  from DNum have g: "good_num neg ds p" by simp
  then obtain c t where ct: "num_units (Fin neg ds p) = c # t" "udigit c \<or> c = 45"
    by (rule num_units_start)
  show ?case unfolding reads_back_def
  proof (intro allI impI)
    fix w r assume "\<forall>u \<in> set w. json_ws u" "ends_number r"
    with digit_start [OF ct(2)] read_number_units [OF g, of r] ct(1)
    show "read_value n (w @ print_doc indent gap (DNum neg ds p) @ r) = Some (DNum neg ds p, r)"
      by (simp add: n)
  qed
next
  case (DStr s)
  then obtain m where n: "n = Suc m" by (cases n) simp_all
  show ?case using read_chars_quote [of s] by (simp add: reads_back_def n quote_body)
next
  case (DArr xs)
  then obtain m where n: "n = Suc m" "needs xs \<le> m" by (cases n) simp_all
  show ?case
  proof (cases "xs = []")
    case True
    then show ?thesis by (simp add: reads_back_def n wrap_def)
  next
    case False
    let ?pr = "print_doc indent (gap @ indent)"
    have g: "\<forall>u \<in> set (gap @ indent). json_ws u" using DArr.prems by auto
    from False have "map ?pr xs \<noteq> []" by simp
    from wrap_parts [OF this g DArr.prems(4), of 91 93] obtain w post where
      wp: "wrap 91 93 (gap @ indent) gap (map ?pr xs) = 91 # w @ join (44 # w) (map ?pr xs) @ post @ [93]"
        "\<forall>u \<in> set w. json_ws u" "\<forall>u \<in> set post. json_ws u" .
    have e: "read_elems m (w @ join (44 # w) (map ?pr xs) @ post @ 93 # r) = Some (xs, r)" for r
      by (rule read_elems_join [OF False _ n(2) wp(2,3)]) (use DArr g in auto)
    obtain x ys where x: "xs = x # ys" using False by (cases xs) auto
    have "take 1 (skip_ws (w @ join (44 # w) (map ?pr xs) @ post @ 93 # r)) \<noteq> [93]" for r
    proof -
      have "good_doc x" using DArr.prems(1) x by simp
      then obtain c t where "?pr x = c # t" "\<not> json_ws c" "c \<noteq> 93" using print_start by blast
      moreover have "\<exists>t'. join (44 # w) (map ?pr xs) = ?pr x @ t'" by (cases ys) (simp_all add: x)
      ultimately show ?thesis using wp(2) by auto
    qed
    with e wp(1) show ?thesis by (simp add: reads_back_def n)
  qed
next
  case (DObj ps)
  then obtain m where n: "n = Suc m" "needs' ps \<le> m" by (cases n) simp_all
  show ?case
  proof (cases "ps = []")
    case True
    then show ?thesis by (simp add: reads_back_def n wrap_def)
  next
    case False
    let ?g = "gap @ indent"
    let ?pr = "\<lambda>(k, d). quote k @ colon ?g @ print_doc indent ?g d"
    have g: "\<forall>u \<in> set ?g. json_ws u" using DObj.prems by auto
    from False have "map ?pr ps \<noteq> []" by simp
    from wrap_parts [OF this g DObj.prems(4), of 123 125] obtain w post where
      wp: "wrap 123 125 ?g gap (map ?pr ps) = 123 # w @ join (44 # w) (map ?pr ps) @ post @ [125]"
        "\<forall>u \<in> set w. json_ws u" "\<forall>u \<in> set post. json_ws u" .
    have e: "read_members m (w @ join (44 # w) (map ?pr ps) @ post @ 125 # r) = Some (ps, r)" for r
      by (rule read_members_join [OF False _ n(2) wp(2,3)]) (use DObj g in fastforce)
    obtain k x ys where x: "ps = (k, x) # ys" using False by (cases ps) auto
    have "\<exists>t'. join (44 # w) (map ?pr ps) = 34 # t'"
      by (cases ys) (simp_all add: x quote_body)
    then have "take 1 (skip_ws (w @ join (44 # w) (map ?pr ps) @ post @ 125 # r)) \<noteq> [125]" for r
      using wp(2) by auto
    with e wp(1) show ?thesis by (simp add: reads_back_def n)
  qed
qed

text \<open>The text is long enough to be its own fuel.\<close>

lemma join_length:
  "xs \<noteq> [] \<Longrightarrow> length (join sep xs) + length sep = sum_list (map length xs) + length xs * length sep"
  by (induction sep xs rule: join.induct) auto

lemma wrap_length:
  "sum_list (map length ps) + length ps + 1 \<le> length (wrap l r g m ps)"
proof (cases "ps = []")
  case False
  have "sum_list (map length ps) + length ps \<le> length (join (a # sep) ps) + 1" for a :: unit16 and sep
  proof -
    obtain m where m: "length ps = Suc m" using False by (cases ps) auto
    from join_length [OF False, of "a # sep"] show ?thesis by (simp add: m)
  qed
  from this [of 44 "10 # g"] this [of 44 "[]"] False show ?thesis
    by (simp add: wrap_def)
qed (simp add: wrap_def)

lemma needs_le:
  assumes "\<And>x. x \<in> set xs \<Longrightarrow> need x \<le> length (pr x)"
  shows "needs xs \<le> sum_list (map (length \<circ> pr) xs) + length xs"
  using assms by (induction xs) fastforce+

lemma needs'_le:
  assumes "\<And>k d. (k, d) \<in> set ps \<Longrightarrow> need d \<le> length (pr (k, d))"
  shows "needs' ps \<le> sum_list (map (length \<circ> pr) ps) + length ps"
  using assms
proof (induction ps)
  case (Cons p ps)
  then have "needs' ps \<le> sum_list (map (length \<circ> pr) ps) + length ps" by (simp add: comp_def)
  with Cons.prems [of "fst p" "snd p"] show ?case by (cases p) (simp add: comp_def)
qed simp

lemma need_length: "need d \<le> length (print_doc indent gap d)"
proof (induction d arbitrary: gap)
  case (DArr xs)
  let ?pr = "print_doc indent (gap @ indent)"
  from needs_le [of xs ?pr] DArr wrap_length [of "map ?pr xs" 91 93 "gap @ indent" gap]
  show ?case by simp
next
  case (DObj ps)
  let ?pr = "\<lambda>(k, d). quote k @ colon (gap @ indent) @ print_doc indent (gap @ indent) d"
  have "need d \<le> length (?pr (k, d))" if "(k, d) \<in> set ps" for k d
    using DObj [of "(k, d)" d "gap @ indent"] that by (simp add: trans_le_add2)
  from needs'_le [OF this, of ps] wrap_length [of "map ?pr ps" 123 125 "gap @ indent" gap]
  show ?case by simp
qed (simp_all add: Suc_le_eq)

lemma read_json_print:
  assumes "good_doc d" "\<forall>u \<in> set indent. json_ws u"
  shows "read_json (print_doc indent [] d) = Some d"
proof -
  from read_value_print [OF assms(1) need_length assms(2), of "[]"]
  have "read_value (length (print_doc indent [] d)) ([] @ print_doc indent [] d @ []) = Some (d, [])"
    unfolding reads_back_def by (metis ends_number_simps(1) empty_iff empty_set)
  then show ?thesis by (simp add: read_json_def skip_ws_def)
qed

end
