(* ===== verification/Json2_Gate.thy ===== *)
theory Json2_Gate
  imports Json2_Read
begin

text \<open>
  The four regular expressions that \<open>JSON.parse\<close> puts in front of \<open>eval\<close>: what \<open>stringify\<close>
  writes gets through them, and what gets through them is a sequence of literals and
  punctuation, so that evaluating it can neither call nor assign. Then the whole of \<open>parse\<close>: the
  round trip, and the walk of the reviver.
\<close>

section \<open>Replacing\<close>

lemma replace_all_skip: "m (c # s) = None \<Longrightarrow> replace_all m f (c # s) = c # replace_all m f s"
  by simp

lemma replace_all_hit:
  "m (s @ t) = Some (length s) \<Longrightarrow> s \<noteq> [] \<Longrightarrow> replace_all m f (s @ t) = f s @ replace_all m f t"
  by (cases s) simp_all

text \<open>The printer with the text of strings and of the other literals replaced.\<close>

fun print_with :: "(ustr \<Rightarrow> ustr) \<Rightarrow> (jdoc \<Rightarrow> ustr) \<Rightarrow> ustr \<Rightarrow> ustr \<Rightarrow> jdoc \<Rightarrow> ustr" where
  "print_with q k indent gap (DStr s) = q s"
| "print_with q k indent gap (DArr xs) =
     wrap 91 93 (gap @ indent) gap (map (print_with q k indent (gap @ indent)) xs)"
| "print_with q k indent gap (DObj ps) =
     wrap 123 125 (gap @ indent) gap
       (map (\<lambda>(key, d). q key @ colon (gap @ indent) @ print_with q k indent (gap @ indent) d) ps)"
| "print_with q k indent gap d = k d"

definition literal_text :: "jdoc \<Rightarrow> ustr" where
  "literal_text d = print_doc [] [] d"

lemma print_doc_with: "print_doc indent gap d = print_with quote literal_text indent gap d"
proof (induction d arbitrary: gap)
  case (DArr xs)
  then have "map (print_doc indent (gap @ indent)) xs
      = map (print_with quote literal_text indent (gap @ indent)) xs" by simp
  then show ?case by (simp only: print_doc.simps print_with.simps)
next
  case (DObj ps)
  have "(\<lambda>(k, d). quote k @ colon (gap @ indent) @ print_doc indent (gap @ indent) d) p =
      (\<lambda>(k, d). quote k @ colon (gap @ indent) @ print_with quote literal_text indent (gap @ indent) d) p"
    if "p \<in> set ps" for p
    using DObj [OF that] by (cases p) simp
  then have "map (\<lambda>(k, d). quote k @ colon (gap @ indent) @ print_doc indent (gap @ indent) d) ps =
      map (\<lambda>(k, d). quote k @ colon (gap @ indent) @ print_with quote literal_text indent (gap @ indent) d) ps"
    by simp
  then show ?case by (simp only: print_doc.simps print_with.simps)
qed (simp_all add: literal_text_def)

fun scalar :: "jdoc \<Rightarrow> bool" where
  "scalar (DStr s) = False"
| "scalar (DArr xs) = False"
| "scalar (DObj ps) = False"
| "scalar d = True"

text \<open>
  A rewriting of texts that leaves the punctuation alone and turns one printing of the strings
  and literals into another turns the whole printed document into the other. \<open>good\<close> is what a
  literal may be followed by.
\<close>

locale text_stage =
  fixes rw :: "ustr \<Rightarrow> ustr" and q q' :: "ustr \<Rightarrow> ustr" and k k' :: "jdoc \<Rightarrow> ustr"
    and good :: "ustr \<Rightarrow> bool"
  assumes punct: "c \<in> {91, 93, 123, 125, 44, 58} \<or> json_ws c \<Longrightarrow> rw (c # s) = c # rw s"
    and str: "good s \<Longrightarrow> rw (q x @ s) = q' x @ rw s"
    and literal: "good_doc d \<Longrightarrow> scalar d \<Longrightarrow> good s \<Longrightarrow> rw (k d @ s) = k' d @ rw s"
    and good: "c \<in> {93, 125, 44, 58} \<or> json_ws c \<Longrightarrow> good (c # s)"
begin

lemma ws: "\<forall>u \<in> set w. json_ws u \<Longrightarrow> rw (w @ s) = w @ rw s"
  by (induction w) (simp_all add: punct)

lemma good_ws: "\<forall>u \<in> set w. json_ws u \<Longrightarrow> good s \<Longrightarrow> good (w @ s)"
  by (cases w) (simp_all add: good)

lemma joined:
  assumes "\<forall>u \<in> set w. json_ws u" "good s"
    and "\<And>x s. x \<in> set xs \<Longrightarrow> good s \<Longrightarrow> rw (f x @ s) = g x @ rw s"
  shows "rw (join (44 # w) (map f xs) @ s) = join (44 # w) (map g xs) @ rw s"
  using assms(3)
proof (induction xs rule: induct_list012)
  case (3 x y zs)
  have "rw (join (44 # w) (map f (y # zs)) @ s) = join (44 # w) (map g (y # zs)) @ rw s"
    by (rule 3(2)) (use 3(3) in auto)
  with 3(3) [of x] show ?case by (simp add: good punct ws [OF assms(1)])
qed (use assms(2) in simp_all)

lemma wrapped:
  assumes "l \<in> {91, 123}" "r \<in> {93, 125}" "\<forall>u \<in> set g. json_ws u" "\<forall>u \<in> set m. json_ws u"
    and x: "\<And>x s. x \<in> set xs \<Longrightarrow> good s \<Longrightarrow> rw (f x @ s) = f' x @ rw s"
  shows "rw (wrap l r g m (map f xs) @ s) = wrap l r g m (map f' xs) @ rw s"
proof -
  have g1: "good (10 # m @ r # s)" "good (r # s)" using assms(2) by (auto intro: good)
  have p: "rw (l # t) = l # rw t" "rw (r # t) = r # rw t" "rw (10 # t) = 10 # rw t" for t
    using assms(1,2) by (auto intro: punct)
  have "\<forall>u \<in> set (10 # g). json_ws u" using assms(3) by simp
  from joined [OF this g1(1) x] joined [of "[]", OF _ g1(2) x] show ?thesis
    by (auto simp: wrap_def p ws [OF assms(3)] ws [OF assms(4)])
qed

lemma printed:
  assumes "\<forall>u \<in> set indent. json_ws u"
  shows "good_doc d \<Longrightarrow> \<forall>u \<in> set gap. json_ws u \<Longrightarrow> good s \<Longrightarrow>
    rw (print_with q k indent gap d @ s) = print_with q' k' indent gap d @ rw s"
proof (induction d arbitrary: gap s)
  case (DArr xs)
  have g: "\<forall>u \<in> set (gap @ indent). json_ws u" using DArr.prems assms by auto
  show ?case unfolding print_with.simps
  proof (rule wrapped)
    fix x s assume "x \<in> set xs" "good s"
    with DArr.IH [OF this(1) _ g this(2)] DArr.prems(1)
    show "rw (print_with q k indent (gap @ indent) x @ s) = print_with q' k' indent (gap @ indent) x @ rw s"
      by simp
  qed (use g DArr.prems in auto)
next
  case (DObj ps)
  have g: "\<forall>u \<in> set (gap @ indent). json_ws u" using DObj.prems assms by auto
  show ?case unfolding print_with.simps
  proof (rule wrapped)
    fix p s assume p: "p \<in> set ps" and s: "good s"
    obtain key d where kd: "p = (key, d)" by (cases p)
    obtain cs where cs: "colon (gap @ indent) = 58 # cs" "\<forall>u \<in> set cs. json_ws u" by (rule colon_parts)
    have "rw (print_with q k indent (gap @ indent) d @ s) = print_with q' k' indent (gap @ indent) d @ rw s"
      using DObj.IH [OF p, of d] DObj.prems(1) g s p kd by auto
    then show "rw ((case p of (key, d) \<Rightarrow> q key @ colon (gap @ indent) @ print_with q k indent (gap @ indent) d) @ s)
        = (case p of (key, d) \<Rightarrow> q' key @ colon (gap @ indent) @ print_with q' k' indent (gap @ indent) d) @ rw s"
      using cs(2) by (simp add: kd cs(1) str good punct ws)
  qed (use g DObj.prems in auto)
next
  case DNull
  then show ?case using literal [of DNull] by simp
next
  case (DBool b)
  then show ?case using literal [of "DBool b"] by simp
next
  case (DNum neg ds p)
  then show ?case using literal [of "DNum neg ds p"] by simp
qed (simp add: str)

end

section \<open>First and second replacement\<close>

text \<open>Escapes become \<open>@\<close>, so a quoted string is left with no quote or backslash inside.\<close>

definition masked :: "ustr \<Rightarrow> ustr" where
  "masked s = [34] @ map (\<lambda>a. if escapable a then 64 else a) s @ [34]"

lemma match_pair_other: "c \<noteq> 92 \<Longrightarrow> match_pair (c # s) = None"
  by (simp add: match_pair_def split: list.splits)

lemma mask_other: "\<forall>c \<in> set u. c \<noteq> 92 \<Longrightarrow>
    replace_all match_pair f (u @ s) = u @ replace_all match_pair f s"
  by (induction u) (simp_all add: match_pair_other)

lemma mask_escape:
  "replace_all match_pair (\<lambda>_. [64]) (escape_unit a @ s)
     = (if escapable a then 64 else a) # replace_all match_pair (\<lambda>_. [64]) s"
proof (cases "escapable a")
  case False
  moreover from this have "a \<noteq> 92" using escapable_literal by (auto simp: literal_unit_def)
  ultimately show ?thesis by (simp add: escape_unit_def match_pair_other)
next
  case True
  have d: "unat a div 4096 < 16" using unat_below [of a] by simp
  have "match_pair (escape_unit a @ s) = Some (length (escape_unit a))"
  proof (cases "meta a")
    case None
    with True d show ?thesis
      by (simp add: escape_unit_def u_escape_digits match_pair_def simple_escape_def hex_unit_val)
  next
    case (Some c)
    with True show ?thesis
      by (auto simp: escape_unit_def meta_def match_pair_def simple_escape_def split: if_splits)
  qed
  moreover have "escape_unit a \<noteq> []"
    by (auto simp: escape_unit_def u_escape_def meta_def split: option.splits if_splits)
  ultimately show ?thesis using True by (simp add: replace_all_hit)
qed

lemma mask_quote:
  "replace_all match_pair (\<lambda>_. [64]) (quote x @ s) = masked x @ replace_all match_pair (\<lambda>_. [64]) s"
proof -
  have "replace_all match_pair (\<lambda>_. [64]) (concat (map escape_unit x) @ t)
      = map (\<lambda>a. if escapable a then 64 else a) x @ replace_all match_pair (\<lambda>_. [64]) t" for t
    by (induction x) (simp_all add: mask_escape)
  then show ?thesis by (simp add: quote_body masked_def match_pair_other)
qed

text \<open>The characters of a number.\<close>

lemma num_units_chars:
  assumes "good_num neg ds p" "u \<in> set (num_units (Fin neg ds p))"
  shows "udigit u \<or> u \<in> {43, 45, 46, 101}"
proof -
  have "udigit u" if "u \<in> set (map unit_of_digit ds)" for u
    using assms(1) that by (auto simp: good_num_def)
  moreover have "udigit u" if "u \<in> set (zeros n)" for u n
    using that by (auto simp: zeros_def udigit_values)
  ultimately show ?thesis using assms(2) dec_units_digits
    by (auto simp: num_units_def Let_def udigit_values split: if_splits
        dest!: in_set_takeD in_set_dropD)
qed

lemma literal_chars:
  assumes "good_doc d" "scalar d" "u \<in> set (literal_text d)"
  shows "u \<noteq> 92 \<and> \<not> cx u"
proof -
  have "udigit u \<or> u \<in> {43, 45, 46, 101} \<or> u \<in> set (lit ''nulltruefalse'')"
    using assms num_units_chars by (cases d) (auto simp: literal_text_def split: if_splits)
  then have "32 \<le> unat u \<and> unat u \<le> 122 \<and> u \<noteq> 92"
    by (auto simp: udigit_def in_ranges_def)
  moreover have "cx u \<Longrightarrow> unat u = 0 \<or> 122 < unat u"
    by (auto simp: cx_def in_ranges_def format_ranges_def)
  ultimately show ?thesis by auto
qed

interpretation mask: text_stage "replace_all match_pair (\<lambda>_. [64])" quote masked literal_text
  literal_text "\<lambda>_. True"
proof
  fix d s assume d: "good_doc d" "scalar d"
  show "replace_all match_pair (\<lambda>_. [64]) (literal_text d @ s)
      = literal_text d @ replace_all match_pair (\<lambda>_. [64]) s"
    by (rule mask_other) (use literal_chars [OF d] in blast)
qed (auto simp: mask_quote match_pair_other json_ws_def)

text \<open>Strings, words and numbers become a closing bracket.\<close>

lemma digits_at_le: "digits_at s \<le> length s"
  by (simp add: digits_at_def length_takeWhile_le)

lemma fraction_at_le: "fraction_at s \<le> length s"
  using digits_at_le [of "drop 1 s"] by (cases s) (auto simp: fraction_at_def)

lemma exponent_at_le: "exponent_at s \<le> length s"
proof (cases s)
  case (Cons c r)
  show ?thesis
  proof (cases r)
    case (Cons d t)
    with \<open>s = c # r\<close> show ?thesis using digits_at_le [of r] digits_at_le [of t]
      by (auto simp: exponent_at_def Let_def)
  qed (simp add: Cons exponent_at_def Let_def digits_at_def)
qed (simp add: exponent_at_def)

lemma match_number_le:
  assumes "match_number s = Some n"
  shows "0 < n \<and> n \<le> length s"
proof -
  define sg where "sg = (if take 1 s = [45] then 1 else 0 :: nat)"
  define a where "a = digits_at (drop sg s)"
  define b where "b = fraction_at (drop (sg + a) s)"
  define c where "c = exponent_at (drop (sg + a + b) s)"
  have "a \<noteq> 0" "n = sg + a + b + c"
    using assms by (auto simp: match_number_def Let_def sg_def a_def b_def c_def split: if_splits)
  moreover have "a \<le> length s - sg" "b \<le> length s - (sg + a)" "c \<le> length s - (sg + a + b)"
    using digits_at_le [of "drop sg s"] fraction_at_le [of "drop (sg + a) s"]
      exponent_at_le [of "drop (sg + a + b) s"] by (simp_all add: a_def b_def c_def)
  ultimately show ?thesis by linarith
qed

lemma read_number_match:
  assumes "read_number s = Some (d, r)"
  shows "\<exists>n. match_number s = Some n \<and> r = drop n s"
proof -
  define sg where "sg = (if take 1 s = [45] then 1 else 0 :: nat)"
  define s1 where "s1 = drop sg s"
  define a where "a = takeWhile udigit s1"
  define s2 where "s2 = drop (length a) s1"
  define b where "b = fraction_at s2"
  define s3 where "s3 = drop b s2"
  have s1: "(if take 1 s = [45] then drop 1 s else s) = s1" by (simp add: s1_def sg_def)
  from assms have a: "a \<noteq> []" and r: "r = drop (exponent_at s3) s3"
    by (auto simp only: read_number_def Let_def s1 a_def [symmetric] s2_def [symmetric]
        b_def [symmetric] s3_def [symmetric] prod.inject option.inject option.distinct
        split: if_splits)
  have d: "drop (sg + length a) s = s2" "drop (sg + length a + b) s = s3"
    by (simp_all add: s3_def s2_def s1_def add.commute)
  have "match_number s = Some (sg + length a + b + exponent_at s3)"
    by (simp only: match_number_def Let_def sg_def [symmetric] digits_at_def s1_def [symmetric]
        a_def [symmetric] d b_def [symmetric] length_0_conv a if_False)
  moreover have "r = drop (sg + length a + b + exponent_at s3) s"
    by (simp add: r s3_def s2_def s1_def add.commute add.left_commute)
  ultimately show ?thesis by blast
qed

lemma match_number_units:
  assumes "good_num neg ds p" "ends_number s"
  shows "match_number (num_units (Fin neg ds p) @ s) = Some (length (num_units (Fin neg ds p)))"
proof -
  let ?u = "num_units (Fin neg ds p)"
  from read_number_match [OF read_number_units [OF assms]]
  obtain n where n: "match_number (?u @ s) = Some n" "s = drop n (?u @ s)" by blast
  have "n \<le> length (?u @ s)" using match_number_le [OF n(1)] by blast
  moreover have "length s = length (?u @ s) - n" unfolding length_drop [symmetric] by (rule arg_cong [OF n(2)])
  ultimately have "n = length ?u" unfolding length_append by linarith
  with n(1) show ?thesis by simp
qed

lemma masked_plain: "\<forall>u \<in> set (map (\<lambda>a. if escapable a then 64 else a) x). plain_unit u"
proof
  fix u assume "u \<in> set (map (\<lambda>a. if escapable a then 64 else a) x)"
  then consider "u = 64" | "\<not> escapable u" by (auto split: if_splits)
  then show "plain_unit u"
  proof cases
    case 2
    then have "literal_unit u" by (rule escapable_literal)
    then show ?thesis by (auto simp: literal_unit_def plain_unit_def)
  qed (simp add: plain_unit_def)
qed

lemma match_value_masked: "match_value (masked x @ s) = Some (length (masked x))"
proof -
  let ?m = "map (\<lambda>a. if escapable a then 64 else a) x"
  have "takeWhile plain_unit (?m @ 34 # s) = ?m"
    using masked_plain [of x] by (subst takeWhile_append2) (auto simp: plain_unit_def)
  then show ?thesis by (simp add: match_value_def match_string_def masked_def Let_def)
qed

lemma match_word_other: "s = c # t \<Longrightarrow> lit w = d # v \<Longrightarrow> c \<noteq> d \<Longrightarrow> match_word w s = None"
  by (cases w) (auto simp: match_word_def)

lemma match_value_digit:
  assumes "udigit c \<or> c = 45"
  shows "match_value (c # s) = match_number (c # s)"
proof -
  have "match_string (c # s) = None" using digit_start [OF assms] by (simp add: match_string_def Let_def)
  moreover have "match_word ''true'' (c # s) = None" "match_word ''false'' (c # s) = None"
    "match_word ''null'' (c # s) = None"
    using digit_start [OF assms] by (simp_all add: match_word_def)
  ultimately show ?thesis by (simp add: match_value_def split: option.split)
qed

lemma match_value_literal:
  assumes "good_doc d" "scalar d" "ends_number s"
  shows "match_value (literal_text d @ s) = Some (length (literal_text d))"
proof (cases d)
  case (DNum neg ds p)
  with assms have g: "good_num neg ds p" by simp
  then obtain c t where c: "num_units (Fin neg ds p) = c # t" "udigit c \<or> c = 45"
    by (rule num_units_start)
  from match_value_digit [OF c(2)] match_number_units [OF g assms(3)] c(1) show ?thesis
    by (simp add: literal_text_def DNum)
qed (use assms(2) in \<open>simp_all add: literal_text_def match_value_def match_string_def match_word_def Let_def\<close>)

lemma match_value_punct:
  assumes "c \<in> {91, 93, 123, 125, 44, 58} \<or> json_ws c"
  shows "match_value (c # s) = None"
proof -
  have c: "c \<in> {91, 93, 123, 125, 44, 58, 9, 10, 13, 32}" using assms by (auto simp: json_ws_def)
  then have "\<not> udigit c" "c \<noteq> 45" by (auto simp: udigit_def in_ranges_def)
  then have "match_number (c # s) = None" by (simp add: match_number_def Let_def digits_at_def)
  with c show ?thesis
    by (auto simp: match_value_def match_string_def match_word_def Let_def)
qed

interpretation token: text_stage "replace_all match_value (\<lambda>_. [93])" masked "\<lambda>_. [93]" literal_text
  "\<lambda>_. [93]" ends_number
proof
  fix s x assume "ends_number s"
  show "replace_all match_value (\<lambda>_. [93]) (masked x @ s) = [93] @ replace_all match_value (\<lambda>_. [93]) s"
    by (rule replace_all_hit, rule match_value_masked) (simp add: masked_def)
next
  fix d s assume d: "good_doc d" "scalar d" "ends_number s"
  have "literal_text d \<noteq> []" by (simp add: literal_text_def)
  with match_value_literal [OF d]
  show "replace_all match_value (\<lambda>_. [93]) (literal_text d @ s) = [93] @ replace_all match_value (\<lambda>_. [93]) s"
    by (rule replace_all_hit)
next
  fix c :: unit16 and s assume "c \<in> {91, 93, 123, 125, 44, 58} \<or> json_ws c"
  then show "replace_all match_value (\<lambda>_. [93]) (c # s) = c # replace_all match_value (\<lambda>_. [93]) s"
    by (simp add: match_value_punct)
next
  fix c :: unit16 and s assume "c \<in> {93, 125, 44, 58} \<or> json_ws c"
  then show "ends_number (c # s)"
    by (auto simp: ends_number_def udigit_def in_ranges_def json_ws_def)
qed

section \<open>Third and fourth replacement\<close>

text \<open>
  Reading a text left to right: an opening bracket is allowed at the start and, white space
  aside, after a comma, a colon or another opening bracket.
\<close>

fun opens_ok :: "bool \<Rightarrow> ustr \<Rightarrow> bool" where
  "opens_ok a [] = True"
| "opens_ok a (c # s) =
     (if c = 91 then a \<and> opens_ok True s
      else structural c \<and> opens_ok (if uspace c then a else c = 58 \<or> c = 44) s)"

lemma uspace_values [simp]: "\<not> uspace 91" "\<not> uspace 93" "\<not> uspace 44" "\<not> uspace 58" "\<not> uspace 123" "\<not> uspace 125"
  by (simp_all add: uspace_def in_ranges_def)

lemma json_ws_uspace: "json_ws u \<Longrightarrow> uspace u \<and> u \<noteq> 91"
  unfolding json_ws_def by (elim insertE emptyE) (simp_all add: uspace_def in_ranges_def)

lemma opens_ok_ws: "\<forall>u \<in> set w. uspace u \<Longrightarrow> opens_ok a (w @ s) = opens_ok a s"
  by (induction w) (auto simp: structural_def)

lemma brackets_split:
  "brackets_at s = (let w = takeWhile uspace s; r = dropWhile uspace s in
     if take 1 r = [91] then length w + 1 + brackets_at (drop 1 r) else 0)"
proof -
  have "drop (length (takeWhile uspace s)) s = dropWhile uspace s"
    by (rule dropWhile_eq_drop [symmetric])
  moreover from this have "drop (length (takeWhile uspace s) + 1) s = drop 1 (dropWhile uspace s)"
    by (metis add.commute drop_drop)
  ultimately show ?thesis by (simp only: brackets_at.simps [of s] Let_def)
qed

lemma no_brackets_disarm:
  assumes "opens_ok a s" "brackets_at s = 0"
  shows "opens_ok False s"
proof -
  define w r where "w = takeWhile uspace s" and "r = dropWhile uspace s"
  have s: "s = w @ r" by (simp add: w_def r_def)
  have w: "\<forall>u \<in> set w. uspace u" by (auto simp: w_def dest: set_takeWhileD)
  have "opens_ok a r" using assms(1) opens_ok_ws [OF w] by (simp add: s)
  moreover have "take 1 r \<noteq> [91]"
    using assms(2) brackets_split [of s] by (auto simp: Let_def r_def)
  moreover have "r = [] \<or> \<not> uspace (hd r)" using hd_dropWhile r_def by blast
  ultimately have "opens_ok False r" by (cases r) auto
  then show ?thesis using opens_ok_ws [OF w] by (simp add: s)
qed

lemma brackets_removed:
  "opens_ok a s \<Longrightarrow> opens_ok False (drop (brackets_at s) s) \<or> brackets_at s = 0"
proof (induction s arbitrary: a rule: length_induct)
  case (1 s)
  let ?w = "takeWhile uspace s" and ?r = "dropWhile uspace s"
  have w: "\<forall>u \<in> set ?w. uspace u" by (auto dest: set_takeWhileD)
  show ?case
  proof (cases "take 1 ?r = [91]")
    case True
    then obtain t where r: "?r = 91 # t" by (cases ?r) auto
    have "opens_ok a ?r" using "1.prems" opens_ok_ws [OF w, of a ?r]
      by (simp only: takeWhile_dropWhile_id)
    with r have t: "opens_ok True t" by simp
    have n: "brackets_at s = length ?w + 1 + brackets_at t"
      by (subst brackets_split) (simp add: r)
    have d: "drop (brackets_at s) s = drop (brackets_at t) t"
    proof -
      have "drop (length ?w + 1) s = t"
        using r by (metis Suc_eq_plus1 drop_Suc_Cons drop0 drop_drop dropWhile_eq_drop add.commute)
      then show ?thesis by (metis n add.commute drop_drop)
    qed
    have "length t < length s"
      using r by (metis length_dropWhile_le length_Cons Suc_le_eq)
    from "1.IH" [rule_format, OF this t]
    have "opens_ok False (drop (brackets_at t) t) \<or> brackets_at t = 0" .
    with no_brackets_disarm [OF t] show ?thesis unfolding d by auto
  qed (simp add: brackets_split [of s])
qed

lemma match_open_Cons:
  "match_open (c # t) = (if (c = 58 \<or> c = 44) \<and> brackets_at t \<noteq> 0 then Some (Suc (brackets_at t)) else None)"
  by (simp add: match_open_def)

lemma strip_structural: "opens_ok False s \<Longrightarrow> list_all structural (replace_all match_open (\<lambda>_. []) s)"
proof (induction s rule: length_induct)
  case (1 s)
  have IH: "list_all structural (replace_all match_open (\<lambda>_. []) t)"
    if "length t < length s" "opens_ok False t" for t
    using "1.IH" that by blast
  show ?case
  proof (cases s)
    case (Cons c t)
    have c: "c \<noteq> 91" using "1.prems" unfolding Cons by (cases "c = 91") simp_all
    then have cs: "structural c" "opens_ok (if uspace c then False else c = 58 \<or> c = 44) t"
      using "1.prems" unfolding Cons by simp_all
    have arm: "opens_ok True t" if "c = 58 \<or> c = 44" using cs(2) that by auto
    show ?thesis
    proof (cases "(c = 58 \<or> c = 44) \<and> brackets_at t \<noteq> 0")
      case True
      with brackets_removed [OF arm] have "opens_ok False (drop (brackets_at t) t)" by blast
      then have "list_all structural (replace_all match_open (\<lambda>_. []) (drop (brackets_at t) t))"
        by (rule IH [rotated]) (simp add: Cons)
      then show ?thesis unfolding Cons replace_all.simps match_open_Cons if_P [OF True]
        by simp
    next
      case False
      have "opens_ok False t"
      proof (cases "c = 58 \<or> c = 44")
        case True
        with False no_brackets_disarm [OF arm] show ?thesis by blast
      next
        case False
        with cs(2) show ?thesis by (cases "uspace c") simp_all
      qed
      then have "list_all structural (replace_all match_open (\<lambda>_. []) t)"
        by (rule IH [rotated]) (simp add: Cons)
      then show ?thesis unfolding Cons replace_all.simps match_open_Cons if_not_P [OF False]
        by (simp add: cs(1))
    qed
  qed simp
qed

lemma strip_open_structural: "opens_ok True s \<Longrightarrow> list_all structural (strip_open s)"
  unfolding strip_open_def
  by (rule strip_structural)
    (metis brackets_removed no_brackets_disarm drop0)

text \<open>What is left of a printed document when its literals are gone passes.\<close>

lemma opens_ok_join:
  assumes w: "\<forall>u \<in> set w. json_ws u" and "xs \<noteq> []" and s: "opens_ok False s"
    and x: "\<And>x s. x \<in> set xs \<Longrightarrow> opens_ok False s \<Longrightarrow> opens_ok True (f x @ s)"
  shows "opens_ok True (w @ join (44 # w) (map f xs) @ s)"
  using assms(2) x
proof (induction xs rule: list_nonempty_induct)
  case (single x)
  with s w json_ws_uspace show ?case by (simp add: opens_ok_ws)
next
  case (cons x xs)
  obtain y ys where xs: "xs = y # ys" using cons.hyps by (cases xs) auto
  have "opens_ok True (w @ join (44 # w) (map f xs) @ s)" using cons by simp
  then have "opens_ok False (44 # w @ join (44 # w) (map f xs) @ s)" by (simp add: structural_def)
  from cons.prems [OF _ this] w json_ws_uspace show ?case by (simp add: xs opens_ok_ws)
qed

lemma opens_ok_wrap:
  assumes l: "l = 91 \<and> r = 93 \<or> l = 123 \<and> r = 125"
    and g: "\<forall>u \<in> set g. json_ws u" and m: "\<forall>u \<in> set m. json_ws u" and s: "opens_ok False s"
    and x: "\<And>x s. x \<in> set xs \<Longrightarrow> opens_ok False s \<Longrightarrow> opens_ok True (f x @ s)"
    and first: "l = 123 \<Longrightarrow> (\<And>x s. x \<in> set xs \<Longrightarrow> opens_ok False s \<Longrightarrow> opens_ok False (f x @ s))"
  shows "opens_ok True (wrap l r g m (map f xs) @ s)"
proof (cases "xs = []")
  case True
  with l s show ?thesis by (auto simp: wrap_def structural_def)
next
  case False
  then have "map f xs \<noteq> []" by simp
  from wrap_parts [OF this g m, of l r] obtain w post where
    wp: "wrap l r g m (map f xs) = l # w @ join (44 # w) (map f xs) @ post @ [r]"
      "\<forall>u \<in> set w. json_ws u" "\<forall>u \<in> set post. json_ws u" .
  have p: "opens_ok False (post @ r # s)"
    using wp(3) json_ws_uspace l s by (auto simp: opens_ok_ws structural_def)
  show ?thesis
  proof (cases "l = 91")
    case True
    have "opens_ok True (w @ join (44 # w) (map f xs) @ post @ r # s)"
      by (rule opens_ok_join [OF wp(2) False p]) (rule x)
    with True show ?thesis unfolding wp(1) by simp
  next
    case l: False
    obtain y ys where xs: "xs = y # ys" using False by (cases xs) auto
    let ?rest = "(if ys = [] then [] else 44 # w @ join (44 # w) (map f ys)) @ post @ r # s"
    have "opens_ok False ?rest"
      using opens_ok_join [OF wp(2) _ p, of ys f] x xs p by (auto simp: structural_def)
    with first xs \<open>l = 91 \<and> r = 93 \<or> _\<close> l have "opens_ok False (f y @ ?rest)" by simp
    moreover have "wrap l r g m (map f xs) @ s = l # w @ f y @ ?rest"
      unfolding wp(1) by (cases ys) (simp_all add: xs)
    moreover have "\<forall>u \<in> set w. uspace u" using wp(2) json_ws_uspace by blast
    ultimately show ?thesis using assms(1) l by (auto simp: opens_ok_ws structural_def)
  qed
qed

abbreviation "bracketed \<equiv> print_with (\<lambda>_. [93]) (\<lambda>_. [93])"

lemma opens_ok_bracketed:
  assumes "\<forall>u \<in> set indent. json_ws u"
  shows "\<forall>u \<in> set gap. json_ws u \<Longrightarrow> opens_ok False s \<Longrightarrow> opens_ok True (bracketed indent gap d @ s)"
proof (induction d arbitrary: gap s)
  case (DArr xs)
  have g: "\<forall>u \<in> set (gap @ indent). json_ws u" using DArr.prems assms by auto
  show ?case unfolding print_with.simps
    by (rule opens_ok_wrap) (use g DArr in \<open>auto simp del: set_append\<close>)
next
  case (DObj ps)
  have g: "\<forall>u \<in> set (gap @ indent). json_ws u" using DObj.prems assms by auto
  have e: "opens_ok a ((case p of (key, d) \<Rightarrow> [93] @ colon (gap @ indent) @ bracketed indent (gap @ indent) d) @ s)"
    if "p \<in> set ps" "opens_ok False s" for a p s
  proof -
    obtain key d where p: "p = (key, d)" by (cases p)
    obtain cs where cs: "colon (gap @ indent) = 58 # cs" "\<forall>u \<in> set cs. json_ws u" by (rule colon_parts)
    then have "\<forall>u \<in> set cs. uspace u" using json_ws_uspace by blast
    moreover have "opens_ok True (bracketed indent (gap @ indent) d @ s)"
      using DObj.IH [OF that(1), of d] that(2) g p by simp
    ultimately show ?thesis by (simp add: p cs(1) structural_def opens_ok_ws)
  qed
  show ?case unfolding print_with.simps
    by (rule opens_ok_wrap) (use g DObj.prems e in \<open>auto simp del: set_append\<close>)
qed (simp_all add: structural_def)

lemma gate_print:
  assumes "good_doc d" "\<forall>u \<in> set indent. json_ws u"
  shows "gate (print_doc indent [] d)"
proof -
  have "replace_all match_pair (\<lambda>_. [64]) (print_doc indent [] d) = print_with masked literal_text indent [] d"
    using mask.printed [OF assms(2,1), of "[]" "[]"] by (simp add: print_doc_with)
  moreover have "replace_all match_value (\<lambda>_. [93]) (print_with masked literal_text indent [] d)
      = bracketed indent [] d"
    using token.printed [OF assms(2,1), of "[]" "[]"] by simp
  moreover have "opens_ok True (bracketed indent [] d)"
    using opens_ok_bracketed [OF assms(2), of "[]" "[]"] by simp
  ultimately show ?thesis by (simp add: gate_def strip_open_structural)
qed

end
