(* ===== verification/Json2_Parse.thy ===== *)
theory Json2_Parse
  imports Json2_Gate
begin

text \<open>
  \<open>JSON.parse\<close> as a whole: what it returns for what \<open>stringify\<close> writes, what the check before
  \<open>eval\<close> lets through, and what a reviver does to the result.
\<close>

section \<open>Round trip\<close>

fun val_of :: "jdoc \<Rightarrow> 'f jval" where
  "val_of DNull = JNull"
| "val_of (DBool b) = JBool b"
| "val_of (DNum neg ds p) = JNum (Fin neg ds p)"
| "val_of (DStr s) = JStr s"
| "val_of (DArr xs) = JArr (map val_of xs)"
| "val_of (DObj ps) = JObj (map (\<lambda>(k, d). (k, val_of d)) ps)"

text \<open>
  \<open>eval\<close> in strict mode: a JSON text in parentheses denotes its value; an object literal that
  repeats a key or has the key \<open>__proto__\<close>, and every other text, is left to \<open>engine\<close>.
\<close>

fun good_keys :: "jdoc \<Rightarrow> bool" where
  "good_keys (DArr xs) = (\<forall>x \<in> set xs. good_keys x)"
| "good_keys (DObj ps) = (distinct (map fst ps) \<and> lit ''__proto__'' \<notin> set (map fst ps) \<and>
     (\<forall>(k, d) \<in> set ps. good_keys d))"
| "good_keys _ = True"

definition js_eval :: "(ustr \<Rightarrow> 'f jval throws) \<Rightarrow> ustr \<Rightarrow> 'f jval throws" where
  "js_eval engine t =
     (case read_json (butlast (tl t)) of
        Some d \<Rightarrow> if good_keys d then Inr (val_of d) else engine t
      | None \<Rightarrow> engine t)"

lemma cx_escapable: "cx u \<Longrightarrow> escapable u \<and> u \<noteq> 34 \<and> u \<noteq> 92"
proof -
  assume "cx u"
  then obtain a b where ab: "(a, b) \<in> set ((0, 0) # format_ranges)" "a \<le> unat u" "unat u \<le> b"
    by (auto simp only: cx_def in_ranges_def)
  then have "unat u = 0 \<or> (a, b) \<in> set format_ranges" by auto
  then have "escapable u"
    using ab(2,3) unfolding escapable_def in_ranges_def by auto
  moreover have "\<not> cx 34" "\<not> cx 92" by (simp_all add: cx_def in_ranges_def format_ranges_def)
  ultimately show ?thesis using \<open>cx u\<close> by auto
qed

lemma print_no_cx:
  assumes "good_doc d" "\<forall>u \<in> set indent. json_ws u" "\<forall>u \<in> set gap. json_ws u"
  shows "u \<in> set (print_doc indent gap d) \<Longrightarrow> \<not> cx u"
  using assms
proof (induction d arbitrary: gap u)
  have ws: "\<not> cx u" if "json_ws u" for u
    using that unfolding json_ws_def
    by (elim insertE emptyE) (simp_all add: cx_def in_ranges_def format_ranges_def)
  have p: "\<not> cx 91" "\<not> cx 93" "\<not> cx 123" "\<not> cx 125" "\<not> cx 44" "\<not> cx 58" "\<not> cx 10" "\<not> cx 32"
    by (simp_all add: cx_def in_ranges_def format_ranges_def)
  have j: "u \<in> set (join sep xs) \<Longrightarrow> u \<in> set sep \<or> (\<exists>x \<in> set xs. u \<in> set x)" for u sep and xs :: "ustr list"
    by (induction sep xs rule: join.induct) auto
  have wr: "u \<in> {l, r, 10, 44} \<or> u \<in> set g \<or> u \<in> set m \<or> (\<exists>x \<in> set xs. u \<in> set x)"
    if "u \<in> set (wrap l r g m xs)" for u l r g m xs
    using that by (auto simp: wrap_def split: if_splits dest!: j)
  {
    case (DArr xs)
    from wr [OF DArr.prems(1) [unfolded print_doc.simps]] show ?case
    proof (elim disjE bexE)
      fix x assume "x \<in> set (map (print_doc indent (gap @ indent)) xs)" "u \<in> set x"
      then obtain y where y: "y \<in> set xs" "u \<in> set (print_doc indent (gap @ indent) y)" by auto
      then show ?thesis by (rule DArr.IH) (use DArr.prems y(1) in auto)
    qed (use p ws DArr.prems in auto)
  next
    case (DObj ps)
    from wr [OF DObj.prems(1) [unfolded print_doc.simps]] show ?case
    proof (elim disjE bexE)
      fix x assume "x \<in> set (map (\<lambda>(k, d). quote k @ colon (gap @ indent) @
          print_doc indent (gap @ indent) d) ps)" "u \<in> set x"
      then obtain k y where y: "(k, y) \<in> set ps"
        "u \<in> set (quote k) \<or> u \<in> {58, 32} \<or> u \<in> set (print_doc indent (gap @ indent) y)"
        by (auto simp: colon_def split: if_splits)
      have "good_doc y" using y(1) DObj.prems(2) by auto
      then have "u \<in> set (print_doc indent (gap @ indent) y) \<Longrightarrow> \<not> cx u"
        using DObj.IH [OF y(1), of y u "gap @ indent"] DObj.prems by auto
      with y(2) quote_units [of u k] cx_escapable [of u] p show ?thesis by auto
    qed (use p ws DObj.prems in auto)
  next
    case (DStr s)
    with quote_units [of u s] cx_escapable [of u] show ?case by auto
  next
    case DNull
    with literal_chars [of DNull u] show ?case by (auto simp: literal_text_def)
  next
    case (DBool b)
    with literal_chars [of "DBool b" u] show ?case by (auto simp: literal_text_def)
  next
    case (DNum neg ds p)
    with literal_chars [of "DNum neg ds p" u] show ?case by (auto simp: literal_text_def)
  }
qed

lemma parse_print:
  assumes "good_doc d" "good_keys d" "\<forall>u \<in> set indent. json_ws u"
  shows "parse_json E (js_eval engine) (print_doc indent [] d) None = Inr (val_of d)"
proof -
  have "guard_text (print_doc indent [] d) = print_doc indent [] d"
    using print_no_cx [OF assms(1,3), of "[]"] by (auto simp: guard_text_def)
  with gate_print [OF assms(1,3)] read_json_print [OF assms(1,3)] assms(2) show ?thesis
    by (simp add: parse_json_def js_eval_def Let_def butlast_append)
qed



section \<open>What passes the check\<close>

text \<open>The literals the check knows.\<close>

definition number_text :: "ustr \<Rightarrow> bool" where
  "number_text t \<longleftrightarrow> (\<exists>sg ds fr ex. t = sg @ ds @ fr @ ex \<and> sg \<in> {[], [45]} \<and>
     ds \<noteq> [] \<and> list_all udigit ds \<and>
     (fr = [] \<or> (\<exists>f. fr = 46 # f \<and> list_all udigit f)) \<and>
     (ex = [] \<or> (\<exists>c s e. ex = c # s @ e \<and> c \<in> {101, 69} \<and> s \<in> {[], [43], [45]} \<and>
       e \<noteq> [] \<and> list_all udigit e)))"

definition string_text :: "ustr \<Rightarrow> bool" where
  "string_text t \<longleftrightarrow> (\<exists>ps. t = 34 # concat ps @ [34] \<and>
     (\<forall>p \<in> set ps. (\<exists>u. p = [u] \<and> plain_unit u) \<or> match_pair p = Some (length p)))"

definition safe_token :: "ustr \<Rightarrow> bool" where
  "safe_token t \<longleftrightarrow> (\<exists>c. t = [c] \<and> (c = 91 \<or> structural c)) \<or>
     t \<in> {lit ''true'', lit ''false'', lit ''null''} \<or> number_text t \<or> string_text t"

lemma match_pair_take:
  "match_pair s = Some n \<Longrightarrow> match_pair (take n s) = Some n \<and> length (take n s) = n \<and> 0 < n"
  by (auto simp: match_pair_def min_def split: list.splits if_splits)

text \<open>The units and escapes that the first replacement sees, and what it puts in their place.\<close>

definition piece :: "ustr \<Rightarrow> bool" where
  "piece p \<longleftrightarrow> (\<exists>u. p = [u]) \<or> match_pair p = Some (length p)"

definition image_of :: "ustr \<Rightarrow> unit16" where
  "image_of p = (if match_pair p = Some (length p) then 64 else hd p)"

lemma match_pair_single [simp]: "match_pair [u] = None"
  by (simp add: match_pair_def)

lemma mask_pieces:
  "\<exists>ps. t = concat ps \<and> (\<forall>p \<in> set ps. piece p) \<and>
     replace_all match_pair (\<lambda>_. [64]) t = map image_of ps"
proof (induction t rule: length_induct)
  case (1 t)
  show ?case
  proof (cases t)
    case (Cons c s)
    show ?thesis
    proof (cases "match_pair t")
      case None
      from 1 Cons obtain ps where "s = concat ps" "\<forall>p \<in> set ps. piece p"
        "replace_all match_pair (\<lambda>_. [64]) s = map image_of ps" by fastforce
      with None Cons show ?thesis
        by (intro exI [of _ "[c] # ps"]) (auto simp: piece_def image_of_def)
    next
      case (Some n)
      from match_pair_take [OF this] obtain m where n: "n = Suc m" by (cases n) auto
      have "length (drop m s) < length t" by (simp add: Cons)
      with 1 obtain ps where ps: "drop m s = concat ps" "\<forall>p \<in> set ps. piece p"
        "replace_all match_pair (\<lambda>_. [64]) (drop m s) = map image_of ps" by blast
      have "t = take n t @ concat ps" by (metis ps(1) Cons n append_take_drop_id drop_Suc_Cons)
      moreover have "piece (take n t)" "image_of (take n t) = 64"
        using match_pair_take [OF Some] by (simp_all add: piece_def image_of_def)
      moreover have "replace_all match_pair (\<lambda>_. [64]) t = 64 # map image_of ps"
        using Some ps(3) by (simp add: Cons n)
      ultimately show ?thesis using ps(2) by (intro exI [of _ "take n t # ps"]) simp
    qed
  qed (intro exI [of _ "[]"], simp)
qed

lemma match_value_cases:
  assumes "match_value s = Some n"
  shows "0 < n \<and> (match_string s = Some n \<or> take n s \<in> {lit ''true'', lit ''false'', lit ''null''} \<or>
    match_number s = Some n)"
proof -
  have w: "take n s = lit w \<and> n = length w" if "match_word w s = Some n" for w
    using that by (auto simp: match_word_def split: if_splits)
  from assms consider "match_string s = Some n" | "match_word ''true'' s = Some n"
    | "match_word ''false'' s = Some n" | "match_word ''null'' s = Some n" | "match_number s = Some n"
    unfolding match_value_def by (auto split: option.splits)
  then show ?thesis
  proof cases
    case 1
    then show ?thesis by (auto simp: match_string_def Let_def split: list.splits if_splits)
  next
    case 5
    with match_number_le [OF 5] show ?thesis by blast
  qed (auto dest!: w)
qed

definition segment :: "ustr \<Rightarrow> ustr \<Rightarrow> bool" where
  "segment out g \<longleftrightarrow> (\<exists>c. g = [c] \<and> c \<in> set out) \<or> (\<exists>s n. match_value s = Some n \<and> g = take n s)"

lemma segment_mono: "segment out g \<Longrightarrow> set out \<subseteq> set out' \<Longrightarrow> segment out' g"
  by (auto simp: segment_def)

lemma token_segments:
  "\<exists>segs. v = concat segs \<and> (\<forall>g \<in> set segs. segment (replace_all match_value (\<lambda>_. [93]) v) g)"
proof (induction v rule: length_induct)
  case (1 v)
  let ?out = "replace_all match_value (\<lambda>_. [93])"
  show ?case
  proof (cases v)
    case (Cons c s)
    show ?thesis
    proof (cases "match_value v")
      case None
      have out: "?out v = c # ?out s" using None by (simp add: Cons)
      have "length s < length v" by (simp add: Cons)
      from "1.IH" [rule_format, OF this] obtain segs where segs: "s = concat segs"
        "\<forall>g \<in> set segs. segment (?out s) g" by blast
      have "\<forall>g \<in> set ([c] # segs). segment (?out v) g"
        using segs(2) segment_mono [of "?out s" _ "?out v"] unfolding out
        by (auto simp: segment_def)
      then show ?thesis using segs(1) Cons by (metis concat.simps(2) append_Cons append_Nil)
    next
      case (Some n)
      then obtain m where n: "n = Suc m" using match_value_cases [OF Some] by (cases n) auto
      have out: "?out v = 93 # ?out (drop m s)" using Some by (simp add: Cons n)
      have "length (drop m s) < length v" by (simp add: Cons)
      from "1.IH" [rule_format, OF this] obtain segs where segs: "drop m s = concat segs"
        "\<forall>g \<in> set segs. segment (?out (drop m s)) g" by blast
      have "drop n v = concat segs" using segs(1) by (simp add: Cons n)
      then have "v = concat (take n v # segs)"
        by (subst append_take_drop_id [of n v, symmetric]) (simp only: concat.simps)
      moreover have "segment (?out v) (take n v)" using Some unfolding segment_def by blast
      moreover have "segment (?out v) g" if "g \<in> set segs" for g
        by (rule segment_mono [of "?out (drop m s)"]) (use segs(2) that in \<open>simp_all add: out subset_insertI\<close>)
      then have "\<forall>g \<in> set (take n v # segs). segment (?out v) g" using calculation(2) by simp
      ultimately show ?thesis by blast
    qed
  qed (intro exI [of _ "[]"], simp)
qed

lemma brackets_units: "u \<in> set (take (brackets_at s) s) \<Longrightarrow> u = 91 \<or> uspace u"
proof (induction s rule: length_induct)
  case (1 s)
  define w r where "w = takeWhile uspace s" and "r = dropWhile uspace s"
  have s: "s = w @ r" by (simp add: w_def r_def)
  show ?case
  proof (cases "take 1 r = [91]")
    case True
    then obtain t where r: "r = 91 # t" by (cases r) auto
    have n: "brackets_at s = length w + 1 + brackets_at t"
      using brackets_split [of s] r by (simp add: w_def [symmetric] r_def [symmetric] Let_def)
    have "take (brackets_at s) s = w @ 91 # take (brackets_at t) t" by (simp add: n) (simp add: s r)
    with "1.prems" have "u \<in> set w \<or> u = 91 \<or> u \<in> set (take (brackets_at t) t)" by auto
    moreover have "length t < length s" by (simp add: s r)
    ultimately show ?thesis using "1.IH" by (auto simp: w_def dest: set_takeWhileD)
  next
    case False
    with "1.prems" brackets_split [of s] show ?thesis
      by (simp add: w_def [symmetric] r_def [symmetric] Let_def)
  qed
qed

lemma open_kept: "u \<in> set s \<Longrightarrow> u \<in> set (replace_all match_open (\<lambda>_. []) s) \<or> u = 91 \<or> structural u"
proof (induction s rule: length_induct)
  case (1 s)
  show ?case
  proof (cases s)
    case (Cons c t)
    have sp: "structural u" if "uspace u" for u using that by (simp add: structural_def)
    show ?thesis
    proof (cases "(c = 58 \<or> c = 44) \<and> brackets_at t \<noteq> 0")
      case True
      let ?k = "brackets_at t"
      have "u = c \<or> u \<in> set (take ?k t) \<or> u \<in> set (drop ?k t)"
        using "1.prems" Cons by (metis append_take_drop_id set_append Un_iff set_ConsD)
      moreover have "length (drop ?k t) < length s" by (simp add: Cons)
      ultimately have "u = c \<or> u = 91 \<or> uspace u \<or> u \<in> set (replace_all match_open (\<lambda>_. []) (drop ?k t))
          \<or> structural u"
        using "1.IH" brackets_units by blast
      with True sp show ?thesis unfolding Cons
        by (auto simp: match_open_Cons structural_def)
    next
      case False
      with "1.IH" "1.prems" Cons show ?thesis by (auto simp: match_open_Cons)
    qed
  qed (use "1.prems" in simp)
qed

lemma gate_units:
  assumes "list_all structural (strip_open s)" "u \<in> set s"
  shows "u = 91 \<or> structural u"
proof -
  have "u \<in> set (take (brackets_at s) s) \<or> u \<in> set (drop (brackets_at s) s)"
    using assms(2) by (metis append_take_drop_id set_append Un_iff)
  then show ?thesis
  proof
    assume "u \<in> set (take (brackets_at s) s)"
    then show ?thesis using brackets_units by (auto simp: structural_def)
  next
    assume "u \<in> set (drop (brackets_at s) s)"
    from open_kept [OF this] assms(1) show ?thesis by (auto simp: strip_open_def list_all_iff)
  qed
qed

text \<open>The text of a value token, as pieces of the original text.\<close>

lemma pieces_at: "\<forall>p \<in> set ps. piece p \<Longrightarrow> map image_of ps = u \<Longrightarrow> 64 \<notin> set u \<Longrightarrow> concat ps = u"
proof (induction ps arbitrary: u)
  case (Cons p ps)
  then have "image_of p \<noteq> 64" by auto
  then have "p = [image_of p]" using Cons.prems(1) by (auto simp: piece_def image_of_def)
  moreover have "concat ps = map image_of ps" using Cons by auto
  ultimately show ?case using Cons.prems(2) by (metis append_Cons append_Nil concat.simps(2) list.simps(9))
qed simp

lemma digits_prefix: "take (digits_at s) s = takeWhile udigit s" "list_all udigit (take (digits_at s) s)"
  by (simp_all add: digits_at_def takeWhile_eq_take [symmetric] list_all_iff)
    (auto dest: set_takeWhileD)

lemma fraction_prefix:
  "take (fraction_at s) s = [] \<or> (\<exists>f. take (fraction_at s) s = 46 # f \<and> list_all udigit f)"
  using digits_prefix(2) [of "drop 1 s"] by (cases s) (auto simp: fraction_at_def)

lemma exponent_prefix:
  "take (exponent_at s) s = [] \<or> (\<exists>c sg e. take (exponent_at s) s = c # sg @ e \<and> c \<in> {101, 69} \<and>
     sg \<in> {[], [43], [45]} \<and> e \<noteq> [] \<and> list_all udigit e)"
proof (cases "exponent_at s = 0")
  case False
  then obtain c r where s: "s = c # r" "c \<in> {101, 69}" by (cases s) (auto simp: exponent_at_def split: if_splits)
  define sg where "sg = (if take 1 r = [43] \<or> take 1 r = [45] then 1 else 0 :: nat)"
  define n where "n = digits_at (drop sg r)"
  have n: "n \<noteq> 0" "exponent_at s = Suc (sg + n)"
    using False s by (auto simp: exponent_at_def Let_def n_def sg_def split: if_splits)
  have "take (exponent_at s) s = c # take sg r @ take n (drop sg r)"
    by (simp only: n(2), simp only: s(1) take_Suc_Cons take_add)
  moreover have "take sg r \<in> {[], [43], [45]}" by (simp add: sg_def)
  moreover have "take n (drop sg r) \<noteq> []" using n(1) by (auto simp: n_def digits_at_def)
  moreover have "list_all udigit (take n (drop sg r))" unfolding n_def by (rule digits_prefix(2))
  ultimately show ?thesis using s(2) by blast
qed simp

lemma number_prefix:
  assumes "match_number s = Some n"
  shows "number_text (take n s)"
proof -
  define sg where "sg = (if take 1 s = [45] then 1 else 0 :: nat)"
  define a where "a = digits_at (drop sg s)"
  define b where "b = fraction_at (drop (sg + a) s)"
  define c where "c = exponent_at (drop (sg + a + b) s)"
  have n: "a \<noteq> 0" "n = sg + a + b + c"
    using assms by (auto simp: match_number_def Let_def sg_def a_def b_def c_def split: if_splits)
  have "take n s = take sg s @ take a (drop sg s) @ take b (drop (sg + a) s) @ take c (drop (sg + a + b) s)"
    by (simp only: n(2) take_add append_assoc)
  moreover have "take sg s \<in> {[], [45]}" by (simp add: sg_def)
  moreover have "take a (drop sg s) \<noteq> []" using n(1) by (auto simp: a_def digits_at_def)
  moreover have "list_all udigit (take a (drop sg s))" unfolding a_def by (rule digits_prefix(2))
  ultimately show ?thesis
    unfolding number_text_def
    using fraction_prefix [of "drop (sg + a) s"] exponent_prefix [of "drop (sg + a + b) s"]
    unfolding b_def [symmetric] c_def [symmetric] by blast
qed

lemma number_text_no_at: "number_text t \<Longrightarrow> 64 \<notin> set t"
proof -
  have "\<not> udigit 64" by (simp add: udigit_def in_ranges_def)
  then have "64 \<notin> set ds" if "list_all udigit ds" for ds
    using that by (auto simp: list_all_iff)
  then show "number_text t \<Longrightarrow> 64 \<notin> set t" by (auto simp: number_text_def)
qed

lemma string_segment:
  assumes "match_string s = Some n" "\<forall>p \<in> set ps. piece p" "map image_of ps = take n s"
  shows "string_text (concat ps)"
proof -
  obtain t where s: "s = 34 # t" and n: "n = length (takeWhile plain_unit t) + 2"
    and q: "take 1 (drop (length (takeWhile plain_unit t)) t) = [34]"
    using assms(1) by (auto simp: match_string_def Let_def split: list.splits if_splits)
  let ?b = "takeWhile plain_unit t"
  have "take n s = 34 # take (length ?b + 1) t" by (simp add: s n)
  also have "take (length ?b + 1) t = ?b @ [34]"
    unfolding take_add q by (simp add: takeWhile_eq_take [symmetric])
  finally have ps: "map image_of ps = 34 # ?b @ [34]" using assms(3) by simp
  then obtain p0 ps1 where p0: "ps = p0 # ps1" "image_of p0 = 34" "map image_of ps1 = ?b @ [34]" by auto
  then obtain pb p1 where pb: "ps1 = pb @ [p1]" "map image_of pb = ?b" "image_of p1 = 34"
    by (auto simp: map_eq_append_conv)
  have quote: "p = [34]" if "piece p" "image_of p = 34" for p
    using that by (auto simp: piece_def image_of_def split: if_splits)
  have c: "concat ps = 34 # concat pb @ [34]"
    using quote [of p0] quote [of p1] assms(2) by (simp add: p0 pb)
  have "(\<exists>u. p = [u] \<and> plain_unit u) \<or> match_pair p = Some (length p)" if "p \<in> set pb" for p
  proof -
    have "image_of p \<in> set ?b" using that pb(2) by (metis image_eqI list.set_map)
    then have "plain_unit (image_of p)" by (rule set_takeWhileD [THEN conjunct2])
    moreover have "piece p" using that assms(2) by (simp add: p0 pb)
    ultimately show ?thesis by (auto simp: piece_def image_of_def split: if_splits)
  qed
  with c show ?thesis unfolding string_text_def by blast
qed

lemma segment_safe:
  assumes g: "segment out (map image_of ps)" and ps: "\<forall>p \<in> set ps. piece p"
    and out: "\<And>c. c \<in> set out \<Longrightarrow> c = 91 \<or> structural c"
  shows "safe_token (concat ps)"
proof -
  from g consider (unit) c where "map image_of ps = [c]" "c \<in> set out"
    | (tok) s n where "match_value s = Some n" "map image_of ps = take n s"
    unfolding segment_def by (elim disjE exE conjE)
  then show ?thesis
  proof cases
    case unit
    with out have "c = 91 \<or> structural c" by blast
    moreover have "\<not> structural 64" by (simp add: structural_def uspace_def in_ranges_def)
    ultimately have "concat ps = [c]" by (intro pieces_at [OF ps unit(1)]) auto
    with \<open>c = 91 \<or> structural c\<close> show ?thesis by (auto simp: safe_token_def)
  next
    case tok
    from match_value_cases [OF tok(1)] show ?thesis
    proof (elim conjE disjE)
      assume "match_string s = Some n"
      from string_segment [OF this ps tok(2)] show ?thesis by (simp add: safe_token_def)
    next
      assume w: "take n s \<in> {lit ''true'', lit ''false'', lit ''null''}"
      then have "64 \<notin> set (take n s)" by auto
      from pieces_at [OF ps tok(2) this] w show ?thesis by (simp only: safe_token_def simp_thms)
    next
      assume "match_number s = Some n"
      then have t: "number_text (take n s)" by (rule number_prefix)
      from pieces_at [OF ps tok(2) number_text_no_at [OF t]] t show ?thesis by (simp add: safe_token_def)
    qed
  qed
qed

lemma split_pieces:
  "map f ps = concat segs \<Longrightarrow> \<exists>pss. ps = concat pss \<and> segs = map (map f) pss"
proof (induction segs arbitrary: ps)
  case (Cons g segs)
  then obtain ps1 ps2 where "ps = ps1 @ ps2" "map f ps1 = g" "map f ps2 = concat segs"
    by (auto simp: map_eq_append_conv)
  moreover from Cons.IH [OF this(3)] obtain pss where "ps2 = concat pss" "segs = map (map f) pss" by blast
  ultimately show ?case by (intro exI [of _ "ps1 # pss"]) simp
qed (intro exI [of _ "[]"], simp)


lemma gate_sample: "gate (lit ''[1,null]'')"
proof -
  have "good_doc (DArr [DNum False [1] 1, DNull])" by (simp add: good_num_def)
  then have "gate (print_doc [] [] (DArr [DNum False [1] 1, DNull]))" by (rule gate_print) simp
  moreover have "print_doc [] [] (DArr [DNum False [1] 1, DNull]) = lit ''[1,null]''"
    by (simp add: wrap_def num_units_def zeros_def unit_of_digit_def)
  ultimately show ?thesis by simp
qed


section \<open>The reviver\<close>

text \<open>
  What a reviver that looks at key and value alone should produce: the parts of an object first,
  each replaced by what the reviver makes of it and dropped when that is \<open>undefined\<close>, then the
  object itself.
\<close>

fun revive :: "(ustr \<Rightarrow> 'f jval \<Rightarrow> 'f jval) \<Rightarrow> ustr \<Rightarrow> 'f jval \<Rightarrow> 'f jval"
  and revive_elems :: "(ustr \<Rightarrow> 'f jval \<Rightarrow> 'f jval) \<Rightarrow> nat \<Rightarrow> 'f jval list \<Rightarrow> 'f jval list"
  and revive_members ::
    "(ustr \<Rightarrow> 'f jval \<Rightarrow> 'f jval) \<Rightarrow> (ustr \<times> 'f jval) list \<Rightarrow> (ustr \<times> 'f jval) list"
where
  "revive g key (JArr xs) = g key (JArr (revive_elems g 0 xs))"
| "revive g key (JObj ps) = g key (JObj (revive_members g ps))"
| "revive g key v = g key v"
| "revive_elems g i [] = []"
| "revive_elems g i (x # xs) = revive g (dec_units i) x # revive_elems g (Suc i) xs"
| "revive_members g [] = []"
| "revive_members g ((k, x) # ps) =
     (let v = revive g k x in (if v \<noteq> JUndef then [(k, v)] else []) @ revive_members g ps)"

lemma walk_revive:
  assumes "\<And>holder key v. R holder key v = g key v"
  shows "walk R mk key v = revive g key v"
    and "walk_children R v = (case v of
      JArr xs \<Rightarrow> JArr (revive_elems g 0 xs) | JObj ps \<Rightarrow> JObj (revive_members g ps) | _ \<Rightarrow> v)"
    and "walk_elems R dx xs = dx @ revive_elems g (length dx) xs"
    and "walk_members R dn ps = dn @ revive_members g ps"
  using assms
proof (induction R mk key v and R v and R dx xs and R dn ps
    rule: walk_walk_children_walk_elems_walk_members.induct)
  case (1 R mk key v)
  then show ?case by (cases v) (simp_all add: Let_def)
qed (simp_all add: Let_def)

text \<open>
  \<open>walk\<close> rebuilds the parsed structure bottom up: every member and element goes through the
  reviver after its own parts have, a member for which the reviver returns \<open>undefined\<close> is
  deleted, an element becomes \<open>undefined\<close>, and the order of the rest is kept.
\<close>

theorem walk_bottom_up:
  assumes "\<And>holder key v. call_reviver E f holder key v = g key v"
    and "gate (guard_text text)" and "eval ([40] @ guard_text text @ [41]) = Inr j"
  shows "parse_json E eval text (Some f) = Inr (revive g [] j)"
  using assms(2,3) walk_revive(1) [of "call_reviver E f" g, OF assms(1)]
  by (simp add: parse_json_def Let_def)

theorem walk_bottom_up_witness:
  "parse_json (quiet\<lparr>call_reviver := (\<lambda>f holder k v. if v = JNull then JUndef else v)\<rparr>)
     (\<lambda>_. Inr (JObj [(lit ''a'', JNull), (lit ''b'', JArr [JNull])])) (lit ''[1,null]'') (Some 0)
   = Inr (JObj [(lit ''b'', JArr [JUndef])])"
proof -
  let ?E = "quiet\<lparr>call_reviver := (\<lambda>f holder k v. if v = JNull then JUndef else v)\<rparr>"
  let ?g = "\<lambda>k v. if v = JNull then JUndef else v :: nat jval"
  let ?j = "JObj [(lit ''a'', JNull), (lit ''b'', JArr [JNull])]"
  have "guard_text (lit ''[1,null]'') = lit ''[1,null]''"
    by (simp add: guard_text_def cx_def in_ranges_def format_ranges_def)
  then have "gate (guard_text (lit ''[1,null]''))" using gate_sample by (simp only:)
  from walk_bottom_up [of ?E 0 ?g, OF _ this, of "\<lambda>_. Inr ?j" ?j]
  show ?thesis by simp
qed

end
