(* ===== verification/Poshytip_Position.thy ===== *)
theory Poshytip_Position
  imports Complex_Main JS_Prelude
begin

text \<open>
  \<open>jquery.poshytip.js\<close>, lines 318 to 406: where a tooltip goes and which way its arrow points.

  Lengths are rational numbers: browsers report fractions of pixels. The position of the mouse
  is unknown until it has moved over the element, and \<open>undefined\<close> in a sum makes \<open>NaN\<close>; a
  coordinate is therefore an option, with \<open>None\<close> for \<open>NaN\<close>, and comparisons with it are false.
\<close>

section \<open>Coordinates\<close>

type_synonym coord = "rat option"

definition plus_c :: "coord \<Rightarrow> rat \<Rightarrow> coord" where
  "plus_c a d = map_option (\<lambda>x. x + d) a"

definition less_c :: "coord \<Rightarrow> rat \<Rightarrow> bool" where
  "less_c a b = (case a of Some x \<Rightarrow> x < b | None \<Rightarrow> False)"

definition greater_c :: "coord \<Rightarrow> rat \<Rightarrow> bool" where
  "greater_c a b = (case a of Some x \<Rightarrow> b < x | None \<Rightarrow> False)"

definition half :: "rat \<Rightarrow> rat" where
  "half w = of_int \<lfloor>w / 2\<rfloor>"

lemma coord_simps [simp]:
  "plus_c (Some x) d = Some (x + d)" "plus_c None d = None"
  "less_c (Some x) b \<longleftrightarrow> x < b" "\<not> less_c None b"
  "greater_c (Some x) b \<longleftrightarrow> b < x" "\<not> greater_c None b"
  by (simp_all add: plus_c_def less_c_def greater_c_def)

lemma plus_c_eq_Some: "plus_c a d = Some y \<longleftrightarrow> a = Some (y - d)"
  by (cases a) auto

lemma plus_c_plus [simp]: "plus_c (plus_c a d) e = plus_c a (d + e)"
  by (cases a) simp_all

section \<open>\<open>calcPos\<close>\<close>

datatype align_to = ToCursor | ToTarget
datatype align_x = XRight | XInnerLeft | XCenter | XLeft | XInnerRight
datatype align_y = YBottom | YInnerTop | YCenter | YTop | YInnerBottom
datatype arrow = NoArrow | ArrowTop | ArrowRight | ArrowBottom | ArrowLeft

record placement =
  alignTo :: align_to
  alignX :: align_x
  alignY :: align_y
  offsetX :: rat
  offsetY :: rat
  keepInViewport :: bool

text \<open>A box: the viewport with its scroll position, or the element with its offset.\<close>

record box =
  b_l :: rat
  b_t :: rat
  b_w :: rat
  b_h :: rat

record geometry =
  g_win :: box
  g_elm :: box
  g_event :: "coord \<times> coord"

record position =
  p_l :: coord
  p_t :: coord
  p_arrow :: arrow

text \<open>The anchor: left edge, center and right edge, and top edge, center and bottom edge.\<close>

definition anchor_x :: "placement \<Rightarrow> geometry \<Rightarrow> coord \<times> coord \<times> coord" where
  "anchor_x P G =
     (case alignTo P of
        ToCursor \<Rightarrow> (fst (g_event G), fst (g_event G), fst (g_event G))
      | ToTarget \<Rightarrow>
          (let elm = g_elm G;
               xL = b_l elm + (if alignX P \<noteq> XInnerRight then 0 else b_w elm);
               xC = xL + half (b_w elm);
               xR = xL + (if alignX P \<noteq> XInnerLeft then b_w elm else 0)
           in (Some xL, Some xC, Some xR)))"

definition anchor_y :: "placement \<Rightarrow> geometry \<Rightarrow> coord \<times> coord \<times> coord" where
  "anchor_y P G =
     (case alignTo P of
        ToCursor \<Rightarrow> (snd (g_event G), snd (g_event G), snd (g_event G))
      | ToTarget \<Rightarrow>
          (let elm = g_elm G;
               yT = b_t elm + (if alignY P \<noteq> YInnerBottom then 0 else b_h elm);
               yC = yT + half (b_h elm);
               yB = yT + (if alignY P \<noteq> YInnerTop then b_h elm else 0)
           in (Some yT, Some yC, Some yB)))"

text \<open>Moving a centred tip of the given size back inside an interval.\<close>

definition clamp :: "rat \<Rightarrow> rat \<Rightarrow> rat \<Rightarrow> coord \<Rightarrow> coord" where
  "clamp start len sz p =
     (if greater_c (plus_c p sz) (start + len) then Some (start + len - sz)
      else if less_c p start then Some start else p)"

definition place_x :: "placement \<Rightarrow> geometry \<Rightarrow> rat \<Rightarrow> coord \<times> arrow" where
  "place_x P G tipW =
     (let (xL, xC, xR) = anchor_x P G; win = g_win G in
      if alignX P = XRight \<or> alignX P = XInnerLeft then
        (let l = plus_c xR (offsetX P) in
         (if keepInViewport P \<and> greater_c (plus_c l tipW) (b_l win + b_w win)
          then Some (b_l win + b_w win - tipW) else l,
          if alignX P = XRight \<or> alignY P = YCenter then ArrowLeft else NoArrow))
      else if alignX P = XCenter then
        (let l = plus_c xC (- half tipW) in
         (if keepInViewport P then clamp (b_l win) (b_w win) tipW l else l, NoArrow))
      else
        (let l = plus_c (plus_c xL (- tipW)) (- offsetX P) in
         (if keepInViewport P \<and> less_c l (b_l win) then Some (b_l win) else l,
          if alignX P = XLeft \<or> alignY P = YCenter then ArrowRight else NoArrow)))"

definition place_y :: "placement \<Rightarrow> geometry \<Rightarrow> rat \<Rightarrow> arrow \<Rightarrow> coord \<times> arrow" where
  "place_y P G tipH a =
     (let (yT, yC, yB) = anchor_y P G; win = g_win G in
      if alignY P = YBottom \<or> alignY P = YInnerTop then
        (let t = plus_c yB (offsetY P);
             a = (if a = NoArrow \<or> alignTo P = ToCursor then ArrowTop else a)
         in if keepInViewport P \<and> greater_c (plus_c t tipH) (b_t win + b_h win)
            then (plus_c (plus_c yT (- tipH)) (- offsetY P), if a = ArrowTop then ArrowBottom else a)
            else (t, a))
      else if alignY P = YCenter then
        (let t = plus_c yC (- half tipH) in
         (if keepInViewport P then clamp (b_t win) (b_h win) tipH t else t, a))
      else
        (let t = plus_c (plus_c yT (- tipH)) (- offsetY P);
             a = (if a = NoArrow \<or> alignTo P = ToCursor then ArrowBottom else a)
         in if keepInViewport P \<and> less_c t (b_t win)
            then (plus_c yB (offsetY P), if a = ArrowBottom then ArrowTop else a)
            else (t, a)))"

definition calcPos :: "placement \<Rightarrow> geometry \<Rightarrow> rat \<Rightarrow> rat \<Rightarrow> position" where
  "calcPos P G tipW tipH =
     (let (l, a) = place_x P G tipW; (t, a') = place_y P G tipH a
      in \<lparr>p_l = l, p_t = t, p_arrow = a'\<rparr>)"

section \<open>The arrow\<close>

lemma place_x_arrow:
  "snd (place_x P G w) = NoArrow \<longleftrightarrow>
     alignX P = XCenter \<or> alignX P \<in> {XInnerLeft, XInnerRight} \<and> alignY P \<noteq> YCenter"
  by (cases "alignX P") (auto simp: place_x_def Let_def split: prod.splits)

lemma place_x_side: "snd (place_x P G w) \<in> {NoArrow, ArrowLeft, ArrowRight}"
  by (auto simp: place_x_def Let_def split: prod.splits)

lemma place_y_no_arrow: "snd (place_y P G h a) = NoArrow \<longleftrightarrow> alignY P = YCenter \<and> a = NoArrow"
  by (cases "alignY P") (auto simp: place_y_def Let_def split: prod.splits)

lemma calcPos_sel:
  "p_l (calcPos P G w h) = fst (place_x P G w)"
  "p_t (calcPos P G w h) = fst (place_y P G h (snd (place_x P G w)))"
  "p_arrow (calcPos P G w h) = snd (place_y P G h (snd (place_x P G w)))"
  by (simp_all add: calcPos_def split: prod.splits)

text \<open>
  the arrow shows where the anchor is: a top arrow means that the tip hangs from the bottom
  edge of the anchor, a bottom arrow that it stands on the top edge, also after the tip has been
  moved to the other side to stay in the viewport; and only a tip centred on both axes has none.
\<close>

theorem calcPos_arrow:
  "(p_arrow (calcPos P G w h) = NoArrow) = (alignX P = XCenter \<and> alignY P = YCenter) \<and>
   (case p_arrow (calcPos P G w h) of
      ArrowTop \<Rightarrow> p_t (calcPos P G w h) = plus_c (snd (snd (anchor_y P G))) (offsetY P)
    | ArrowBottom \<Rightarrow> p_t (calcPos P G w h) = plus_c (fst (anchor_y P G)) (- h - offsetY P)
    | _ \<Rightarrow> True)"
proof
  show "(p_arrow (calcPos P G w h) = NoArrow) = (alignX P = XCenter \<and> alignY P = YCenter)"
    by (auto simp: calcPos_sel place_y_no_arrow place_x_arrow)
  obtain yT yC yB where y: "anchor_y P G = (yT, yC, yB)" by (cases "anchor_y P G")
  show "case p_arrow (calcPos P G w h) of
      ArrowTop \<Rightarrow> p_t (calcPos P G w h) = plus_c (snd (snd (anchor_y P G))) (offsetY P)
    | ArrowBottom \<Rightarrow> p_t (calcPos P G w h) = plus_c (fst (anchor_y P G)) (- h - offsetY P)
    | _ \<Rightarrow> True"
    using place_x_side [of P G w]
    by (cases "alignY P") (auto simp: calcPos_sel place_y_def y Let_def split: arrow.splits)
qed

section \<open>The viewport\<close>

definition inside :: "rat \<Rightarrow> rat \<Rightarrow> rat \<Rightarrow> coord \<Rightarrow> bool" where
  "inside start len sz p = (case p of Some x \<Rightarrow> start \<le> x \<and> x + sz \<le> start + len | None \<Rightarrow> False)"

lemma clamp_inside: "sz \<le> len \<Longrightarrow> p \<noteq> None \<Longrightarrow> inside start len sz (clamp start len sz p)"
  by (cases p) (auto simp: clamp_def inside_def)

text \<open>
  The edge a tip is attached to horizontally, offset included: for it to be attached at all,
  that edge has to be in the viewport.
\<close>

definition attach_x :: "placement \<Rightarrow> geometry \<Rightarrow> coord" where
  "attach_x P G =
     (let (xL, xC, xR) = anchor_x P G in
      if alignX P = XRight \<or> alignX P = XInnerLeft then plus_c xR (offsetX P)
      else if alignX P = XCenter then xC else plus_c xL (- offsetX P))"

text \<open>
  C19: with \<open>keepInViewport\<close> a tip that is no wider than the viewport always ends up horizontally
  inside it, for every alignment, provided the edge it is attached to is in the viewport.
\<close>

theorem calcPos_keeps_inside_x:
  assumes "keepInViewport P" and "w \<le> b_w (g_win G)"
    and "inside (b_l (g_win G)) (b_w (g_win G)) 0 (attach_x P G)"
  shows "inside (b_l (g_win G)) (b_w (g_win G)) w (p_l (calcPos P G w h))"
proof -
  obtain xL xC xR where x: "anchor_x P G = (xL, xC, xR)" by (cases "anchor_x P G")
  show ?thesis
  proof (cases "alignX P = XCenter")
    case True
    then have "plus_c xC (- half w) \<noteq> None"
      using assms(3) by (auto simp: attach_x_def x inside_def split: option.splits)
    from clamp_inside [OF assms(2) this] True assms(1) show ?thesis
      by (simp add: calcPos_sel place_x_def x Let_def)
  next
    case False
    with assms show ?thesis
      by (cases "alignX P"; cases xL; cases xR)
        (auto simp: calcPos_sel place_x_def x attach_x_def inside_def Let_def)
  qed
qed

definition corner :: geometry where
  "corner = \<lparr>g_win = \<lparr>b_l = 0, b_t = 0, b_w = 800, b_h = 100\<rparr>,
     g_elm = \<lparr>b_l = 0, b_t = 0, b_w = 0, b_h = 0\<rparr>, g_event = (Some 790, Some 50)\<rparr>"

definition at_cursor :: placement where
  "at_cursor = \<lparr>alignTo = ToCursor, alignX = XRight, alignY = YBottom, offsetX = 5, offsetY = 10,
     keepInViewport = True\<rparr>"

theorem calcPos_keeps_inside_x_witness:
  "inside 0 800 200 (p_l (calcPos at_cursor corner 200 60))"
  using calcPos_keeps_inside_x [of at_cursor 200 corner 60]
  by (simp add: at_cursor_def corner_def attach_x_def anchor_x_def inside_def)

text \<open>
  vertically the option does not do that: a tip below its anchor that would not fit is put
  above the anchor without another look, so a tip of 60 pixels in a viewport of 100 pixels, with
  room to spare, is placed with its top 20 pixels outside.
\<close>

theorem calcPos_leaves_viewport:
  "keepInViewport at_cursor \<and> 60 \<le> b_h (g_win corner) \<and>
   inside (b_t (g_win corner)) (b_h (g_win corner)) 0 (snd (g_event corner)) \<and>
   p_t (calcPos at_cursor corner 200 60) = Some (- 20) \<and>
   \<not> inside (b_t (g_win corner)) (b_h (g_win corner)) 60 (p_t (calcPos at_cursor corner 200 60))"
  by (simp add: at_cursor_def corner_def calcPos_def place_x_def place_y_def anchor_x_def
      anchor_y_def inside_def Let_def)

end
