(* ===== verification/Poshytip.thy ===== *)
theory Poshytip
  imports Poshytip_Position
begin

text \<open>
  \<open>jquery.poshytip.js\<close>: the tooltip object as a state machine. Its state is the object's own
  fields, the two pieces of data it keeps on the element, what it has done to the tip element
  (attached, visible, position, background), jQuery's effects queue of that element, and the
  browser's timers that will call it back.

  What the browser and the page decide is a parameter: what a content function returns, how
  large a content is rendered, where the window and the element are, and the style sheet.
  Colours, margins and generated markup without effect on these are left out.
\<close>

section \<open>Options and state\<close>

text \<open>
  What \<open>this.content\<close> can hold, and what the option \<open>content\<close> can: a value, the marker
  \<open>[title]\<close> or a function.
\<close>

datatype tip_value = VUndef | VNull | VText string | VNode nat
datatype 'f content = OTitle | OVal tip_value | OFun 'f

fun shows_something :: "tip_value \<Rightarrow> bool" where
  "shows_something VUndef = False"
| "shows_something VNull = False"
| "shows_something (VText s) = (s \<noteq> [])"
| "shows_something (VNode n) = True"

datatype show_on = OnHover | OnFocus | OnNone

record 'f tip_options =
  o_content :: "'f content"
  o_showTimeout :: nat
  o_hideTimeout :: nat
  o_timeOnScreen :: nat
  o_showOn :: show_on
  o_place :: placement
  o_followCursor :: bool
  o_allowTipHover :: bool
  o_fade :: bool
  o_slide :: bool
  o_slideOffset :: rat
  o_showAniDuration :: nat
  o_hideAniDuration :: nat
  o_refreshAniDuration :: nat

datatype timer_kind = ShowTimer | HideTimer

text \<open>
  Entries of the effects queue: the sentinel, an animation of \<open>display\<close> with the two ends of its
  slide if there is one, the move of \<open>refresh\<close>, or the function \<open>reset\<close>. Where a sliding tip is
  between its ends is not tracked.
\<close>

datatype fx_entry = InProgress | Animate "(coord \<times> coord) option" | MoveTo coord coord | DoReset

text \<open>\<open>data('title.poshytip')\<close>: absent, or the title attribute the element had (\<open>null\<close> if none).\<close>

datatype saved = NotSaved | Saved "string option"

record 'f tip =
  opts :: "'f tip_options"
  disabled :: bool
  shown :: tip_value
  title_attr :: "string option"
  saved_title :: saved
  alive :: bool
  active :: bool
  attached :: bool
  visible :: bool
  css_l :: coord
  css_t :: coord
  arrow_class :: arrow
  arrow_shown :: bool
  tip_bg :: string
  arrow_bg :: string
  framed :: bool
  opacity_saved :: bool
  asyncAnimating :: bool
  pos :: "position option"
  event_pos :: "coord \<times> coord"
  showTimeout :: nat
  hideTimeout :: nat
  timers :: "(nat \<times> timer_kind \<times> nat) list"
  next_timer :: nat
  fx_queue :: "fx_entry list"
  fx_running :: "fx_entry option"

record 'f browser =
  run_content :: "'f \<Rightarrow> tip_value"
  layout :: "tip_value \<Rightarrow> rat \<times> rat"
  window_box :: box
  element_box :: box
  ie6 :: bool
  supports_opacity :: bool

section \<open>Timers\<close>

text \<open>\<open>setTimeout\<close> and \<open>clearTimeout\<close>; identifiers are positive.\<close>

definition set_timer :: "timer_kind \<Rightarrow> nat \<Rightarrow> 'f tip \<Rightarrow> nat \<times> 'f tip" where
  "set_timer k ms t =
     (next_timer t, t\<lparr>timers := timers t @ [(next_timer t, k, ms)], next_timer := Suc (next_timer t)\<rparr>)"

definition cancel_timer :: "nat \<Rightarrow> 'f tip \<Rightarrow> 'f tip" where
  "cancel_timer i t = t\<lparr>timers := filter (\<lambda>(j, _). j \<noteq> i) (timers t)\<rparr>"

definition clearTimeouts :: "'f tip \<Rightarrow> 'f tip" where
  "clearTimeouts t =
     (let t1 = (if showTimeout t \<noteq> 0 then cancel_timer (showTimeout t) t\<lparr>showTimeout := 0\<rparr> else t)
      in if hideTimeout t1 \<noteq> 0 then cancel_timer (hideTimeout t1) t1\<lparr>hideTimeout := 0\<rparr> else t1)"

definition showDelayed :: "nat option \<Rightarrow> 'f tip \<Rightarrow> 'f tip" where
  "showDelayed timeout t =
     (let t1 = clearTimeouts t;
          (i, t2) = set_timer ShowTimer (case timeout of Some ms \<Rightarrow> ms | None \<Rightarrow> o_showTimeout (opts t)) t1
      in t2\<lparr>showTimeout := i\<rparr>)"

definition hideDelayed :: "nat option \<Rightarrow> 'f tip \<Rightarrow> 'f tip" where
  "hideDelayed timeout t =
     (let t1 = clearTimeouts t;
          (i, t2) = set_timer HideTimer (case timeout of Some ms \<Rightarrow> ms | None \<Rightarrow> o_hideTimeout (opts t)) t1
      in t2\<lparr>hideTimeout := i\<rparr>)"

section \<open>\<open>reset\<close> and the effects queue\<close>

definition reset :: "'f tip \<Rightarrow> 'f tip" where
  "reset t = t\<lparr>fx_queue := [], attached := False, visible := False, active := False,
     arrow_class := NoArrow, asyncAnimating := False\<rparr>"

text \<open>
  jQuery's \<open>dequeue\<close>: the sentinel goes, the next entry runs behind a new one. \<open>reset\<close> empties
  the queue itself.
\<close>

definition run_entry :: "fx_entry \<Rightarrow> fx_entry list \<Rightarrow> 'f tip \<Rightarrow> 'f tip" where
  "run_entry e rest t =
     (let t1 = t\<lparr>fx_queue := InProgress # rest\<rparr>
      in if e = DoReset then reset t1 else t1\<lparr>fx_running := Some e\<rparr>)"

definition dequeue :: "'f tip \<Rightarrow> 'f tip" where
  "dequeue t =
     (case dropWhile (\<lambda>e. e = InProgress) (fx_queue t) of
        [] \<Rightarrow> t\<lparr>fx_queue := []\<rparr>
      | e # rest \<Rightarrow> run_entry e rest t)"

definition enqueue :: "fx_entry \<Rightarrow> 'f tip \<Rightarrow> 'f tip" where
  "enqueue e t =
     (let t1 = t\<lparr>fx_queue := fx_queue t @ [e]\<rparr>
      in if hd (fx_queue t1) \<noteq> InProgress then dequeue t1 else t1)"

definition stop_fx :: "'f tip \<Rightarrow> 'f tip" where
  "stop_fx t = dequeue (t\<lparr>fx_running := None\<rparr>)"

definition anim_done :: "'f tip \<Rightarrow> 'f tip" where
  "anim_done t =
     (case fx_running t of
        None \<Rightarrow> t
      | Some e \<Rightarrow>
          dequeue (case e of
            MoveTo l u \<Rightarrow> t\<lparr>fx_running := None, css_l := l, css_t := u, asyncAnimating := False\<rparr>
          | _ \<Rightarrow> t\<lparr>fx_running := None\<rparr>))"

section \<open>\<open>refresh\<close>\<close>

text \<open>\<open>css.match(/^url\(["']?([^"'\)]*)["']?\);?$/i)\<close>: the address, if any.\<close>

definition lower :: "string \<Rightarrow> string" where
  "lower s = map (\<lambda>c. let n = of_char c :: nat in if 65 \<le> n \<and> n \<le> 90 then char_of (n + 32) else c) s"

definition quotes :: "char set" where
  "quotes = {CHR 0x22, CHR 0x27}"

definition bg_url :: "string \<Rightarrow> string option" where
  "bg_url s =
     (if lower (take 4 s) \<noteq> ''url('' then None
      else let r = drop 4 s;
               r1 = (if r \<noteq> [] \<and> hd r \<in> quotes then tl r else r);
               u = takeWhile (\<lambda>c. c \<notin> quotes \<and> c \<noteq> CHR '')'') r1;
               r2 = drop (length u) r1;
               r3 = (if r2 \<noteq> [] \<and> hd r2 \<in> quotes then tl r2 else r2)
           in if r3 = '')'' \<or> r3 = '');'' then Some u else None)"

definition is_png :: "string \<Rightarrow> bool" where
  "is_png u = (length u \<ge> 4 \<and> lower (drop (length u - 4) u) = ''.png'')"

text \<open>
  The background of the tip becomes a table of images once; the background of the arrow decides
  whether there is an arrow. Where the browser cannot fade translucent images, fading goes off.
\<close>

definition fix_background :: "'f browser \<Rightarrow> 'f tip \<Rightarrow> 'f tip \<times> bool" where
  "fix_background B t =
     (let bg = bg_url (tip_bg t); arrow = bg_url (arrow_bg t);
          t1 = (case bg of
                  None \<Rightarrow> t
                | Some u \<Rightarrow>
                    (if ie6 B \<and> is_png u then t\<lparr>tip_bg := ''none''\<rparr>
                     else let t' = t\<lparr>framed := True, tip_bg := ''none''\<rparr> in
                       if is_png u \<and> \<not> supports_opacity B then t'\<lparr>opts := (opts t')\<lparr>o_fade := False\<rparr>\<rparr>
                       else t'))
      in case arrow of
           None \<Rightarrow> (t1, False)
         | Some u \<Rightarrow>
             (if supports_opacity B then (t1, True)
              else if ie6 B \<and> is_png u
              then (t1\<lparr>arrow_bg := ''none'', opts := (opts t1)\<lparr>o_fade := False\<rparr>\<rparr>, False)
              else (t1\<lparr>opts := (opts t1)\<lparr>o_fade := False\<rparr>\<rparr>, True)))"

definition geometry_of :: "'f browser \<Rightarrow> 'f tip \<Rightarrow> geometry" where
  "geometry_of B t = \<lparr>g_win = window_box B, g_elm = element_box B, g_event = event_pos t\<rparr>"

definition calc_pos :: "'f browser \<Rightarrow> 'f tip \<Rightarrow> position" where
  "calc_pos B t =
     calcPos (o_place (opts t)) (geometry_of B t) (fst (layout B (shown t))) (snd (layout B (shown t)))"

definition refresh :: "'f browser \<Rightarrow> bool \<Rightarrow> 'f tip \<Rightarrow> 'f tip" where
  "refresh B async t =
     (if disabled t \<or> async \<and> \<not> active t then t
      else let currPos = (css_l t, css_t t);
               t1 = t\<lparr>css_l := Some 0, css_t := Some 0, attached := True, opacity_saved := True\<rparr>;
               (t2, arrow) = fix_background B t1;
               p = calc_pos B t2;
               t3 = t2\<lparr>pos := Some p\<rparr>;
               t4 = (if arrow \<and> p_arrow p \<noteq> NoArrow
                     then t3\<lparr>arrow_class := p_arrow p, arrow_shown := True\<rparr> else t3)
           in if async \<and> o_refreshAniDuration (opts t4) \<noteq> 0
              then enqueue (MoveTo (p_l p) (p_t p))
                (t4\<lparr>asyncAnimating := True, css_l := fst currPos, css_t := snd currPos\<rparr>)
              else t4\<lparr>css_l := p_l p, css_t := p_t p\<rparr>)"

section \<open>\<open>display\<close>, \<open>show\<close>, \<open>hide\<close>, \<open>update\<close>\<close>

text \<open>The two ends of the slide: along the axis of the arrow, away from or towards it.\<close>

definition parse_int :: "rat \<Rightarrow> rat" where
  "parse_int x = (if x < 0 then of_int \<lceil>x\<rceil> else of_int \<lfloor>x\<rfloor>)"

definition slide_ends :: "bool \<Rightarrow> position \<Rightarrow> 'f tip \<Rightarrow> coord \<times> coord" where
  "slide_ends hiding p t =
     (let vertical = (p_arrow p = ArrowBottom \<or> p_arrow p = ArrowTop);
          v = map_option parse_int (if vertical then css_t t else css_l t);
          d = o_slideOffset (opts t);
          towards = (p_arrow p = (if vertical then ArrowBottom else ArrowRight))
      in (plus_c v (if hiding then 0 else if towards then - d else d),
          plus_c v (if hiding then (if towards then d else - d) else 0)))"

definition restore_title :: "'f tip \<Rightarrow> 'f tip" where
  "restore_title t = (case saved_title t of Saved (Some s) \<Rightarrow> t\<lparr>title_attr := Some s\<rparr> | _ \<Rightarrow> t)"

definition display :: "bool \<Rightarrow> 'f tip \<Rightarrow> 'f tip" where
  "display hiding t =
     (if active t = (\<not> hiding) then t
      else let was_active = active t;
               p = (case pos t of Some p \<Rightarrow> p | None \<Rightarrow> \<lparr>p_l = None, p_t = None, p_arrow = NoArrow\<rparr>);
               t1 = stop_fx t;
               slides = (o_slide (opts t1) \<and> p_arrow p \<noteq> NoArrow);
               ms = (if hiding then o_hideAniDuration (opts t1) else o_showAniDuration (opts t1));
               ends = (if slides then Some (slide_ends hiding p t1) else None);
               t2 = (if (slides \<or> o_fade (opts t1)) \<and> ms \<noteq> 0
                     then enqueue (Animate ends) t1 else t1);
               t3 = (if hiding then enqueue DoReset t2 else t2\<lparr>visible := True\<rparr>);
               t4 = (if was_active then restore_title t3 else t3)
           in t4\<lparr>active := \<not> was_active\<rparr>)"

text \<open>
  \<open>update\<close>; the argument is \<open>None\<close> when it is \<open>undefined\<close>. With \<open>$tip\<close> deleted, reading its data
  throws.
\<close>

definition new_content :: "'f browser \<Rightarrow> 'f content \<Rightarrow> 'f tip \<Rightarrow> tip_value" where
  "new_content B c t =
     (case c of
        OFun f \<Rightarrow> run_content B f
      | OTitle \<Rightarrow> (case saved_title t of
          NotSaved \<Rightarrow> VUndef | Saved None \<Rightarrow> VNull | Saved (Some s) \<Rightarrow> VText s)
      | OVal v \<Rightarrow> v)"

definition set_content :: "'f browser \<Rightarrow> bool \<Rightarrow> 'f content \<Rightarrow> 'f tip \<Rightarrow> 'f tip" where
  "set_content B async c t = refresh B async (t\<lparr>shown := new_content B c t\<rparr>)"

definition update :: "'f browser \<Rightarrow> 'f content option \<Rightarrow> bool \<Rightarrow> 'f tip \<Rightarrow> 'f tip throws" where
  "update B content dontOverwriteOption t =
     (if disabled t then Inr t
      else case content of
        Some c \<Rightarrow>
          (let t1 = (if dontOverwriteOption then t else t\<lparr>opts := (opts t)\<lparr>o_content := c\<rparr>\<rparr>)
           in if \<not> alive t then Inl TypeError
              else if \<not> active t1 then Inr t1 else Inr (set_content B True c t1))
      | None \<Rightarrow>
          (if \<not> alive t then Inl TypeError else Inr (set_content B False (o_content (opts t)) t)))"

definition show_tip :: "'f browser \<Rightarrow> 'f tip \<Rightarrow> 'f tip throws" where
  "show_tip B t =
     (if disabled t then Inr t
      else if \<not> alive t then Inl TypeError
      else if active t then Inr t
      else bindE (update B None False (reset t)) (\<lambda>t1.
        if \<not> shows_something (shown t1) then Inr t1
        else let t2 = display False t1 in
          Inr (if o_timeOnScreen (opts t2) \<noteq> 0 then hideDelayed (Some (o_timeOnScreen (opts t2))) t2
               else t2)))"

definition hide_tip :: "'f tip \<Rightarrow> 'f tip throws" where
  "hide_tip t =
     (if disabled t then Inr t
      else if \<not> alive t then Inl TypeError
      else if \<not> active t then Inr t
      else Inr (display True t))"

section \<open>Life cycle and event handlers\<close>

definition new_tip :: "'f tip_options \<Rightarrow> string option \<Rightarrow> string \<Rightarrow> string \<Rightarrow> 'f tip" where
  "new_tip os title bg abg =
     \<lparr>opts = os, disabled = False, shown = VNull, title_attr = title, saved_title = Saved title,
      alive = True, active = False, attached = True, visible = False, css_l = Some 0, css_t = Some 0,
      arrow_class = NoArrow, arrow_shown = False, tip_bg = bg, arrow_bg = abg, framed = False,
      opacity_saved = False, asyncAnimating = False, pos = None, event_pos = (None, None),
      showTimeout = 0, hideTimeout = 0, timers = [], next_timer = 1, fx_queue = [], fx_running = None\<rparr>"

definition disable :: "'f tip \<Rightarrow> 'f tip" where
  "disable t = (reset t)\<lparr>disabled := True\<rparr>"

definition enable :: "'f tip \<Rightarrow> 'f tip" where
  "enable t = t\<lparr>disabled := False\<rparr>"

definition destroy :: "'f tip \<Rightarrow> 'f tip" where
  "destroy t = (reset t)\<lparr>alive := False, shown := VNull, saved_title := NotSaved\<rparr>"

definition mouseenter :: "'f tip \<Rightarrow> 'f tip" where
  "mouseenter t =
     (if disabled t then t
      else let t1 = t\<lparr>title_attr := Some []\<rparr>
           in if o_showOn (opts t1) = OnFocus then t1 else showDelayed None t1)"

text \<open>The flag says that the pointer has gone to the tip.\<close>

definition mouseleave :: "bool \<Rightarrow> 'f tip \<Rightarrow> 'f tip" where
  "mouseleave into_tip t =
     (if disabled t \<or> asyncAnimating t \<and> into_tip then t
      else let t1 = (if active t then t else restore_title t)
           in if o_showOn (opts t1) = OnFocus then t1 else hideDelayed None t1)"

definition mousemove :: "'f browser \<Rightarrow> rat \<Rightarrow> rat \<Rightarrow> 'f tip \<Rightarrow> 'f tip" where
  "mousemove B x y t =
     (if disabled t then t
      else let t1 = t\<lparr>event_pos := (Some x, Some y)\<rparr> in
        if o_followCursor (opts t1) \<and> active t1
        then let p = calc_pos B t1; t2 = t1\<lparr>pos := Some p, css_l := p_l p, css_t := p_t p\<rparr>
             in if p_arrow p \<noteq> NoArrow then t2\<lparr>arrow_class := p_arrow p\<rparr> else t2
        else t1)"

datatype 'f tip_event =
    Enter | Leave bool | Move rat rat | TipEnter | TipLeave bool | Focus | Blur
  | Timer nat | AnimDone | Resize | AsyncContent "'f content"
  | CallShow | CallHide | CallShowDelayed "nat option" | CallHideDelayed "nat option"
  | CallUpdate "'f content option" bool | CallDisable | CallEnable | CallDestroy

text \<open>
  Events reach the object through the handlers that \<open>init\<close> has bound according to \<open>showOn\<close>, and
  methods through the data on the element; \<open>destroy\<close> removes both. Timers and the callback of a
  content function hold the object itself.
\<close>

definition handle :: "'f browser \<Rightarrow> 'f tip_event \<Rightarrow> 'f tip \<Rightarrow> 'f tip throws" where
  "handle B ev t =
     (let on = o_showOn (opts t) in
      case ev of
        Enter \<Rightarrow> Inr (if alive t \<and> on \<noteq> OnNone then mouseenter t else t)
      | Leave b \<Rightarrow> Inr (if alive t \<and> on \<noteq> OnNone then mouseleave b t else t)
      | Move x y \<Rightarrow>
          Inr (if alive t \<and> on = OnHover \<and> alignTo (o_place (opts t)) = ToCursor then mousemove B x y t else t)
      | TipEnter \<Rightarrow> Inr (if alive t \<and> on = OnHover \<and> o_allowTipHover (opts t) then clearTimeouts t else t)
      | TipLeave b \<Rightarrow> Inr (if alive t \<and> on = OnHover \<and> o_allowTipHover (opts t) then mouseleave b t else t)
      | Focus \<Rightarrow> Inr (if alive t \<and> on = OnFocus then showDelayed None t else t)
      | Blur \<Rightarrow> Inr (if alive t \<and> on = OnFocus then hideDelayed None t else t)
      | Timer i \<Rightarrow>
          (case map_of (timers t) i of
             None \<Rightarrow> Inr t
           | Some (k, _) \<Rightarrow>
               (let t1 = cancel_timer i t
                in case k of ShowTimer \<Rightarrow> show_tip B t1 | HideTimer \<Rightarrow> hide_tip t1))
      | AnimDone \<Rightarrow> Inr (anim_done t)
      | Resize \<Rightarrow> Inr (if alive t then refresh B True t else t)
      | AsyncContent c \<Rightarrow> update B (Some c) False t
      | CallShow \<Rightarrow> if alive t then show_tip B t else Inr t
      | CallHide \<Rightarrow> if alive t then hide_tip t else Inr t
      | CallShowDelayed ms \<Rightarrow> Inr (if alive t then showDelayed ms t else t)
      | CallHideDelayed ms \<Rightarrow> Inr (if alive t then hideDelayed ms t else t)
      | CallUpdate c b \<Rightarrow> if alive t then update B c b t else Inr t
      | CallDisable \<Rightarrow> Inr (if alive t then disable t else t)
      | CallEnable \<Rightarrow> Inr (if alive t then enable t else t)
      | CallDestroy \<Rightarrow> Inr (if alive t then destroy t else t))"

inductive tip_step :: "'f browser \<Rightarrow> 'f tip \<Rightarrow> 'f tip \<Rightarrow> bool" for B where
  step: "handle B ev t = Inr t' \<Longrightarrow> tip_step B t t'"

inductive_cases tip_stepE: "tip_step B t t'"

section \<open>What every reachable state satisfies\<close>

text \<open>
  Pending timers are the ones the object knows about, so that \<open>clearTimeouts\<close> cancels all of
  them; an entry in the queue means that something is running in front of it.
\<close>

definition timers_ok :: "nat \<Rightarrow> nat \<Rightarrow> nat \<Rightarrow> (nat \<times> timer_kind \<times> nat) list \<Rightarrow> bool" where
  "timers_ok next s h ts \<longleftrightarrow> 0 < next \<and>
     (ts = [] \<or> (\<exists>i k ms. ts = [(i, k, ms)] \<and> 0 < i \<and> i < next \<and>
        (k = ShowTimer \<and> s = i \<or> k = HideTimer \<and> h = i)))"

definition queue_ok :: "fx_entry list \<Rightarrow> fx_entry option \<Rightarrow> bool" where
  "queue_ok q r \<longleftrightarrow> (q = [] \<or> (hd q = InProgress \<and> InProgress \<notin> set (tl q) \<and> r \<noteq> None))"

definition screen_ok :: "bool \<Rightarrow> bool \<Rightarrow> bool \<Rightarrow> bool \<Rightarrow> bool \<Rightarrow> fx_entry list \<Rightarrow> bool" where
  "screen_ok act att vis dis al q \<longleftrightarrow> (act \<longrightarrow> att \<and> vis \<and> \<not> dis \<and> al) \<and> (vis \<and> \<not> act \<longrightarrow> DoReset \<in> set q)"

definition title_ok :: "string option \<Rightarrow> bool \<Rightarrow> saved \<Rightarrow> string option \<Rightarrow> bool" where
  "title_ok orig al sv attr \<longleftrightarrow> (al \<longrightarrow> sv = Saved orig) \<and> (attr = orig \<or> attr = Some [])"

definition tip_ok :: "string option \<Rightarrow> 'f tip \<Rightarrow> bool" where
  "tip_ok orig t \<longleftrightarrow>
     timers_ok (next_timer t) (showTimeout t) (hideTimeout t) (timers t) \<and>
     queue_ok (fx_queue t) (fx_running t) \<and>
     screen_ok (active t) (attached t) (visible t) (disabled t) (alive t) (fx_queue t) \<and>
     title_ok orig (alive t) (saved_title t) (title_attr t)"

lemma queue_ok_simps [simp]:
  "queue_ok [] r" "queue_ok (InProgress # q) (Some e) \<longleftrightarrow> InProgress \<notin> set q"
  by (simp_all add: queue_ok_def)

lemma screen_ok_off [simp]:
  "screen_ok False att False dis al q"
  by (simp add: screen_ok_def)

lemma timers_ok_Nil [simp]: "timers_ok n s h [] \<longleftrightarrow> 0 < n"
  by (simp add: timers_ok_def)

lemma timers_ok_next: "timers_ok n s h ts \<Longrightarrow> 0 < n"
  by (simp add: timers_ok_def)

lemma ok_new: "tip_ok title (new_tip os title bg abg)"
  by (simp add: tip_ok_def title_ok_def new_tip_def)

lemma reset_sel [simp]:
  "disabled (reset t) = disabled t" "alive (reset t) = alive t" "opts (reset t) = opts t"
  "\<not> active (reset t)" "\<not> visible (reset t)" "fx_queue (reset t) = []" "saved_title (reset t) = saved_title t"
  "title_attr (reset t) = title_attr t" "timers (reset t) = timers t"
  "next_timer (reset t) = next_timer t" "showTimeout (reset t) = showTimeout t"
  "hideTimeout (reset t) = hideTimeout t" "fx_running (reset t) = fx_running t"
  by (simp_all add: reset_def)

lemma ok_reset: "tip_ok orig t \<Longrightarrow> tip_ok orig (reset t)"
  by (simp add: tip_ok_def)

lemma timers_ok_filter: "timers_ok n s h ts \<Longrightarrow> timers_ok n s h (filter P ts)"
  unfolding timers_ok_def by (elim conjE disjE exE) (auto simp del: split_paired_Ex)

lemma ok_cancel: "tip_ok orig t \<Longrightarrow> tip_ok orig (cancel_timer i t)"
  by (simp add: tip_ok_def cancel_timer_def timers_ok_filter)

lemma clear_no_timers:
  "timers_ok (next_timer t) (showTimeout t) (hideTimeout t) (timers t) \<Longrightarrow> timers (clearTimeouts t) = []"
  by (auto simp: timers_ok_def clearTimeouts_def cancel_timer_def Let_def)

lemma clear_sel [simp]:
  "next_timer (clearTimeouts t) = next_timer t" "fx_queue (clearTimeouts t) = fx_queue t"
  "fx_running (clearTimeouts t) = fx_running t" "active (clearTimeouts t) = active t"
  "attached (clearTimeouts t) = attached t" "visible (clearTimeouts t) = visible t"
  "disabled (clearTimeouts t) = disabled t" "alive (clearTimeouts t) = alive t"
  "pos (clearTimeouts t) = pos t" "saved_title (clearTimeouts t) = saved_title t"
  "title_attr (clearTimeouts t) = title_attr t" "opts (clearTimeouts t) = opts t"
  by (simp_all add: clearTimeouts_def cancel_timer_def Let_def)

lemma ok_clear: "tip_ok orig t \<Longrightarrow> tip_ok orig (clearTimeouts t)"
  by (auto simp: tip_ok_def clear_no_timers dest: timers_ok_next)

lemma ok_showDelayed: "tip_ok orig t \<Longrightarrow> tip_ok orig (showDelayed ms t)"
  by (auto simp: tip_ok_def clear_no_timers showDelayed_def set_timer_def Let_def timers_ok_def)

lemma ok_hideDelayed: "tip_ok orig t \<Longrightarrow> tip_ok orig (hideDelayed ms t)"
  by (auto simp: tip_ok_def clear_no_timers hideDelayed_def set_timer_def Let_def timers_ok_def)

text \<open>
  Operations of the effects queue keep the queue in order. They may run \<open>reset\<close>, so a hidden tip
  that waits for it may be reset; nothing else on the screen changes.
\<close>

lemma queue_ok_cases:
  assumes "queue_ok q r"
  obtains "q = []" | rest e where "q = InProgress # rest" "InProgress \<notin> set rest" "r = Some e"
  using assms by (cases q) (auto simp: queue_ok_def)

lemma drop_sentinel: "InProgress \<notin> set rest \<Longrightarrow> dropWhile (\<lambda>e. e = InProgress) rest = rest"
  by (cases rest) auto

lemma dequeue_cases:
  assumes "queue_ok (fx_queue t) r"
  obtains (empty) "dequeue t = t\<lparr>fx_queue := []\<rparr>" "set (fx_queue t) \<subseteq> {InProgress}"
  | (runs_reset) rest where "fx_queue t = InProgress # DoReset # rest"
      "dequeue t = reset (t\<lparr>fx_queue := InProgress # rest\<rparr>)"
  | (runs) e rest where "fx_queue t = InProgress # e # rest" "e \<noteq> DoReset" "e \<noteq> InProgress"
      "InProgress \<notin> set rest" "dequeue t = t\<lparr>fx_queue := InProgress # rest, fx_running := Some e\<rparr>"
  using assms
proof (cases rule: queue_ok_cases)
  case 1
  then show ?thesis by (intro empty) (simp_all add: dequeue_def)
next
  case (2 rest e)
  show ?thesis
  proof (cases rest)
    case Nil
    then show ?thesis using 2 by (intro empty) (simp_all add: dequeue_def)
  next
    case (Cons d ds)
    then have "dequeue t = run_entry d ds t" using 2 by (auto simp: dequeue_def)
    with 2 Cons show ?thesis
      by (cases "d = DoReset") (auto simp: run_entry_def Let_def intro: runs_reset runs)
  qed
qed

lemma ok_dequeue:
  assumes "tip_ok orig (t\<lparr>fx_running := r\<rparr>)"
  shows "tip_ok orig (dequeue t)"
proof -
  have "queue_ok (fx_queue t) r" using assms by (simp add: tip_ok_def)
  then show ?thesis
  proof (cases rule: dequeue_cases)
    case empty
    then show ?thesis using assms by (auto simp: tip_ok_def screen_ok_def)
  next
    case (runs_reset rest)
    then show ?thesis using assms by (simp add: tip_ok_def)
  next
    case (runs e rest)
    then show ?thesis using assms by (auto simp: tip_ok_def screen_ok_def)
  qed
qed

lemma ok_stop: "tip_ok orig t \<Longrightarrow> tip_ok orig (stop_fx t)"
  unfolding stop_fx_def by (rule ok_dequeue [where r = "fx_running t"]) simp

lemma ok_anim_done:
  assumes "tip_ok orig t"
  shows "tip_ok orig (anim_done t)"
proof (cases "fx_running t")
  case (Some e)
  have "tip_ok orig ((case e of
            MoveTo l u \<Rightarrow> t\<lparr>fx_running := None, css_l := l, css_t := u, asyncAnimating := False\<rparr>
          | _ \<Rightarrow> t\<lparr>fx_running := None\<rparr>)\<lparr>fx_running := fx_running t\<rparr>)"
    using assms by (simp add: tip_ok_def split: fx_entry.splits)
  from ok_dequeue [OF this] Some show ?thesis by (simp add: anim_done_def)
qed (use assms in \<open>simp add: anim_done_def\<close>)

lemma enqueue_cases:
  assumes "queue_ok (fx_queue t) (fx_running t)" "e \<noteq> InProgress"
  obtains (waits) "fx_queue t \<noteq> []" "enqueue e t = t\<lparr>fx_queue := fx_queue t @ [e]\<rparr>"
  | (reset) "e = DoReset" "fx_queue t = []" "enqueue e t = reset (t\<lparr>fx_queue := [InProgress]\<rparr>)"
  | (starts) "e \<noteq> DoReset" "fx_queue t = []" "enqueue e t = t\<lparr>fx_queue := [InProgress], fx_running := Some e\<rparr>"
  using assms(1)
proof (cases rule: queue_ok_cases)
  case 1
  then show ?thesis using assms(2) reset starts
    by (cases "e = DoReset") (auto simp: enqueue_def dequeue_def run_entry_def Let_def)
next
  case 2
  then show ?thesis by (intro waits) (simp_all add: enqueue_def)
qed

lemma ok_enqueue:
  assumes "tip_ok orig t" "e \<noteq> InProgress"
  shows "tip_ok orig (enqueue e t)"
proof -
  have "queue_ok (fx_queue t) (fx_running t)" using assms(1) by (simp add: tip_ok_def)
  then show ?thesis using assms(2)
  proof (cases rule: enqueue_cases)
    case waits
    then show ?thesis using assms by (cases "fx_queue t") (auto simp: tip_ok_def screen_ok_def queue_ok_def)
  next
    case reset
    then show ?thesis using assms by (simp add: tip_ok_def)
  next
    case starts
    then show ?thesis using assms by (auto simp: tip_ok_def screen_ok_def)
  qed
qed

text \<open>Changes outside the invariant.\<close>

lemma ok_frame [simp]:
  "tip_ok orig (t\<lparr>css_l := a\<rparr>) = tip_ok orig t" "tip_ok orig (t\<lparr>css_t := a\<rparr>) = tip_ok orig t"
  "tip_ok orig (t\<lparr>opts := os\<rparr>) = tip_ok orig t" "tip_ok orig (t\<lparr>shown := c\<rparr>) = tip_ok orig t"
  "tip_ok orig (t\<lparr>pos := p\<rparr>) = tip_ok orig t" "tip_ok orig (t\<lparr>event_pos := e\<rparr>) = tip_ok orig t"
  "tip_ok orig (t\<lparr>arrow_class := c'\<rparr>) = tip_ok orig t" "tip_ok orig (t\<lparr>arrow_shown := b\<rparr>) = tip_ok orig t"
  "tip_ok orig (t\<lparr>tip_bg := s\<rparr>) = tip_ok orig t" "tip_ok orig (t\<lparr>arrow_bg := s\<rparr>) = tip_ok orig t"
  "tip_ok orig (t\<lparr>framed := b\<rparr>) = tip_ok orig t" "tip_ok orig (t\<lparr>opacity_saved := b\<rparr>) = tip_ok orig t"
  "tip_ok orig (t\<lparr>asyncAnimating := b\<rparr>) = tip_ok orig t"
  by (simp_all add: tip_ok_def)

lemma ok_attached: "tip_ok orig t \<Longrightarrow> tip_ok orig (t\<lparr>attached := True\<rparr>)"
  by (auto simp: tip_ok_def screen_ok_def)

lemma ok_title_empty: "tip_ok orig t \<Longrightarrow> tip_ok orig (t\<lparr>title_attr := Some []\<rparr>)"
  by (simp add: tip_ok_def title_ok_def)

lemma ok_restore: "tip_ok orig t \<Longrightarrow> alive t \<Longrightarrow> tip_ok orig (restore_title t)"
  by (auto simp: tip_ok_def title_ok_def restore_title_def split: saved.splits option.splits)

lemma ok_background: "tip_ok orig (fst (fix_background B t)) = tip_ok orig t"
  by (simp add: fix_background_def Let_def split: option.splits)

lemma background_sel [simp]:
  "active (fst (fix_background B t)) = active t" "alive (fst (fix_background B t)) = alive t"
  "disabled (fst (fix_background B t)) = disabled t" "attached (fst (fix_background B t)) = attached t"
  "visible (fst (fix_background B t)) = visible t" "shown (fst (fix_background B t)) = shown t"
  by (simp_all add: fix_background_def Let_def split: option.splits)

lemma ok_refresh:
  assumes "tip_ok orig t"
  shows "tip_ok orig (refresh B async t)"
proof (cases "disabled t \<or> async \<and> \<not> active t")
  case False
  let ?t1 = "t\<lparr>css_l := Some 0, css_t := Some 0, attached := True, opacity_saved := True\<rparr>"
  obtain t2 arrow where t2: "fix_background B ?t1 = (t2, arrow)" by (cases "fix_background B ?t1")
  have "tip_ok orig t2"
    using ok_background [of orig B ?t1] ok_attached [OF assms] t2 by (simp add: tip_ok_def)
  then show ?thesis unfolding refresh_def if_not_P [OF False]
    by (simp add: t2 Let_def ok_enqueue)
qed (use assms in \<open>simp add: refresh_def\<close>)

lemma ok_update: "update B c b t = Inr t' \<Longrightarrow> tip_ok orig t \<Longrightarrow> tip_ok orig t'"
  by (auto simp: update_def set_content_def Let_def split: if_splits option.splits intro!: ok_refresh)

text \<open>\<open>display\<close> switches the tip on when it has just been refreshed, or off for a reset.\<close>

lemma dequeue_sel [simp]:
  "disabled (dequeue t) = disabled t" "alive (dequeue t) = alive t" "saved_title (dequeue t) = saved_title t"
  "opts (dequeue t) = opts t"
  by (simp_all add: dequeue_def run_entry_def Let_def split: list.splits)

lemma enqueue_sel [simp]:
  "disabled (enqueue e t) = disabled t" "alive (enqueue e t) = alive t"
  "saved_title (enqueue e t) = saved_title t" "opts (enqueue e t) = opts t"
  by (simp_all add: enqueue_def Let_def)

lemma stop_sel [simp]:
  "disabled (stop_fx t) = disabled t" "alive (stop_fx t) = alive t"
  "saved_title (stop_fx t) = saved_title t" "opts (stop_fx t) = opts t"
  by (simp_all add: stop_fx_def)

lemma ok_animation: "tip_ok orig t \<Longrightarrow> tip_ok orig (if c then enqueue (Animate ends) t else t)"
  by (simp add: ok_enqueue)

lemma ok_show_display:
  assumes "tip_ok orig t" "alive t" "\<not> disabled t" "\<not> active t" "attached t" "fx_queue t = []"
  shows "tip_ok orig (display False t)"
proof -
  have s: "stop_fx t = t\<lparr>fx_running := None, fx_queue := []\<rparr>"
    using assms(6) by (simp add: stop_fx_def dequeue_def)
  have "tip_ok orig ((if c then enqueue (Animate e) (stop_fx t) else stop_fx t)\<lparr>visible := True, active := True\<rparr>)" for c e
    using assms by (auto simp: s enqueue_def dequeue_def run_entry_def Let_def tip_ok_def screen_ok_def)
  then show ?thesis using assms(4) unfolding display_def Let_def by (simp add: s)
qed

lemma reset_in_queue:
  assumes "tip_ok orig t"
  shows "DoReset \<in> set (fx_queue (enqueue DoReset t)) \<or> \<not> visible (enqueue DoReset t)"
proof -
  have "queue_ok (fx_queue t) (fx_running t)" using assms by (simp add: tip_ok_def)
  then show ?thesis by (cases rule: enqueue_cases [where e = DoReset]) auto
qed

lemma ok_hide_display:
  assumes "tip_ok orig t" "alive t"
  shows "tip_ok orig (display True t)"
proof (cases "active t")
  case True
  obtain c e where d: "display True t = (restore_title (enqueue DoReset
      (if c then enqueue (Animate e) (stop_fx t) else stop_fx t)))\<lparr>active := False\<rparr>"
    using True unfolding display_def Let_def by simp
  let ?a = "if c then enqueue (Animate e) (stop_fx t) else stop_fx t"
  let ?r = "restore_title (enqueue DoReset ?a)"
  have a: "tip_ok orig ?a" by (intro ok_animation ok_stop assms(1))
  have "tip_ok orig ?r" by (rule ok_restore) (use ok_enqueue [OF a] assms(2) in simp_all)
  moreover have "fx_queue ?r = fx_queue (enqueue DoReset ?a)" "visible ?r = visible (enqueue DoReset ?a)"
    by (simp_all add: restore_title_def split: saved.splits option.splits)
  ultimately show ?thesis using reset_in_queue [OF a] unfolding d
    by (auto simp: tip_ok_def screen_ok_def)
qed (use assms in \<open>simp add: display_def\<close>)

lemma refresh_sync:
  assumes "\<not> disabled t" "fx_queue t = []"
  shows "attached (refresh B False t) \<and> fx_queue (refresh B False t) = [] \<and>
    active (refresh B False t) = active t \<and> alive (refresh B False t) = alive t \<and>
    \<not> disabled (refresh B False t) \<and> visible (refresh B False t) = visible t"
proof -
  let ?t1 = "t\<lparr>css_l := Some 0, css_t := Some 0, attached := True, opacity_saved := True\<rparr>"
  obtain t2 arrow where t2: "fix_background B ?t1 = (t2, arrow)" by (cases "fix_background B ?t1")
  have "fx_queue (fst (fix_background B ?t1)) = fx_queue ?t1"
    by (simp add: fix_background_def Let_def split: option.splits)
  with assms background_sel [of B ?t1] show ?thesis by (simp add: refresh_def t2 Let_def)
qed

lemma ok_show: "show_tip B t = Inr t' \<Longrightarrow> tip_ok orig t \<Longrightarrow> tip_ok orig t'"
proof -
  assume s: "show_tip B t = Inr t'" and ok: "tip_ok orig t"
  show "tip_ok orig t'"
  proof (cases "disabled t \<or> active t")
    case True
    with s ok show ?thesis by (auto simp: show_tip_def split: if_splits)
  next
    case False
    with s have al: "alive t" by (auto simp: show_tip_def split: if_splits)
    define u where "u = set_content B False (o_content (opts t)) (reset t)"
    have up: "update B None False (reset t) = Inr u" using False al by (simp add: update_def u_def)
    from ok_update [OF up ok_reset [OF ok]] have u: "tip_ok orig u" .
    have "attached u \<and> fx_queue u = [] \<and> \<not> active u \<and> alive u \<and> \<not> disabled u"
      unfolding u_def set_content_def
      using refresh_sync [of "reset t\<lparr>shown := new_content B (o_content (opts t)) (reset t)\<rparr>" B] False al
      by simp
    then have "tip_ok orig (display False u)" using u by (intro ok_show_display) auto
    with s up u False al show ?thesis
      by (auto simp: show_tip_def Let_def intro: ok_hideDelayed split: if_splits)
  qed
qed

lemma ok_hide: "hide_tip t = Inr t' \<Longrightarrow> tip_ok orig t \<Longrightarrow> tip_ok orig t'"
  by (auto simp: hide_tip_def intro: ok_hide_display split: if_splits)

lemma ok_disable: "tip_ok orig t \<Longrightarrow> tip_ok orig (disable t)"
  by (simp add: disable_def tip_ok_def screen_ok_def)

lemma ok_enable: "tip_ok orig t \<Longrightarrow> tip_ok orig (enable t)"
  by (auto simp: enable_def tip_ok_def screen_ok_def)

lemma ok_destroy: "tip_ok orig t \<Longrightarrow> tip_ok orig (destroy t)"
  by (simp add: destroy_def tip_ok_def screen_ok_def title_ok_def)

lemma ok_mouseenter: "tip_ok orig t \<Longrightarrow> tip_ok orig (mouseenter t)"
  by (simp add: mouseenter_def Let_def ok_title_empty ok_showDelayed)

lemma ok_mouseleave: "tip_ok orig t \<Longrightarrow> alive t \<Longrightarrow> tip_ok orig (mouseleave b t)"
  by (simp add: mouseleave_def Let_def ok_restore ok_hideDelayed)

lemma ok_mousemove: "tip_ok orig t \<Longrightarrow> tip_ok orig (mousemove B x y t)"
  by (simp add: mousemove_def Let_def)

lemmas ok_handlers = ok_mouseenter ok_mouseleave ok_mousemove ok_clear ok_showDelayed ok_hideDelayed
  ok_anim_done ok_refresh ok_disable ok_enable ok_destroy

lemma handle_ok: "handle B ev t = Inr t' \<Longrightarrow> tip_ok orig t \<Longrightarrow> tip_ok orig t'"
  by (cases ev)
    (auto simp: handle_def Let_def ok_handlers split: if_splits option.splits timer_kind.splits
      intro: ok_show [OF _ ok_cancel] ok_hide [OF _ ok_cancel] ok_show ok_hide ok_update)

text \<open>
  C4: in every state a page can bring a tooltip into, whatever the order of mouse, focus, timer,
  animation and method calls: at most one timer is pending and the object holds its identifier;
  an active tip is attached, visible and enabled; a tip that is visible but no longer active has
  its reset queued behind a running animation; and until it is destroyed the tip keeps the
  original title of the element, whose attribute is that title or empty.
\<close>

theorem tip_invariant:
  assumes "(tip_step B)\<^sup>*\<^sup>* (new_tip os title bg abg) t"
  shows "length (timers t) \<le> 1 \<and>
    (\<forall>(i, k, ms) \<in> set (timers t). if k = ShowTimer then showTimeout t = i else hideTimeout t = i) \<and>
    (active t \<longrightarrow> attached t \<and> visible t \<and> \<not> disabled t) \<and>
    (visible t \<and> \<not> active t \<longrightarrow> DoReset \<in> set (fx_queue t) \<and> fx_running t \<noteq> None) \<and>
    (alive t \<longrightarrow> saved_title t = Saved title) \<and> (title_attr t = title \<or> title_attr t = Some [])"
proof -
  from assms have "tip_ok title t"
    by (induction rule: rtranclp_induct) (auto simp: ok_new intro: handle_ok elim!: tip_stepE)
  then show ?thesis
    unfolding tip_ok_def timers_ok_def queue_ok_def screen_ok_def title_ok_def by auto
qed

definition plain_options :: "nat tip_options" where
  "plain_options = \<lparr>o_content = OTitle, o_showTimeout = 500, o_hideTimeout = 100, o_timeOnScreen = 0,
     o_showOn = OnHover, o_place = at_cursor, o_followCursor = False, o_allowTipHover = True,
     o_fade = True, o_slide = True, o_slideOffset = 8, o_showAniDuration = 300,
     o_hideAniDuration = 300, o_refreshAniDuration = 200\<rparr>"

definition plain_browser :: "nat browser" where
  "plain_browser = \<lparr>run_content = (\<lambda>_. VUndef), layout = (\<lambda>_. (200, 60)), window_box = g_win corner,
     element_box = g_elm corner, ie6 = False, supports_opacity = True\<rparr>"

definition start_tip :: "nat tip" where
  "start_tip = new_tip plain_options (Some ''hello'') ''none'' ''none''"

definition entered :: "nat tip" where
  "entered = mouseenter start_tip"

lemma entered_step: "tip_step plain_browser start_tip entered"
  by (rule step [of _ Enter]) (simp add: handle_def entered_def start_tip_def new_tip_def plain_options_def)

theorem tip_invariant_witness:
  "length (timers entered) = 1 \<and> saved_title entered = Saved (Some ''hello'') \<and>
   (title_attr entered = Some ''hello'' \<or> title_attr entered = Some [])"
proof -
  have "(tip_step plain_browser)\<^sup>*\<^sup>* (new_tip plain_options (Some ''hello'') ''none'' ''none'') entered"
    using entered_step by (simp add: start_tip_def r_into_rtranclp)
  note tip_invariant [OF this]
  moreover have "length (timers entered) = 1" "alive entered"
    by (simp_all add: entered_def start_tip_def mouseenter_def new_tip_def plain_options_def
        showDelayed_def clearTimeouts_def set_timer_def)
  ultimately show ?thesis by blast
qed

section \<open>Liveness: a tip on its way out goes away\<close>

lemma anim_done_pops:
  assumes "queue_ok (fx_queue t) (fx_running t)" "visible t" "DoReset \<in> set (fx_queue t)"
  shows "\<not> visible (anim_done t) \<or>
    queue_ok (fx_queue (anim_done t)) (fx_running (anim_done t)) \<and> DoReset \<in> set (fx_queue (anim_done t)) \<and>
    length (fx_queue (anim_done t)) < length (fx_queue t)"
proof -
  from assms(1,3) obtain e rest where q: "fx_queue t = InProgress # rest" "InProgress \<notin> set rest"
    "fx_running t = Some e" by (cases rule: queue_ok_cases) auto
  let ?u = "case e of
            MoveTo l u \<Rightarrow> t\<lparr>fx_running := None, css_l := l, css_t := u, asyncAnimating := False\<rparr>
          | _ \<Rightarrow> t\<lparr>fx_running := None\<rparr>"
  have u: "fx_queue ?u = fx_queue t" "anim_done t = dequeue ?u" by (simp_all add: anim_done_def q split: fx_entry.splits)
  then have "queue_ok (fx_queue ?u) (Some e)" using assms(1) q by simp
  then show ?thesis
  proof (cases rule: dequeue_cases)
    case empty
    then show ?thesis using assms(3) u by auto
  next
    case (runs_reset rest)
    then show ?thesis using u by simp
  next
    case (runs e' rest')
    then show ?thesis using u assms(3) by simp
  qed
qed

text \<open>
  C5: a tip that is being hidden does disappear: after at most as many completed animations as
  its queue has entries it is no longer visible, whatever was queued in front of the reset.
\<close>

theorem hidden_tip_goes_away:
  assumes "tip_ok orig t" and "visible t" and "\<not> active t"
  shows "\<exists>n \<le> length (fx_queue t). \<not> visible ((anim_done ^^ n) t)"
proof -
  have "queue_ok (fx_queue t) (fx_running t)" "DoReset \<in> set (fx_queue t)"
    using assms by (auto simp: tip_ok_def screen_ok_def)
  with assms(2) show ?thesis
  proof (induction "length (fx_queue t)" arbitrary: t rule: less_induct)
    case less
    from anim_done_pops [OF less.prems(2,1,3)] show ?case
    proof
      assume "\<not> visible (anim_done t)"
      moreover have "fx_queue t \<noteq> []" using less.prems(3) by auto
      ultimately show ?thesis by (intro exI [of _ 1]) (simp add: Suc_le_eq)
    next
      assume a: "queue_ok (fx_queue (anim_done t)) (fx_running (anim_done t)) \<and>
        DoReset \<in> set (fx_queue (anim_done t)) \<and> length (fx_queue (anim_done t)) < length (fx_queue t)"
      show ?thesis
      proof (cases "visible (anim_done t)")
        case True
        with a less.hyps obtain n where "n \<le> length (fx_queue (anim_done t))"
          "\<not> visible ((anim_done ^^ n) (anim_done t))" by blast
        with a show ?thesis by (intro exI [of _ "Suc n"]) (simp add: funpow_swap1)
      next
        case False
        moreover have "fx_queue t \<noteq> []" using less.prems(3) by auto
        ultimately show ?thesis by (intro exI [of _ 1]) (simp add: Suc_le_eq)
      qed
    qed
  qed
qed

definition leaving :: "nat tip" where
  "leaving = start_tip\<lparr>visible := True, fx_queue := [InProgress, DoReset], fx_running := Some (Animate None)\<rparr>"

theorem hidden_tip_goes_away_witness: "\<exists>n \<le> 2. \<not> visible ((anim_done ^^ n) leaving)"
proof -
  have "tip_ok (Some ''hello'') leaving" "visible leaving" "\<not> active leaving"
    by (simp_all add: leaving_def start_tip_def new_tip_def tip_ok_def screen_ok_def title_ok_def)
  from hidden_tip_goes_away [OF this] obtain n
    where "n \<le> length (fx_queue leaving)" "\<not> visible ((anim_done ^^ n) leaving)" by blast
  moreover have "length (fx_queue leaving) = 2" by (simp add: leaving_def)
  ultimately show ?thesis by auto
qed

section \<open>Destroying a tip\<close>

text \<open>
  \<open>destroy\<close> leaves the timers running: when a tip is destroyed while it waits to be shown or
  hidden, the timer still calls the object, whose tip element is deleted by then, and throws.
\<close>

theorem destroy_leaves_timer:
  assumes "alive t" and "\<not> disabled t" and "timers t = [(i, k, ms)]"
  shows "\<exists>t'. handle B CallDestroy t = Inr t' \<and> handle B (Timer i) t' = Inl TypeError"
proof -
  have "handle B CallDestroy t = Inr (destroy t)" using assms(1) by (simp add: handle_def)
  moreover have "handle B (Timer i) (destroy t) = Inl TypeError"
    using assms by (simp add: handle_def destroy_def reset_def cancel_timer_def show_tip_def hide_tip_def
        Let_def split: timer_kind.splits)
  ultimately show ?thesis by blast
qed

theorem destroy_leaves_timer_witness:
  "\<exists>t'. handle plain_browser CallDestroy entered = Inr t' \<and>
     handle plain_browser (Timer 1) t' = Inl TypeError"
  by (rule destroy_leaves_timer [of _ _ ShowTimer 500])
    (simp_all add: entered_def start_tip_def mouseenter_def new_tip_def plain_options_def showDelayed_def
      clearTimeouts_def set_timer_def)

text \<open>
  \<open>destroy\<close> forgets the title: the attribute that \<open>mouseenter\<close> has emptied stays as it is,
  and the saved title is removed, so an element whose tip is destroyed under the pointer has lost
  its title for good.
\<close>

theorem destroy_loses_title:
  assumes "alive t" and "title_attr t = Some []"
  shows "\<exists>t'. handle B CallDestroy t = Inr t' \<and> title_attr t' = Some [] \<and> saved_title t' = NotSaved \<and>
    (\<forall>ev t''. handle B ev t' = Inr t'' \<longrightarrow> title_attr t'' = Some [] \<and> saved_title t'' = NotSaved)"
proof -
  let ?lost = "\<lambda>t. \<not> alive t \<and> title_attr t = Some [] \<and> saved_title t = NotSaved"
  have d: "?lost (destroy t)" using assms(2) by (simp add: destroy_def)
  have c: "?lost (cancel_timer i (destroy t))" for i using d by (simp add: cancel_timer_def)
  have "title_attr (dequeue u) = title_attr u" for u :: "'a tip"
    by (simp add: dequeue_def run_entry_def Let_def split: list.splits)
  then have a: "?lost (anim_done (destroy t))"
    using d by (simp add: anim_done_def split: option.splits fx_entry.splits)
  have "?lost t''" if "handle B ev (destroy t) = Inr t''" for ev t''
    using that d c a
    by (cases ev) (auto simp: handle_def Let_def show_tip_def hide_tip_def update_def
        split: if_splits option.splits timer_kind.splits)
  moreover have "handle B CallDestroy t = Inr (destroy t)" using assms(1) by (simp add: handle_def)
  ultimately show ?thesis using d by auto
qed

theorem destroy_loses_title_witness:
  "\<exists>t'. handle plain_browser CallDestroy entered = Inr t' \<and> saved_title entered = Saved (Some ''hello'') \<and>
     title_attr t' = Some [] \<and> saved_title t' = NotSaved"
proof -
  have "alive entered" "title_attr entered = Some []" "saved_title entered = Saved (Some ''hello'')"
    by (simp_all add: entered_def start_tip_def mouseenter_def new_tip_def plain_options_def
        showDelayed_def clearTimeouts_def set_timer_def)
  with destroy_loses_title [OF this(1,2), of plain_browser] show ?thesis by auto
qed

end
