(* ===== verification/Poshytip_Plugin.thy ===== *)
theory Poshytip_Plugin
  imports Poshytip
begin

text \<open>
  \<open>jquery.poshytip.js\<close>, lines 9 to 20 and 409 to 503: the jQuery method that creates tooltips
  and calls their methods, the list of all tooltips, the style sheets and the live handlers.

  Objects have identities here: the list \<open>tips\<close> and the data of an element refer to them.
\<close>

section \<open>State\<close>

record 'f tips_page =
  tips :: "(nat \<times> nat \<times> 'f tip) list"
  tip_of :: "nat \<rightharpoonup> nat"
  next_object :: nat
  styles :: "string list"
  live_handlers :: "(show_on \<times> 'f tip_options) list"

text \<open>An entry of \<open>tips\<close> is an object: its identity, its element and its state.\<close>

record 'f plugin_options =
  tip_opts :: "'f tip_options"
  className :: string
  liveEvents :: bool

text \<open>What an element is like when its tooltip is created.\<close>

record element_info =
  title_of :: "nat \<Rightarrow> string option"
  tip_background :: string
  arrow_background :: string

definition tips_new :: "'f tips_page" where
  "tips_new = \<lparr>tips = [], tip_of = Map.empty, next_object = 0, styles = [], live_handlers = []\<rparr>"

definition get_object :: "'f tips_page \<Rightarrow> nat \<Rightarrow> 'f tip option" where
  "get_object p oid = map_option snd (map_of (tips p) oid)"

definition put_object :: "nat \<Rightarrow> 'f tip \<Rightarrow> 'f tips_page \<Rightarrow> 'f tips_page" where
  "put_object oid t p = p\<lparr>tips := map (\<lambda>(i, e, u). (i, e, if i = oid then t else u)) (tips p)\<rparr>"

section \<open>Operations\<close>

text \<open>\<open>new $.Poshytip(elm, options)\<close>, with \<open>init\<close>.\<close>

definition create_tip :: "element_info \<Rightarrow> 'f tip_options \<Rightarrow> nat \<Rightarrow> 'f tips_page \<Rightarrow> 'f tips_page" where
  "create_tip D os e p =
     (let t = new_tip os (title_of D e) (tip_background D) (arrow_background D)
      in p\<lparr>tips := tips p @ [(next_object p, e, t)], tip_of := (tip_of p)(e \<mapsto> next_object p),
           next_object := Suc (next_object p)\<rparr>)"

text \<open>The last two statements of \<open>destroy\<close>: the data of the element and the entry of \<open>tips\<close> go.\<close>

definition forget_tip :: "nat \<Rightarrow> nat \<Rightarrow> 'f tips_page \<Rightarrow> 'f tips_page" where
  "forget_tip oid e p = p\<lparr>tips := filter (\<lambda>(i, _). i \<noteq> oid) (tips p), tip_of := (tip_of p)(e := None)\<rparr>"

text \<open>\<open>poshytip[method].apply(poshytip, args)\<close> for every element that has a tooltip.\<close>

fun call_each :: "'f browser \<Rightarrow> 'f tip_event \<Rightarrow> nat list \<Rightarrow> 'f tips_page \<Rightarrow> 'f tips_page \<times> js_error option" where
  "call_each B m [] p = (p, None)"
| "call_each B m (e # es) p =
     (case tip_of p e of
        None \<Rightarrow> call_each B m es p
      | Some oid \<Rightarrow>
          (case get_object p oid of
             None \<Rightarrow> call_each B m es p
           | Some t \<Rightarrow>
               (case handle B m t of
                  Inl err \<Rightarrow> (p, Some err)
                | Inr t' \<Rightarrow>
                    call_each B m es
                      (if m = CallDestroy then forget_tip oid e p else put_object oid t' p))))"

text \<open>\<open>handleWindowResize\<close>\<close>

definition resize_all :: "'f browser \<Rightarrow> 'f tips_page \<Rightarrow> 'f tips_page" where
  "resize_all B p = p\<lparr>tips := map (\<lambda>(i, e, t). (i, e, refresh B True t)) (tips p)\<rparr>"

definition add_style :: "string \<Rightarrow> 'f tips_page \<Rightarrow> 'f tips_page" where
  "add_style c p = (if c \<in> set (styles p) then p else p\<lparr>styles := styles p @ [c]\<rparr>)"

text \<open>\<open>$.fn.poshytip\<close> with options: live handlers for the set, or a tooltip for each element.\<close>

definition fn_poshytip :: "element_info \<Rightarrow> 'f plugin_options \<Rightarrow> nat list \<Rightarrow> 'f tips_page \<Rightarrow> 'f tips_page" where
  "fn_poshytip D os es p =
     (let p1 = add_style (className os) p; on = o_showOn (tip_opts os) in
      if liveEvents os \<and> on \<noteq> OnNone then p1\<lparr>live_handlers := live_handlers p1 @ [(on, tip_opts os)]\<rparr>
      else fold (create_tip D (tip_opts os)) es p1)"

text \<open>
  A live handler: the first event on an element without a tooltip creates one and hands it the
  event. \<open>showDelayed\<close> is called by its method.
\<close>

definition live_event ::
  "'f browser \<Rightarrow> element_info \<Rightarrow> show_on \<times> 'f tip_options \<Rightarrow> nat \<Rightarrow> 'f tips_page \<Rightarrow> 'f tips_page \<times> js_error option" where
  "live_event B D h e p =
     (if tip_of p e \<noteq> None then (p, None)
      else call_each B (if fst h = OnHover then Enter else CallShowDelayed None) [e]
        (create_tip D (snd h) e p))"

text \<open>\<open>$(...).poshytip('destroy')\<close> unhooks the live handlers of the set as well.\<close>

definition destroy_all ::
  "'f browser \<Rightarrow> (show_on \<times> 'f tip_options \<Rightarrow> bool) \<Rightarrow> nat list \<Rightarrow> 'f tips_page \<Rightarrow> 'f tips_page \<times> js_error option" where
  "destroy_all B same_selector es p =
     call_each B CallDestroy es (p\<lparr>live_handlers := filter (\<lambda>h. \<not> same_selector h) (live_handlers p)\<rparr>)"

section \<open>Well-formed pages\<close>

definition page_ok :: "'f tips_page \<Rightarrow> bool" where
  "page_ok p \<longleftrightarrow> distinct (map fst (tips p)) \<and> (\<forall>(i, e, t) \<in> set (tips p). i < next_object p \<and> alive t) \<and>
     (\<forall>e i. tip_of p e = Some i \<longrightarrow> (\<exists>t. (i, e, t) \<in> set (tips p))) \<and> distinct (styles p)"

definition plugin_method :: "'f tip_event \<Rightarrow> bool" where
  "plugin_method m = (case m of Enter \<Rightarrow> True | CallShow \<Rightarrow> True | CallHide \<Rightarrow> True | CallShowDelayed b \<Rightarrow> True
     | CallHideDelayed b \<Rightarrow> True | CallUpdate c b \<Rightarrow> True | CallDisable \<Rightarrow> True | CallEnable \<Rightarrow> True
     | CallDestroy \<Rightarrow> True | _ \<Rightarrow> False)"

inductive tips_step :: "'f browser \<Rightarrow> element_info \<Rightarrow> 'f tips_page \<Rightarrow> 'f tips_page \<Rightarrow> bool" for B D where
  creates: "tips_step B D p (fn_poshytip D os es p)"
| calls: "plugin_method m \<Longrightarrow> tips_step B D p (fst (call_each B m es p))"
| destroys: "tips_step B D p (fst (destroy_all B sel es p))"
| live: "h \<in> set (live_handlers p) \<Longrightarrow> tips_step B D p (fst (live_event B D h e p))"
| events: "get_object p oid = Some t \<Longrightarrow> handle B ev t = Inr t' \<Longrightarrow> ev \<noteq> CallDestroy \<Longrightarrow>
    tips_step B D p (put_object oid t' p)"
| resizes: "tips_step B D p (resize_all B p)"

lemma ok_create: "page_ok p \<Longrightarrow> page_ok (create_tip D os e p)"
  unfolding page_ok_def create_tip_def Let_def
  by (auto simp: new_tip_def less_Suc_eq split: if_splits)

lemma page_okD:
  assumes "page_ok p"
  shows "distinct (map fst (tips p))" "distinct (styles p)"
    "(i, e, t) \<in> set (tips p) \<Longrightarrow> i < next_object p \<and> alive t"
    "tip_of p e = Some i \<Longrightarrow> \<exists>t. (i, e, t) \<in> set (tips p)"
  using assms unfolding page_ok_def by auto

lemma ok_forget:
  assumes "page_ok p" "tip_of p e = Some oid"
  shows "page_ok (forget_tip oid e p)"
proof -
  have same: "e' = e" if e': "tip_of p e' = Some oid" for e'
  proof -
    obtain t t' where "(oid, e, t) \<in> set (tips p)" "(oid, e', t') \<in> set (tips p)"
      using page_okD(4) [OF assms(1) assms(2)] page_okD(4) [OF assms(1) e'] by blast
    then have "(e, t) = (e', t')" by (rule eq_key_imp_eq_value [OF page_okD(1) [OF assms(1)]])
    then show ?thesis by simp
  qed
  have "\<exists>t. (i, e', t) \<in> set (tips (forget_tip oid e p))" if "tip_of (forget_tip oid e p) e' = Some i" for e' i
  proof -
    from that have i: "e' \<noteq> e" "tip_of p e' = Some i" by (auto simp: forget_tip_def split: if_splits)
    then have "i \<noteq> oid" using same by blast
    with page_okD(4) [OF assms(1) i(2)] show ?thesis by (auto simp: forget_tip_def)
  qed
  moreover have "distinct (map fst (tips (forget_tip oid e p)))"
    using page_okD(1) [OF assms(1)] by (simp add: forget_tip_def distinct_map_filter)
  moreover have "\<forall>(i, e', t) \<in> set (tips (forget_tip oid e p)). i < next_object (forget_tip oid e p) \<and> alive t"
    using page_okD(3) [OF assms(1)] by (auto simp: forget_tip_def)
  moreover have "distinct (styles (forget_tip oid e p))"
    using page_okD(2) [OF assms(1)] by (simp add: forget_tip_def)
  ultimately show ?thesis unfolding page_ok_def by blast
qed

text \<open>Replacing states of objects keeps a page well-formed as long as they stay alive.\<close>

lemma ok_map:
  assumes "page_ok p" and "\<And>i e t. (i, e, t) \<in> set (tips p) \<Longrightarrow> alive (g i t)"
  shows "page_ok (p\<lparr>tips := map (\<lambda>(i, e, t). (i, e, g i t)) (tips p)\<rparr>)"
proof -
  let ?q = "p\<lparr>tips := map (\<lambda>(i, e, t). (i, e, g i t)) (tips p)\<rparr>"
  have "map fst (tips ?q) = map fst (tips p)" by (simp add: comp_def case_prod_beta)
  then have "distinct (map fst (tips ?q))" using page_okD(1) [OF assms(1)] by (simp only:)
  moreover have "\<forall>(i, e', t) \<in> set (tips ?q). i < next_object ?q \<and> alive t"
    using page_okD(3) [OF assms(1)] assms(2) by auto
  moreover have "\<exists>t. (i, e, t) \<in> set (tips ?q)" if "tip_of ?q e = Some i" for e i
    using page_okD(4) [OF assms(1), of e i] that by force
  moreover have "distinct (styles ?q)" using page_okD(2) [OF assms(1)] by simp
  ultimately show ?thesis unfolding page_ok_def by blast
qed

lemma ok_put: "page_ok p \<Longrightarrow> alive t \<Longrightarrow> page_ok (put_object oid t p)"
  unfolding put_object_def by (rule ok_map) (auto dest: page_okD(3))

lemma get_alive: "page_ok p \<Longrightarrow> get_object p oid = Some t \<Longrightarrow> alive t"
  unfolding get_object_def by (auto dest!: map_of_SomeD dest: page_okD(3))

text \<open>Only \<open>destroy\<close> deletes the tip element.\<close>

lemma alive_cancel [simp]: "alive (cancel_timer i t) = alive t"
  by (simp add: cancel_timer_def)

lemma alive_delayed [simp]: "alive (showDelayed ms t) = alive t" "alive (hideDelayed ms t) = alive t"
  by (simp_all add: showDelayed_def hideDelayed_def set_timer_def Let_def)

lemma alive_anim_done [simp]: "alive (anim_done t) = alive t"
  by (simp add: anim_done_def split: option.splits fx_entry.splits)

lemma alive_refresh [simp]: "alive (refresh B a t) = alive t"
proof (cases "disabled t \<or> a \<and> \<not> active t")
  case False
  let ?t1 = "t\<lparr>css_l := Some 0, css_t := Some 0, attached := True, opacity_saved := True\<rparr>"
  obtain t2 arrow where t2: "fix_background B ?t1 = (t2, arrow)" by (cases "fix_background B ?t1")
  with background_sel(2) [of B ?t1] have "alive t2 = alive t" by simp
  then show ?thesis unfolding refresh_def if_not_P [OF False] by (simp add: t2 Let_def)
qed (simp add: refresh_def)

lemma alive_restore [simp]: "alive (restore_title t) = alive t"
  by (simp add: restore_title_def split: saved.splits option.splits)

lemma alive_display [simp]: "alive (display h t) = alive t"
  by (simp add: display_def Let_def)

lemma alive_update: "update B c b t = Inr t' \<Longrightarrow> alive t' = alive t"
  by (auto simp: update_def set_content_def Let_def split: if_splits option.splits)

lemma alive_show: "show_tip B t = Inr t' \<Longrightarrow> alive t' = alive t"
  by (auto simp: show_tip_def Let_def bindE_def dest!: alive_update split: if_splits sum.splits)

lemma alive_hide: "hide_tip t = Inr t' \<Longrightarrow> alive t' = alive t"
  by (auto simp: hide_tip_def split: if_splits)

lemma alive_handle:
  assumes "handle B ev t = Inr t'" "ev \<noteq> CallDestroy"
  shows "alive t' = alive t"
  using assms
  by (cases ev)
    (auto simp: handle_def Let_def mouseenter_def mouseleave_def mousemove_def disable_def enable_def
       dest!: alive_show alive_hide alive_update split: if_splits option.splits timer_kind.splits)

lemma ok_call_each:
  assumes "page_ok p"
  shows "page_ok (fst (call_each B m es p))"
  using assms
proof (induction es arbitrary: p)
  case (Cons e es)
  show ?case
  proof (cases "tip_of p e")
    case (Some oid)
    show ?thesis
    proof (cases "get_object p oid")
      case o: (Some t)
      show ?thesis
      proof (cases "handle B m t")
        case (Inr t')
        let ?p = "if m = CallDestroy then forget_tip oid e p else put_object oid t' p"
        have "m \<noteq> CallDestroy \<Longrightarrow> alive t'"
          using alive_handle [OF Inr] get_alive [OF Cons.prems o] by simp
        then have "page_ok ?p" using ok_forget [OF Cons.prems Some] ok_put [OF Cons.prems] by simp
        then show ?thesis using Cons.IH [of ?p] by (simp add: Some o Inr)
      qed (use Cons.prems in \<open>simp add: Some o\<close>)
    qed (use Cons in \<open>simp add: Some\<close>)
  qed (use Cons in simp)
qed simp

lemma ok_style: "page_ok p \<Longrightarrow> page_ok (add_style c p)"
  by (auto simp: page_ok_def add_style_def)

lemma ok_live_handlers: "page_ok (p\<lparr>live_handlers := hs\<rparr>) = page_ok p"
  by (simp add: page_ok_def)

lemma ok_fold_create: "page_ok p \<Longrightarrow> page_ok (fold (create_tip D os) es p)"
  by (induction es arbitrary: p) (auto intro: ok_create)

lemma ok_fn_poshytip: "page_ok p \<Longrightarrow> page_ok (fn_poshytip D os es p)"
  by (simp add: fn_poshytip_def Let_def ok_live_handlers ok_style ok_fold_create)

lemma ok_step:
  assumes "tips_step B D p p'" "page_ok p"
  shows "page_ok p'"
  using assms
proof cases
  case (events oid t ev t')
  with alive_handle [OF events(3,4)] get_alive [OF assms(2) events(2)] assms(2)
  show ?thesis by (simp add: ok_put)
next
  case resizes
  then show ?thesis unfolding resizes resize_all_def
    by (intro ok_map assms(2)) (auto dest: page_okD(3) [OF assms(2)])
qed (use assms(2) in \<open>auto simp: destroy_all_def live_event_def ok_live_handlers simp del: call_each.simps
  intro!: ok_call_each ok_create ok_fn_poshytip\<close>)


definition blank_page :: element_info where
  "blank_page = \<lparr>title_of = (\<lambda>_. None), tip_background = [], arrow_background = []\<rparr>"

definition two_tips :: "nat tips_page" where
  "two_tips = fn_poshytip blank_page \<lparr>tip_opts = plain_options, className = ''tip'', liveEvents = False\<rparr>
     [7, 9] tips_new"


end
