(* ===== verification/JQ_Callbacks.thy ===== *)
theory JQ_Callbacks
  imports JS_Prelude
begin

text \<open>
  \<open>jquery-1.7.2.js\<close>, lines 986 to 1210: \<open>jQuery.Callbacks\<close>, the lists of callbacks that
  \<open>Deferred\<close>, the effects queue, \<open>ajax\<close> and \<open>ready\<close> rest on.

  A callback may call the methods of any list, the one that is calling it included. It is
  therefore a script: it ends with a result or an exception, or performs an operation and
  continues with the world the operation leaves. The loop of \<open>fire\<close>, the scripts it has called and
  the loops these have started form a stack of frames, and one transition runs the top frame.
\<close>

section \<open>A list of callbacks\<close>

record flags =
  once :: bool
  memory :: bool
  unique :: bool
  stopOnFalse :: bool

definition createFlags :: "string \<Rightarrow> flags" where
  "createFlags s =
     (let fs = split_ws s
      in \<lparr>once = ''once'' \<in> set fs, memory = ''memory'' \<in> set fs, unique = ''unique'' \<in> set fs,
          stopOnFalse = ''stopOnFalse'' \<in> set fs\<rparr>)"

text \<open>The variable \<open>memory\<close>: \<open>undefined\<close>, \<open>true\<close>, or the context and arguments of a call.\<close>

datatype 'v memo = MUndef | MTrue | Mem 'v

text \<open>The variables of the closure; \<open>list\<close> and \<open>stack\<close> become \<open>undefined\<close>.\<close>

record ('f, 'v) cbs =
  c_flags :: flags
  c_list :: "'f list option"
  c_stack :: "'v list option"
  c_memory :: "'v memo"
  c_fired :: bool
  c_firing :: bool
  c_start :: nat
  c_length :: int
  c_index :: int

definition new_list :: "flags \<Rightarrow> ('f, 'v) cbs" where
  "new_list fl = \<lparr>c_flags = fl, c_list = Some [], c_stack = Some [], c_memory = MUndef,
     c_fired = False, c_firing = False, c_start = 0, c_length = 0, c_index = 0\<rparr>"

text \<open>An argument of \<open>add\<close>: a function, an array of arguments, or something \<open>add\<close> ignores.\<close>

datatype 'f arg = AFun 'f | AArr "'f arg list" | AOther

fun add_arg :: "flags \<Rightarrow> 'f arg \<Rightarrow> 'f list \<Rightarrow> 'f list"
and add_args :: "flags \<Rightarrow> 'f arg list \<Rightarrow> 'f list \<Rightarrow> 'f list" where
  "add_arg fl (AFun f) xs = (if \<not> unique fl \<or> f \<notin> set xs then xs @ [f] else xs)"
| "add_arg fl (AArr as) xs = add_args fl as xs"
| "add_arg fl AOther xs = xs"
| "add_args fl [] xs = xs"
| "add_args fl (a # as) xs = add_args fl as (add_arg fl a xs)"

text \<open>The inner loop of \<open>remove\<close>, from index \<open>i\<close> on; the pair is \<open>firingLength\<close> and \<open>firingIndex\<close>.\<close>

fun remove_from :: "bool \<Rightarrow> bool \<Rightarrow> 'f \<Rightarrow> nat \<Rightarrow> 'f list \<Rightarrow> int \<times> int \<Rightarrow> 'f list \<times> int \<times> int" where
  "remove_from uniq frg f i [] p = ([], p)"
| "remove_from uniq frg f i (x # xs) (len, idx) =
     (if x = f then
        (let p = (if frg \<and> int i \<le> len then (len - 1, if int i \<le> idx then idx - 1 else idx) else (len, idx))
         in if uniq then (xs, p) else remove_from uniq frg f i xs p)
      else
        (let (ys, p) = remove_from uniq frg f (Suc i) xs (len, idx) in (x # ys, p)))"

definition remove_cb :: "'f \<Rightarrow> ('f, 'v) cbs \<Rightarrow> ('f, 'v) cbs" where
  "remove_cb f c =
     (case c_list c of
        None \<Rightarrow> c
      | Some xs \<Rightarrow>
          (let (ys, len, idx) = remove_from (unique (c_flags c)) (c_firing c) f 0 xs (c_length c, c_index c)
           in c\<lparr>c_list := Some ys, c_length := len, c_index := idx\<rparr>))"

definition has_cb :: "'f \<Rightarrow> ('f, 'v) cbs \<Rightarrow> bool" where
  "has_cb f c = (case c_list c of None \<Rightarrow> False | Some xs \<Rightarrow> f \<in> set xs)"

definition empty_list :: "('f, 'v) cbs \<Rightarrow> ('f, 'v) cbs" where
  "empty_list c = c\<lparr>c_list := Some []\<rparr>"

definition disable :: "('f, 'v) cbs \<Rightarrow> ('f, 'v) cbs" where
  "disable c = c\<lparr>c_list := None, c_stack := None, c_memory := MUndef\<rparr>"

definition is_disabled :: "('f, 'v) cbs \<Rightarrow> bool" where
  "is_disabled c = (c_list c = None)"

definition lock :: "('f, 'v) cbs \<Rightarrow> ('f, 'v) cbs" where
  "lock c =
     (let c1 = c\<lparr>c_stack := None\<rparr>
      in case c_memory c1 of Mem v \<Rightarrow> c1 | _ \<Rightarrow> disable c1)"

definition locked :: "('f, 'v) cbs \<Rightarrow> bool" where
  "locked c = (c_stack c = None)"

section \<open>\<open>fire\<close>\<close>

text \<open>
  The statements of \<open>fire\<close> before its loop, and those after it. Each says whether a loop is to
  run next, with which value: \<open>fireWith\<close> starts one, and the last statements call \<open>fireWith\<close>
  again for a call that came in meanwhile.
\<close>

definition begin_fire :: "'v \<Rightarrow> ('f, 'v) cbs \<Rightarrow> ('f, 'v) cbs" where
  "begin_fire v c =
     c\<lparr>c_memory := (if memory (c_flags c) then Mem v else MTrue), c_fired := True, c_firing := True,
       c_index := int (c_start c), c_start := 0,
       c_length := (case c_list c of Some xs \<Rightarrow> int (length xs) | None \<Rightarrow> 0)\<rparr>"

definition fireWith :: "'v \<Rightarrow> ('f, 'v) cbs \<Rightarrow> ('f, 'v) cbs \<times> 'v option" where
  "fireWith v c =
     (case c_stack c of
        None \<Rightarrow> (c, None)
      | Some vs \<Rightarrow>
          if c_firing c then (if once (c_flags c) then c else c\<lparr>c_stack := Some (vs @ [v])\<rparr>, None)
          else if once (c_flags c) \<and> c_memory c \<noteq> MUndef then (c, None)
          else (begin_fire v c, Some v))"

definition end_fire :: "('f, 'v) cbs \<Rightarrow> ('f, 'v) cbs \<times> 'v option" where
  "end_fire c =
     (let c1 = c\<lparr>c_firing := False\<rparr>
      in if c_list c1 = None then (c1, None)
         else if \<not> once (c_flags c1) then
           (case c_stack c1 of
              Some (v # vs) \<Rightarrow> fireWith v (c1\<lparr>c_stack := Some vs, c_memory := Mem v\<rparr>)
            | _ \<Rightarrow> (c1, None))
         else if c_memory c1 = MTrue then (disable c1, None)
         else (c1\<lparr>c_list := Some []\<rparr>, None))"

definition add :: "'f arg list \<Rightarrow> ('f, 'v) cbs \<Rightarrow> ('f, 'v) cbs \<times> 'v option" where
  "add as c =
     (case c_list c of
        None \<Rightarrow> (c, None)
      | Some xs \<Rightarrow>
          (let ys = add_args (c_flags c) as xs; c1 = c\<lparr>c_list := Some ys\<rparr>
           in if c_firing c then (c1\<lparr>c_length := int (length ys)\<rparr>, None)
              else case c_memory c of
                Mem v \<Rightarrow> (begin_fire v (c1\<lparr>c_start := length xs\<rparr>), Some v)
              | _ \<Rightarrow> (c1, None)))"

section \<open>Worlds, scripts and frames\<close>

text \<open>
  A world has numbered lists, a record of the calls made so far, and whatever else scripts work
  on.
\<close>

record ('f, 'v, 'x) world =
  lists :: "nat \<Rightarrow> ('f, 'v) cbs"
  called :: "(nat \<times> 'f \<times> 'v) list"
  extra :: 'x

text \<open>The operations that call nothing, and all operations.\<close>

datatype ('f, 'x) silent_op =
    Remove nat "'f list"
  | Empty nat
  | Disable nat
  | Lock nat
  | Touch "'x \<Rightarrow> 'x"

datatype ('f, 'v, 'x) op =
    Silent "('f, 'x) silent_op"
  | Add nat "'f arg list"
  | Fire nat 'v

datatype ('f, 'v, 'x, 'r) prog =
    Return 'r
  | Throw js_error
  | Do "('f, 'v, 'x) op" "('f, 'v, 'x) world \<Rightarrow> ('f, 'v, 'x, 'r) prog"

type_synonym ('f, 'v, 'x) script = "('f, 'v, 'x, bool) prog"

text \<open>
  What a callback returns matters in one respect: the flag is off when it is \<open>false\<close>. A function may also be a method
  of a list, or do nothing but such calls; it then returns something else than \<open>false\<close>.
\<close>

datatype ('f, 'v, 'x) behaviour =
    Native "('f, 'x) silent_op list"
  | Page "('f, 'v, 'x) world \<Rightarrow> ('f, 'v, 'x) script"

datatype ('f, 'v, 'x) frame =
    Loop nat 'v
  | Body "('f, 'v, 'x) script"
  | Wait "('f, 'v, 'x) world \<Rightarrow> ('f, 'v, 'x) script"

type_synonym ('f, 'v, 'x) config = "('f, 'v, 'x) world \<times> ('f, 'v, 'x) frame list"

definition set_list :: "nat \<Rightarrow> ('f, 'v) cbs \<Rightarrow> ('f, 'v, 'x) world \<Rightarrow> ('f, 'v, 'x) world" where
  "set_list l c w = w\<lparr>lists := (lists w)(l := c)\<rparr>"

definition loops :: "nat \<Rightarrow> ('f, 'v) cbs \<times> 'v option \<Rightarrow> ('f, 'v, 'x) world \<Rightarrow> ('f, 'v, 'x) config" where
  "loops l r w = (set_list l (fst r) w, case snd r of None \<Rightarrow> [] | Some v \<Rightarrow> [Loop l v])"

text \<open>Performing an operation: the new world and the loop it starts, if any.\<close>

fun perform_silent :: "('f, 'x) silent_op \<Rightarrow> ('f, 'v, 'x) world \<Rightarrow> ('f, 'v, 'x) world" where
  "perform_silent (Remove l fs) w = set_list l (fold remove_cb fs (lists w l)) w"
| "perform_silent (Empty l) w = set_list l (empty_list (lists w l)) w"
| "perform_silent (Disable l) w = set_list l (disable (lists w l)) w"
| "perform_silent (Lock l) w = set_list l (lock (lists w l)) w"
| "perform_silent (Touch g) w = w\<lparr>extra := g (extra w)\<rparr>"

fun perform :: "('f, 'v, 'x) op \<Rightarrow> ('f, 'v, 'x) world \<Rightarrow> ('f, 'v, 'x) config" where
  "perform (Silent d) w = (perform_silent d w, [])"
| "perform (Add l as) w = loops l (add as (lists w l)) w"
| "perform (Fire l v) w = loops l (fireWith v (lists w l)) w"

definition advance :: "('f, 'v) cbs \<Rightarrow> ('f, 'v) cbs" where
  "advance c = c\<lparr>c_index := c_index c + 1\<rparr>"

text \<open>After the loop: its frame goes, or stays for the next value.\<close>

definition leave :: "nat \<Rightarrow> ('f, 'v, 'x) frame list \<Rightarrow> ('f, 'v, 'x) world \<Rightarrow> ('f, 'v, 'x) config" where
  "leave l fs w =
     (let (w', new) = loops l (end_fire (lists w l)) w in (w', new @ fs))"

text \<open>
  One round of the loop. An index outside the list reads \<open>undefined\<close>, which has no \<open>apply\<close>.
\<close>

definition loop_step ::
  "('f \<Rightarrow> 'v \<Rightarrow> ('f, 'v, 'x) behaviour) \<Rightarrow> nat \<Rightarrow> 'v \<Rightarrow> ('f, 'v, 'x) frame list \<Rightarrow> ('f, 'v, 'x) world \<Rightarrow>
   ('f, 'v, 'x) config" where
  "loop_step E l v fs w =
     (let c = lists w l
      in case c_list c of
        None \<Rightarrow> leave l fs w
      | Some xs \<Rightarrow>
          if c_index c < c_length c then
            (if c_index c < 0 \<or> int (length xs) \<le> c_index c then (w, Body (Throw TypeError) # Loop l v # fs)
             else let f = xs ! nat (c_index c); w1 = w\<lparr>called := called w @ [(l, f, v)]\<rparr>
                  in case E f v of
                       Native ds \<Rightarrow>
                         (let w2 = fold perform_silent ds w1 in (set_list l (advance (lists w2 l)) w2, Loop l v # fs))
                     | Page s \<Rightarrow> (w1, Body (s w1) # Loop l v # fs))
          else leave l fs w)"

definition after_call ::
  "nat \<Rightarrow> 'v \<Rightarrow> bool \<Rightarrow> ('f, 'v, 'x) frame list \<Rightarrow> ('f, 'v, 'x) world \<Rightarrow> ('f, 'v, 'x) config" where
  "after_call l v r fs w =
     (let c = lists w l
      in if \<not> r \<and> stopOnFalse (c_flags c) then leave l fs (set_list l (c\<lparr>c_memory := MTrue\<rparr>) w)
         else (set_list l (advance c) w, Loop l v # fs))"

text \<open>An exception that no script catches ends the task.\<close>

fun run_frame ::
  "('f \<Rightarrow> 'v \<Rightarrow> ('f, 'v, 'x) behaviour) \<Rightarrow> ('f, 'v, 'x) config \<Rightarrow> ('f, 'v, 'x) config option" where
  "run_frame E (w, []) = None"
| "run_frame E (w, Loop l v # fs) = Some (loop_step E l v fs w)"
| "run_frame E (w, Wait k # fs) = Some (w, Body (k w) # fs)"
| "run_frame E (w, Body (Throw e) # fs) = Some (w, [])"
| "run_frame E (w, Body (Do d k) # fs) = (let (w', new) = perform d w in Some (w', new @ Wait k # fs))"
| "run_frame E (w, Body (Return r) # fs) =
     (case fs of Loop l v # rest \<Rightarrow> Some (after_call l v r rest w) | _ \<Rightarrow> Some (w, fs))"

partial_function (option) run ::
  "('f \<Rightarrow> 'v \<Rightarrow> ('f, 'v, 'x) behaviour) \<Rightarrow> ('f, 'v, 'x) config \<Rightarrow> ('f, 'v, 'x) world option" where
  "run E c = (case run_frame E c of None \<Rightarrow> Some (fst c) | Some c' \<Rightarrow> run E c')"

declare run.simps [code]

text \<open>A page runs one permitted script after the other.\<close>

inductive page_step ::
  "('f \<Rightarrow> 'v \<Rightarrow> ('f, 'v, 'x) behaviour) \<Rightarrow> (('f, 'v, 'x) script \<Rightarrow> bool) \<Rightarrow>
   ('f, 'v, 'x) config \<Rightarrow> ('f, 'v, 'x) config \<Rightarrow> bool" for E ok where
  frame: "run_frame E c = Some c' \<Longrightarrow> page_step E ok c c'"
| task: "ok s \<Longrightarrow> page_step E ok (w, []) (w, [Body s])"

inductive_cases page_stepE: "page_step E ok c c'"

section \<open>Firing a list\<close>

text \<open>The callbacks that \<open>fire\<close> calls when none of them touches the list.\<close>

fun fired_part :: "bool \<Rightarrow> ('f \<Rightarrow> bool) \<Rightarrow> 'f list \<Rightarrow> 'f list" where
  "fired_part stop r [] = []"
| "fired_part stop r (f # fs) = f # (if stop \<and> \<not> r f then [] else fired_part stop r fs)"

definition halted :: "bool \<Rightarrow> ('f \<Rightarrow> bool) \<Rightarrow> 'f list \<Rightarrow> bool" where
  "halted stop r fs \<longleftrightarrow> stop \<and> (\<exists>f \<in> set fs. \<not> r f)"

lemma halted_simps [simp]:
  "\<not> halted stop r []"
  "halted stop r (f # fs) \<longleftrightarrow> stop \<and> \<not> r f \<or> halted stop r fs"
  by (auto simp: halted_def)

lemma set_list_sel [simp]:
  "lists (set_list l c w) = (lists w)(l := c)" "called (set_list l c w) = called w"
  "extra (set_list l c w) = extra w"
  by (simp_all add: set_list_def)

lemma called_first:
  "w\<lparr>called := as, lists := ls\<rparr> = w\<lparr>lists := ls, called := as\<rparr>"
  by simp

lemma run_step: "run_frame E c = Some c' \<Longrightarrow> run E c = run E c'"
  by (subst run.simps) simp

lemma run_empty [simp]: "run E (w, []) = Some w"
  by (subst run.simps) simp

text \<open>One call of a callback that only returns a value.\<close>

lemma run_call:
  assumes "E f v = Page (\<lambda>_. Return (r f))" and "lists w l = c" and "c_list c = Some xs"
    and "c_index c = int i" and "c_length c = int (length xs)" and "i < length xs" and "xs ! i = f"
  shows "run E (w, Loop l v # fs) = run E (after_call l v (r f) fs (w\<lparr>called := called w @ [(l, f, v)]\<rparr>))"
proof -
  let ?w = "w\<lparr>called := called w @ [(l, f, v)]\<rparr>"
  have "run_frame E (w, Loop l v # fs) = Some (?w, Body (Return (r f)) # Loop l v # fs)"
    using assms by (simp add: loop_step_def)
  moreover have "run_frame E (?w, Body (Return (r f)) # Loop l v # fs) = Some (after_call l v (r f) fs ?w)"
    by simp
  ultimately show ?thesis using run_step by metis
qed

lemma run_loop:
  assumes "\<And>f. f \<in> set fs \<Longrightarrow> E f v = Page (\<lambda>_. Return (r f))"
    and "lists w l = c" "c_list c = Some (pre @ fs)" "c_index c = int (length pre)"
    and "c_length c = int (length (pre @ fs))"
  shows "\<exists>i. run E (w, Loop l v # F) =
     run E (leave l F ((set_list l (c\<lparr>c_index := i,
         c_memory := (if halted (stopOnFalse (c_flags c)) r fs then MTrue else c_memory c)\<rparr>) w)
       \<lparr>called := called w @ map (\<lambda>f. (l, f, v)) (fired_part (stopOnFalse (c_flags c)) r fs)\<rparr>))"
  using assms
proof (induction fs arbitrary: pre w c)
  case Nil
  have "run_frame E (w, Loop l v # F) = Some (leave l F w)"
    using Nil by (simp add: loop_step_def)
  moreover have "set_list l (c\<lparr>c_index := c_index c, c_memory := c_memory c\<rparr>) w = w"
    using Nil(2) by (auto simp: set_list_def)
  ultimately show ?case by (intro exI [of _ "c_index c"]) (simp add: run_step)
next
  case (Cons f fs)
  let ?w = "w\<lparr>called := called w @ [(l, f, v)]\<rparr>"
  have call: "run E (w, Loop l v # F) = run E (after_call l v (r f) F ?w)"
    by (rule run_call [where xs = "pre @ f # fs" and i = "length pre"]) (use Cons.prems in auto)
  show ?case
  proof (cases "stopOnFalse (c_flags c) \<and> \<not> r f")
    case True
    then show ?thesis
      by (intro exI [of _ "c_index c"])
        (simp add: call after_call_def Cons.prems(2) Let_def set_list_def called_first)
  next
    case False
    let ?w' = "set_list l (advance c) ?w"
    have after: "after_call l v (r f) F ?w = (?w', Loop l v # F)"
      using False Cons.prems(2) by (auto simp: after_call_def Let_def)
    have "\<exists>i. run E (?w', Loop l v # F) =
       run E (leave l F ((set_list l ((advance c)\<lparr>c_index := i,
           c_memory := (if halted (stopOnFalse (c_flags (advance c))) r fs then MTrue else c_memory (advance c))\<rparr>) ?w')
         \<lparr>called := called ?w' @ map (\<lambda>f. (l, f, v)) (fired_part (stopOnFalse (c_flags (advance c))) r fs)\<rparr>))"
      by (rule Cons.IH [where pre = "pre @ [f]"]) (use Cons.prems in \<open>auto simp: advance_def\<close>)
    moreover have "halted (stopOnFalse (c_flags c)) r (f # fs) = halted (stopOnFalse (c_flags c)) r fs"
      "fired_part (stopOnFalse (c_flags c)) r (f # fs) = f # fired_part (stopOnFalse (c_flags c)) r fs"
      using False by auto
    ultimately show ?thesis unfolding call after
      by (simp add: advance_def set_list_def called_first cong: if_cong split del: if_split)
  qed
qed


section \<open>What every reachable world satisfies\<close>

definition list_ok :: "('f, 'v) cbs \<Rightarrow> bool" where
  "list_ok c \<longleftrightarrow> (c_list c = None \<longrightarrow> c_stack c = None) \<and>
     (unique (c_flags c) \<longrightarrow> (\<forall>xs. c_list c = Some xs \<longrightarrow> distinct xs)) \<and>
     (\<not> c_firing c \<or> once (c_flags c) \<longrightarrow> c_stack c = None \<or> c_stack c = Some []) \<and> c_start c = 0"

fun looping :: "('f, 'v, 'x) frame list \<Rightarrow> nat list" where
  "looping [] = []"
| "looping (Loop l v # fs) = l # looping fs"
| "looping (Body s # fs) = looping fs"
| "looping (Wait k # fs) = looping fs"

fun config_ok :: "('f, 'v, 'x) config \<Rightarrow> bool" where
  "config_ok (w, fs) = ((\<forall>l. list_ok (lists w l)) \<and> distinct (looping fs) \<and>
     (\<forall>l \<in> set (looping fs). c_firing (lists w l)))"

lemma looping_append [simp]: "looping (fs @ gs) = looping fs @ looping gs"
  by (induction fs rule: looping.induct) simp_all

lemma add_distinct:
  "unique fl \<Longrightarrow> distinct xs \<Longrightarrow> distinct (add_arg fl a xs)"
  "unique fl \<Longrightarrow> distinct xs \<Longrightarrow> distinct (add_args fl as xs)"
  by (induction fl a xs and fl as xs rule: add_arg_add_args.induct) auto

lemma remove_from_subset: "set (fst (remove_from u g f i xs p)) \<subseteq> set xs"
  by (induction u g f i xs p rule: remove_from.induct) (auto simp: Let_def split: prod.splits)

lemma remove_from_distinct: "distinct xs \<Longrightarrow> distinct (fst (remove_from u g f i xs p))"
proof (induction u g f i xs p rule: remove_from.induct)
  case (2 u g f i x xs len idx)
  have "x \<notin> set (fst (remove_from u g f (Suc i) xs (len, idx)))"
    using 2(3) remove_from_subset by fastforce
  with 2 show ?case by (auto simp: Let_def split: prod.splits)
qed simp

text \<open>What the operations leave as it is.\<close>

lemma remove_cb_sel [simp]:
  "c_flags (remove_cb f c) = c_flags c" "c_stack (remove_cb f c) = c_stack c"
  "c_memory (remove_cb f c) = c_memory c" "c_firing (remove_cb f c) = c_firing c"
  "c_start (remove_cb f c) = c_start c" "c_fired (remove_cb f c) = c_fired c"
  "c_list (remove_cb f c) = None \<longleftrightarrow> c_list c = None"
  by (auto simp: remove_cb_def split: option.splits prod.splits)

lemma remove_cbs_sel [simp]:
  "c_flags (fold remove_cb fs c) = c_flags c" "c_stack (fold remove_cb fs c) = c_stack c"
  "c_memory (fold remove_cb fs c) = c_memory c" "c_firing (fold remove_cb fs c) = c_firing c"
  "c_start (fold remove_cb fs c) = c_start c" "c_fired (fold remove_cb fs c) = c_fired c"
  "c_list (fold remove_cb fs c) = None \<longleftrightarrow> c_list c = None"
  by (induction fs arbitrary: c) simp_all

lemma ok_remove: "list_ok c \<Longrightarrow> list_ok (remove_cb f c)"
  unfolding list_ok_def
  by (auto simp: remove_cb_def split: option.splits prod.splits dest: remove_from_distinct [of _ "unique (c_flags c)"])
    (metis fst_conv remove_from_distinct)+

lemma ok_removes: "list_ok c \<Longrightarrow> list_ok (fold remove_cb fs c)"
  by (induction fs arbitrary: c) (auto intro: ok_remove)

lemma ok_empty: "list_ok c \<Longrightarrow> list_ok (empty_list c)"
  by (auto simp: list_ok_def empty_list_def)

lemma list_ok_disable: "list_ok c \<Longrightarrow> list_ok (disable c)"
  by (auto simp: list_ok_def disable_def)

lemma empty_disable_sel [simp]:
  "c_firing (empty_list c) = c_firing c" "c_firing (disable c) = c_firing c"
  by (simp_all add: empty_list_def disable_def)

lemma disable_stack: "disable (c\<lparr>c_stack := None\<rparr>) = disable c"
  unfolding disable_def by (cases c) simp

lemma lock_cases: "lock c = c\<lparr>c_stack := None\<rparr> \<or> lock c = disable c"
  unfolding lock_def Let_def disable_stack by (cases "c_memory c") simp_all

lemma ok_lock: "list_ok c \<Longrightarrow> list_ok (lock c)"
proof -
  assume c: "list_ok c"
  then have "list_ok (c\<lparr>c_stack := None\<rparr>)" unfolding list_ok_def by simp
  with c list_ok_disable [OF c] show ?thesis using lock_cases [of c] by (elim disjE) (simp_all only:)
qed

lemma ok_advance [simp]: "list_ok (advance c) = list_ok c" "c_firing (advance c) = c_firing c"
  "c_flags (advance c) = c_flags c" "c_list (advance c) = c_list c" "c_stack (advance c) = c_stack c"
  "c_memory (advance c) = c_memory c" "c_fired (advance c) = c_fired c"
  by (simp_all add: list_ok_def advance_def)

lemma ok_begin: "list_ok c \<Longrightarrow> \<not> c_firing c \<Longrightarrow> list_ok (begin_fire v (c\<lparr>c_start := n\<rparr>))"
  by (auto simp: list_ok_def begin_fire_def)

lemma ok_begin_fire: "list_ok c \<Longrightarrow> \<not> c_firing c \<Longrightarrow> list_ok (begin_fire v c)"
  by (auto simp: list_ok_def begin_fire_def)

text \<open>An operation starts a loop on an idle list only.\<close>

definition starts_ok :: "('f, 'v) cbs \<Rightarrow> ('f, 'v) cbs \<times> 'v option \<Rightarrow> bool" where
  "starts_ok c r \<longleftrightarrow> list_ok (fst r) \<and>
     (if snd r = None then c_firing (fst r) = c_firing c else \<not> c_firing c \<and> c_firing (fst r))"

lemma starts_fireWith: "list_ok c \<Longrightarrow> starts_ok c (fireWith v c)"
  using ok_begin_fire [of c v]
  by (auto simp: starts_ok_def fireWith_def begin_fire_def list_ok_def split: option.splits)

lemma ok_add_list:
  "list_ok c \<Longrightarrow> c_list c = Some xs \<Longrightarrow> list_ok (c\<lparr>c_list := Some (add_args (c_flags c) as xs)\<rparr>)"
  by (auto simp: list_ok_def add_distinct)

lemma starts_add: "list_ok c \<Longrightarrow> starts_ok c (add as c)"
proof (cases "c_list c")
  case (Some xs)
  assume c: "list_ok c"
  let ?c = "c\<lparr>c_list := Some (add_args (c_flags c) as xs)\<rparr>"
  have "list_ok ?c" by (rule ok_add_list [OF c Some])
  then show ?thesis using Some ok_begin [of ?c _ "length xs"]
    by (auto simp: starts_ok_def add_def Let_def begin_fire_def list_ok_def split: memo.splits)
qed (simp add: starts_ok_def add_def)

lemma ok_loops:
  assumes "config_ok (w, fs)" "starts_ok (lists w l) r"
  shows "config_ok (fst (loops l r w), snd (loops l r w) @ fs)"
  using assms by (auto simp: loops_def starts_ok_def split: option.splits if_splits)

lemma ok_silent: "config_ok (w, fs) \<Longrightarrow> config_ok (perform_silent d w, fs)"
proof (cases d)
  case (Lock l)
  assume "config_ok (w, fs)"
  moreover have "c_firing (lock (lists w l)) = c_firing (lists w l)"
    using lock_cases [of "lists w l"] by (auto simp: disable_def)
  ultimately show ?thesis using Lock by (auto intro: ok_lock)
qed (auto intro: ok_removes ok_empty list_ok_disable)

lemma ok_silents: "config_ok (w, fs) \<Longrightarrow> config_ok (fold perform_silent ds w, fs)"
  by (induction ds arbitrary: w) (auto intro: ok_silent simp del: config_ok.simps)

lemma ok_perform: "config_ok (w, fs) \<Longrightarrow> config_ok (fst (perform d w), snd (perform d w) @ fs)"
proof (cases d)
  case (Add l as)
  assume "config_ok (w, fs)"
  then show ?thesis unfolding Add perform.simps by (intro ok_loops starts_add) auto
next
  case (Fire l v)
  assume "config_ok (w, fs)"
  then show ?thesis unfolding Fire perform.simps by (intro ok_loops starts_fireWith) auto
qed (auto intro: ok_silent simp del: config_ok.simps)

lemma begin_fire_firing [simp]: "c_firing (begin_fire v c)"
  by (simp add: begin_fire_def)

lemma ok_end_fire:
  assumes "list_ok c"
  shows "list_ok (fst (end_fire c)) \<and> (snd (end_fire c) \<noteq> None \<longrightarrow> c_firing (fst (end_fire c)))"
proof (cases "c_list c = None \<or> once (c_flags c)")
  case True
  with assms show ?thesis
    by (auto simp: end_fire_def list_ok_def disable_def Let_def split: option.splits memo.splits)
next
  case False
  show ?thesis
  proof (cases "c_stack c")
    case (Some vs)
    show ?thesis
    proof (cases vs)
      case Nil
      with False Some assms show ?thesis by (auto simp: end_fire_def list_ok_def Let_def)
    next
      case (Cons v us)
      let ?c = "c\<lparr>c_firing := False, c_stack := Some us, c_memory := Mem v\<rparr>"
      have "end_fire c = (begin_fire v ?c, Some v)"
        using False Some Cons by (simp add: end_fire_def fireWith_def Let_def)
      moreover have "list_ok (begin_fire v ?c)"
        using assms False Some by (auto simp: list_ok_def begin_fire_def)
      ultimately show ?thesis by simp
    qed
  qed (use False assms in \<open>auto simp: end_fire_def list_ok_def Let_def\<close>)
qed

lemma ok_leave:
  assumes "config_ok (w, Loop l v # fs)"
  shows "config_ok (leave l fs w)"
  using assms ok_end_fire [of "lists w l"]
  by (auto simp: leave_def loops_def split: option.splits)

lemma ok_called [simp]: "config_ok (w\<lparr>called := cs\<rparr>, fs) = config_ok (w, fs)"
  by simp

lemma ok_set_list:
  "config_ok (w, fs) \<Longrightarrow> list_ok c \<Longrightarrow> c_firing c = c_firing (lists w l) \<Longrightarrow> config_ok (set_list l c w, fs)"
  by auto

lemma ok_loop_step:
  assumes "config_ok (w, Loop l v # fs)"
  shows "config_ok (loop_step E l v fs w)"
proof (cases "c_list (lists w l) = None \<or> \<not> c_index (lists w l) < c_length (lists w l)")
  case True
  then have "loop_step E l v fs w = leave l fs w" by (auto simp: loop_step_def Let_def split: option.splits)
  with ok_leave [OF assms] show ?thesis by simp
next
  case False
  then obtain xs where xs: "c_list (lists w l) = Some xs" by auto
  define f where "f = xs ! nat (c_index (lists w l))"
  let ?w = "w\<lparr>called := called w @ [(l, f, v)]\<rparr>"
  have ok: "config_ok (?w, Loop l v # fs)" using assms by (simp only: ok_called)
  show ?thesis
  proof (cases "E f v")
    case (Native ds)
    have n: "config_ok (fold perform_silent ds ?w, Loop l v # fs)" by (rule ok_silents [OF ok])
    then have "config_ok (set_list l (advance (lists (fold perform_silent ds ?w) l)) (fold perform_silent ds ?w), Loop l v # fs)"
      by (intro ok_set_list) simp_all
    with assms False Native show ?thesis
      by (simp add: loop_step_def xs f_def Let_def del: config_ok.simps) simp
  next
    case (Page s)
    with assms False show ?thesis by (simp add: loop_step_def xs f_def Let_def)
  qed
qed

lemma ok_after_call:
  assumes "config_ok (w, Loop l v # fs)"
  shows "config_ok (after_call l v r fs w)"
proof -
  let ?c = "(lists w l)\<lparr>c_memory := MTrue\<rparr>"
  have "list_ok (lists w l)" using assms by simp
  then have "list_ok ?c" unfolding list_ok_def by simp
  then have "config_ok (set_list l ?c w, Loop l v # fs)" by (intro ok_set_list [OF assms]) simp_all
  then have "config_ok (leave l fs (set_list l ?c w))" by (rule ok_leave)
  moreover have "config_ok (set_list l (advance (lists w l)) w, Loop l v # fs)"
    by (intro ok_set_list [OF assms]) (use assms in simp_all)
  ultimately show ?thesis by (simp add: after_call_def Let_def del: config_ok.simps)
qed

lemma looping_tl: "config_ok (w, f # fs) \<Longrightarrow> config_ok (w, fs)"
  by (cases f) simp_all

lemma config_ok_frame: "run_frame E c = Some c' \<Longrightarrow> config_ok c \<Longrightarrow> config_ok c'"
proof (induction E c rule: run_frame.induct)
  case (2 E w l v fs)
  then show ?case using ok_loop_step by (auto simp del: config_ok.simps)
next
  case (5 E w d k fs)
  have "config_ok (w, Wait k # fs)" using 5(2) by simp
  from ok_perform [OF this, of d] show ?case using 5(1)
    by (auto simp del: config_ok.simps split: prod.splits)
next
  case (6 E w r fs)
  then have ok: "config_ok (w, fs)" by simp
  show ?case
  proof (cases "\<exists>l v rest. fs = Loop l v # rest")
    case True
    with 6(1) ok ok_after_call show ?thesis by (auto simp del: config_ok.simps)
  next
    case False
    then have "run_frame E (w, Body (Return r) # fs) = Some (w, fs)"
      by (auto split: list.splits frame.splits)
    with 6(1) ok show ?thesis by (simp del: config_ok.simps)
  qed
qed auto

lemma ok_page_step: "page_step E P c c' \<Longrightarrow> config_ok c \<Longrightarrow> config_ok c'"
  by (erule page_stepE) (auto dest: config_ok_frame simp del: config_ok.simps, simp)

interpretation callback_lists: preserved_invariant "page_step E P" config_ok for E P
  by unfold_locales (rule ok_page_step)

text \<open>
  whatever callbacks do to the lists, the one that is calling them included, and whatever
  raises on the way: a \<open>unique\<close> list never holds a callback twice, a list is never fired inside
  its own \<open>fire\<close>, so that no two loops share the index variables, and a list that is idle has
  no calls waiting.
\<close>

theorem callbacks_reachable_ok:
  assumes "(page_step E P)\<^sup>*\<^sup>* (w0, []) (w, fs)" and "\<forall>l. \<exists>fl. lists w0 l = new_list fl"
  shows "(unique (c_flags (lists w l)) \<longrightarrow> (\<forall>xs. c_list (lists w l) = Some xs \<longrightarrow> distinct xs)) \<and>
    distinct (looping fs) \<and>
    (\<not> c_firing (lists w l) \<longrightarrow> l \<notin> set (looping fs) \<and> c_stack (lists w l) \<in> {None, Some []})"
proof -
  have "config_ok (w0, [])"
  proof (simp, intro allI)
    fix k
    from assms(2) obtain fl where "lists w0 k = new_list fl" by blast
    then show "list_ok (lists w0 k)" by (simp add: list_ok_def new_list_def)
  qed
  from callback_lists.reachable [OF assms(1) this] have "config_ok (w, fs)" .
  then have "list_ok (lists w l)" "distinct (looping fs)" "\<forall>k \<in> set (looping fs). c_firing (lists w k)"
    by simp_all
  then show ?thesis unfolding list_ok_def by blast
qed

section \<open>Lists that remember their only value\<close>

text \<open>
  \<open>V\<close> are the values the list has handed out. The second predicate is what a running loop with
  value \<open>v\<close> relies on.
\<close>

definition memo_ok :: "'v set \<Rightarrow> ('f, 'v) cbs \<Rightarrow> bool" where
  "memo_ok V c \<longleftrightarrow> once (c_flags c) \<and> memory (c_flags c) \<and> (\<exists>v. V \<subseteq> {v}) \<and>
     (\<forall>v. c_memory c = Mem v \<longrightarrow> V \<subseteq> {v}) \<and> (c_memory c = MUndef \<and> c_stack c \<noteq> None \<longrightarrow> V = {}) \<and>
     (c_memory c = MTrue \<longrightarrow> c_stack c = None) \<and> (c_list c = None \<longrightarrow> c_stack c = None)"

definition hands_out :: "'v \<Rightarrow> 'v set \<Rightarrow> ('f, 'v) cbs \<Rightarrow> bool" where
  "hands_out v V c \<longleftrightarrow> V \<subseteq> {v} \<and> (c_stack c = None \<or> c_memory c = Mem v) \<and>
     (\<forall>u. c_memory c = Mem u \<longrightarrow> u = v)"

definition values_of :: "nat \<Rightarrow> ('f, 'v, 'x) world \<Rightarrow> 'v set" where
  "values_of l w = {v. \<exists>f. (l, f, v) \<in> set (called w)}"

fun memo_config :: "nat \<Rightarrow> ('f, 'v, 'x) config \<Rightarrow> bool" where
  "memo_config l (w, fs) = (memo_ok (values_of l w) (lists w l) \<and>
     (\<forall>v. Loop l v \<in> set fs \<longrightarrow> hands_out v (values_of l w) (lists w l)))"

definition keeps_memo :: "'v set \<Rightarrow> ('f, 'v) cbs \<Rightarrow> ('f, 'v) cbs \<Rightarrow> bool" where
  "keeps_memo V c c' \<longleftrightarrow>
     (memo_ok V c \<longrightarrow> memo_ok V c' \<and> (\<forall>v. hands_out v V c \<longrightarrow> hands_out v V c'))"

lemma keeps_memo_refl: "keeps_memo V c c"
  by (simp add: keeps_memo_def)

lemma keeps_frame:
  "c_flags c' = c_flags c \<Longrightarrow> c_stack c' = c_stack c \<Longrightarrow> c_memory c' = c_memory c \<Longrightarrow>
   (c_list c' = None \<longrightarrow> c_list c = None) \<Longrightarrow> keeps_memo V c c'"
  by (auto simp: keeps_memo_def memo_ok_def hands_out_def)

lemma keeps_disable: "keeps_memo V c (disable c)"
  by (auto simp: keeps_memo_def memo_ok_def hands_out_def disable_def)

lemma keeps_lock: "keeps_memo V c (lock c)"
proof -
  have "keeps_memo V c (c\<lparr>c_stack := None\<rparr>)"
    by (auto simp: keeps_memo_def memo_ok_def hands_out_def)
  with keeps_disable lock_cases show ?thesis by metis
qed

lemma values_set_list [simp]: "values_of l (set_list k c w) = values_of l w"
  by (simp add: values_of_def)

lemma memo_set_list:
  assumes "memo_config l (w, fs)" "k = l \<Longrightarrow> keeps_memo (values_of l w) (lists w l) c"
  shows "memo_config l (set_list k c w, fs)"
  using assms by (auto simp: keeps_memo_def)

lemma memo_silent: "memo_config l (w, fs) \<Longrightarrow> memo_config l (perform_silent d w, fs)"
proof (cases d)
  case (Touch g)
  assume "memo_config l (w, fs)"
  then show ?thesis by (simp add: Touch values_of_def)
qed (auto intro!: memo_set_list keeps_disable keeps_lock keeps_frame simp: empty_list_def
  simp del: memo_config.simps)

lemma memo_silents: "memo_config l (w, fs) \<Longrightarrow> memo_config l (fold perform_silent ds w, fs)"
  by (induction ds arbitrary: w) (auto intro: memo_silent simp del: memo_config.simps)

lemma memo_loops:
  assumes "memo_config l (w, fs)"
    and "k = l \<Longrightarrow> keeps_memo (values_of l w) (lists w l) (fst r)"
    and "\<And>v. k = l \<Longrightarrow> snd r = Some v \<Longrightarrow> hands_out v (values_of l w) (fst r)"
  shows "memo_config l (fst (loops k r w), snd (loops k r w) @ fs)"
  using memo_set_list [OF assms(1,2)] assms(3)
  by (auto simp: loops_def split: option.splits)

lemma memo_add:
  assumes "memo_ok V c"
  shows "keeps_memo V c (fst (add as c)) \<and> (\<forall>v. snd (add as c) = Some v \<longrightarrow> hands_out v V (fst (add as c)))"
  using assms
  by (auto simp: keeps_memo_def memo_ok_def hands_out_def add_def begin_fire_def Let_def
      split: option.splits memo.splits)

lemma memo_fire:
  assumes "memo_ok V c"
  shows "keeps_memo V c (fst (fireWith u c)) \<and>
    (\<forall>v. snd (fireWith u c) = Some v \<longrightarrow> hands_out v V (fst (fireWith u c)))"
proof (cases "c_stack c = None \<or> c_firing c \<or> c_memory c \<noteq> MUndef")
  case True
  from assms have "once (c_flags c)" by (simp add: memo_ok_def)
  with True have "fireWith u c = (c, None)" by (auto simp: fireWith_def split: option.splits)
  then show ?thesis by (simp add: keeps_memo_refl)
next
  case False
  then have f: "fireWith u c = (begin_fire u c, Some u)" by (auto simp: fireWith_def)
  from assms False have fl: "once (c_flags c)" "memory (c_flags c)" "V = {}" "c_list c \<noteq> None"
    by (auto simp: memo_ok_def)
  then have "memo_ok {} (begin_fire u c)" "hands_out u {} (begin_fire u c)"
    using False by (auto simp add: memo_ok_def hands_out_def begin_fire_def)
  moreover have "\<not> hands_out v {} c" for v using False by (simp add: hands_out_def)
  ultimately show ?thesis unfolding f fl(3) by (simp add: keeps_memo_def)
qed

lemma memo_end:
  assumes "memo_ok V c"
  shows "keeps_memo V c (fst (end_fire c)) \<and> snd (end_fire c) = None"
  using assms
  by (auto simp: keeps_memo_def memo_ok_def hands_out_def end_fire_def disable_def Let_def
      split: option.splits)

lemma memo_perform:
  assumes "memo_config l (w, fs)"
  shows "memo_config l (fst (perform d w), snd (perform d w) @ fs)"
proof -
  from assms have m: "memo_ok (values_of l w) (lists w l)" by simp
  show ?thesis
  proof (cases d)
    case (Add k as)
    show ?thesis unfolding Add perform.simps
      by (rule memo_loops [OF assms]) (use memo_add [OF m] in auto)
  next
    case (Fire k v)
    show ?thesis unfolding Fire perform.simps
      by (rule memo_loops [OF assms]) (use memo_fire [OF m] in auto)
  qed (use assms in \<open>auto intro: memo_silent simp del: memo_config.simps\<close>)
qed

lemma memo_leave:
  assumes "memo_config l (w, fs)"
  shows "memo_config l (leave k fs w)"
proof -
  have "memo_ok (values_of l w) (lists w l)" using assms by simp
  from memo_end [OF this] have "memo_config l (fst (loops k (end_fire (lists w k)) w), snd (loops k (end_fire (lists w k)) w) @ fs)"
    by (intro memo_loops [OF assms]) auto
  then show ?thesis by (simp add: leave_def case_prod_beta del: memo_config.simps)
qed

lemma memo_tl: "memo_config l (w, f # fs) \<Longrightarrow> memo_config l (w, fs)"
  by simp

lemma looping_mem: "Loop l v \<in> set fs \<Longrightarrow> l \<in> set (looping fs)"
  by (induction fs rule: looping.induct) auto

lemma memo_call:
  assumes "memo_config l (w, Loop k v # fs)" "k \<notin> set (looping fs)"
  shows "memo_config l (w\<lparr>called := called w @ [(k, f, v)]\<rparr>, Loop k v # fs)"
proof (cases "k = l")
  case True
  have new: "values_of l (w\<lparr>called := called w @ [(k, f, v)]\<rparr>) = insert v (values_of l w)"
    using True by (auto simp: values_of_def)
  from assms True have m: "memo_ok (values_of l w) (lists w l)" "hands_out v (values_of l w) (lists w l)"
    by auto
  have "memo_ok (insert v (values_of l w)) (lists w l)"
    using m unfolding memo_ok_def hands_out_def by (auto 0 3)
  moreover have "hands_out v (insert v (values_of l w)) (lists w l)"
    using m unfolding hands_out_def by (auto 0 3)
  moreover have "Loop l u \<notin> set fs" for u using looping_mem [of l u fs] assms(2) True by auto
  ultimately show ?thesis unfolding memo_config.simps new by auto
next
  case False
  then have "values_of l (w\<lparr>called := called w @ [(k, f, v)]\<rparr>) = values_of l w"
    by (auto simp: values_of_def)
  with assms show ?thesis by simp
qed

lemma memo_loop_step:
  assumes "memo_config l (w, Loop k v # fs)" "k \<notin> set (looping fs)"
  shows "memo_config l (loop_step E k v fs w)"
proof (cases "c_list (lists w k) = None \<or> \<not> c_index (lists w k) < c_length (lists w k)")
  case True
  then have "loop_step E k v fs w = leave k fs w" by (auto simp: loop_step_def Let_def split: option.splits)
  with memo_leave [OF memo_tl [OF assms(1)]] show ?thesis by simp
next
  case False
  then obtain xs where xs: "c_list (lists w k) = Some xs" by auto
  define f where "f = xs ! nat (c_index (lists w k))"
  let ?w = "w\<lparr>called := called w @ [(k, f, v)]\<rparr>"
  have ok: "memo_config l (?w, Loop k v # fs)" by (rule memo_call [OF assms])
  show ?thesis
  proof (cases "E f v")
    case (Native ds)
    have "memo_config l (fold perform_silent ds ?w, Loop k v # fs)" by (rule memo_silents [OF ok])
    then have "memo_config l (set_list k (advance (lists (fold perform_silent ds ?w) k)) (fold perform_silent ds ?w), Loop k v # fs)"
      by (rule memo_set_list) (simp add: keeps_frame)
    with assms False Native show ?thesis
      by (simp add: loop_step_def xs f_def Let_def del: memo_config.simps) simp
  next
    case (Page s)
    with assms ok False show ?thesis by (simp add: loop_step_def xs f_def Let_def)
  qed
qed

lemma memo_after_call:
  assumes "memo_config l (w, Loop k v # fs)" "k \<notin> set (looping fs)"
  shows "memo_config l (after_call k v r fs w)"
proof (cases "\<not> r \<and> stopOnFalse (c_flags (lists w k))")
  case True
  let ?c = "(lists w k)\<lparr>c_memory := MTrue\<rparr>"
  have after: "after_call k v r fs w = leave k fs (set_list k ?c w)"
    using True by (simp add: after_call_def Let_def)
  show ?thesis
  proof (cases "k = l")
    case eq: True
    from assms eq have m: "memo_ok (values_of l w) (lists w l)" by simp
    then have "fst (end_fire ?c) = ?c\<lparr>c_firing := False\<rparr> \<and> c_stack ?c = None \<or> fst (end_fire ?c) = disable (?c\<lparr>c_firing := False\<rparr>)"
      "snd (end_fire ?c) = None"
      using eq by (auto simp: memo_ok_def end_fire_def Let_def)
    then have "memo_ok (values_of l w) (fst (end_fire ?c))"
      using m eq by (auto simp: memo_ok_def disable_def)
    moreover have "Loop l u \<notin> set fs" for u using looping_mem [of l u fs] assms(2) eq by auto
    ultimately show ?thesis unfolding after
      using \<open>snd (end_fire ?c) = None\<close> eq by (simp add: leave_def loops_def)
  next
    case False
    then have "memo_config l (set_list k ?c w, fs)" using assms by (intro memo_set_list) auto
    then show ?thesis unfolding after by (rule memo_leave)
  qed
next
  case False
  then have "after_call k v r fs w = (set_list k (advance (lists w k)) w, Loop k v # fs)"
    by (auto simp: after_call_def Let_def)
  moreover have "memo_config l (set_list k (advance (lists w k)) w, Loop k v # fs)"
    by (rule memo_set_list [OF assms(1)]) (simp add: keeps_frame)
  ultimately show ?thesis by (simp del: memo_config.simps)
qed

lemma memo_frame:
  "run_frame E c = Some c' \<Longrightarrow> memo_config l c \<Longrightarrow> config_ok c \<Longrightarrow> memo_config l c'"
proof (induction E c rule: run_frame.induct)
  case (2 E w k v fs)
  then show ?case using memo_loop_step [OF 2(2)] by auto
next
  case (5 E w d k fs)
  have "memo_config l (w, Wait k # fs)" using 5(2) by simp
  from memo_perform [OF this, of d] show ?case using 5(1)
    by (auto simp del: memo_config.simps split: prod.splits)
next
  case (6 E w r fs)
  then have ok: "memo_config l (w, fs)" "config_ok (w, fs)" by simp_all
  show ?case
  proof (cases "\<exists>k v rest. fs = Loop k v # rest")
    case True
    then obtain k v rest where fs: "fs = Loop k v # rest" by blast
    with ok(2) have "k \<notin> set (looping rest)" by simp
    from memo_after_call [OF ok(1) [unfolded fs] this, of r] 6(1) fs show ?thesis
      by (simp del: memo_config.simps)
  next
    case False
    then have "run_frame E (w, Body (Return r) # fs) = Some (w, fs)"
      by (auto split: list.splits frame.splits)
    with 6(1) ok show ?thesis by (simp del: memo_config.simps)
  qed
qed auto

lemma memo_page_step:
  "page_step E P c c' \<Longrightarrow> config_ok c \<and> memo_config l c \<Longrightarrow> config_ok c' \<and> memo_config l c'"
proof -
  assume step: "page_step E P c c'" and ok: "config_ok c \<and> memo_config l c"
  from step have "memo_config l c'"
    by (rule page_stepE) (use ok in \<open>auto intro: memo_frame simp del: config_ok.simps memo_config.simps, simp\<close>)
  with ok_page_step [OF step] ok show ?thesis by simp
qed

interpretation memo_lists: preserved_invariant "page_step E P" "\<lambda>c. config_ok c \<and> memo_config l c" for E P l
  by unfold_locales (rule memo_page_step)

text \<open>
  C30: a list with the flags \<open>once\<close> and \<open>memory\<close>, the kind a \<open>Deferred\<close> is made of, hands out one
  value for good: however calls to add, fire, remove, lock, disable and empty are interleaved and
  nested, all its callbacks ever get the same value.
\<close>

theorem once_memory_single_value:
  assumes "(page_step E P)\<^sup>*\<^sup>* (w0, []) (w, fs)" and "\<forall>k. \<exists>fl. lists w0 k = new_list fl"
    and "once (c_flags (lists w0 l)) \<and> memory (c_flags (lists w0 l))" and "called w0 = []"
    and "(l, f, u) \<in> set (called w)" and "(l, g, v) \<in> set (called w)"
  shows "u = v"
proof -
  have "config_ok (w0, [])"
  proof (simp, intro allI)
    fix k
    from assms(2) obtain fl where "lists w0 k = new_list fl" by blast
    then show "list_ok (lists w0 k)" by (simp add: list_ok_def new_list_def)
  qed
  moreover obtain fl where "lists w0 l = new_list fl" using assms(2) by blast
  then have "memo_config l (w0, [])"
    using assms(3,4) by (simp add: memo_ok_def new_list_def values_of_def)
  ultimately have "config_ok (w, fs) \<and> memo_config l (w, fs)"
    by (intro memo_lists.reachable [OF assms(1)]) (rule conjI)
  then obtain x where "values_of l w \<subseteq> {x}" by (auto simp: memo_ok_def)
  with assms(5,6) show ?thesis by (auto simp: values_of_def)
qed

section \<open>\<open>empty\<close> during \<open>fire\<close>\<close>

text \<open>
  \<open>empty\<close> forgets that the list may be firing: when a callback empties the list that is calling
  it, the loop goes on to an element that is gone and raises. The callbacks behind it are lost,
  and since the list is marked as firing for good, no later call ever reaches a callback.
\<close>

theorem empty_while_firing_wedges:
  assumes "c_list (lists w l) = Some (f # g # fs)" and "E f v = Native [Empty l]"
    and "c_stack (lists w l) = Some []" and "\<not> c_firing (lists w l)" and "c_start (lists w l) = 0"
    and "c_memory (lists w l) = MUndef"
  shows "\<exists>w'. run E (perform (Fire l v) w) = Some w' \<and> called w' = called w @ [(l, f, v)] \<and>
    (\<forall>u. \<exists>w''. run E (perform (Fire l u) w') = Some w'' \<and> called w'' = called w')"
proof -
  define w1 where "w1 = set_list l (begin_fire v (lists w l)) w"
  define w2 where "w2 = set_list l (advance (empty_list (lists w1 l))) (w1\<lparr>called := called w @ [(l, f, v)]\<rparr>)"
  have "perform (Fire l v) w = (w1, [Loop l v])"
    using assms by (simp add: fireWith_def loops_def w1_def)
  moreover have "run_frame E (w1, [Loop l v]) = Some (w2, [Loop l v])"
    using assms by (simp add: loop_step_def w1_def w2_def begin_fire_def Let_def set_list_def empty_list_def advance_def)
  moreover have "run_frame E (w2, [Loop l v]) = Some (w2, [Body (Throw TypeError), Loop l v])"
    using assms by (simp add: loop_step_def w1_def w2_def begin_fire_def Let_def empty_list_def advance_def)
  moreover have "run_frame E (w2, [Body (Throw TypeError), Loop l v]) = Some (w2, [])" by simp
  ultimately have "run E (perform (Fire l v) w) = Some w2" by (simp only: run_step run_empty)
  moreover have "called w2 = called w @ [(l, f, v)]" by (simp add: w2_def)
  moreover have "c_firing (lists w2 l)" by (simp add: w2_def w1_def)
  then have "snd (perform (Fire l u) w2) = [] \<and> called (fst (perform (Fire l u) w2)) = called w2" for u
    by (simp add: fireWith_def loops_def split: option.splits)
  then have "\<exists>w''. run E (perform (Fire l u) w2) = Some w'' \<and> called w'' = called w2" for u
    by (cases "perform (Fire l u) w2") (metis fst_conv snd_conv run_empty)
  ultimately show ?thesis by blast
qed

section \<open>Instances\<close>

definition plain_flags :: flags where
  "plain_flags = \<lparr>once = False, memory = False, unique = False, stopOnFalse = False\<rparr>"

definition small_world :: "string \<Rightarrow> nat list \<Rightarrow> (nat, nat, unit) world" where
  "small_world fl fs =
     \<lparr>lists = (\<lambda>_. new_list (createFlags fl))(0 := (new_list (createFlags fl))\<lparr>c_list := Some fs\<rparr>), called = [], extra = ()\<rparr>"

text \<open>Callback 0 returns \<open>false\<close>, callback 1 is the method \<open>empty\<close>, callback 9 fires its list again.\<close>

definition small_env :: "nat \<Rightarrow> nat \<Rightarrow> (nat, nat, unit) behaviour" where
  "small_env f v =
     (if f = 1 then Native [Empty 0]
      else if f = 9 then Page (\<lambda>_. Do (Fire 0 (v + 1)) (\<lambda>_. Return True))
      else Page (\<lambda>_. Return (f \<noteq> 0)))"

lemma small_flags:
  "createFlags ''stopOnFalse'' = plain_flags\<lparr>stopOnFalse := True\<rparr>"
  "createFlags ''once memory'' = plain_flags\<lparr>once := True, memory := True\<rparr>"
  by code_simp+


text \<open>A list to which a callback is added twice, in an array and alone, then fired.\<close>

definition fresh_world :: "string \<Rightarrow> (nat, nat, unit) world" where
  "fresh_world fl = \<lparr>lists = (\<lambda>_. new_list (createFlags fl)), called = [], extra = ()\<rparr>"

definition add_twice_and_fire :: "(nat, nat, unit) script" where
  "add_twice_and_fire = Do (Add 0 [AArr [AFun 5, AOther], AFun 5]) (\<lambda>_. Do (Fire 0 3) (\<lambda>_. Return True))"

lemma run_reachable: "run E c = Some w \<Longrightarrow> (page_step E ok)\<^sup>*\<^sup>* c (w, [])"
proof (induction rule: run.raw_induct [rotated, consumes 1])
  case (1 run' E c w)
  show ?case
  proof (cases "run_frame E c")
    case None
    then have "snd c = []" by (cases "(E, c)" rule: run_frame.cases) (auto split: list.splits frame.splits prod.splits)
    with None 1 show ?thesis by (cases c) simp
  next
    case (Some c')
    with 1 have "(page_step E ok)\<^sup>*\<^sup>* c' (w, [])" by simp
    with frame [OF Some] show ?thesis by (rule converse_rtranclp_into_rtranclp)
  qed
qed

lemma task_reachable:
  assumes "ok s" "run E (w, [Body s]) = Some w'"
  shows "(page_step E ok)\<^sup>*\<^sup>* (w, []) (w', [])"
  using task [of ok s E w] run_reachable [OF assms(2)] assms(1)
  by (meson converse_rtranclp_into_rtranclp)

theorem callbacks_reachable_ok_witness:
  "\<exists>w. run small_env (fresh_world ''unique'', [Body add_twice_and_fire]) = Some w \<and>
     c_list (lists w 0) = Some [5] \<and> (\<forall>xs. c_list (lists w 0) = Some xs \<longrightarrow> distinct xs)"
proof -
  have "map_option (\<lambda>w. (c_list (lists w 0), unique (c_flags (lists w 0))))
    (run small_env (fresh_world ''unique'', [Body add_twice_and_fire])) = Some (Some [5], True)"
    by code_simp
  then obtain w where w: "run small_env (fresh_world ''unique'', [Body add_twice_and_fire]) = Some w"
    "c_list (lists w 0) = Some [5]" "unique (c_flags (lists w 0))"
    by auto
  have "(page_step small_env (\<lambda>_. True))\<^sup>*\<^sup>* (fresh_world ''unique'', []) (w, [])"
    using w(1) by (intro task_reachable) simp_all
  from callbacks_reachable_ok [OF this, of 0] w show ?thesis by (auto simp: fresh_world_def)
qed

lemmas run_defs = small_env_def add_def loops_def fireWith_def begin_fire_def loop_step_def
  after_call_def advance_def leave_def end_fire_def Let_def set_list_def

theorem once_memory_single_value_witness:
  "\<exists>w. run small_env (fresh_world ''once memory'',
       [Body (Do (Add 0 [AFun 9, AFun 5]) (\<lambda>_. Do (Fire 0 3) (\<lambda>_. Do (Add 0 [AFun 6]) (\<lambda>_. Return True))))]) = Some w \<and>
     called w = [(0, 9, 3), (0, 5, 3), (0, 6, 3)] \<and> (\<forall>f u. (0, f, u) \<in> set (called w) \<longrightarrow> u = 3)"
proof -
  let ?s = "Do (Add 0 [AFun 9, AFun 5]) (\<lambda>_. Do (Fire 0 3) (\<lambda>_. Do (Add 0 [AFun 6]) (\<lambda>_. Return True)))
    :: (nat, nat, unit) script"
  have "map_option called (run small_env (fresh_world ''once memory'', [Body ?s])) = Some [(0, 9, 3), (0, 5, 3), (0, 6, 3)]"
    unfolding fresh_world_def small_flags plain_flags_def new_list_def
    by ((subst run.simps, simp add: run_defs)+)
  then obtain w where w: "run small_env (fresh_world ''once memory'', [Body ?s]) = Some w"
    "called w = [(0, 9, 3), (0, 5, 3), (0, 6, 3)]"
    by auto
  have r: "(page_step small_env (\<lambda>_. True))\<^sup>*\<^sup>* (fresh_world ''once memory'', []) (w, [])"
    using w(1) by (intro task_reachable) simp_all
  have "u = 3" if "(0, f, u) \<in> set (called w)" for f u
    by (rule once_memory_single_value [OF r _ _ _ that, of 9])
      (use w(2) in \<open>auto simp: fresh_world_def new_list_def small_flags plain_flags_def\<close>)
  with w show ?thesis by blast
qed

theorem empty_while_firing_wedges_witness:
  "\<exists>w'. run small_env (perform (Fire 0 8) (small_world ''stopOnFalse'' [1, 5])) = Some w' \<and> called w' = [(0, 1, 8)]"
proof -
  let ?w = "small_world ''stopOnFalse'' [1, 5]"
  have "lists ?w 0 = (new_list (plain_flags\<lparr>stopOnFalse := True\<rparr>))\<lparr>c_list := Some [1, 5]\<rparr>" "called ?w = []"
    by (simp_all add: small_world_def small_flags)
  with empty_while_firing_wedges [of ?w 0 1 5 "[]" small_env 8] show ?thesis
    by (auto simp: new_list_def small_env_def simp del: perform.simps)
qed

end
