(* ===== verification/JQ_Deferred.thy ===== *)
theory JQ_Deferred
  imports JQ_Callbacks
begin

text \<open>
  \<open>jquery-1.7.2.js\<close>, lines 1218 to 1355: \<open>jQuery.Deferred\<close> and \<open>jQuery.when\<close>, on the callback
  lists of \<open>JQ_Callbacks\<close>. The deferred \<open>d\<close> owns the lists \<open>3 * d\<close> (done), \<open>3 * d + 1\<close> (fail) and
  \<open>3 * d + 2\<close> (progress). Deferreds are numbered in the order of their creation; one that has not
  been created yet is in the state it will be created in.
\<close>

section \<open>Values and callbacks\<close>

text \<open>
  What handlers receive: a value of the page, \<open>undefined\<close>, an array, or the promise of a deferred.
  The values that \<open>when\<close> passes to \<open>notifyWith\<close> are an array it goes on changing, so they are a
  reference to it.
\<close>

datatype 'a val = Undefined | Plain 'a | Array "'a val list" | PromiseOf nat
datatype 'a this_obj = DeferredObj nat | PromiseObj nat | OtherObj 'a
datatype 'a arguments = Args "'a val list" | Progress nat

type_synonym 'a passed = "'a this_obj \<times> 'a arguments"

datatype dstate = Pending | Resolved | Rejected

text \<open>
  The functions in the lists: those that \<open>Deferred\<close> adds itself, a method such as
  \<open>newDefer.resolve\<close> (the method \<open>fire\<close> of a list), the closures of \<open>pipe\<close> and \<open>when\<close>, and the page's own.
\<close>

datatype 'u dcb =
    SetState nat dstate
  | DisableFn nat
  | LockFn nat
  | FireFn nat
  | PipeFn nat nat nat 'u
  | WhenDone nat nat
  | WhenProgress nat nat
  | User 'u

text \<open>The variables of a call of \<open>when\<close>.\<close>

record 'a when_vars =
  w_args :: "'a val list"
  w_pvalues :: "'a val list"
  w_count :: int
  w_deferred :: nat

record 'a dextra =
  states :: "nat \<Rightarrow> dstate"
  next_deferred :: nat
  whens :: "'a when_vars list"

type_synonym ('u, 'a) dworld = "('u dcb, 'a passed, 'a dextra) world"
type_synonym ('u, 'a, 'r) dprog = "('u dcb, 'a passed, 'a dextra, 'r) prog"

primrec bind_prog :: "('f, 'v, 'x, 'r) prog \<Rightarrow> ('r \<Rightarrow> ('f, 'v, 'x, 's) prog) \<Rightarrow> ('f, 'v, 'x, 's) prog" where
  "bind_prog (Return r) g = g r"
| "bind_prog (Throw e) g = Throw e"
| "bind_prog (Do d k) g = Do d (\<lambda>w. bind_prog (k w) g)"

definition change :: "('x \<Rightarrow> 'x) \<Rightarrow> ('f, 'v, 'x) op" where
  "change g = Silent (Touch g)"

definition exec :: "('f, 'v, 'x) op \<Rightarrow> ('f, 'v, 'x, unit) prog" where
  "exec d = Do d (\<lambda>_. Return ())"

definition then_do :: "('f, 'v, 'x, unit) prog \<Rightarrow> ('f, 'v, 'x, 's) prog \<Rightarrow> ('f, 'v, 'x, 's) prog" where
  "then_do p q = bind_prog p (\<lambda>_. q)"

section \<open>\<open>Deferred\<close>\<close>

definition done_list :: "nat \<Rightarrow> nat" where "done_list d = 3 * d"
definition fail_list :: "nat \<Rightarrow> nat" where "fail_list d = 3 * d + 1"
definition progress_list :: "nat \<Rightarrow> nat" where "progress_list d = 3 * d + 2"

text \<open>The callbacks a list starts with.\<close>

definition prologue :: "nat \<Rightarrow> 'u dcb list" where
  "prologue l =
     (let d = l div 3
      in if l mod 3 = 0 then [SetState d Resolved, DisableFn (fail_list d), LockFn (progress_list d)]
         else if l mod 3 = 1 then [SetState d Rejected, DisableFn (done_list d), LockFn (progress_list d)]
         else [])"

definition deferred_flags :: "nat \<Rightarrow> flags" where
  "deferred_flags l = createFlags (if l mod 3 = 2 then ''memory'' else ''once memory'')"

definition initial_list :: "nat \<Rightarrow> ('u dcb, 'a passed) cbs" where
  "initial_list l = fst (add (map AFun (prologue l)) (new_list (deferred_flags l)))"

definition initial_world :: "('u, 'a) dworld" where
  "initial_world = \<lparr>lists = initial_list, called = [],
     extra = \<lparr>states = (\<lambda>_. Pending), next_deferred = 0, whens = []\<rparr>\<rparr>"

text \<open>\<open>jQuery.Deferred(func)\<close>\<close>

definition Deferred :: "(nat \<Rightarrow> ('u, 'a, unit) dprog) \<Rightarrow> ('u, 'a, nat) dprog" where
  "Deferred func =
     Do (change (\<lambda>x. x\<lparr>next_deferred := Suc (next_deferred x)\<rparr>)) (\<lambda>w.
       let d = next_deferred (extra w) - 1 in then_do (func d) (Return d))"

definition dDone :: "nat \<Rightarrow> 'u dcb arg list \<Rightarrow> ('u, 'a, unit) dprog" where
  "dDone d fs = exec (Add (done_list d) fs)"

definition dFail :: "nat \<Rightarrow> 'u dcb arg list \<Rightarrow> ('u, 'a, unit) dprog" where
  "dFail d fs = exec (Add (fail_list d) fs)"

definition dProgress :: "nat \<Rightarrow> 'u dcb arg list \<Rightarrow> ('u, 'a, unit) dprog" where
  "dProgress d fs = exec (Add (progress_list d) fs)"

definition resolveWith :: "nat \<Rightarrow> 'a passed \<Rightarrow> ('u, 'a, unit) dprog" where
  "resolveWith d v = exec (Fire (done_list d) v)"

definition rejectWith :: "nat \<Rightarrow> 'a passed \<Rightarrow> ('u, 'a, unit) dprog" where
  "rejectWith d v = exec (Fire (fail_list d) v)"

definition notifyWith :: "nat \<Rightarrow> 'a passed \<Rightarrow> ('u, 'a, unit) dprog" where
  "notifyWith d v = exec (Fire (progress_list d) v)"

definition state_of :: "nat \<Rightarrow> ('u, 'a) dworld \<Rightarrow> dstate" where
  "state_of d w = states (extra w) d"

definition isResolved :: "nat \<Rightarrow> ('u, 'a) dworld \<Rightarrow> bool" where
  "isResolved d w = c_fired (lists w (done_list d))"

definition isRejected :: "nat \<Rightarrow> ('u, 'a) dworld \<Rightarrow> bool" where
  "isRejected d w = c_fired (lists w (fail_list d))"

definition dThen :: "nat \<Rightarrow> 'u dcb arg \<Rightarrow> 'u dcb arg \<Rightarrow> 'u dcb arg \<Rightarrow> ('u, 'a, unit) dprog" where
  "dThen d f g h = then_do (dDone d [f]) (then_do (dFail d [g]) (dProgress d [h]))"

definition dAlways :: "nat \<Rightarrow> 'u dcb arg list \<Rightarrow> ('u, 'a, unit) dprog" where
  "dAlways d fs = then_do (dDone d fs) (dFail d fs)"

text \<open>One round of the loop in \<open>pipe\<close>: \<open>i\<close> is 0, 1 or 2 for the handler and the action.\<close>

definition pipe_handler :: "nat \<Rightarrow> nat \<Rightarrow> nat \<Rightarrow> 'u option \<Rightarrow> ('u, 'a, unit) dprog" where
  "pipe_handler d n i fn =
     exec (Add (3 * d + i) [AFun (case fn of Some u \<Rightarrow> PipeFn d n i u | None \<Rightarrow> FireFn (3 * n + i))])"

definition pipe :: "nat \<Rightarrow> 'u option \<Rightarrow> 'u option \<Rightarrow> 'u option \<Rightarrow> ('u, 'a, nat) dprog" where
  "pipe d fnDone fnFail fnProgress =
     Deferred (\<lambda>n. then_do (pipe_handler d n 0 fnDone)
       (then_do (pipe_handler d n 1 fnFail) (pipe_handler d n 2 fnProgress)))"

text \<open>What the closure of \<open>pipe\<close> does with the result of the page's function.\<close>

definition pipe_result :: "nat \<Rightarrow> nat \<Rightarrow> nat \<Rightarrow> 'a this_obj \<Rightarrow> 'a val \<Rightarrow> ('u, 'a, unit) dprog" where
  "pipe_result d n i this returned =
     (case returned of
        PromiseOf p \<Rightarrow>
          dThen p (AFun (FireFn (done_list n))) (AFun (FireFn (fail_list n))) (AFun (FireFn (progress_list n)))
      | _ \<Rightarrow> exec (Fire (3 * n + i) (if this = DeferredObj d then DeferredObj n else this, Args [returned])))"

section \<open>\<open>when\<close>\<close>

definition update_when :: "nat \<Rightarrow> ('a when_vars \<Rightarrow> 'a when_vars) \<Rightarrow> 'a dextra \<Rightarrow> 'a dextra" where
  "update_when k g x = x\<lparr>whens := (whens x)[k := g (whens x ! k)]\<rparr>"

definition arg_list :: "('u, 'a) dworld \<Rightarrow> 'a arguments \<Rightarrow> 'a val list" where
  "arg_list w as = (case as of Args vs \<Rightarrow> vs | Progress k \<Rightarrow> w_pvalues (whens (extra w) ! k))"

text \<open>\<open>arguments.length > 1 ? slice(arguments) : value\<close>\<close>

definition single :: "'a val list \<Rightarrow> 'a val" where
  "single vs = (case vs of [] \<Rightarrow> Undefined | [v] \<Rightarrow> v | _ \<Rightarrow> Array vs)"

definition resolveFunc :: "nat \<Rightarrow> nat \<Rightarrow> 'a passed \<Rightarrow> ('u, 'a) dworld \<Rightarrow> ('u, 'a, unit) dprog" where
  "resolveFunc k i v w =
     Do (change (update_when k (\<lambda>q. q\<lparr>w_args := (w_args q)[i := single (arg_list w (snd v))], w_count := w_count q - 1\<rparr>))) (\<lambda>w1.
       let q = whens (extra w1) ! k
       in if w_count q = 0 then resolveWith (w_deferred q) (DeferredObj (w_deferred q), Args (w_args q)) else Return ())"

definition progressFunc :: "nat \<Rightarrow> nat \<Rightarrow> 'a passed \<Rightarrow> ('u, 'a) dworld \<Rightarrow> ('u, 'a, unit) dprog" where
  "progressFunc k i v w =
     Do (change (update_when k (\<lambda>q. q\<lparr>w_pvalues := (w_pvalues q)[i := single (arg_list w (snd v))]\<rparr>))) (\<lambda>w1.
       let q = whens (extra w1) ! k in notifyWith (w_deferred q) (PromiseObj (w_deferred q), Progress k))"

fun when_args :: "nat \<Rightarrow> nat \<Rightarrow> nat \<Rightarrow> 'a val list \<Rightarrow> ('u, 'a, unit) dprog" where
  "when_args k d i [] = Return ()"
| "when_args k d i (PromiseOf p # vs) =
     then_do (dThen p (AFun (WhenDone k i)) (AFun (FireFn (fail_list d))) (AFun (WhenProgress k i)))
       (when_args k d (Suc i) vs)"
| "when_args k d i (v # vs) =
     then_do (exec (change (update_when k (\<lambda>q. q\<lparr>w_count := w_count q - 1\<rparr>)))) (when_args k d (Suc i) vs)"

text \<open>The deferred of \<open>when\<close>; the result is the deferred whose promise \<open>when\<close> returns.\<close>

definition when_many :: "'a val list \<Rightarrow> nat \<Rightarrow> ('u, 'a, unit) dprog" where
  "when_many vs d =
     Do (change (\<lambda>x. x\<lparr>whens := whens x @ [\<lparr>w_args = vs, w_pvalues = replicate (length vs) Undefined,
          w_count = int (length vs), w_deferred = d\<rparr>]\<rparr>)) (\<lambda>w.
       let k = length (whens (extra w)) - 1
       in then_do (when_args k d 0 vs)
         (Do (change id) (\<lambda>w1.
            let q = whens (extra w1) ! k
            in if w_count q = 0 then resolveWith d (DeferredObj d, Args (w_args q)) else Return ())))"

definition when_all :: "'a val list \<Rightarrow> ('u, 'a, nat) dprog" where
  "when_all vs =
     (case vs of
        [PromiseOf p] \<Rightarrow> Return p
      | [] \<Rightarrow> Deferred (\<lambda>d. resolveWith d (DeferredObj d, Args []))
      | [v] \<Rightarrow> Deferred (\<lambda>d. resolveWith d (DeferredObj d, Args [v]))
      | _ \<Rightarrow> Deferred (when_many vs))"

section \<open>What the functions do\<close>

text \<open>
  \<open>body\<close> are the page's functions. A handler that returns \<open>false\<close> does not stop the lists of a
  deferred, which lack the flag \<open>stopOnFalse\<close>; so the result is \<open>True\<close> for all of them.
\<close>

definition dcall ::
  "('u \<Rightarrow> 'a passed \<Rightarrow> ('u, 'a) dworld \<Rightarrow> ('u, 'a, 'a val) dprog) \<Rightarrow> 'u dcb \<Rightarrow> 'a passed \<Rightarrow>
   ('u dcb, 'a passed, 'a dextra) behaviour" where
  "dcall body f v =
     (case f of
        SetState d s \<Rightarrow> Native [Touch (\<lambda>x. x\<lparr>states := (states x)(d := s)\<rparr>)]
      | DisableFn l \<Rightarrow> Native [Disable l]
      | LockFn l \<Rightarrow> Native [Lock l]
      | FireFn l \<Rightarrow> Page (\<lambda>_. Do (Fire l v) (\<lambda>_. Return True))
      | PipeFn d n i u \<Rightarrow> Page (\<lambda>w. bind_prog (body u v w) (\<lambda>r. then_do (pipe_result d n i (fst v) r) (Return True)))
      | WhenDone k i \<Rightarrow> Page (\<lambda>w. then_do (resolveFunc k i v w) (Return True))
      | WhenProgress k i \<Rightarrow> Page (\<lambda>w. then_do (progressFunc k i v w) (Return True))
      | User u \<Rightarrow> Page (\<lambda>w. bind_prog (body u v w) (\<lambda>_. Return True)))"

section \<open>What pages can do\<close>

text \<open>
  The methods of a deferred and its promise only add to its lists and fire them, and none of the
  functions that \<open>Deferred\<close> puts at their front is accessible.
\<close>

fun public :: "'u dcb \<Rightarrow> bool" where
  "public (SetState d s) = False"
| "public (DisableFn l) = False"
| "public (LockFn l) = False"
| "public _ = True"

fun public_arg :: "'u dcb arg \<Rightarrow> bool" where
  "public_arg (AFun f) = public f"
| "public_arg (AArr as) = list_all public_arg as"
| "public_arg AOther = True"

fun allowed :: "('u dcb, 'a passed, 'a dextra) op \<Rightarrow> bool" where
  "allowed (Add l as) = list_all public_arg as"
| "allowed (Fire l v) = True"
| "allowed (Silent (Touch g)) = (\<forall>x. states (g x) = states x)"
| "allowed (Silent _) = False"

primrec api_only :: "('u, 'a, 'r) dprog \<Rightarrow> bool" where
  "api_only (Return r) = True"
| "api_only (Throw e) = True"
| "api_only (Do d k) = (allowed d \<and> (\<forall>w. api_only (k w)))"

lemma api_bind [wf_intros]: "api_only p \<Longrightarrow> (\<And>r. api_only (g r)) \<Longrightarrow> api_only (bind_prog p g)"
  by (induction p) auto

lemma api_then [wf_intros]: "api_only p \<Longrightarrow> api_only q \<Longrightarrow> api_only (then_do p q)"
  unfolding then_do_def by (rule api_bind)

lemma api_exec [simp]: "api_only (exec d) = allowed d"
  by (simp add: exec_def)

lemma allowed_change [simp]: "allowed (change g) = (\<forall>x. states (g x) = states x)"
  by (simp add: change_def)

lemma api_Deferred [wf_intros]: "(\<And>d. api_only (f d)) \<Longrightarrow> api_only (Deferred f)"
  by (simp add: Deferred_def Let_def api_then)

lemma api_dThen [wf_intros]: "public_arg f \<Longrightarrow> public_arg g \<Longrightarrow> public_arg h \<Longrightarrow> api_only (dThen d f g h)"
  by (simp add: dThen_def dDone_def dFail_def dProgress_def api_then)

lemma api_pipe [wf_intros]: "api_only (pipe d f g h)"
  unfolding pipe_def by (intro wf_intros) (simp_all add: pipe_handler_def split: option.splits)

lemma api_pipe_result [wf_intros]: "api_only (pipe_result d n i this r)"
  by (auto simp: pipe_result_def split: val.splits intro!: wf_intros)

lemma states_update_when [simp]: "states (update_when k g x) = states x"
  by (simp add: update_when_def)

lemma api_resolveFunc [wf_intros]: "api_only (resolveFunc k i v w)" "api_only (progressFunc k i v w)"
  by (simp_all add: resolveFunc_def progressFunc_def resolveWith_def notifyWith_def Let_def)

lemma api_when_args [wf_intros]: "api_only (when_args k d i vs)"
  by (induction k d i vs rule: when_args.induct) (auto intro!: wf_intros)

lemma api_when: "api_only (when_all vs)"
proof -
  have "api_only (when_many vs d)" for d
    by (simp add: when_many_def Let_def resolveWith_def api_then api_when_args)
  then show ?thesis
    unfolding when_all_def by (auto split: list.splits val.splits simp: resolveWith_def intro!: wf_intros)
qed

lemma api_dcall:
  assumes "\<And>u v w. api_only (body u v w)" "public f" "dcall body f v = Page s"
  shows "api_only (s w)"
  using assms(2,3) assms(1) [of _ v] by (cases f) (auto simp: dcall_def intro!: wf_intros)

section \<open>Which functions a list can hold\<close>

definition held :: "('f, 'v) cbs \<Rightarrow> 'f set" where
  "held c = (case c_list c of None \<Rightarrow> {} | Some xs \<Rightarrow> set xs)"

lemma held_sel [simp]:
  "held (disable c) = {}" "held (advance c) = held c" "held (begin_fire v c) = held c"
  "held (c\<lparr>c_stack := t\<rparr>) = held c" "held (c\<lparr>c_memory := m\<rparr>) = held c" "held (c\<lparr>c_firing := b\<rparr>) = held c"
  by (simp_all add: held_def disable_def begin_fire_def advance_def)

lemma held_lock: "held (lock c) \<subseteq> held c"
  using lock_cases [of c] by auto

lemma held_fire: "held (fst (fireWith v c)) = held c"
  by (simp add: fireWith_def held_def begin_fire_def split: option.splits)

lemma held_end: "held (fst (end_fire c)) \<subseteq> held c"
  by (auto simp: end_fire_def Let_def held_fire split: option.splits list.splits)
    (auto simp: held_def)

lemma add_arg_public:
  "f \<in> set (add_arg fl a xs) \<Longrightarrow> public_arg a \<Longrightarrow> f \<in> set xs \<or> public f"
  "f \<in> set (add_args fl as xs) \<Longrightarrow> list_all public_arg as \<Longrightarrow> f \<in> set xs \<or> public f"
  by (induction fl a xs and fl as xs rule: add_arg_add_args.induct) (auto split: if_splits)

lemma held_add_eq: "c_list c = Some xs \<Longrightarrow> held (fst (add as c)) = set (add_args (c_flags c) as xs)"
  by (cases "c_firing c"; cases "c_memory c") (simp_all add: add_def held_def begin_fire_def Let_def)

lemma held_add: "f \<in> held (fst (add as c)) \<Longrightarrow> list_all public_arg as \<Longrightarrow> f \<in> held c \<or> public f"
proof (cases "c_list c")
  case (Some xs)
  assume "f \<in> held (fst (add as c))" "list_all public_arg as"
  with add_arg_public(2) [of f "c_flags c" as xs] Some show ?thesis
    unfolding held_add_eq [OF Some] by (simp add: held_def)
qed (simp add: add_def)

definition owns :: "nat \<Rightarrow> ('u dcb, 'v) cbs \<Rightarrow> bool" where
  "owns l c \<longleftrightarrow> (\<forall>f \<in> held c. public f \<or> f \<in> set (prologue l))"

fun frame_ok :: "('u dcb, 'a passed, 'a dextra) frame \<Rightarrow> bool" where
  "frame_ok (Loop l v) = True"
| "frame_ok (Body s) = api_only s"
| "frame_ok (Wait k) = (\<forall>w. api_only (k w))"

fun owned :: "('u dcb, 'a passed, 'a dextra) config \<Rightarrow> bool" where
  "owned (w, fs) = ((\<forall>l. owns l (lists w l)) \<and> (\<forall>f \<in> set fs. frame_ok f))"

lemma owns_mono: "owns l c \<Longrightarrow> held c' \<subseteq> held c \<Longrightarrow> owns l c'"
  by (auto simp: owns_def)

definition tame :: "('f, 'x) silent_op \<Rightarrow> bool" where
  "tame d = (case d of Disable l \<Rightarrow> True | Lock l \<Rightarrow> True | Touch g \<Rightarrow> True | _ \<Rightarrow> False)"

lemma native_tame: "dcall body f v = Native ds \<Longrightarrow> \<forall>d \<in> set ds. tame d"
  by (cases f) (auto simp: dcall_def tame_def)

lemma owns_lock: "owns l c \<Longrightarrow> owns l (lock c)"
  by (rule owns_mono [OF _ held_lock])

lemma tame_owns: "tame d \<Longrightarrow> \<forall>k. owns k (lists w k) \<Longrightarrow> \<forall>k. owns k (lists (perform_silent d w) k)"
  by (cases d) (simp_all add: tame_def owns_lock, simp_all add: owns_def)

lemma owns_native:
  "\<forall>d \<in> set ds. tame d \<Longrightarrow> \<forall>k. owns k (lists w k) \<Longrightarrow> \<forall>k. owns k (lists (fold perform_silent ds w) k)"
  by (induction ds arbitrary: w) (simp, metis fold_simps(2) list.set_intros tame_owns)

lemma owned_loops:
  assumes "owned (w, fs)" "owns l (fst r)"
  shows "owned (fst (loops l r w), snd (loops l r w) @ fs)"
  using assms by (auto simp: loops_def split: option.splits)

lemma owned_leave: "owned (w, fs) \<Longrightarrow> owned (leave l fs w)"
  using owned_loops [of w fs l "end_fire (lists w l)"] owns_mono [OF _ held_end, of l "lists w l"]
  by (auto simp: leave_def case_prod_beta simp del: owned.simps) (simp add: owned.simps)

lemma owned_perform:
  assumes "owned (w, fs)" "allowed d"
  shows "owned (fst (perform d w), snd (perform d w) @ fs)"
proof -
  have w: "owns l (lists w l)" for l using assms(1) by simp
  show ?thesis
  proof (cases d)
    case (Silent e)
    with assms show ?thesis by (cases e) auto
  next
    case (Add l as)
    have "owns l (fst (add as (lists w l)))"
      using w [of l] held_add [of _ as "lists w l"] assms(2) Add unfolding owns_def by fastforce
    with assms(1) show ?thesis unfolding Add perform.simps by (rule owned_loops)
  next
    case (Fire l v)
    have "owns l (fst (fireWith v (lists w l)))" using w [of l] by (simp add: owns_def held_fire)
    with assms(1) show ?thesis unfolding Fire perform.simps by (rule owned_loops)
  qed
qed

lemma owned_loop_step:
  assumes "owned (w, Loop l v # fs)" and body: "\<And>u v w. api_only (body u v w)"
  shows "owned (loop_step (dcall body) l v fs w)"
proof (cases "c_list (lists w l) = None \<or> \<not> c_index (lists w l) < c_length (lists w l)")
  case True
  then have "loop_step (dcall body) l v fs w = leave l fs w"
    by (auto simp: loop_step_def Let_def split: option.splits)
  moreover have "owned (w, fs)" using assms(1) by simp
  ultimately show ?thesis using owned_leave by (simp del: owned.simps)
next
  case False
  then obtain xs where xs: "c_list (lists w l) = Some xs" by auto
  define f where "f = xs ! nat (c_index (lists w l))"
  let ?w = "w\<lparr>called := called w @ [(l, f, v)]\<rparr>"
  show ?thesis
  proof (cases "dcall body f v")
    case (Native ds)
    have "\<forall>k. owns k (lists (fold perform_silent ds ?w) k)"
      by (rule owns_native [OF native_tame [OF Native]]) (use assms in simp)
    with assms(1) False Native show ?thesis
      by (auto simp: loop_step_def xs f_def Let_def owns_def)
  next
    case (Page s)
    have "api_only (s ?w)"
    proof (cases "public f")
      case True
      then show ?thesis by (rule api_dcall [OF body _ Page])
    next
      case False
      with Page show ?thesis by (cases f) (simp_all add: dcall_def)
    qed
    with assms(1) False Page show ?thesis by (simp add: loop_step_def xs f_def Let_def)
  qed
qed

lemma owned_after_call:
  assumes "owned (w, Loop l v # fs)"
  shows "owned (after_call l v r fs w)"
proof -
  have "owned (set_list l ((lists w l)\<lparr>c_memory := MTrue\<rparr>) w, fs)"
    using assms by (auto simp: owns_def)
  from owned_leave [OF this, of l] show ?thesis
    using assms by (auto simp: after_call_def Let_def owns_def simp del: owned.simps) (auto simp: owns_def)
qed

lemma owned_frame:
  assumes "run_frame (dcall body) c = Some c'" "owned c" and body: "\<And>u v w. api_only (body u v w)"
  shows "owned c'"
  using assms(1,2)
proof (induction "dcall body" c rule: run_frame.induct)
  case (2 w l v fs)
  from owned_loop_step [where body = body, OF 2(2) body] 2(1) show ?case by (simp del: owned.simps)
next
  case (5 w d k fs)
  have "owned (w, Wait k # fs)" "allowed d" using 5(2) by simp_all
  from owned_perform [OF this] show ?case using 5(1) by (auto simp del: owned.simps split: prod.splits)
next
  case (6 w r fs)
  then have ok: "owned (w, fs)" by simp
  show ?case
  proof (cases "\<exists>l v rest. fs = Loop l v # rest")
    case True
    then obtain l v rest where fs: "fs = Loop l v # rest" by blast
    from owned_after_call [OF ok [unfolded fs], of r] 6(1) fs show ?thesis by (simp del: owned.simps)
  next
    case False
    then have "run_frame (dcall body) (w, Body (Return r) # fs) = Some (w, fs)"
      by (auto split: list.splits frame.splits)
    with 6(1) ok show ?thesis by (simp del: owned.simps)
  qed
qed auto

section \<open>The phases of a deferred\<close>

text \<open>\<open>r\<close> says which of the two outcomes is meant; \<open>own r d\<close> is its list.\<close>

definition own :: "bool \<Rightarrow> nat \<Rightarrow> nat" where
  "own r d = (if r then done_list d else fail_list d)"

definition outcome :: "bool \<Rightarrow> dstate" where
  "outcome r = (if r then Resolved else Rejected)"

definition idle :: "nat \<Rightarrow> ('u dcb, 'v) cbs \<Rightarrow> bool" where
  "idle l c \<longleftrightarrow> (\<exists>xs. c_list c = Some (prologue l @ xs)) \<and> \<not> c_firing c \<and> c_start c = 0 \<and>
     c_memory c = MUndef \<and> c_stack c = Some [] \<and> \<not> unique (c_flags c)"

definition running :: "nat \<Rightarrow> nat \<Rightarrow> ('u dcb, 'v) cbs \<Rightarrow> bool" where
  "running l k c \<longleftrightarrow> (\<exists>xs. c_list c = Some (prologue l @ xs) \<and> c_index c = int k \<and>
     c_length c = int (3 + length xs)) \<and> k < 3"

definition off :: "('f, 'v) cbs \<Rightarrow> bool" where
  "off c \<longleftrightarrow> c_list c = None \<and> c_stack c = None"

definition not_called :: "nat \<Rightarrow> ('f, 'v, 'x) world \<Rightarrow> bool" where
  "not_called l w \<longleftrightarrow> (\<forall>f v. (l, f, v) \<notin> set (called w))"

fun pending :: "nat \<Rightarrow> ('u dcb, 'a passed, 'a dextra) config \<Rightarrow> bool" where
  "pending d (w, fs) = (states (extra w) d = Pending \<and>
     (\<forall>r. idle (own r d) (lists w (own r d)) \<and> not_called (own r d) w \<and> own r d \<notin> set (looping fs)))"

fun settling :: "bool \<Rightarrow> nat \<Rightarrow> nat \<Rightarrow> ('u dcb, 'a passed, 'a dextra) config \<Rightarrow> bool" where
  "settling r k d (w, fs) = (\<exists>v rest. fs = Loop (own r d) v # rest \<and>
     (\<forall>q. own q d \<notin> set (looping rest)) \<and> not_called (own (\<not> r) d) w \<and>
     running (own r d) k (lists w (own r d)) \<and>
     (if k \<le> 1 then idle (own (\<not> r) d) (lists w (own (\<not> r) d)) else off (lists w (own (\<not> r) d))) \<and>
     states (extra w) d = (if k = 0 then Pending else outcome r) \<and> (k = 0 \<longrightarrow> not_called (own r d) w))"

fun settled :: "bool \<Rightarrow> nat \<Rightarrow> ('u dcb, 'a passed, 'a dextra) config \<Rightarrow> bool" where
  "settled r d (w, fs) = (off (lists w (own (\<not> r) d)) \<and> not_called (own (\<not> r) d) w \<and>
     own (\<not> r) d \<notin> set (looping fs) \<and> states (extra w) d = outcome r)"

definition phase :: "nat \<Rightarrow> ('u dcb, 'a passed, 'a dextra) config \<Rightarrow> bool" where
  "phase d c \<longleftrightarrow> pending d c \<or> (\<exists>r k. settling r k d c) \<or> (\<exists>r. settled r d c)"

lemma own_inj [simp]: "own r d = own q e \<longleftrightarrow> r = q \<and> d = e"
  unfolding own_def done_list_def fail_list_def by (cases r; cases q) (simp_all, presburger+)

lemma own_neq_progress [simp]: "own r d \<noteq> progress_list e" "progress_list e \<noteq> own r d"
  unfolding own_def done_list_def fail_list_def progress_list_def by (cases r; simp; presburger)+

lemma prologue_own: "prologue (own r d) = [SetState d (outcome r), DisableFn (own (\<not> r) d), LockFn (progress_list d)]"
proof -
  have "Suc (3 * d) div 3 = d" by presburger
  then show ?thesis by (simp add: prologue_def own_def outcome_def done_list_def fail_list_def Let_def)
qed

lemma prologue_cases:
  assumes "f \<in> set (prologue l)"
  obtains r d where "l = own r d" "f \<in> {SetState d (outcome r), DisableFn (own (\<not> r) d), LockFn (progress_list d)}"
proof -
  consider "l mod 3 = 0" | "l mod 3 = 1" using assms by (auto simp: prologue_def Let_def split: if_splits)
  then show thesis
  proof cases
    case 1
    then have "l = own True (l div 3)" by (simp add: own_def done_list_def) presburger
    with assms show thesis by (intro that [of True "l div 3"]) (metis list.set prologue_own)+
  next
    case 2
    then have "l = own False (l div 3)" by (simp add: own_def fail_list_def) presburger
    with assms show thesis by (intro that [of False "l div 3"]) (metis list.set prologue_own)+
  qed
qed

text \<open>Steps that leave the lists of \<open>d\<close> alone.\<close>

definition aside :: "nat \<Rightarrow> ('u, 'a) dworld \<Rightarrow> ('u, 'a) dworld \<Rightarrow> bool" where
  "aside l w w' \<longleftrightarrow> lists w' l = lists w l \<and> (\<forall>f v. (l, f, v) \<in> set (called w') \<longleftrightarrow> (l, f, v) \<in> set (called w))"

lemma pending_aside:
  assumes "pending d (w, fs)" "\<And>r. aside (own r d) w w'" "states (extra w') d = states (extra w) d"
    and "\<And>r. own r d \<in> set (looping fs') \<Longrightarrow> own r d \<in> set (looping fs)"
  shows "pending d (w', fs')"
  using assms unfolding pending.simps aside_def not_called_def by metis

lemma settled_aside:
  assumes "settled r d (w, fs)" "aside (own (\<not> r) d) w w'" "states (extra w') d = states (extra w) d"
    and "own (\<not> r) d \<in> set (looping fs') \<Longrightarrow> own (\<not> r) d \<in> set (looping fs)"
  shows "settled r d (w', fs')"
  using assms unfolding settled.simps aside_def not_called_def by metis

lemma aside_refl [simp]: "aside l w w"
  by (simp add: aside_def)

lemma aside_set_list [simp]: "k \<noteq> l \<Longrightarrow> aside l w (set_list k c w)"
  by (simp add: aside_def)

lemma aside_trans: "aside l w w' \<Longrightarrow> aside l w' w'' \<Longrightarrow> aside l w w''"
  by (auto simp: aside_def)

lemma looping_loops: "set (looping (snd (loops k r w))) \<subseteq> {k}"
  by (auto simp: loops_def split: option.splits)

lemma leave_aside:
  assumes "k \<noteq> l" "leave k fs w = (w', fs')"
  shows "aside l w w' \<and> states (extra w') d = states (extra w) d \<and>
    (l \<in> set (looping fs') \<longrightarrow> l \<in> set (looping fs))"
  using assms looping_loops [of k "end_fire (lists w k)" w]
  by (auto simp: leave_def loops_def aside_def split: prod.splits)

text \<open>Operations of pages: on the lists of others, and on those of \<open>d\<close>.\<close>

lemma perform_aside:
  assumes "allowed op" "perform op w = (w', new)"
    and "\<And>as. op \<noteq> Add l as" "\<And>v. op \<noteq> Fire l v"
  shows "aside l w w' \<and> states (extra w') d = states (extra w) d \<and> l \<notin> set (looping new)"
proof (cases op)
  case (Silent e)
  then show ?thesis using assms by (cases e) (auto simp: aside_def)
next
  case (Add k as)
  with assms(3) have "k \<noteq> l" by blast
  with Add show ?thesis using assms(2) looping_loops [of k "add as (lists w k)" w]
    by (auto simp: loops_def)
next
  case (Fire k v)
  with assms(4) have "k \<noteq> l" by blast
  with Fire show ?thesis using assms(2) looping_loops [of k "fireWith v (lists w k)" w]
    by (auto simp: loops_def)
qed

lemma add_args_append: "\<not> unique fl \<Longrightarrow> \<exists>ys. add_arg fl a xs = xs @ ys"
  "\<not> unique fl \<Longrightarrow> \<exists>ys. add_args fl as xs = xs @ ys"
  by (induction fl a xs and fl as xs rule: add_arg_add_args.induct) fastforce+

lemma add_idle:
  assumes "idle l c"
  shows "idle l (fst (add as c))" "snd (add as c) = None"
proof -
  from assms obtain xs where c: "c_list c = Some (prologue l @ xs)" "\<not> c_firing c" "c_memory c = MUndef"
    by (auto simp: idle_def)
  obtain ys where "add_args (c_flags c) as (prologue l @ xs) = (prologue l @ xs) @ ys"
    using add_args_append(2) assms unfolding idle_def by blast
  with c assms show "idle l (fst (add as c))" "snd (add as c) = None"
    by (auto simp: add_def idle_def Let_def)
qed

lemma fire_idle:
  assumes "idle (own r d) c"
  shows "running (own r d) 0 (fst (fireWith v c))" "snd (fireWith v c) = Some v"
  using assms by (auto simp: idle_def fireWith_def running_def begin_fire_def prologue_own)

lemma off_ops: "off c \<Longrightarrow> add as c = (c, None)" "off c \<Longrightarrow> fireWith v c = (c, None)"
  by (simp_all add: off_def add_def fireWith_def)

lemma pending_perform:
  assumes "pending d (w, fs)" "allowed op" "perform op w = (w', new)"
  shows "phase d (w', new @ Wait k # fs)"
proof -
  from assms(1) have c: "idle (own r d) (lists w (own r d))" "not_called (own r d) w" "own r d \<notin> set (looping fs)" for r
    by simp_all
  consider r as where "op = Add (own r d) as" | r v where "op = Fire (own r d) v"
    | "\<forall>r as. op \<noteq> Add (own r d) as" "\<forall>r v. op \<noteq> Fire (own r d) v" by blast
  then show ?thesis
  proof cases
    case (1 r as)
    with assms(3) add_idle [OF c(1) [of r], of as]
    have "w' = set_list (own r d) (fst (add as (lists w (own r d)))) w" "new = []"
      by (auto simp: loops_def)
    with assms(1) add_idle(1) [OF c(1) [of r], of as] have "pending d (w', new @ Wait k # fs)"
      by (auto simp: not_called_def)
    then show ?thesis by (simp add: phase_def)
  next
    case (2 r v)
    with assms(3) fire_idle [OF c(1) [of r], of v]
    have "w' = set_list (own r d) (fst (fireWith v (lists w (own r d)))) w" "new = [Loop (own r d) v]"
      by (auto simp: loops_def)
    with assms(1) fire_idle(1) [OF c(1) [of r], of v] have "settling r 0 d (w', new @ Wait k # fs)"
      by (auto simp: not_called_def)
    then show ?thesis unfolding phase_def by blast
  next
    case 3
    from 3 have "aside (own r d) w w' \<and> states (extra w') d = states (extra w) d \<and> own r d \<notin> set (looping new)" for r
      by (intro perform_aside [OF assms(2,3)]) auto
    then have "pending d (w', new @ Wait k # fs)" by (intro pending_aside [OF assms(1)]) auto
    then show ?thesis by (simp add: phase_def)
  qed
qed

lemma settled_perform:
  assumes "settled r d (w, fs)" "allowed op" "perform op w = (w', new)"
  shows "settled r d (w', new @ Wait k # fs)"
proof -
  let ?b = "own (\<not> r) d"
  have o: "off (lists w ?b)" using assms(1) by simp
  consider as where "op = Add ?b as" | v where "op = Fire ?b v"
    | "\<forall>as. op \<noteq> Add ?b as" "\<forall>v. op \<noteq> Fire ?b v" by blast
  then show ?thesis
  proof cases
    case 3
    then have "aside ?b w w' \<and> states (extra w') d = states (extra w) d \<and> ?b \<notin> set (looping new)"
      by (intro perform_aside [OF assms(2,3)]) auto
    then show ?thesis by (intro settled_aside [OF assms(1)]) auto
  qed (use assms(1,3) off_ops [OF o] in \<open>auto simp: loops_def not_called_def\<close>)
qed

text \<open>What the functions at the front of the lists do to the lists and the state of \<open>d\<close>.\<close>

lemma native_aside:
  assumes "dcall body f v = Native ds" "owns l (lists w l)" "f \<in> held (lists w l)" "l \<notin> {own r d | r. True}"
  shows "aside (own r d) w (fold perform_silent ds w) \<and> states (extra (fold perform_silent ds w)) d = states (extra w) d"
proof -
  have "\<not> public f" using assms(1) by (cases f) (simp_all add: dcall_def)
  with assms(2,3) have "f \<in> set (prologue l)" by (auto simp: owns_def)
  then obtain q e where l: "l = own q e" "f \<in> {SetState e (outcome q), DisableFn (own (\<not> q) e), LockFn (progress_list e)}"
    by (rule prologue_cases)
  with assms(4) have "e \<noteq> d" by blast
  with l(2) assms(1) show ?thesis by (auto simp: dcall_def aside_def)
qed

lemma native_own:
  assumes "dcall body f v = Native ds" "owns (own r d) (lists w (own r d))" "f \<in> held (lists w (own r d))"
    and "off (lists w (own (\<not> r) d))" "states (extra w) d = outcome r"
  shows "off (lists (fold perform_silent ds w) (own (\<not> r) d)) \<and>
    called (fold perform_silent ds w) = called w \<and> states (extra (fold perform_silent ds w)) d = outcome r"
proof -
  have "\<not> public f" using assms(1) by (cases f) (simp_all add: dcall_def)
  with assms(2,3) have "f \<in> {SetState d (outcome r), DisableFn (own (\<not> r) d), LockFn (progress_list d)}"
    by (auto simp: owns_def prologue_own)
  with assms(1,4,5) show ?thesis by (auto simp: dcall_def off_def disable_def)
qed

lemma aside_called [simp]: "l \<noteq> k \<Longrightarrow> aside l w (w\<lparr>called := called w @ [(k, f, v)]\<rparr>)"
  by (auto simp: aside_def)

text \<open>The outcomes of one round of a loop.\<close>

lemma loop_step_cases:
  assumes "loop_step E l v fs w = (w', fs')"
  obtains
    (leave) "leave l fs w = (w', fs')"
  | (throw) "w' = w" "fs' = Body (Throw TypeError) # Loop l v # fs"
  | (native) f ds u where "f \<in> held (lists w l)" "E f v = Native ds"
      "u = fold perform_silent ds (w\<lparr>called := called w @ [(l, f, v)]\<rparr>)"
      "w' = set_list l (advance (lists u l)) u" "fs' = Loop l v # fs"
  | (page) f s where "f \<in> held (lists w l)" "E f v = Page s" "w' = w\<lparr>called := called w @ [(l, f, v)]\<rparr>"
      "fs' = Body (s w') # Loop l v # fs"
proof (cases "c_list (lists w l) = None \<or> \<not> c_index (lists w l) < c_length (lists w l)")
  case True
  with assms leave show thesis by (auto simp: loop_step_def Let_def split: option.splits)
next
  case False
  then obtain xs where xs: "c_list (lists w l) = Some xs" by auto
  show thesis
  proof (cases "c_index (lists w l) < 0 \<or> int (length xs) \<le> c_index (lists w l)")
    case True
    with False assms throw show thesis by (simp add: loop_step_def xs)
  next
    case in_range: False
    define f where "f = xs ! nat (c_index (lists w l))"
    have "f \<in> held (lists w l)" using in_range by (auto simp: held_def xs f_def nat_less_iff intro!: nth_mem)
    with False in_range assms native page show thesis
      by (cases "E f v") (auto simp: loop_step_def xs f_def Let_def)
  qed
qed

lemma pending_loop:
  assumes "pending d (w, Loop l v # fs)" "owned (w, Loop l v # fs)"
    and "loop_step (dcall body) l v fs w = (w', fs')"
  shows "pending d (w', fs')"
proof -
  from assms(1) have l: "own r d \<noteq> l" "own r d \<notin> set (looping fs)" for r by auto
  from assms(2) have o: "owns l (lists w l)" by simp
  from assms(3) show ?thesis
  proof (cases rule: loop_step_cases)
    case leave
    from leave_aside [OF l(1) [symmetric] leave] show ?thesis
      by (intro pending_aside [OF assms(1)]) auto
  next
    case throw
    then show ?thesis using assms(1) by simp
  next
    case (native f ds u)
    let ?w = "w\<lparr>called := called w @ [(l, f, v)]\<rparr>"
    have n: "aside (own r d) ?w u \<and> states (extra u) d = states (extra ?w) d" for r
      unfolding native(3) using l(1) o native(1) by (intro native_aside [OF native(2)]) auto
    have "aside (own r d) w w' \<and> states (extra w') d = states (extra w) d" for r
      using n [of r] aside_trans [OF aside_called [OF l(1) [of r], of w f v], of u]
        aside_trans [OF _ aside_set_list [OF l(1) [of r, symmetric]]]
      unfolding native(4) by simp
    then show ?thesis unfolding native(5) by (intro pending_aside [OF assms(1)]) auto
  next
    case (page f s)
    then show ?thesis using l(1) by (intro pending_aside [OF assms(1)]) auto
  qed
qed

lemma settled_loop:
  assumes "settled r d (w, Loop l v # fs)" "owned (w, Loop l v # fs)"
    and "loop_step (dcall body) l v fs w = (w', fs')"
  shows "settled r d (w', fs')"
proof -
  let ?b = "own (\<not> r) d"
  from assms(1) have l: "?b \<noteq> l" "?b \<notin> set (looping fs)" by auto
  from assms(2) have o: "owns l (lists w l)" by simp
  from assms(3) show ?thesis
  proof (cases rule: loop_step_cases)
    case leave
    from leave_aside [OF l(1) [symmetric] leave, of d] show ?thesis
      by (intro settled_aside [OF assms(1)]) auto
  next
    case throw
    then show ?thesis using assms(1) by simp
  next
    case (native f ds u)
    let ?w = "w\<lparr>called := called w @ [(l, f, v)]\<rparr>"
    show ?thesis
    proof (cases "l = own r d")
      case True
      have "off (lists u ?b) \<and> called u = called ?w \<and> states (extra u) d = outcome r"
        unfolding native(3) using True o native(1) assms(1) by (intro native_own [OF native(2)]) auto
      then show ?thesis unfolding native(4,5) using assms(1) True l by (auto simp: not_called_def)
    next
      case False
      have "l \<notin> {own q d | q. True}"
      proof clarify
        fix q
        assume "l = own q d"
        moreover have "q = r \<or> q = (\<not> r)" by blast
        ultimately show False using False l(1) by (elim disjE) simp_all
      qed
      then have "aside ?b ?w u \<and> states (extra u) d = states (extra ?w) d"
        unfolding native(3) using o native(1) by (intro native_aside [OF native(2)]) auto
      then have "aside ?b w w' \<and> states (extra w') d = states (extra w) d"
        using aside_trans [OF aside_called [OF l(1), of w f v], of u]
          aside_trans [OF _ aside_set_list [OF l(1) [symmetric]]]
        unfolding native(4) by simp
      then show ?thesis unfolding native(5) by (intro settled_aside [OF assms(1)]) auto
    qed
  next
    case (page f s)
    then show ?thesis using l(1) by (intro settled_aside [OF assms(1)]) auto
  qed
qed

lemma settling_loop:
  assumes "settling r k d (w, Loop l v # fs)" "loop_step (dcall body) l v fs w = (w', fs')"
  shows "phase d (w', fs')"
proof -
  let ?a = "own r d" and ?b = "own (\<not> r) d"
  from assms(1) have l: "l = ?a" and fs: "own q d \<notin> set (looping fs)" for q by auto
  from assms(1) obtain xs where run: "c_list (lists w ?a) = Some (prologue ?a @ xs)" "c_index (lists w ?a) = int k"
      "c_length (lists w ?a) = int (3 + length xs)" "k < 3"
    by (auto simp: running_def)
  define f where "f = (prologue ?a @ xs) ! k"
  have f: "f = prologue ?a ! k" using run(4) unfolding f_def prologue_own by (subst nth_append) simp
  have "f \<in> set (prologue ?a)" using run(4) unfolding f prologue_own by (intro nth_mem) simp
  then obtain ds where ds: "dcall body f v = Native ds" by (auto simp: prologue_own dcall_def)
  let ?u = "fold perform_silent ds (w\<lparr>called := called w @ [(?a, f, v)]\<rparr>)"
  have w': "w' = set_list ?a (advance (lists ?u ?a)) ?u" "fs' = Loop ?a v # fs"
    using assms(2) run ds by (simp_all add: loop_step_def l Let_def prologue_own f_def)
  consider "k = 0" | "k = 1" | "k = 2" using run(4) by linarith
  then show ?thesis
  proof cases
    case 1
    with ds have "ds = [Touch (\<lambda>x. x\<lparr>states := (states x)(d := outcome r)\<rparr>)]"
      by (simp add: f prologue_own dcall_def)
    with assms(1) 1 run fs have "settling r 1 d (w', fs')"
      by (auto simp: w' running_def advance_def not_called_def)
    then show ?thesis unfolding phase_def by blast
  next
    case 2
    with ds have "ds = [Disable ?b]" by (simp add: f prologue_own dcall_def)
    with assms(1) 2 run fs have "settling r 2 d (w', fs')"
      by (auto simp: w' running_def advance_def not_called_def off_def disable_def)
    then show ?thesis unfolding phase_def by blast
  next
    case 3
    with ds have "ds = [Lock (progress_list d)]" by (simp add: f prologue_own dcall_def)
    with assms(1) 3 run fs have "settled r d (w', fs')"
      by (auto simp: w' not_called_def)
    then show ?thesis unfolding phase_def by blast
  qed
qed

lemma after_call_aside:
  assumes "l \<noteq> k" "after_call k v r fs w = (w', fs')"
  shows "aside l w w' \<and> states (extra w') d = states (extra w) d \<and>
    (l \<in> set (looping fs') \<longrightarrow> l \<in> set (looping fs))"
proof (cases "\<not> r \<and> stopOnFalse (c_flags (lists w k))")
  case True
  let ?w = "set_list k ((lists w k)\<lparr>c_memory := MTrue\<rparr>) w"
  have "leave k fs ?w = (w', fs')" using True assms(2) by (simp add: after_call_def Let_def)
  from leave_aside [OF assms(1) [symmetric] this, of d] show ?thesis
    using aside_set_list [OF assms(1) [symmetric]] by (auto intro: aside_trans)
next
  case False
  then show ?thesis using assms by (auto simp: after_call_def Let_def)
qed

lemma phase_frame:
  assumes "run_frame (dcall body) c = Some c'" "owned c" "phase d c"
  shows "phase d c'"
  using assms
proof (induction "dcall body" c rule: run_frame.induct)
  case (2 w l v fs)
  obtain w' fs' where c': "c' = (w', fs')" "loop_step (dcall body) l v fs w = (w', fs')"
    using 2(1) by (cases c') auto
  from 2(3) show ?case unfolding c'(1) phase_def
    using pending_loop [OF _ 2(2) c'(2)] settled_loop [OF _ 2(2) c'(2)] settling_loop [OF _ c'(2)]
    unfolding phase_def by blast
next
  case (5 w op k fs)
  obtain w' new where p: "perform op w = (w', new)" by (cases "perform op w")
  have a: "allowed op" using 5(2) by simp
  from 5(3) consider "pending d (w, fs)" | r where "settled r d (w, fs)"
    by (auto simp: phase_def)
  then show ?case
  proof cases
    case 1
    from pending_perform [OF this a p, of k] 5(1) p show ?thesis by simp
  next
    case (2 r)
    have "c' = (w', new @ Wait k # fs)" using 5(1) p by simp
    with settled_perform [OF 2 a p, of k] have "settled r d c'" by (simp only:)
    then show ?thesis unfolding phase_def by blast
  qed
next
  case (6 w b fs)
  from 6(3) consider "pending d (w, fs)" | r where "settled r d (w, fs)"
    by (auto simp: phase_def)
  note cases = this
  show ?case
  proof (cases "\<exists>l v rest. fs = Loop l v # rest")
    case True
    then obtain l v rest w' fs' where fs: "fs = Loop l v # rest" and a: "after_call l v b rest w = (w', fs')" "c' = (w', fs')"
      using 6(1) by (auto simp del: after_call_def) (metis surj_pair)
    from cases show ?thesis
    proof cases
      case 1
      then have "own r d \<noteq> l" for r using fs by auto
      then have "pending d (w', fs')" using after_call_aside [OF _ a(1)] fs
        by (intro pending_aside [OF 1]) auto
      then show ?thesis unfolding a(2) phase_def by blast
    next
      case (2 r)
      then have "own (\<not> r) d \<noteq> l" using fs by auto
      then have "settled r d (w', fs')" using after_call_aside [OF _ a(1)] fs
        by (intro settled_aside [OF 2]) auto
      then show ?thesis unfolding a(2) phase_def by blast
    qed
  next
    case False
    then have "run_frame (dcall body) (w, Body (Return b) # fs) = Some (w, fs)"
      by (auto split: list.splits frame.splits)
    with 6(1) cases show ?thesis by (auto simp: phase_def)
  qed
qed (auto simp: phase_def)

section \<open>A deferred settles once\<close>

lemma flags_simps [simp]:
  "createFlags ''memory'' = \<lparr>once = False, memory = True, unique = False, stopOnFalse = False\<rparr>"
  "createFlags ''once memory'' = \<lparr>once = True, memory = True, unique = False, stopOnFalse = False\<rparr>"
  by code_simp+

lemma add_plain: "\<not> unique fl \<Longrightarrow> add_args fl (map AFun fs) xs = xs @ fs"
  by (induction fs arbitrary: xs) simp_all

lemma initial_fields:
  "c_list (initial_list l) = Some (prologue l)" "c_stack (initial_list l) = Some []"
  "c_memory (initial_list l) = MUndef" "\<not> c_firing (initial_list l)" "c_start (initial_list l) = 0"
  "\<not> unique (c_flags (initial_list l))"
  by (simp_all add: initial_list_def add_def new_list_def deferred_flags_def Let_def add_plain)

lemma initial_ok: "owned (initial_world, [])" "phase d (initial_world, [])"
  by (simp_all add: initial_world_def initial_fields owns_def held_def phase_def idle_def not_called_def)

definition deferreds_ok :: "('u dcb, 'a passed, 'a dextra) config \<Rightarrow> bool" where
  "deferreds_ok c \<longleftrightarrow> owned c \<and> (\<forall>d. phase d c)"

definition well_behaved :: "('u \<Rightarrow> 'a passed \<Rightarrow> ('u, 'a) dworld \<Rightarrow> ('u, 'a, 'a val) dprog) \<Rightarrow> bool" where
  "well_behaved body \<longleftrightarrow> (\<forall>u v w. api_only (body u v w))"

lemma deferred_step:
  assumes "well_behaved body" "page_step (dcall body) api_only c c'" "deferreds_ok c"
  shows "deferreds_ok c'"
proof -
  have b: "api_only (body u v w)" for u v w using assms(1) unfolding well_behaved_def by blast
  from assms(2) show ?thesis
  proof cases
    case frame
    from assms(3) owned_frame [OF frame _ b] phase_frame [OF frame] show ?thesis
      unfolding deferreds_ok_def by blast
  next
    case (task s w)
    with assms(3) show ?thesis by (auto simp: deferreds_ok_def phase_def)
  qed
qed

interpretation deferreds: preserved_invariant "page_step (dcall body) api_only"
    "\<lambda>c. well_behaved body \<longrightarrow> deferreds_ok c" for body
  by unfold_locales (blast intro: deferred_step)

lemma phase_exclusive:
  assumes "phase d (w, fs)"
  shows "not_called (own (\<not> r) d) w \<and> states (extra w) d = outcome r \<or> not_called (own r d) w"
proof -
  from assms consider "pending d (w, fs)" | q k where "settling q k d (w, fs)" | q where "settled q d (w, fs)"
    unfolding phase_def by blast
  then show ?thesis
  proof cases
    case (2 q k)
    then show ?thesis by (cases "q = r"; cases "k = 0") auto
  next
    case (3 q)
    then show ?thesis by (cases "q = r") auto
  qed simp
qed

text \<open>
  C8: a deferred is settled once and for all. Whatever scripts, handlers, \<open>pipe\<close>s and \<open>when\<close>s do, in
  whatever order and nesting: if a function on its done list has been called, the deferred is
  resolved and no function on its fail list has been called, and the other way round.
\<close>

theorem deferred_settles_once:
  assumes "well_behaved body" and "(page_step (dcall body) api_only)\<^sup>*\<^sup>* (initial_world, []) (w, fs)"
  shows "((done_list d, f, u) \<in> set (called w) \<longrightarrow>
       state_of d w = Resolved \<and> (fail_list d, g, v) \<notin> set (called w)) \<and>
    ((fail_list d, g, v) \<in> set (called w) \<longrightarrow>
       state_of d w = Rejected \<and> (done_list d, f, u) \<notin> set (called w))"
proof -
  from deferreds.reachable [OF assms(2)] initial_ok assms(1) have "phase d (w, fs)"
    unfolding deferreds_ok_def by blast
  from phase_exclusive [OF this, of True] phase_exclusive [OF this, of False] show ?thesis
    unfolding not_called_def own_def outcome_def state_of_def
    by (simp only: if_True if_False simp_thms) blast
qed

text \<open>A deferred with one handler that is resolved and then rejected.\<close>

definition settle_twice :: "(nat, nat, bool) dprog" where
  "settle_twice =
     then_do (dDone 0 [AFun (User 7)])
       (then_do (resolveWith 0 (DeferredObj 0, Args [Plain 5]))
         (then_do (rejectWith 0 (DeferredObj 0, Args [])) (Return True)))"

theorem deferred_settles_once_witness:
  "\<exists>w. run (dcall (\<lambda>_ _ _. Return Undefined)) (initial_world, [Body settle_twice]) = Some w \<and>
     (0, User 7, (DeferredObj 0, Args [Plain 5])) \<in> set (called w) \<and> state_of 0 w = Resolved \<and>
     (\<forall>g v. (1, g, v) \<notin> set (called w))"
proof -
  let ?body = "\<lambda>_ _ _. Return Undefined" and ?v = "(DeferredObj 0, Args [Plain 5])"
  have "map_option called (run (dcall ?body) (initial_world, [Body settle_twice])) =
      Some [(0, SetState 0 Resolved, ?v), (0, DisableFn 1, ?v), (0, LockFn 2, ?v), (0, User 7, ?v)]"
    by code_simp
  then obtain w where w: "run (dcall ?body) (initial_world, [Body settle_twice]) = Some w"
    "(done_list 0, User 7, ?v) \<in> set (called w)"
    by (auto simp: done_list_def)
  have "well_behaved ?body" by (simp add: well_behaved_def)
  moreover have "(page_step (dcall ?body) api_only)\<^sup>*\<^sup>* (initial_world, []) (w, [])"
    by (rule task_reachable [OF _ w(1)])
      (simp add: settle_twice_def dDone_def resolveWith_def rejectWith_def api_then)
  ultimately have "state_of 0 w = Resolved \<and> (fail_list 0, g, v) \<notin> set (called w)" for g v
    using deferred_settles_once [of ?body w "[]" 0 "User 7" ?v] w(2) by blast
  with w show ?thesis by (auto simp: done_list_def fail_list_def)
qed

end
