(* ===== verification/JQ_Data.thy ===== *)
theory JQ_Data
  imports JS_Prelude
begin

text \<open>
  \<open>jquery-1.7.2.js\<close>, lines 1666 to 2029: the data that scripts and the library itself keep about an
  element or an object. The data of a node is in the global \<open>jQuery.cache\<close>, under a number the node
  carries in its expando property; the data of another object is in the object.

  An entry has private properties and an object \<open>data\<close> for the page. The names of private
  properties are the library's own: none is \<open>data\<close> or \<open>toJSON\<close>.
\<close>

section \<open>Objects used as dictionaries\<close>

type_synonym 'f dict = "(string \<times> 'f jsv) list"

definition dict_read :: "'f env \<Rightarrow> 'f dict \<Rightarrow> string \<Rightarrow> 'f jsv" where
  "dict_read E d k = (case map_of d k of Some v \<Rightarrow> v | None \<Rightarrow> inherit E PObject k)"

text \<open>\<open>k in d\<close>\<close>

definition dict_has :: "'f env \<Rightarrow> 'f dict \<Rightarrow> string \<Rightarrow> bool" where
  "dict_has E d k = (map_of d k \<noteq> None \<or> inherited E PObject k \<noteq> None)"

text \<open>\<open>jQuery.extend(d, props)\<close>, the shallow form: undefined values are not brought in.\<close>

definition dict_extend :: "'f dict \<Rightarrow> 'f dict \<Rightarrow> 'f dict" where
  "dict_extend d props = fold (\<lambda>(k, v) d. if v \<noteq> Undef then AList.update k v d else d) props d"

section \<open>Names\<close>

definition is_lower :: "char \<Rightarrow> bool" where
  "is_lower c \<longleftrightarrow> 97 \<le> (of_char c :: nat) \<and> (of_char c :: nat) \<le> 122"

definition to_upper :: "char \<Rightarrow> char" where
  "to_upper c = (if is_lower c then char_of ((of_char c :: nat) - 32) else c)"

fun camel :: "string \<Rightarrow> string" where
  "camel (c # d # s) =
     (if c = CHR ''-'' \<and> (is_lower d \<or> is_upper d \<or> is_digit d) then to_upper d # camel s else c # camel (d # s))"
| "camel s = s"

definition camelCase :: "string \<Rightarrow> string" where
  "camelCase s = camel (if take 4 s = ''-ms-'' then tl s else s)"

text \<open>\<open>key.replace(/([A-Z])/g, "-$1").toLowerCase()\<close>\<close>

definition dashed :: "string \<Rightarrow> string" where
  "dashed s = map to_lower (concat (map (\<lambda>c. if is_upper c then [CHR ''-'', c] else [c]) s))"

section \<open>State\<close>

datatype owner = Node nat | Plain nat

record 'f entry =
  e_priv :: "'f dict"
  e_data :: "'f dict option"
  e_toJSON :: bool

text \<open>
  \<open>expando\<close> is the number a node carries; \<open>objs\<close> are the entries in objects that are not nodes.
\<close>

record 'f data_world =
  cache :: "nat \<rightharpoonup> 'f entry"
  uuid :: nat
  expando :: "nat \<rightharpoonup> nat"
  objs :: "nat \<rightharpoonup> 'f entry"

definition empty_data :: "'f data_world" where
  "empty_data = \<lparr>cache = Map.empty, uuid = 0, expando = Map.empty, objs = Map.empty\<rparr>"

text \<open>What the library asks of a node: its name and the attribute \<open>classid\<close>.\<close>

record node_info =
  node_name :: "nat \<Rightarrow> string"
  classid :: "nat \<Rightarrow> string option"

definition noData :: "string \<Rightarrow> string option option" where
  "noData s =
     (if s = ''embed'' \<or> s = ''applet'' then Some None
      else if s = ''object'' then Some (Some ''clsid:D27CDB6E-AE6D-11cf-96B8-444553540000'') else None)"

definition acceptData :: "node_info \<Rightarrow> owner \<Rightarrow> bool" where
  "acceptData I ow =
     (case ow of
        Plain n \<Rightarrow> True
      | Node n \<Rightarrow>
          (case noData (map to_lower (node_name I n)) of
             None \<Rightarrow> True
           | Some None \<Rightarrow> False
           | Some (Some c) \<Rightarrow> classid I n = Some c))"

definition entry_of :: "owner \<Rightarrow> 'f data_world \<Rightarrow> 'f entry option" where
  "entry_of ow w =
     (case ow of
        Node n \<Rightarrow> (case expando w n of None \<Rightarrow> None | Some i \<Rightarrow> cache w i)
      | Plain n \<Rightarrow> objs w n)"

definition put_entry :: "owner \<Rightarrow> 'f entry option \<Rightarrow> 'f data_world \<Rightarrow> 'f data_world" where
  "put_entry ow e w =
     (case ow of
        Node n \<Rightarrow> (case expando w n of None \<Rightarrow> w | Some i \<Rightarrow> w\<lparr>cache := (cache w)(i := e)\<rparr>)
      | Plain n \<Rightarrow> w\<lparr>objs := (objs w)(n := e)\<rparr>)"

section \<open>\<open>jQuery.data\<close>\<close>

text \<open>The ways to call it: a name, a name and a value, an object, nothing.\<close>

datatype 'f request = Get string | Put string "'f jsv" | Merge "'f dict" | All

definition new_entry :: "owner \<Rightarrow> 'f entry" where
  "new_entry ow = \<lparr>e_priv = [], e_data = None, e_toJSON = (case ow of Node n \<Rightarrow> False | Plain n \<Rightarrow> True)\<rparr>"

definition ensure_entry :: "owner \<Rightarrow> 'f data_world \<Rightarrow> 'f data_world" where
  "ensure_entry ow w =
     (let w1 = (case ow of
          Node n \<Rightarrow>
            (if expando w n = None
             then w\<lparr>uuid := Suc (uuid w), expando := (expando w)(n \<mapsto> Suc (uuid w))\<rparr> else w)
        | Plain n \<Rightarrow> w)
      in if entry_of ow w1 = None then put_entry ow (Some (new_entry ow)) w1 else w1)"

definition this_cache :: "bool \<Rightarrow> 'f entry \<Rightarrow> 'f dict" where
  "this_cache pvt e = (if pvt then e_priv e else case e_data e of None \<Rightarrow> [] | Some d \<Rightarrow> d)"

definition set_this_cache :: "bool \<Rightarrow> 'f dict \<Rightarrow> 'f entry \<Rightarrow> 'f entry" where
  "set_this_cache pvt d e = (if pvt then e\<lparr>e_priv := d\<rparr> else e\<lparr>e_data := Some d\<rparr>)"

definition read_name :: "'f env \<Rightarrow> bool \<Rightarrow> string \<Rightarrow> 'f entry \<Rightarrow> 'f jsv" where
  "read_name E pvt name e =
     (let d = this_cache pvt e
      in if name = ''events'' \<and> \<not> truthy (dict_read E d name) then dict_read E (e_priv e) ''events''
         else if is_nullish (dict_read E d name) then dict_read E d (camelCase name)
         else dict_read E d name)"

definition jq_data ::
  "'f env \<Rightarrow> node_info \<Rightarrow> owner \<Rightarrow> 'f request \<Rightarrow> bool \<Rightarrow> 'f data_world \<Rightarrow> 'f jsv \<times> 'f data_world" where
  "jq_data E I ow req pvt w =
     (if \<not> acceptData I ow then (Undef, w)
      else let nothing =
             (\<lambda>name. case entry_of ow w of
                None \<Rightarrow> True
              | Some e \<Rightarrow> name \<noteq> ''events'' \<and> \<not> pvt \<and> e_data e = None);
             w1 = ensure_entry ow w;
             e = the (entry_of ow w1);
             keep = (\<lambda>e. put_entry ow (Some e) w1);
             e' = set_this_cache pvt (this_cache pvt e) e
      in case req of
           Get name \<Rightarrow> (if nothing name then (Undef, w) else (read_name E pvt name e', keep e'))
         | Put name v \<Rightarrow>
             (if v = Undef \<and> nothing name then (Undef, w)
              else let e2 = (if v = Undef then e'
                     else set_this_cache pvt (AList.update (camelCase name) v (this_cache pvt e)) e)
                   in (read_name E pvt name e2, keep e2))
         | Merge props \<Rightarrow>
             (let d = dict_extend (this_cache pvt e) props; e2 = set_this_cache pvt d e in (Obj d, keep e2))
         | All \<Rightarrow> (Obj (this_cache pvt e), keep e'))"

section \<open>\<open>jQuery.removeData\<close>\<close>

datatype removal = RemoveName string | RemoveNames "string list" | RemoveAll

definition isEmptyDataObject :: "'f entry \<Rightarrow> bool" where
  "isEmptyDataObject e \<longleftrightarrow> e_priv e = [] \<and> (case e_data e of None \<Rightarrow> True | Some d \<Rightarrow> d = [])"

definition hasData :: "owner \<Rightarrow> 'f data_world \<Rightarrow> bool" where
  "hasData ow w = (case entry_of ow w of None \<Rightarrow> False | Some e \<Rightarrow> \<not> isEmptyDataObject e)"

text \<open>The names to delete; an array of names is taken as it is.\<close>

definition removal_names :: "'f env \<Rightarrow> 'f dict \<Rightarrow> removal \<Rightarrow> string list" where
  "removal_names E d r =
     (case r of
        RemoveNames ns \<Rightarrow> ns
      | RemoveName n \<Rightarrow>
          (if dict_has E d n then [n]
           else if dict_has E d (camelCase n) then [camelCase n]
           else split_at (CHR '' '') (camelCase n))
      | RemoveAll \<Rightarrow> [])"

definition destroy_entry :: "owner \<Rightarrow> 'f data_world \<Rightarrow> 'f data_world" where
  "destroy_entry ow w =
     (let w1 = put_entry ow None w
      in case ow of Node n \<Rightarrow> w1\<lparr>expando := (expando w1)(n := None)\<rparr> | Plain n \<Rightarrow> w1)"

text \<open>The last part: the public object goes, and the entry with it unless it holds something else.\<close>

definition remove_rest :: "owner \<Rightarrow> bool \<Rightarrow> 'f entry \<Rightarrow> 'f data_world \<Rightarrow> 'f data_world" where
  "remove_rest ow pvt e w =
     (let e1 = (if pvt then e else e\<lparr>e_data := None\<rparr>)
      in if \<not> pvt \<and> \<not> isEmptyDataObject e1 then put_entry ow (Some e1) w else destroy_entry ow w)"

definition removeData ::
  "'f env \<Rightarrow> node_info \<Rightarrow> owner \<Rightarrow> removal \<Rightarrow> bool \<Rightarrow> 'f data_world \<Rightarrow> 'f data_world" where
  "removeData E I ow r pvt w =
     (if \<not> acceptData I ow then w
      else case entry_of ow w of
        None \<Rightarrow> w
      | Some e \<Rightarrow>
          if r = RemoveAll \<or> r = RemoveName [] \<or> \<not> pvt \<and> e_data e = None then remove_rest ow pvt e w
          else let d = fold AList.delete (removal_names E (this_cache pvt e) r) (this_cache pvt e);
                   e1 = set_this_cache pvt d e
               in if (if pvt then isEmptyDataObject e1 else d = []) then remove_rest ow pvt e1 w
                  else put_entry ow (Some e1) w)"

section \<open>\<open>$(...).data\<close>\<close>

text \<open>
  What the page contributes: attributes and a JSON parser. An attribute is read once and kept.
\<close>

record 'f page_data =
  attribute :: "nat \<Rightarrow> string \<Rightarrow> string option"
  attributes :: "nat \<Rightarrow> string list"
  is_numeric :: "string \<Rightarrow> bool"
  number_of :: "string \<Rightarrow> 'f jsv"
  parse_text :: "string \<Rightarrow> 'f jsv throws"

definition rbrace :: "string \<Rightarrow> bool" where
  "rbrace s \<longleftrightarrow> length s \<ge> 2 \<and> list_all (\<lambda>c. c \<notin> {CHR 0x0A, CHR 0x0D}) s \<and>
     (hd s = CHR ''{'' \<and> last s = CHR ''}'' \<or> hd s = CHR ''['' \<and> last s = CHR '']'')"

definition read_attribute :: "'f page_data \<Rightarrow> string \<Rightarrow> 'f jsv" where
  "read_attribute P s =
     (if s = ''true'' then Bool True
      else if s = ''false'' then Bool False
      else if s = ''null'' then Null
      else if is_numeric P s then number_of P s
      else if rbrace s then (case parse_text P s of Inl err \<Rightarrow> Str s | Inr v \<Rightarrow> v)
      else Str s)"

definition dataAttr ::
  "'f env \<Rightarrow> node_info \<Rightarrow> 'f page_data \<Rightarrow> owner \<Rightarrow> string \<Rightarrow> 'f jsv \<Rightarrow> 'f data_world \<Rightarrow> 'f jsv \<times> 'f data_world" where
  "dataAttr E I P ow key v w =
     (case ow of
        Plain n \<Rightarrow> (v, w)
      | Node n \<Rightarrow>
          if v \<noteq> Undef then (v, w)
          else case attribute P n (''data-'' @ dashed key) of
                 None \<Rightarrow> (Undef, w)
               | Some s \<Rightarrow> (read_attribute P s, snd (jq_data E I ow (Put key (read_attribute P s)) False w)))"

text \<open>All data of an element: the first call reads the attributes \<open>data-*\<close>.\<close>

definition parse_attrs ::
  "'f env \<Rightarrow> node_info \<Rightarrow> 'f page_data \<Rightarrow> nat \<Rightarrow> 'f data_world \<Rightarrow> 'f data_world" where
  "parse_attrs E I P n w =
     fold (\<lambda>a w.
       if take 5 a = ''data-'' then
         (let name = camelCase (drop 5 a)
          in snd (dataAttr E I P (Node n) name (fst (jq_data E I (Node n) (Get name) False w)) w))
       else w) (attributes P n) w"

definition fn_data_all ::
  "'f env \<Rightarrow> node_info \<Rightarrow> 'f page_data \<Rightarrow> owner \<Rightarrow> 'f data_world \<Rightarrow> 'f jsv \<times> 'f data_world" where
  "fn_data_all E I P ow w =
     (let w1 = snd (jq_data E I ow All False w)
      in case ow of
           Plain n \<Rightarrow> jq_data E I ow All False w1
         | Node n \<Rightarrow>
             (let (parsed, w2) = jq_data E I ow (Get ''parsedAttrs'') True w1
              in if truthy parsed then jq_data E I ow All False w2
                 else jq_data E I ow All False
                   (snd (jq_data E I ow (Put ''parsedAttrs'' (Bool True)) True (parse_attrs E I P n w2)))))"

text \<open>
  One key: a handler of the event \<open>getData\<close> may answer; a key with a dot falls back to the part
  before the dot.
\<close>

definition key_parts :: "string \<Rightarrow> string \<times> string" where
  "key_parts key =
     (case split_at (CHR ''.'') key of
        a # b # _ \<Rightarrow> (a, if b = [] then [] else CHR ''.'' # b)
      | [a] \<Rightarrow> (a, [])
      | [] \<Rightarrow> ([], []))"

definition fetch ::
  "'f env \<Rightarrow> node_info \<Rightarrow> 'f page_data \<Rightarrow> (string \<Rightarrow> 'f jsv) \<Rightarrow> owner \<Rightarrow> string \<Rightarrow> 'f data_world \<Rightarrow> 'f jsv \<times> 'f data_world" where
  "fetch E I P answer ow key w =
     (let v = answer key
      in if v \<noteq> Undef then (v, w)
         else let (v1, w1) = jq_data E I ow (Get key) False w in dataAttr E I P ow key v1 w1)"

definition fn_data_get ::
  "'f env \<Rightarrow> node_info \<Rightarrow> 'f page_data \<Rightarrow> (string \<Rightarrow> 'f jsv) \<Rightarrow> owner \<Rightarrow> string \<Rightarrow> 'f data_world \<Rightarrow> 'f jsv \<times> 'f data_world" where
  "fn_data_get E I P answer ow key w =
     (let (v, w1) = fetch E I P answer ow key w
      in if v = Undef \<and> snd (key_parts key) \<noteq> [] then fetch E I P answer ow (fst (key_parts key)) w1
         else (v, w1))"

text \<open>
  Storing under a key; the events \<open>setData\<close> and \<open>changeData\<close> around it leave the data alone.
\<close>

definition fn_data_set ::
  "'f env \<Rightarrow> node_info \<Rightarrow> owner list \<Rightarrow> string \<Rightarrow> 'f jsv \<Rightarrow> 'f data_world \<Rightarrow> 'f data_world" where
  "fn_data_set E I ows key v w = fold (\<lambda>ow w. snd (jq_data E I ow (Put key v) False w)) ows w"

definition fn_removeData ::
  "'f env \<Rightarrow> node_info \<Rightarrow> owner list \<Rightarrow> removal \<Rightarrow> 'f data_world \<Rightarrow> 'f data_world" where
  "fn_removeData E I ows r w = fold (\<lambda>ow w. removeData E I ow r False w) ows w"

section \<open>The cache\<close>

text \<open>
  The numbers that nodes carry are distinct, and the cache has an entry for exactly these: nothing
  is left behind for a node without data.
\<close>

definition data_ok :: "'f data_world \<Rightarrow> bool" where
  "data_ok w \<longleftrightarrow> inj_on (expando w) (dom (expando w)) \<and> dom (cache w) = ran (expando w) \<and>
     (\<forall>i \<in> ran (expando w). i \<le> uuid w)"

definition has_slot :: "owner \<Rightarrow> 'f data_world \<Rightarrow> bool" where
  "has_slot ow w = (case ow of Node n \<Rightarrow> expando w n \<noteq> None | Plain n \<Rightarrow> True)"

text \<open>What the code relies on when it replaces an entry.\<close>

locale entry_store =
  fixes get :: "'o \<Rightarrow> 's \<Rightarrow> 'e option"
    and put :: "'o \<Rightarrow> 'e option \<Rightarrow> 's \<Rightarrow> 's"
    and ready :: "'o \<Rightarrow> 's \<Rightarrow> bool"
    and sane :: "'s \<Rightarrow> bool"
  assumes get_put: "sane s \<Longrightarrow> ready o1 s \<Longrightarrow> get o2 (put o1 e s) = (if o2 = o1 then e else get o2 s)"
    and sane_put: "sane s \<Longrightarrow> ready o1 s \<Longrightarrow> sane (put o1 (Some x) s)"
    and ready_put: "ready o2 (put o1 e s) = ready o2 s"
begin

lemma put_twice:
  "sane s \<Longrightarrow> ready o1 s \<Longrightarrow> get o2 (put o1 e (put o1 (Some x) s)) = (if o2 = o1 then e else get o2 s)"
  by (simp add: get_put sane_put ready_put)

lemma others: "sane s \<Longrightarrow> ready o1 s \<Longrightarrow> o2 \<noteq> o1 \<Longrightarrow> get o2 (put o1 e s) = get o2 s"
  by (simp add: get_put)

end

lemma expando_inj: "data_ok w \<Longrightarrow> expando w n = Some i \<Longrightarrow> expando w m = Some i \<Longrightarrow> n = m"
  using inj_onD [of "expando w" "dom (expando w)" n m] by (simp add: data_ok_def domI)

lemma data_ok_put: "data_ok w \<Longrightarrow> data_ok (put_entry ow (Some e) w)"
  by (auto simp: data_ok_def put_entry_def ran_def split: owner.splits option.splits)

lemma slot_put [simp]: "has_slot ow (put_entry ow' e w) = has_slot ow w"
  by (simp add: has_slot_def put_entry_def split: owner.splits option.splits)

interpretation entries: entry_store entry_of put_entry has_slot data_ok
proof
  fix w :: "'a data_world" and o1 o2 e
  assume ok: "data_ok w" and slot: "has_slot o1 w"
  show "entry_of o2 (put_entry o1 e w) = (if o2 = o1 then e else entry_of o2 w)"
  proof (cases o1)
    case (Node n)
    then obtain i where i: "expando w n = Some i" using slot by (auto simp: has_slot_def)
    have "expando w m \<noteq> Some i" if "m \<noteq> n" for m using that expando_inj [OF ok i, of m] by auto
    with i Node show ?thesis by (cases o2) (auto simp: entry_of_def put_entry_def split: option.splits)
  next
    case (Plain n)
    then show ?thesis by (cases o2) (simp_all add: entry_of_def put_entry_def split: option.splits)
  qed
qed (simp_all add: data_ok_put)

lemma entry_slot: "data_ok w \<Longrightarrow> entry_of ow w \<noteq> None \<Longrightarrow> has_slot ow w"
  by (auto simp: entry_of_def has_slot_def split: owner.splits option.splits)

lemma ensure_ok:
  assumes "data_ok w"
  shows "data_ok (ensure_entry ow w)" "has_slot ow (ensure_entry ow w)"
    "entry_of ow' (ensure_entry ow w) =
       (if ow' = ow then Some (case entry_of ow w of None \<Rightarrow> new_entry ow | Some e \<Rightarrow> e) else entry_of ow' w)"
proof -
  define w1 where "w1 = (case ow of
      Node n \<Rightarrow>
        (if expando w n = None
         then w\<lparr>uuid := Suc (uuid w), expando := (expando w)(n \<mapsto> Suc (uuid w))\<rparr> else w)
    | Plain n \<Rightarrow> w)"
  have slot: "has_slot ow w1" by (simp add: w1_def has_slot_def split: owner.splits)
  show "has_slot ow (ensure_entry ow w)" using slot by (simp add: ensure_entry_def w1_def Let_def)
  show "data_ok (ensure_entry ow w)"
  proof (cases "\<exists>n. ow = Node n \<and> expando w n = None")
    case True
    then obtain n where n: "ow = Node n" "expando w n = None" by blast
    let ?i = "Suc (uuid w)" and ?x = "(expando w)(n \<mapsto> Suc (uuid w))"
    have fresh: "?i \<notin> ran (expando w)" using assms by (force simp: data_ok_def)
    then have none: "cache w ?i = None" using assms by (auto simp: data_ok_def)
    have "inj_on ?x (dom ?x)"
      using assms fresh n(2) unfolding data_ok_def inj_on_def ran_def by auto
    moreover have "ran ?x = insert ?i (ran (expando w))" using n(2) by simp
    ultimately show ?thesis using assms n none
      by (auto simp: ensure_entry_def entry_of_def put_entry_def data_ok_def)
  next
    case False
    then have "w1 = w" by (auto simp: w1_def split: owner.splits)
    with assms show ?thesis unfolding ensure_entry_def w1_def [symmetric] Let_def by (simp add: data_ok_put)
  qed
  show "entry_of ow' (ensure_entry ow w) =
     (if ow' = ow then Some (case entry_of ow w of None \<Rightarrow> new_entry ow | Some e \<Rightarrow> e) else entry_of ow' w)"
  proof (cases "\<exists>n. ow = Node n \<and> expando w n = None")
    case True
    then obtain n where n: "ow = Node n" "expando w n = None" by blast
    have fresh: "Suc (uuid w) \<notin> ran (expando w)" using assms by (force simp: data_ok_def)
    then have none: "cache w (Suc (uuid w)) = None" using assms by (auto simp: data_ok_def)
    have "expando w m \<noteq> Some (Suc (uuid w))" for m using fresh by (auto simp: ran_def)
    with n none show ?thesis
      by (auto simp: ensure_entry_def entry_of_def put_entry_def split: owner.splits option.splits)
  next
    case False
    then have "w1 = w" by (auto simp: w1_def split: owner.splits)
    with slot assms show ?thesis unfolding ensure_entry_def w1_def [symmetric] Let_def
      by (auto simp: entries.get_put split: option.splits)
  qed
qed

lemma data_ok_destroy: "data_ok w \<Longrightarrow> has_slot ow w \<Longrightarrow> data_ok (destroy_entry ow w)"
proof (cases ow)
  case (Node n)
  assume ok: "data_ok w" and "has_slot ow w"
  then obtain i where i: "expando w n = Some i" by (auto simp: has_slot_def Node)
  have "ran ((expando w)(n := None)) = ran (expando w) - {i}"
  proof (intro set_eqI iffI)
    fix x
    assume "x \<in> ran ((expando w)(n := None))"
    then obtain m where "m \<noteq> n" "expando w m = Some x" by (auto simp: ran_def split: if_splits)
    with expando_inj [OF ok i, of m] show "x \<in> ran (expando w) - {i}" by (auto simp: ran_def)
  next
    fix x
    assume "x \<in> ran (expando w) - {i}"
    then obtain m where "expando w m = Some x" "x \<noteq> i" by (auto simp: ran_def)
    with i show "x \<in> ran ((expando w)(n := None))" unfolding ran_def
      by (auto intro!: exI [of _ m])
  qed
  moreover have "inj_on ((expando w)(n := None)) (dom ((expando w)(n := None)))"
    using ok unfolding data_ok_def inj_on_def by auto
  ultimately show ?thesis using ok i
    by (auto simp: data_ok_def destroy_entry_def put_entry_def Node Let_def)
qed (simp add: data_ok_def destroy_entry_def put_entry_def)

lemma data_ok_remove_rest:
  "data_ok w \<Longrightarrow> has_slot ow w \<Longrightarrow> data_ok (remove_rest ow pvt e w)"
  by (simp add: remove_rest_def Let_def data_ok_put data_ok_destroy)

lemma data_ok_data: "data_ok w \<Longrightarrow> data_ok (snd (jq_data E I ow req pvt w))"
  by (auto simp: jq_data_def Let_def data_ok_put ensure_ok split: request.splits)

lemma data_ok_remove: "data_ok w \<Longrightarrow> data_ok (removeData E I ow r pvt w)"
  using entry_slot [of w ow]
  by (auto simp: removeData_def Let_def data_ok_put data_ok_remove_rest split: option.splits)

inductive data_step :: "'f env \<Rightarrow> node_info \<Rightarrow> 'f data_world \<Rightarrow> 'f data_world \<Rightarrow> bool" for E I where
  uses: "data_step E I w (snd (jq_data E I ow req pvt w))"
| removes: "data_step E I w (removeData E I ow r pvt w)"

interpretation data_worlds: preserved_invariant "data_step E I" data_ok for E I
  by unfold_locales (auto elim!: data_step.cases intro: data_ok_data data_ok_remove)

text \<open>
  whatever a page stores and removes, no two nodes share an entry of \<open>jQuery.cache\<close>, every
  number a node carries leads to an entry, and the cache keeps no entry that no node leads to.
\<close>

theorem data_reachable_ok:
  assumes "(data_step E I)\<^sup>*\<^sup>* empty_data w"
  shows "(\<forall>n m i. expando w n = Some i \<and> expando w m = Some i \<longrightarrow> n = m) \<and>
    (\<forall>i. cache w i \<noteq> None \<longleftrightarrow> (\<exists>n. expando w n = Some i))"
proof -
  have "data_ok (empty_data :: 'a data_world)" by (simp add: data_ok_def empty_data_def)
  from data_worlds.reachable [OF assms this] have ok: "data_ok w" .
  then have "cache w i \<noteq> None \<longleftrightarrow> i \<in> ran (expando w)" for i by (auto simp: data_ok_def)
  with expando_inj [OF ok] show ?thesis by (auto simp: ran_def)
qed

section \<open>Reading back\<close>

lemma this_cache_set [simp]: "this_cache pvt (set_this_cache pvt d e) = d"
  by (simp add: this_cache_def set_this_cache_def)

lemma dict_read_update: "dict_read E (AList.update k v d) k' = (if k' = k then v else dict_read E d k')"
  by (simp add: dict_read_def update_conv')

text \<open>The public or private properties of an owner; none if it has no entry.\<close>

definition props_of :: "bool \<Rightarrow> owner \<Rightarrow> 'f data_world \<Rightarrow> 'f dict" where
  "props_of pvt ow w = (case entry_of ow w of None \<Rightarrow> [] | Some e \<Rightarrow> this_cache pvt e)"

lemma this_cache_new [simp]: "this_cache pvt (new_entry ow) = []"
  by (simp add: this_cache_def new_entry_def)

lemma entry_put:
  assumes "data_ok w" "acceptData I ow" "v \<noteq> Undef"
  shows "\<exists>e. entry_of ow (snd (jq_data E I ow (Put name v) pvt w)) = Some e \<and>
      this_cache pvt e = AList.update (camelCase name) v (props_of pvt ow w) \<and> (pvt \<or> e_data e \<noteq> None)"
    and "ow' \<noteq> ow \<Longrightarrow> entry_of ow' (snd (jq_data E I ow (Put name v) pvt w)) = entry_of ow' w"
proof -
  let ?w = "ensure_entry ow w"
  define e where "e = (case entry_of ow w of None \<Rightarrow> new_entry ow | Some e \<Rightarrow> e)"
  have e: "entry_of ow ?w = Some e" using ensure_ok(3) [OF assms(1), of ow] by (simp add: e_def)
  let ?e = "set_this_cache pvt (AList.update (camelCase name) v (this_cache pvt e)) e"
  have put: "snd (jq_data E I ow (Put name v) pvt w) = put_entry ow (Some ?e) ?w"
    using assms(2,3) by (simp add: jq_data_def Let_def e)
  have "props_of pvt ow w = this_cache pvt e" by (simp add: props_of_def e_def split: option.splits)
  moreover have "pvt \<or> e_data ?e \<noteq> None" by (simp add: set_this_cache_def)
  ultimately show "\<exists>e. entry_of ow (snd (jq_data E I ow (Put name v) pvt w)) = Some e \<and>
      this_cache pvt e = AList.update (camelCase name) v (props_of pvt ow w) \<and> (pvt \<or> e_data e \<noteq> None)"
    unfolding put by (intro exI [of _ ?e]) (simp add: entries.get_put ensure_ok assms(1))
  show "entry_of ow' (snd (jq_data E I ow (Put name v) pvt w)) = entry_of ow' w" if "ow' \<noteq> ow"
    unfolding put using that ensure_ok(3) [OF assms(1), of ow' ow]
    by (simp add: entries.get_put ensure_ok assms(1))
qed

lemma set_same: "pvt \<or> e_data e \<noteq> None \<Longrightarrow> set_this_cache pvt (this_cache pvt e) e = e"
  by (auto simp: set_this_cache_def this_cache_def)

lemma get_entry:
  assumes "data_ok w" "acceptData I ow" "entry_of ow w = Some e" "pvt \<or> e_data e \<noteq> None"
  shows "fst (jq_data E I ow (Get name) pvt w) = read_name E pvt name e"
proof -
  have "entry_of ow (ensure_entry ow w) = Some e" using assms(3) ensure_ok(3) [OF assms(1), of ow] by simp
  with assms(2,3,4) show ?thesis by (auto simp: jq_data_def Let_def set_same [OF assms(4)])
qed


lemma get_nothing:
  assumes "entry_of ow w = None \<or> (\<exists>e. entry_of ow w = Some e \<and> e_data e = None)" and "name \<noteq> ''events''"
  shows "fst (jq_data E I ow (Get name) False w) = Undef"
  using assms by (auto simp: jq_data_def Let_def)

lemma entry_destroyed: "entry_of ow (destroy_entry ow w) = None"
  by (auto simp: destroy_entry_def entry_of_def put_entry_def Let_def split: owner.splits option.splits)

lemma remove_rest_entry:
  assumes "data_ok w" "has_slot ow w"
  shows "entry_of ow (remove_rest ow False e w) = None \<or>
    (\<exists>e'. entry_of ow (remove_rest ow False e w) = Some e' \<and> e_data e' = None)"
  by (simp add: remove_rest_def Let_def entry_destroyed entries.get_put assms)

text \<open>
  an array of names is not converted as a single name is: \<open>removeData('foo-bar')\<close> removes what
  was stored under that name, \<open>removeData(['foo-bar'])\<close> removes nothing.
\<close>

theorem removeData_array_keeps_dashed:
  assumes "data_ok w" and "acceptData I ow" and "v \<noteq> Undef" and "camelCase name \<noteq> name" and "name \<noteq> []"
    and "\<not> dict_has E (props_of False ow w) name" and "inherit E PObject (camelCase name) = Undef"
    and "name \<noteq> ''events''"
  shows "fst (jq_data E I ow (Get name) False
      (removeData E I ow (RemoveNames [name]) False (snd (jq_data E I ow (Put name v) False w)))) = v \<and>
    fst (jq_data E I ow (Get name) False
      (removeData E I ow (RemoveName name) False (snd (jq_data E I ow (Put name v) False w)))) = Undef"
proof -
  let ?w = "snd (jq_data E I ow (Put name v) False w)" and ?c = "camelCase name"
  have ok: "data_ok ?w" by (rule data_ok_data [OF assms(1)])
  obtain e where e: "entry_of ow ?w = Some e" "this_cache False e = AList.update ?c v (props_of False ow w)"
    "e_data e \<noteq> None"
    using entry_put(1) [OF assms(1-3), where name = name and pvt = False and E = E] by auto
  let ?d = "this_cache False e"
  have raw: "map_of ?d name = None" "inherit E PObject name = Undef" "inherited E PObject name = None"
    using assms(4,6) by (auto simp: e(2) update_conv' dict_has_def inherit_def)
  have c: "map_of ?d ?c = Some v" by (simp add: e(2) update_conv')
  then have "?d \<noteq> []" by auto
  have "AList.delete name ?d = ?d" using raw(1) by (intro delete_id) (simp add: map_of_eq_None_iff)
  with \<open>?d \<noteq> []\<close> have "removeData E I ow (RemoveNames [name]) False ?w = put_entry ow (Some e) ?w"
    using assms(2) e(1,3) by (auto simp: removeData_def Let_def removal_names_def set_same)
  then have "fst (jq_data E I ow (Get name) False (removeData E I ow (RemoveNames [name]) False ?w)) = read_name E False name e"
    using entry_slot [OF ok, of ow] e(1,3) ok
    by (simp add: get_entry [where e = e] data_ok_put assms(2) entries.get_put)
  also have "\<dots> = v" using raw c assms(8) by (simp add: read_name_def dict_read_def Let_def)
  finally have keeps: "fst (jq_data E I ow (Get name) False (removeData E I ow (RemoveNames [name]) False ?w)) = v" .
  have names: "removal_names E ?d (RemoveName name) = [?c]"
    using raw c by (simp add: removal_names_def dict_has_def)
  let ?e = "set_this_cache False (AList.delete ?c ?d) e"
  have slot: "has_slot ow ?w" using entry_slot [OF ok, of ow] e(1) by simp
  have rem: "removeData E I ow (RemoveName name) False ?w =
      (if AList.delete ?c ?d = [] then remove_rest ow False ?e ?w else put_entry ow (Some ?e) ?w)"
    using assms(2,5) e(1,3) names by (auto simp: removeData_def Let_def)
  have "fst (jq_data E I ow (Get name) False (removeData E I ow (RemoveName name) False ?w)) = Undef"
  proof (cases "AList.delete ?c ?d = []")
    case True
    then show ?thesis unfolding rem if_P [OF True]
      using remove_rest_entry [OF ok slot] assms(8) by (intro get_nothing) auto
  next
    case False
    have "e_data ?e \<noteq> None" by (simp add: set_this_cache_def)
    then have "fst (jq_data E I ow (Get name) False (put_entry ow (Some ?e) ?w)) = read_name E False name ?e"
      using slot ok by (simp add: get_entry [where e = ?e] data_ok_put assms(2) entries.get_put)
    also have "\<dots> = Undef" using raw assms(4,7,8)
      by (simp add: read_name_def dict_read_def Let_def delete_conv')
    finally show ?thesis using False rem by simp
  qed
  with keeps show ?thesis by blast
qed

section \<open>Instances\<close>

definition bare_env :: "nat env" where
  "bare_env = \<lparr>inherited = (\<lambda>_ _. None), call0 = (\<lambda>_ _. Undef), obj_str = (\<lambda>_. [])\<rparr>"

definition divs :: node_info where
  "divs = \<lparr>node_name = (\<lambda>_. ''DIV''), classid = (\<lambda>_. None)\<rparr>"

lemma divs_accept [simp]: "acceptData divs (Node n)"
  by (simp add: acceptData_def divs_def noData_def to_lower_def is_upper_def)

lemma empty_data_ok [simp]: "data_ok empty_data" "props_of pvt ow empty_data = []"
  by (simp_all add: data_ok_def empty_data_def props_of_def entry_of_def split: owner.splits)

lemma bare_read [simp]: "dict_read bare_env [] k = Undef" "inherit bare_env p k = Undef" "\<not> dict_has bare_env [] k"
  by (simp_all add: dict_read_def inherit_def bare_env_def dict_has_def)

lemma foo_bar [simp]: "camelCase ''foo-bar'' = ''fooBar''"
  by code_simp

theorem data_reachable_ok_witness:
  "\<exists>w. expando w 4 = Some 1 \<and> cache w 1 \<noteq> None \<and> (w :: nat data_world) = snd (jq_data bare_env divs (Node 4) (Put ''a'' Null) False empty_data)"
proof -
  let ?w = "snd (jq_data bare_env divs (Node 4) (Put ''a'' Null) False empty_data)"
  have "(data_step bare_env divs)\<^sup>*\<^sup>* empty_data ?w" by (intro r_into_rtranclp uses)
  from data_reachable_ok [OF this] have "cache ?w 1 \<noteq> None \<longleftrightarrow> (\<exists>n. expando ?w n = Some 1)" by blast
  moreover have "expando ?w 4 = Some 1"
    by (simp add: jq_data_def ensure_entry_def empty_data_def put_entry_def entry_of_def Let_def)
  ultimately show ?thesis by blast
qed


theorem removeData_array_keeps_dashed_witness:
  "fst (jq_data bare_env divs (Node 4) (Get ''foo-bar'') False
      (removeData bare_env divs (Node 4) (RemoveNames [''foo-bar'']) False
        (snd (jq_data bare_env divs (Node 4) (Put ''foo-bar'' (Bool True)) False empty_data)))) = Bool True"
  by (rule conjunct1 [OF removeData_array_keeps_dashed]) simp_all

end
