(* ===== verification/JQ_Queue.thy ===== *)
theory JQ_Queue
  imports JS_Prelude "HOL-Library.Sublist"
begin

text \<open>
  \<open>jquery-1.7.2.js\<close>, lines 2034 to 2209: the queues of functions of an element, its marks, and the
  promises that wait for both. The functions in a queue may use the queues themselves, so that they
  are scripts again, and \<open>dequeue\<close> goes on after the function it has called.

  A queue is an array in the data of the element, and \<open>dequeue\<close> keeps a reference to it while the
  function runs; arrays therefore have identities.
\<close>

section \<open>State\<close>

datatype 'f qitem = InProgress | Func 'f

record 'f qstate =
  refs :: "string \<Rightarrow> nat option"
  arrays :: "nat \<Rightarrow> 'f qitem list"
  next_ref :: nat
  run_hooks :: "string \<Rightarrow> bool"
  marks :: "string \<Rightarrow> nat option"
  defers :: "string \<Rightarrow> nat option"
  checks :: "(string \<times> nat) list"
  fired_defers :: "(string \<times> nat) list"
  started :: "(string \<times> 'f) list"
  queued :: "(string \<times> 'f) list"

text \<open>
  \<open>refs\<close>, \<open>marks\<close> and \<open>defers\<close> are the data under \<open>type + "queue"\<close>, \<open>type + "mark"\<close> and
  \<open>type + "defer"\<close>; a defer is numbered. \<open>checks\<close> are the timeouts of \<open>handleQueueMarkDefer\<close>,
  \<open>fired_defers\<close> the defers that have been fired, \<open>queued\<close> the functions that have been put into a
  queue and \<open>started\<close> those that have been called, in order.
\<close>

definition no_queues :: "'f qstate" where
  "no_queues = \<lparr>refs = (\<lambda>_. None), arrays = (\<lambda>_. []), next_ref = 0, run_hooks = (\<lambda>_. False),
     marks = (\<lambda>_. None), defers = (\<lambda>_. None), checks = [], fired_defers = [], started = [], queued = []\<rparr>"

definition set_array :: "nat \<Rightarrow> 'f qitem list \<Rightarrow> 'f qstate \<Rightarrow> 'f qstate" where
  "set_array r q s = s\<lparr>arrays := (arrays s)(r := q)\<rparr>"

text \<open>A fresh array under a type.\<close>

definition store_array :: "string \<Rightarrow> 'f qitem list \<Rightarrow> 'f qstate \<Rightarrow> 'f qstate" where
  "store_array ty q s =
     s\<lparr>arrays := (arrays s)(next_ref s := q), refs := (refs s)(ty \<mapsto> next_ref s), next_ref := Suc (next_ref s)\<rparr>"

section \<open>Marks and promises\<close>

datatype source = FromQueue | FromMark | FromElsewhere

definition handleQueueMarkDefer :: "string \<Rightarrow> source \<Rightarrow> 'f qstate \<Rightarrow> 'f qstate" where
  "handleQueueMarkDefer ty src s =
     (case defers s ty of
        None \<Rightarrow> s
      | Some d \<Rightarrow>
          if (src = FromQueue \<or> refs s ty = None) \<and> (src = FromMark \<or> marks s ty = None)
          then s\<lparr>checks := checks s @ [(ty, d)]\<rparr> else s)"

text \<open>The timeout: it looks again.\<close>

definition run_check :: "string \<times> nat \<Rightarrow> 'f qstate \<Rightarrow> 'f qstate" where
  "run_check c s =
     (let s1 = s\<lparr>checks := remove1 c (checks s)\<rparr>
      in if refs s1 (fst c) = None \<and> marks s1 (fst c) = None
         then s1\<lparr>defers := (defers s1)(fst c := None), fired_defers := fired_defers s1 @ [c]\<rparr> else s1)"

definition mark_elem :: "string \<Rightarrow> 'f qstate \<Rightarrow> 'f qstate" where
  "mark_elem ty s =
     s\<lparr>marks := (marks s)(ty \<mapsto> Suc (case marks s ty of None \<Rightarrow> 0 | Some n \<Rightarrow> n))\<rparr>"

definition unmark_elem :: "bool \<Rightarrow> string \<Rightarrow> 'f qstate \<Rightarrow> 'f qstate" where
  "unmark_elem force ty s =
     (let count = (if force then 0 else (case marks s ty of None \<Rightarrow> 1 | Some n \<Rightarrow> if n = 0 then 1 else n) - 1)
      in if count \<noteq> 0 then s\<lparr>marks := (marks s)(ty \<mapsto> count)\<rparr>
         else handleQueueMarkDefer ty FromMark (s\<lparr>marks := (marks s)(ty := None)\<rparr>))"

text \<open>
  \<open>promise\<close> on one element: it waits if there is a defer already, a queue or a mark. The result is
  the defer to wait for.
\<close>

definition wait_for :: "string \<Rightarrow> nat \<Rightarrow> 'f qstate \<Rightarrow> nat option \<times> 'f qstate" where
  "wait_for ty fresh s =
     (case defers s ty of
        Some d \<Rightarrow> (Some d, s)
      | None \<Rightarrow>
          if refs s ty \<noteq> None \<or> marks s ty \<noteq> None
          then (Some fresh, s\<lparr>defers := (defers s)(ty \<mapsto> fresh)\<rparr>) else (None, s))"

section \<open>\<open>queue\<close> and \<open>dequeue\<close>\<close>

text \<open>
  The second argument of \<open>queue\<close>: a function to append, or an array that replaces the queue.
  The text \<open>"fx"\<close> for a missing type is the caller's.
\<close>

datatype 'f qdata = Append 'f | Replace "'f list"

definition note_queued :: "string \<Rightarrow> 'f list \<Rightarrow> 'f qstate \<Rightarrow> 'f qstate" where
  "note_queued ty fs s = s\<lparr>queued := queued s @ map (Pair ty) fs\<rparr>"

definition queue_put :: "string \<Rightarrow> 'f qdata \<Rightarrow> 'f qstate \<Rightarrow> 'f qstate" where
  "queue_put ty d s =
     (case d of
        Replace fs \<Rightarrow> store_array ty (map Func fs) (note_queued ty fs s)
      | Append f \<Rightarrow>
          (let s1 = note_queued ty [f] s
           in case refs s1 ty of
                None \<Rightarrow> store_array ty [Func f] s1
              | Some r \<Rightarrow> set_array r (arrays s1 r @ [Func f]) s1))"

definition queue_get :: "string \<Rightarrow> 'f qstate \<Rightarrow> 'f qitem list" where
  "queue_get ty s = (case refs s ty of None \<Rightarrow> [] | Some r \<Rightarrow> arrays s r)"

text \<open>The two \<open>shift\<close>s: the function to call, if any, and what is left.\<close>

definition shift_func :: "'f qitem list \<Rightarrow> 'f option \<times> 'f qitem list" where
  "shift_func q =
     (case q of
        [] \<Rightarrow> (None, [])
      | Func f # rest \<Rightarrow> (Some f, rest)
      | InProgress # rest \<Rightarrow>
          (case rest of
             Func f # others \<Rightarrow> (Some f, others)
           | InProgress # others \<Rightarrow> (None, others)
           | [] \<Rightarrow> (None, [])))"

definition drop_queue :: "string \<Rightarrow> 'f qstate \<Rightarrow> 'f qstate" where
  "drop_queue ty s =
     handleQueueMarkDefer ty FromQueue
       (s\<lparr>refs := (refs s)(ty := None), run_hooks := (run_hooks s)(ty := False)\<rparr>)"

text \<open>
  \<open>dequeue\<close> up to the call of the function. The reference is the array it keeps, \<open>None\<close> for the
  array \<open>queue\<close> makes up when there is none.
\<close>

definition dequeue_start :: "string \<Rightarrow> 'f qstate \<Rightarrow> 'f option \<times> nat option \<times> 'f qstate" where
  "dequeue_start ty s =
     (case refs s ty of
        None \<Rightarrow> (None, None, s)
      | Some r \<Rightarrow>
          (case shift_func (arrays s r) of
             (None, rest) \<Rightarrow> (None, Some r, set_array r rest s)
           | (Some f, rest) \<Rightarrow>
               (Some f, Some r,
                (set_array r (if ty = ''fx'' then InProgress # rest else rest) s)
                  \<lparr>run_hooks := (run_hooks s)(ty := True), started := started s @ [(ty, f)]\<rparr>)))"

text \<open>\<dots> and after it.\<close>

definition dequeue_end :: "string \<Rightarrow> nat option \<Rightarrow> 'f qstate \<Rightarrow> 'f qstate" where
  "dequeue_end ty r s =
     (if (case r of None \<Rightarrow> True | Some r \<Rightarrow> arrays s r = []) then drop_queue ty s else s)"

section \<open>Scripts\<close>

datatype 'f qop =
    Put string "'f qdata"
  | Dequeue string
  | Mark string
  | Unmark bool string
  | WaitFor string nat

datatype 'f qscript = Stop | Do "'f qop" "'f qstate \<Rightarrow> 'f qscript"

datatype 'f qframe = Script "'f qscript" | Wait "'f qstate \<Rightarrow> 'f qscript" | AfterDequeue string "nat option"

text \<open>\<open>$(elem).queue(type, data)\<close>: the effects queue is started when nothing is in progress.\<close>

definition fn_queue :: "string \<Rightarrow> 'f qdata \<Rightarrow> ('f qstate \<Rightarrow> 'f qscript) \<Rightarrow> 'f qscript" where
  "fn_queue ty d k =
     Do (Put ty d) (\<lambda>s.
       if ty = ''fx'' \<and> (queue_get ty s = [] \<or> hd (queue_get ty s) \<noteq> InProgress) then Do (Dequeue ty) k else k s)"

definition clearQueue :: "string \<Rightarrow> ('f qstate \<Rightarrow> 'f qscript) \<Rightarrow> 'f qscript" where
  "clearQueue ty k = fn_queue ty (Replace []) k"

fun do_op :: "('f \<Rightarrow> string \<Rightarrow> 'f qscript) \<Rightarrow> 'f qop \<Rightarrow> 'f qstate \<Rightarrow> 'f qstate \<times> 'f qframe list" where
  "do_op F (Put ty d) s = (queue_put ty d s, [])"
| "do_op F (Dequeue ty) s =
     (case dequeue_start ty s of
        (None, r, s') \<Rightarrow> (dequeue_end ty r s', [])
      | (Some f, r, s') \<Rightarrow> (s', [Script (F f ty), AfterDequeue ty r]))"
| "do_op F (Mark ty) s = (mark_elem ty s, [])"
| "do_op F (Unmark force ty) s = (unmark_elem force ty s, [])"
| "do_op F (WaitFor ty d) s = (snd (wait_for ty d s), [])"

fun run_qframe ::
  "('f \<Rightarrow> string \<Rightarrow> 'f qscript) \<Rightarrow> 'f qstate \<times> 'f qframe list \<Rightarrow> ('f qstate \<times> 'f qframe list) option" where
  "run_qframe F (s, []) = None"
| "run_qframe F (s, Script Stop # fs) = Some (s, fs)"
| "run_qframe F (s, Script (Do d k) # fs) = (let (s', new) = do_op F d s in Some (s', new @ Wait k # fs))"
| "run_qframe F (s, Wait k # fs) = Some (s, Script (k s) # fs)"
| "run_qframe F (s, AfterDequeue ty r # fs) = Some (dequeue_end ty r s, fs)"

partial_function (option) run_queues ::
  "('f \<Rightarrow> string \<Rightarrow> 'f qscript) \<Rightarrow> 'f qstate \<times> 'f qframe list \<Rightarrow> 'f qstate option" where
  "run_queues F c = (case run_qframe F c of None \<Rightarrow> Some (fst c) | Some c' \<Rightarrow> run_queues F c')"

declare run_queues.simps [code]

text \<open>
  A page runs scripts one after the other, among them those a finished animation or a timer starts
  with \<open>dequeue\<close>; and the timeouts of \<open>handleQueueMarkDefer\<close> come in.
\<close>

inductive queue_step ::
  "('f \<Rightarrow> string \<Rightarrow> 'f qscript) \<Rightarrow> 'f qstate \<times> 'f qframe list \<Rightarrow> 'f qstate \<times> 'f qframe list \<Rightarrow> bool" for F where
  frame: "run_qframe F c = Some c' \<Longrightarrow> queue_step F c c'"
| task: "queue_step F (s, []) (s, [Script p])"
| timeout: "c \<in> set (checks s) \<Longrightarrow> queue_step F (s, []) (run_check c s, [])"

inductive_cases queue_stepE: "queue_step F c c'"

section \<open>The order of the functions\<close>

definition funcs :: "'f qitem list \<Rightarrow> 'f list" where
  "funcs q = concat (map (\<lambda>i. case i of Func f \<Rightarrow> [f] | InProgress \<Rightarrow> []) q)"

definition of_type :: "string \<Rightarrow> (string \<times> 'f) list \<Rightarrow> 'f list" where
  "of_type ty l = map snd (filter (\<lambda>p. fst p = ty) l)"

lemma funcs_simps [simp]:
  "funcs [] = []" "funcs (Func f # q) = f # funcs q" "funcs (InProgress # q) = funcs q"
  "funcs (q @ q') = funcs q @ funcs q'" "funcs (map Func fs) = fs"
  by (simp_all add: funcs_def comp_def)

lemma of_type_simps [simp]:
  "of_type ty [] = []" "of_type ty (l @ l') = of_type ty l @ of_type ty l'"
  "of_type ty [(ty', f)] = (if ty' = ty then [f] else [])"
  "of_type ty (map (Pair ty') fs) = (if ty' = ty then fs else [])"
  by (auto simp: of_type_def comp_def)

text \<open>
  Arrays of different types are different, the sentinel is only in front, and what has been
  started and what is waiting is part of what was queued, in that order.
\<close>

definition queues_ok :: "'f qstate \<Rightarrow> bool" where
  "queues_ok s \<longleftrightarrow> (\<forall>ty r. refs s ty = Some r \<longrightarrow> r < next_ref s) \<and>
     (\<forall>t t' r. refs s t = Some r \<and> refs s t' = Some r \<longrightarrow> t = t') \<and>
     (\<forall>r. InProgress \<notin> set (tl (arrays s r))) \<and>
     (\<forall>ty. subseq (of_type ty (started s) @ funcs (queue_get ty s)) (of_type ty (queued s)))"

lemma queue_get_cong: "refs s' = refs s \<Longrightarrow> arrays s' = arrays s \<Longrightarrow> queue_get ty s' = queue_get ty s"
  by (simp add: queue_get_def split: option.split)

lemma queues_ok_frame:
  "queues_ok s \<Longrightarrow> refs s' = refs s \<Longrightarrow> arrays s' = arrays s \<Longrightarrow> next_ref s' = next_ref s \<Longrightarrow> started s' = started s \<Longrightarrow>
   queued s' = queued s \<Longrightarrow> queues_ok s'"
  using queue_get_cong [of s' s] by (simp add: queues_ok_def)

lemma subseq_left: "subseq (xs @ ys) zs \<Longrightarrow> subseq xs zs"
  by (rule subseq_order.trans [OF subseq_rev_drop_many [OF subseq_order.refl]])

lemma queues_okD:
  assumes "queues_ok s"
  shows "refs s ty = Some r \<Longrightarrow> r < next_ref s" "refs s t = Some r \<Longrightarrow> refs s t' = Some r \<Longrightarrow> t = t'"
    "InProgress \<notin> set (tl (arrays s r))"
    "subseq (of_type ty (started s) @ funcs (queue_get ty s)) (of_type ty (queued s))"
  using assms unfolding queues_ok_def by auto

lemma ok_store:
  assumes "queues_ok s" "InProgress \<notin> set (tl q)"
  shows "queues_ok (store_array ty q (note_queued ty (funcs q) s))"
proof -
  let ?s = "store_array ty q (note_queued ty (funcs q) s)"
  have sel: "refs ?s = (refs s)(ty \<mapsto> next_ref s)" "arrays ?s = (arrays s)(next_ref s := q)"
    "next_ref ?s = Suc (next_ref s)" "started ?s = started s" "queued ?s = queued s @ map (Pair ty) (funcs q)"
    by (simp_all add: store_array_def note_queued_def)
  have get: "queue_get t ?s = (if t = ty then q else queue_get t s)" for t
    using queues_okD(1) [OF assms(1), of t] by (auto simp: queue_get_def sel split: option.splits)
  have "subseq (of_type t (started ?s) @ funcs (queue_get t ?s)) (of_type t (queued ?s))" for t
    using queues_okD(4) [OF assms(1), of t] subseq_left [OF queues_okD(4) [OF assms(1), of t]]
    by (simp add: sel get)
  moreover have "r < next_ref ?s" if "refs ?s t = Some r" for t r
    using that queues_okD(1) [OF assms(1), of t r] by (auto simp: sel split: if_splits)
  moreover have "t = t'" if "refs ?s t = Some r" "refs ?s t' = Some r" for t t' r
    using that queues_okD(1) [OF assms(1), of _ r] queues_okD(2) [OF assms(1), of t r t']
    by (auto simp: sel split: if_splits)
  moreover have "InProgress \<notin> set (tl (arrays ?s r))" for r
    using queues_okD(3) [OF assms(1)] assms(2) by (simp add: sel)
  ultimately show ?thesis unfolding queues_ok_def by blast
qed

text \<open>Writing to the array of a type.\<close>

lemma ok_write:
  assumes "queues_ok s" "refs s ty = Some r" "InProgress \<notin> set (tl q)"
    and "subseq (of_type ty (started s') @ funcs q) (of_type ty (queued s'))"
    and "\<And>t. t \<noteq> ty \<Longrightarrow> of_type t (started s') = of_type t (started s) \<and> of_type t (queued s') = of_type t (queued s)"
    and "refs s' = refs s" "arrays s' = (arrays s)(r := q)" "next_ref s' = next_ref s"
  shows "queues_ok s'"
proof -
  have get: "queue_get t s' = (if t = ty then q else queue_get t s)" for t
  proof (cases "t = ty")
    case False
    then have "refs s t \<noteq> Some r" using queues_okD(2) [OF assms(1) _ assms(2)] by blast
    with False show ?thesis by (simp add: queue_get_def assms(6,7) split: option.split)
  qed (simp add: queue_get_def assms(2,6,7))
  have "subseq (of_type t (started s') @ funcs (queue_get t s')) (of_type t (queued s'))" for t
    using assms(4) assms(5) [of t] queues_okD(4) [OF assms(1), of t] by (cases "t = ty") (simp_all add: get)
  moreover have "\<forall>k. InProgress \<notin> set (tl (arrays s' k))"
    using queues_okD(3) [OF assms(1)] assms(3) by (simp add: assms(7))
  moreover have "\<forall>t k. refs s' t = Some k \<longrightarrow> k < next_ref s'"
    using queues_okD(1) [OF assms(1)] by (simp add: assms(6,8))
  moreover have "\<forall>t t' k. refs s' t = Some k \<and> refs s' t' = Some k \<longrightarrow> t = t'"
    unfolding assms(6) using queues_okD(2) [OF assms(1)] by blast
  ultimately show ?thesis unfolding queues_ok_def by blast
qed

lemma queues_ok_put: "queues_ok s \<Longrightarrow> queues_ok (queue_put ty d s)"
proof (cases d)
  case (Append f)
  assume ok: "queues_ok s"
  show ?thesis
  proof (cases "refs s ty")
    case None
    with ok_store [OF ok, of "[Func f]" ty] Append show ?thesis
      by (simp add: queue_put_def note_queued_def)
  next
    case (Some r)
    have "funcs (arrays s r) = funcs (queue_get ty s)" using Some by (simp add: queue_get_def)
    moreover have "InProgress \<notin> set (tl (arrays s r @ [Func f]))"
      using queues_okD(3) [OF ok, of r] by (cases "arrays s r") auto
    ultimately have "queues_ok (set_array r (arrays s r @ [Func f]) (note_queued ty [f] s))"
      using queues_okD(4) [OF ok, of ty]
      by (intro ok_write [OF ok Some]) (simp_all add: set_array_def note_queued_def flip: append_assoc)
    with Append Some show ?thesis by (simp add: queue_put_def note_queued_def)
  qed
next
  case (Replace fs)
  assume ok: "queues_ok s"
  have "InProgress \<notin> set (tl (map Func fs))" by (cases fs) auto
  from ok_store [OF ok this, of ty] Replace show ?thesis by (simp add: queue_put_def)
qed

lemma handle_defer_sel [simp]:
  "refs (handleQueueMarkDefer ty src s) = refs s" "arrays (handleQueueMarkDefer ty src s) = arrays s"
  "next_ref (handleQueueMarkDefer ty src s) = next_ref s" "started (handleQueueMarkDefer ty src s) = started s"
  "queued (handleQueueMarkDefer ty src s) = queued s"
  by (simp_all add: handleQueueMarkDefer_def split: option.splits)

lemma ok_drop: "queues_ok s \<Longrightarrow> queues_ok (drop_queue ty s)"
proof -
  assume ok: "queues_ok s"
  have sel: "refs (drop_queue ty s) = (refs s)(ty := None)" "arrays (drop_queue ty s) = arrays s"
    "next_ref (drop_queue ty s) = next_ref s" "started (drop_queue ty s) = started s"
    "queued (drop_queue ty s) = queued s"
    by (simp_all add: drop_queue_def)
  have get: "queue_get t (drop_queue ty s) = (if t = ty then [] else queue_get t s)" for t
    by (simp add: queue_get_def sel split: option.split)
  have "subseq (of_type t (started (drop_queue ty s)) @ funcs (queue_get t (drop_queue ty s)))
      (of_type t (queued (drop_queue ty s)))" for t
    using queues_okD(4) [OF ok, of t] subseq_left [OF queues_okD(4) [OF ok, of t]]
    by (cases "t = ty") (simp_all add: sel get)
  moreover have "\<forall>t k. refs (drop_queue ty s) t = Some k \<longrightarrow> k < next_ref (drop_queue ty s)"
    using queues_okD(1) [OF ok] by (simp add: sel)
  moreover have "\<forall>t t' k. refs (drop_queue ty s) t = Some k \<and> refs (drop_queue ty s) t' = Some k \<longrightarrow> t = t'"
    using queues_okD(2) [OF ok] by (simp add: sel) blast
  moreover have "\<forall>k. InProgress \<notin> set (tl (arrays (drop_queue ty s) k))"
    using queues_okD(3) [OF ok] by (simp add: sel)
  ultimately show ?thesis unfolding queues_ok_def by blast
qed

lemma shift_funcs:
  assumes "shift_func q = (x, rest)" "InProgress \<notin> set (tl q)"
  shows "InProgress \<notin> set rest" "funcs q = (case x of Some f \<Rightarrow> [f] | None \<Rightarrow> []) @ funcs rest"
    "x = None \<Longrightarrow> rest = []"
  using assms by (auto simp: shift_func_def split: list.splits qitem.splits)

lemma ok_start:
  assumes "queues_ok s" "dequeue_start ty s = (x, r, s')"
  shows "queues_ok s'"
proof (cases "refs s ty")
  case (Some i)
  obtain y rest where sh: "shift_func (arrays s i) = (y, rest)" by (cases "shift_func (arrays s i)")
  note facts = shift_funcs [OF sh queues_okD(3) [OF assms(1)]]
  have q: "funcs (queue_get ty s) = (case y of Some f \<Rightarrow> [f] | None \<Rightarrow> []) @ funcs rest"
    using facts(2) Some by (simp add: queue_get_def)
  have tl: "InProgress \<notin> set (tl rest)" using facts(1) by (cases rest) auto
  show ?thesis
  proof (cases y)
    case None
    then have "s' = set_array i rest s" using assms(2) Some sh by (simp add: dequeue_start_def)
    with queues_okD(4) [OF assms(1), of ty] q None tl show ?thesis
      by (intro ok_write [OF assms(1) Some]) (simp_all add: set_array_def)
  next
    case f: (Some f)
    let ?q = "if ty = ''fx'' then InProgress # rest else rest"
    have "s' = (set_array i ?q s)\<lparr>run_hooks := (run_hooks s)(ty := True), started := started s @ [(ty, f)]\<rparr>"
      using assms(2) Some sh f by (simp add: dequeue_start_def)
    moreover have "funcs ?q = funcs rest" "InProgress \<notin> set (tl ?q)" using tl facts(1) by simp_all
    ultimately show ?thesis using queues_okD(4) [OF assms(1), of ty] q f
      by (intro ok_write [OF assms(1) Some, of ?q]) (simp_all add: set_array_def split del: if_split)
  qed
qed (use assms in \<open>simp add: dequeue_start_def\<close>)

lemma ok_do_op: "queues_ok s \<Longrightarrow> queues_ok (fst (do_op F d s))"
proof (cases d)
  case (Dequeue ty)
  assume ok: "queues_ok s"
  obtain x r s' where st: "dequeue_start ty s = (x, r, s')" by (cases "dequeue_start ty s")
  from ok_start [OF ok st] ok_drop [of s'] show ?thesis
    using Dequeue st by (cases x) (simp_all add: dequeue_end_def)
next
  case (Put ty e)
  assume "queues_ok s"
  with Put show ?thesis by (simp add: queues_ok_put)
next
  case (Mark ty)
  assume "queues_ok s"
  then show ?thesis by (rule queues_ok_frame) (simp_all add: Mark mark_elem_def)
next
  case (Unmark b ty)
  assume "queues_ok s"
  then show ?thesis by (rule queues_ok_frame) (simp_all add: Unmark unmark_elem_def Let_def)
next
  case (WaitFor ty n)
  assume "queues_ok s"
  then show ?thesis by (rule queues_ok_frame) (simp_all add: WaitFor wait_for_def split: option.split)
qed

lemma ok_qframe: "run_qframe F c = Some c' \<Longrightarrow> queues_ok (fst c) \<Longrightarrow> queues_ok (fst c')"
proof (induction F c rule: run_qframe.induct)
  case (3 F s d k fs)
  with ok_do_op [of s F d] show ?case by (auto split: prod.splits)
next
  case (5 F s ty r fs)
  then show ?case by (auto simp: dequeue_end_def ok_drop)
qed auto

interpretation queues: preserved_invariant "queue_step F" "\<lambda>c. queues_ok (fst c)" for F
proof
  fix c c' :: "'a qstate \<times> 'a qframe list"
  assume "queue_step F c c'" and ok: "queues_ok (fst c)"
  then show "queues_ok (fst c')"
  proof cases
    case frame
    with ok ok_qframe show ?thesis by blast
  next
    case (timeout k s)
    have "queues_ok (run_check k s)"
      by (rule queues_ok_frame [where s = s]) (use ok timeout in \<open>simp_all add: run_check_def Let_def\<close>)
    with timeout show ?thesis by simp
  qed (use ok in simp)
qed

text \<open>
  C32: the functions of a queue are started in the order in which they were queued, each at most once
  for each time it was queued, and what is waiting comes after what has been started; this holds for
  every type at every moment, although the functions themselves use, replace and clear the queues.
\<close>

theorem queue_order:
  assumes "(queue_step F)\<^sup>*\<^sup>* (no_queues, []) (s, fs)"
  shows "subseq (of_type ty (started s) @ funcs (queue_get ty s)) (of_type ty (queued s))"
proof -
  have "queues_ok (fst (no_queues :: 'a qstate, []))"
    by (simp add: queues_ok_def no_queues_def queue_get_def)
  from queues.reachable [OF assms this] show ?thesis by (simp add: queues_ok_def)
qed

text \<open>
  \<open>dequeue\<close> removes a queue it has not looked at: it keeps the array it started with and drops
  the data of the queue when that array is empty after the call. When a function first moves the
  queue on and then queues another function, that function is dropped with the queue and never
  called.
\<close>

theorem late_function_is_lost:
  assumes "queues_ok s" and "refs s ty = Some r" and "arrays s r = [Func f]" and "ty \<noteq> ''fx''"
    and "F f ty = Do (Dequeue ty) (\<lambda>_. Do (Put ty (Append g)) (\<lambda>_. Stop))"
  shows "\<exists>s'. run_queues F (s, [Script (Do (Dequeue ty) (\<lambda>_. Stop))]) = Some s' \<and> refs s' ty = None \<and>
    of_type ty (queued s') = of_type ty (queued s) @ [g] \<and> of_type ty (started s') = of_type ty (started s) @ [f]"
proof -
  let ?p = "Do (Dequeue ty) (\<lambda>_. Stop) :: 'a qscript"
  define s1 where "s1 = (set_array r [] s)\<lparr>run_hooks := (run_hooks s)(ty := True), started := started s @ [(ty, f)]\<rparr>"
  define s2 where "s2 = drop_queue ty (set_array r [] s1)"
  define s3 where "s3 = store_array ty [Func g] (note_queued ty [g] s2)"
  define s4 where "s4 = drop_queue ty s3"
  let ?rest = "[AfterDequeue ty (Some r), Wait (\<lambda>_. Stop)]"
  have step: "run_queues F c = run_queues F c'" if "run_qframe F c = Some c'" for c c'
    by (subst run_queues.simps) (simp add: that)
  have "run_qframe F (s, [Script ?p]) = Some (s1, Script (F f ty) # ?rest)"
    using assms(2-4) by (simp add: dequeue_start_def shift_func_def s1_def)
  moreover have "run_qframe F (s1, Script (F f ty) # ?rest) =
      Some (s2, Wait (\<lambda>_. Do (Put ty (Append g)) (\<lambda>_. Stop)) # ?rest)"
    using assms(2) by (simp add: assms(5) s1_def s2_def dequeue_start_def shift_func_def set_array_def dequeue_end_def)
  moreover have "run_qframe F (s2, Wait (\<lambda>_. Do (Put ty (Append g)) (\<lambda>_. Stop)) # ?rest) =
      Some (s2, Script (Do (Put ty (Append g)) (\<lambda>_. Stop)) # ?rest)"
    by simp
  moreover have "run_qframe F (s2, Script (Do (Put ty (Append g)) (\<lambda>_. Stop)) # ?rest) = Some (s3, Wait (\<lambda>_. Stop) # ?rest)"
    by (simp add: queue_put_def s3_def s2_def drop_queue_def note_queued_def)
  moreover have "run_qframe F (s3, Wait (\<lambda>_. Stop) # ?rest) = Some (s3, Script Stop # ?rest)"
    "run_qframe F (s3, Script Stop # ?rest) = Some (s3, ?rest)" by simp_all
  moreover have "arrays s3 r = []" using queues_okD(1) [OF assms(1,2)]
    by (simp add: s3_def s2_def s1_def store_array_def note_queued_def drop_queue_def set_array_def)
  then have "run_qframe F (s3, ?rest) = Some (s4, [Wait (\<lambda>_. Stop)])" by (simp add: dequeue_end_def s4_def)
  moreover have "run_qframe F (s4, [Wait (\<lambda>_. Stop)]) = Some (s4, [Script Stop])"
    "run_qframe F (s4, [Script Stop]) = Some (s4, [])" by simp_all
  moreover have "run_queues F (s4, []) = Some s4" by (subst run_queues.simps) simp
  ultimately have "run_queues F (s, [Script ?p]) = Some s4" using step by metis
  moreover have "refs s4 ty = None" "queued s4 = queued s @ [(ty, g)]" "started s4 = started s @ [(ty, f)]"
    by (simp_all add: s4_def s3_def s2_def s1_def drop_queue_def store_array_def note_queued_def set_array_def)
  ultimately show ?thesis by auto
qed

text \<open>Function 1 moves the queue on and queues function 2.\<close>

definition eager :: "nat \<Rightarrow> string \<Rightarrow> nat qscript" where
  "eager f ty = (if f = 1 then Do (Dequeue ty) (\<lambda>_. Do (Put ty (Append 2)) (\<lambda>_. Stop)) else Stop)"

text \<open>A script queues the functions 1 and 3 and moves the queue on: 1 has been started, and 3 waits.\<close>

definition two_queued :: "nat qscript" where
  "two_queued = Do (Put ''x'' (Append 1)) (\<lambda>_. Do (Put ''x'' (Append 3)) (\<lambda>_. Do (Dequeue ''x'') (\<lambda>_. Stop)))"

definition one_started :: "nat qstate" where
  "one_started = snd (snd (dequeue_start ''x'' (queue_put ''x'' (Append 3) (queue_put ''x'' (Append 1) no_queues))))"

theorem queue_order_witness:
  "of_type ''x'' (started one_started) @ funcs (queue_get ''x'' one_started) = [1, 3] \<and>
   subseq [1, 3] (of_type ''x'' (queued one_started))"
proof -
  let ?dequeue = "Do (Dequeue ''x'') (\<lambda>_. Stop) :: nat qscript"
  let ?put = "Do (Put ''x'' (Append 3)) (\<lambda>_. ?dequeue) :: nat qscript"
  let ?s1 = "queue_put ''x'' (Append 1) no_queues :: nat qstate"
  let ?s2 = "queue_put ''x'' (Append 3) (queue_put ''x'' (Append 1) no_queues) :: nat qstate"
  let ?final = "(one_started, [Script (eager 1 ''x''), AfterDequeue ''x'' (Some 0), Wait (\<lambda>_. Stop)])"
  have step: "(queue_step eager)\<^sup>*\<^sup>* c d" if "run_qframe eager c = Some c'" "(queue_step eager)\<^sup>*\<^sup>* c' d" for c c' d
    by (rule converse_rtranclp_into_rtranclp [OF queue_step.frame [OF that(1)] that(2)])
  have "(queue_step eager)\<^sup>*\<^sup>* (?s2, [Wait (\<lambda>_. ?dequeue)]) ?final"
    by (rule step [where c' = "(?s2, [Script ?dequeue])"], simp, rule step [where c' = ?final])
      (simp_all add: one_started_def queue_put_def no_queues_def note_queued_def store_array_def set_array_def
        dequeue_start_def shift_func_def)
  then have "(queue_step eager)\<^sup>*\<^sup>* (?s1, [Wait (\<lambda>_. ?put)]) ?final"
    by (rule step [rotated, where c' = "(?s1, [Script ?put])", OF step [rotated]]) simp_all
  then have "(queue_step eager)\<^sup>*\<^sup>* (no_queues, [Script two_queued]) ?final"
    by (rule step [rotated]) (simp add: two_queued_def)
  then have "(queue_step eager)\<^sup>*\<^sup>* (no_queues, []) ?final"
    by (rule converse_rtranclp_into_rtranclp [rotated]) (rule queue_step.task)
  moreover have "of_type ''x'' (started one_started) @ funcs (queue_get ''x'' one_started) = [1, 3]"
    by (simp add: one_started_def queue_put_def no_queues_def note_queued_def store_array_def set_array_def
      dequeue_start_def shift_func_def queue_get_def)
  ultimately show ?thesis using queue_order [of eager one_started _ "''x''"] by metis
qed

theorem late_function_is_lost_witness:
  "\<exists>s'. run_queues eager (queue_put ''x'' (Append 1) no_queues, [Script (Do (Dequeue ''x'') (\<lambda>_. Stop))]) = Some s' \<and>
     refs s' ''x'' = None \<and> of_type ''x'' (queued s') = [1, 2] \<and> of_type ''x'' (started s') = [1]"
proof -
  let ?s = "queue_put ''x'' (Append 1) no_queues :: nat qstate"
  have "queues_ok (no_queues :: nat qstate)" by (simp add: queues_ok_def no_queues_def queue_get_def)
  then have "queues_ok ?s" by (rule queues_ok_put)
  moreover have "refs ?s ''x'' = Some 0" "arrays ?s 0 = [Func 1]" "queued ?s = [(''x'', 1)]" "started ?s = []"
    by (simp_all add: queue_put_def no_queues_def note_queued_def store_array_def)
  ultimately show ?thesis using late_function_is_lost [of ?s "''x''" 0 1 eager 2] by (simp add: eager_def)
qed

end
