(* ===== verification/JQ_Class.thy ===== *)
theory JQ_Class
  imports JS_Prelude "HOL-Library.Sublist"
begin

text \<open>
  \<open>jquery-1.7.2.js\<close>, lines 2239 to 2367: \<open>addClass\<close>, \<open>removeClass\<close>, \<open>toggleClass\<close> and
  \<open>hasClass\<close>. The class attribute is a text; what the methods promise is about the set of names
  in it.
\<close>

section \<open>Texts within texts\<close>

text \<open>\<open>s.indexOf(p) > -1\<close> and \<open>s.replace(p, r)\<close> for a text \<open>p\<close>, which replaces the first occurrence.\<close>

fun contains :: "string \<Rightarrow> string \<Rightarrow> bool" where
  "contains p [] = (p = [])"
| "contains p (c # s) = (prefix p (c # s) \<or> contains p s)"

fun replace_first :: "string \<Rightarrow> string \<Rightarrow> string \<Rightarrow> string" where
  "replace_first p r [] = (if p = [] then r else [])"
| "replace_first p r (c # s) =
     (if prefix p (c # s) then r @ drop (length p) (c # s) else c # replace_first p r s)"

definition spaced :: "string \<Rightarrow> string" where
  "spaced s = '' '' @ s @ '' ''"

text \<open>\<open>s.replace(rclass, " ")\<close>\<close>

definition blank :: "string \<Rightarrow> string" where
  "blank s = map (\<lambda>c. if c \<in> {CHR 0x09, CHR 0x0A, CHR 0x0D} then CHR '' '' else c) s"

section \<open>The methods\<close>

text \<open>\<open>saved_class\<close> is the private data \<open>__className__\<close>.\<close>

record element =
  node_type :: int
  class_name :: string
  saved_class :: "string option"

text \<open>
  An argument: a text, a function of the index and the class text that gives an argument, or
  something else. Functions of the page are taken to depend on these only.
\<close>

datatype class_arg =
    NoArg
  | Flag bool
  | Text string
  | Fun "nat \<times> string \<Rightarrow> class_arg"
  | Other

definition add_name :: "string \<Rightarrow> string \<Rightarrow> string" where
  "add_name c setClass = (if contains (spaced c) setClass then setClass else setClass @ c @ '' '')"

definition add_names :: "string \<Rightarrow> element \<Rightarrow> element" where
  "add_names v e =
     (let classNames = split_ws v
      in if node_type e = 1 then
           (if class_name e = [] \<and> length classNames = 1 then e\<lparr>class_name := v\<rparr>
            else e\<lparr>class_name := str_trim (fold add_name classNames (spaced (class_name e)))\<rparr>)
         else e)"

text \<open>The methods on a set of one element, which is how a function's result is used.\<close>

primrec add_one :: "class_arg \<Rightarrow> element \<Rightarrow> element" where
  "add_one NoArg = (\<lambda>e. e)"
| "add_one (Flag b) = (\<lambda>e. e)"
| "add_one (Text v) = (\<lambda>e. if v = [] then e else add_names v e)"
| "add_one (Fun g) = (\<lambda>e. add_one (g (0, class_name e)) e)"
| "add_one Other = (\<lambda>e. e)"

text \<open>A method on a set: a function sees the index of each element.\<close>

definition each_element :: "(class_arg \<Rightarrow> element \<Rightarrow> element) \<Rightarrow> class_arg \<Rightarrow> element list \<Rightarrow> element list" where
  "each_element one a es =
     (case a of
        Fun g \<Rightarrow> map (\<lambda>(j, e). one (g (j, class_name e)) e) (zip [0..<length es] es)
      | _ \<Rightarrow> map (one a) es)"

definition addClass :: "class_arg \<Rightarrow> element list \<Rightarrow> element list" where
  "addClass = each_element add_one"

definition remove_names :: "string option \<Rightarrow> element \<Rightarrow> element" where
  "remove_names v e =
     (if node_type e = 1 \<and> class_name e \<noteq> [] then
        (case v of
           Some t \<Rightarrow>
             e\<lparr>class_name := str_trim (fold (\<lambda>c. replace_first (spaced c) '' '') (split_ws t)
                 (blank (spaced (class_name e))))\<rparr>
         | None \<Rightarrow> e\<lparr>class_name := []\<rparr>)
      else e)"

primrec remove_one :: "class_arg \<Rightarrow> element \<Rightarrow> element" where
  "remove_one NoArg = (\<lambda>e. remove_names None e)"
| "remove_one (Flag b) = (\<lambda>e. e)"
| "remove_one (Text v) = (\<lambda>e. if v = [] then e else remove_names (Some v) e)"
| "remove_one (Fun g) = (\<lambda>e. remove_one (g (0, class_name e)) e)"
| "remove_one Other = (\<lambda>e. e)"

definition removeClass :: "class_arg \<Rightarrow> element list \<Rightarrow> element list" where
  "removeClass = each_element remove_one"

definition has_name :: "string \<Rightarrow> element \<Rightarrow> bool" where
  "has_name c e \<longleftrightarrow> node_type e = 1 \<and> contains (spaced c) (blank (spaced (class_name e)))"

definition hasClass :: "string \<Rightarrow> element list \<Rightarrow> bool" where
  "hasClass c es = list_ex (has_name c) es"

text \<open>\<open>toggleClass\<close>; \<open>st\<close> is the second argument if it is a boolean. The loop ends at an empty name.\<close>

definition toggle_name :: "bool option \<Rightarrow> string \<Rightarrow> element \<Rightarrow> element" where
  "toggle_name st c e =
     (if (case st of Some b \<Rightarrow> b | None \<Rightarrow> \<not> has_name c e) then add_one (Text c) e else remove_one (Text c) e)"

definition toggle_names :: "bool option \<Rightarrow> string \<Rightarrow> element \<Rightarrow> element" where
  "toggle_names st v e = fold (toggle_name st) (takeWhile (\<lambda>c. c \<noteq> []) (split_ws v)) e"

definition toggle_whole :: "bool \<Rightarrow> element \<Rightarrow> element" where
  "toggle_whole off e =
     (let e1 = (if class_name e \<noteq> [] then e\<lparr>saved_class := Some (class_name e)\<rparr> else e)
      in e1\<lparr>class_name :=
           (if class_name e1 \<noteq> [] \<or> off then [] else case saved_class e1 of Some s \<Rightarrow> s | None \<Rightarrow> [])\<rparr>)"

primrec toggle_one :: "bool option \<Rightarrow> class_arg \<Rightarrow> element \<Rightarrow> element" where
  "toggle_one st NoArg = (\<lambda>e. toggle_whole False e)"
| "toggle_one st (Flag b) = (\<lambda>e. toggle_whole (\<not> b) e)"
| "toggle_one st (Text v) = (\<lambda>e. toggle_names st v e)"
| "toggle_one st (Fun g) = (\<lambda>e. toggle_one st (g (0, class_name e)) e)"
| "toggle_one st Other = (\<lambda>e. e)"

definition toggleClass :: "class_arg \<Rightarrow> bool option \<Rightarrow> element list \<Rightarrow> element list" where
  "toggleClass a st = each_element (toggle_one st) a"

section \<open>The names in a text\<close>

fun toks :: "string \<Rightarrow> string list" where
  "toks [] = [[]]"
| "toks (c # s) = (if is_ws c then [] # toks s else (case toks s of [] \<Rightarrow> [[c]] | w # ws \<Rightarrow> (c # w) # ws))"

definition words :: "string \<Rightarrow> string list" where
  "words s = filter (\<lambda>w. w \<noteq> []) (toks s)"

definition is_name :: "string \<Rightarrow> bool" where
  "is_name w \<longleftrightarrow> w \<noteq> [] \<and> list_all (\<lambda>c. \<not> is_ws c) w"

lemma toks_nonempty [simp]: "toks s \<noteq> []"
  by (induction s) (auto split: list.splits)

lemma toks_append: "is_ws c \<Longrightarrow> toks (a @ c # b) = toks a @ toks b"
  by (induction a) (auto split: list.splits)

lemma words_append: "is_ws c \<Longrightarrow> words (a @ c # b) = words a @ words b"
  by (simp add: words_def toks_append)

lemma words_Nil [simp]: "words [] = []"
  by (simp add: words_def)

lemma words_ws [simp]: "is_ws c \<Longrightarrow> words (c # s) = words s"
  using words_append [of c "[]" s] by simp

lemma words_last [simp]: "is_ws c \<Longrightarrow> words (s @ [c]) = words s"
  using words_append [of c s "[]"] by simp

lemma toks_no_ws: "list_all (\<lambda>c. \<not> is_ws c) w \<Longrightarrow> toks w = [w]"
  by (induction w) auto

lemma words_name: "is_name w \<Longrightarrow> words w = [w]"
  by (simp add: words_def is_name_def toks_no_ws)

lemma is_ws_blank [simp]: "is_ws (CHR '' '')"
  by (simp add: is_ws_def)

lemma words_spaced [simp]: "words (spaced s) = words s"
  using words_last [of "CHR '' ''" s] by (simp add: spaced_def)

lemma toks_no_ws_in: "w \<in> set (toks s) \<Longrightarrow> list_all (\<lambda>c. \<not> is_ws c) w"
  by (induction s arbitrary: w) (auto split: if_splits list.splits)

lemma words_are_names: "w \<in> set (words s) \<Longrightarrow> is_name w"
  by (auto simp: words_def is_name_def dest: toks_no_ws_in)

text \<open>A name of the text is somewhere between two separators, once the text has some around it.\<close>

lemma toks_at: "w \<in> set (toks s) \<Longrightarrow>
  \<exists>p q. s = p @ w @ q \<and> (p = [] \<or> is_ws (last p)) \<and> (q = [] \<or> is_ws (hd q))"
proof (induction "length s" arbitrary: s rule: less_induct)
  case less
  show ?case
  proof (cases "list_all (\<lambda>c. \<not> is_ws c) s")
    case True
    with less.prems have "s = [] @ w @ []" by (simp add: toks_no_ws)
    then show ?thesis by blast
  next
    case False
    then obtain a c b where s: "s = a @ c # b" "is_ws c" "\<forall>x \<in> set a. \<not> is_ws x"
      using split_list_first_prop [of s is_ws] by (auto simp: list_all_iff)
    then have "toks s = a # toks b" by (simp add: toks_append toks_no_ws list_all_iff)
    with less.prems consider "w = a" | "w \<in> set (toks b)" by auto
    then show ?thesis
    proof cases
      case 1
      with s show ?thesis by (intro exI [of _ "[]"] exI [of _ "c # b"]) simp
    next
      case 2
      from less.hyps [OF _ 2] s(1) obtain p q
        where "b = p @ w @ q" "p = [] \<or> is_ws (last p)" "q = [] \<or> is_ws (hd q)" by auto
      with s show ?thesis by (intro exI [of _ "a @ c # p"] exI [of _ q]) auto
    qed
  qed
qed

text \<open>Where the only separator is the blank, searching for a name between blanks finds the names.\<close>

definition blanks_only :: "string \<Rightarrow> bool" where
  "blanks_only s \<longleftrightarrow> list_all (\<lambda>c. is_ws c \<longrightarrow> c = CHR '' '') s"

lemma contains_iff: "contains p s \<longleftrightarrow> (\<exists>u v. s = u @ p @ v)"
proof (induction s)
  case (Cons c s)
  show ?case
  proof
    assume "contains p (c # s)"
    then consider v where "c # s = [] @ p @ v" | u v where "s = u @ p @ v"
      using Cons by (auto simp: prefix_def)
    then show "\<exists>u v. c # s = u @ p @ v" by cases (blast, metis append_Cons)
  next
    assume "\<exists>u v. c # s = u @ p @ v"
    then obtain u v where uv: "c # s = u @ p @ v" by blast
    show "contains p (c # s)"
    proof (cases u)
      case Nil
      then have "prefix p (c # s)" unfolding uv by simp
      then show ?thesis by simp
    next
      case (Cons d u')
      with uv have "s = u' @ p @ v" by simp
      then show ?thesis using Cons.IH by auto
    qed
  qed
qed simp

lemma words_around: "words (u @ spaced c @ v) = words u @ words c @ words v"
  by (simp add: spaced_def words_append)

lemma contains_name: "is_name w \<Longrightarrow> contains (spaced w) s \<Longrightarrow> w \<in> set (words s)"
  by (auto simp: contains_iff words_around words_name)

definition bounded :: "string \<Rightarrow> bool" where
  "bounded t \<longleftrightarrow> t \<noteq> [] \<and> hd t = CHR '' '' \<and> last t = CHR '' ''"

lemma bounded_spaced [simp]: "bounded (spaced s)"
  by (simp add: bounded_def spaced_def)

lemma name_ends: "is_name w \<Longrightarrow> hd w \<noteq> CHR '' '' \<and> last w \<noteq> CHR '' ''"
  by (metis hd_in_set is_name_def is_ws_blank last_in_set list_all_iff)

lemma name_contained:
  assumes w: "is_name w" "w \<in> set (words t)" and t: "blanks_only t" "bounded t"
  shows "contains (spaced w) t"
proof -
  have "w \<noteq> []" using w(1) by (simp add: is_name_def)
  from w(2) have "w \<in> set (toks t)" by (simp add: words_def)
  from toks_at [OF this] obtain p q where s: "t = p @ w @ q"
    and p: "p = [] \<or> is_ws (last p)" and q: "q = [] \<or> is_ws (hd q)" by blast
  have "p \<noteq> []" "q \<noteq> []"
    using name_ends [OF w(1)] t(2) \<open>w \<noteq> []\<close> s by (auto simp: bounded_def)
  then have "last p = CHR '' ''" "hd q = CHR '' ''"
    using p q t(1) s by (auto simp: blanks_only_def list_all_iff)
  with \<open>p \<noteq> []\<close> \<open>q \<noteq> []\<close> have "p = butlast p @ '' ''" "q = '' '' @ tl q"
    by (metis append_butlast_last_id, metis append_Cons append_Nil list.collapse)
  then have "t = butlast p @ spaced w @ tl q"
    unfolding s spaced_def by (metis append.assoc)
  then show ?thesis unfolding contains_iff by blast
qed

text \<open>Separators that the library knows: these become blanks, and nothing else changes.\<close>

definition known_ws :: "string \<Rightarrow> bool" where
  "known_ws s \<longleftrightarrow> list_all (\<lambda>c. is_ws c \<longrightarrow> c \<in> {CHR '' '', CHR 0x09, CHR 0x0A, CHR 0x0D}) s"

lemma is_ws_tab: "c \<in> {CHR '' '', CHR 0x09, CHR 0x0A, CHR 0x0D} \<Longrightarrow> is_ws c"
  by (auto simp: is_ws_def)

lemma toks_blank: "toks (blank s) = toks s"
proof (induction s)
  case (Cons c s)
  then show ?case using is_ws_tab [of c] by (auto simp: blank_def split: list.splits)
qed (simp add: blank_def)

lemma words_blank [simp]: "words (blank s) = words s"
  by (simp add: words_def toks_blank)

lemma blank_spaced: "blank (spaced s) = spaced (blank s)"
  by (simp add: blank_def spaced_def)

lemma blank_blanks: "known_ws s \<Longrightarrow> blanks_only (blank s)"
  by (induction s) (auto simp: known_ws_def blanks_only_def blank_def)

lemma known_blanks: "blanks_only s \<Longrightarrow> known_ws s \<and> blank s = s"
  by (induction s) (auto simp: known_ws_def blanks_only_def blank_def is_ws_def)

lemma blanks_only_spaced [simp]: "blanks_only (spaced s) = blanks_only s"
  by (simp add: blanks_only_def spaced_def)

lemma has_name_iff:
  assumes "node_type e = 1" "known_ws (class_name e)" "is_name c"
  shows "has_name c e \<longleftrightarrow> c \<in> set (words (class_name e))"
proof
  assume "has_name c e"
  then have "c \<in> set (words (blank (spaced (class_name e))))"
    unfolding has_name_def by (intro contains_name [OF assms(3)]) simp
  then show "c \<in> set (words (class_name e))" by simp
next
  assume "c \<in> set (words (class_name e))"
  then have "contains (spaced c) (spaced (blank (class_name e)))"
    using assms(2,3) by (simp add: name_contained blank_blanks)
  then show "has_name c e" by (simp add: has_name_def assms(1) blank_spaced)
qed

lemma words_str_trim [simp]: "words (str_trim s) = words s"
proof -
  have l: "words (dropWhile is_ws t) = words t" for t by (induction t) simp_all
  have r: "words (rev (dropWhile is_ws t)) = words (rev t)" for t by (induction t) simp_all
  show ?thesis by (simp add: str_trim_def l r)
qed

lemma set_str_trim: "set (str_trim s) \<subseteq> set s"
  by (auto simp: str_trim_def dest!: set_dropWhileD)

lemma blanks_only_trim: "blanks_only s \<Longrightarrow> blanks_only (str_trim s)"
  using set_str_trim [of s] by (auto simp: blanks_only_def list_all_iff)

lemma words_takeWhile: "words (takeWhile (\<lambda>c. \<not> is_ws c) s) = filter (\<lambda>w. w \<noteq> []) [takeWhile (\<lambda>c. \<not> is_ws c) s]"
proof -
  have "list_all (\<lambda>c. \<not> is_ws c) (takeWhile (\<lambda>c. \<not> is_ws c) s)"
    by (auto simp: list_all_iff dest: set_takeWhileD)
  then show ?thesis by (simp add: words_def toks_no_ws)
qed

lemma split_ws_words: "filter (\<lambda>w. w \<noteq> []) (split_ws s) = words s"
proof (induction s rule: split_ws.induct)
  case (1 s)
  let ?r = "dropWhile (\<lambda>c. \<not> is_ws c) s" and ?w = "takeWhile (\<lambda>c. \<not> is_ws c) s"
  show ?case
  proof (cases ?r)
    case Nil
    then have "?w = s" by (metis append_Nil2 takeWhile_dropWhile_id)
    with words_takeWhile [of s] Nil show ?thesis by (simp add: split_ws.simps [of s])
  next
    case (Cons d r')
    then have d: "is_ws d" using hd_dropWhile [of "\<lambda>c. \<not> is_ws c" s] by simp
    have l: "words (dropWhile is_ws t) = words t" for t by (induction t) simp_all
    have "words s = words (?w @ d # r')" by (metis Cons takeWhile_dropWhile_id)
    also have "\<dots> = filter (\<lambda>w. w \<noteq> []) [?w] @ words (dropWhile is_ws ?r)"
      using d by (simp only: words_append words_takeWhile l Cons words_ws)
    also have "\<dots> = filter (\<lambda>w. w \<noteq> []) (split_ws s)"
      using 1 [OF refl] Cons by (simp add: split_ws.simps [of s])
    finally show ?thesis ..
  qed
qed

lemma split_ws_no_ws: "w \<in> set (split_ws s) \<Longrightarrow> list_all (\<lambda>c. \<not> is_ws c) w"
proof (induction s rule: split_ws.induct)
  case (1 s)
  let ?r = "dropWhile (\<lambda>c. \<not> is_ws c) s"
  show ?case
  proof (cases "?r = []")
    case True
    with 1(2) show ?thesis by (simp add: split_ws.simps [of s] list_all_iff dropWhile_eq_Nil_conv)
  next
    case False
    with 1(2) have "w \<in> set (takeWhile (\<lambda>c. \<not> is_ws c) s # split_ws (dropWhile is_ws ?r))"
      by (simp only: split_ws.simps [of s] Let_def if_False)
    then consider "w = takeWhile (\<lambda>c. \<not> is_ws c) s" | "w \<in> set (split_ws (dropWhile is_ws ?r))"
      by auto
    then show ?thesis
    proof cases
      case 1
      then show ?thesis by (auto simp: list_all_iff dest: set_takeWhileD)
    next
      case 2
      then show ?thesis by (rule "1.IH" [OF refl False])
    qed
  qed
qed

lemma split_ws_single: "length (split_ws v) = 1 \<Longrightarrow> split_ws v = [v]"
proof -
  have "split_ws u \<noteq> []" for u by (subst split_ws.simps) (simp add: Let_def)
  then show "length (split_ws v) = 1 \<Longrightarrow> split_ws v = [v]"
    by (subst (asm) split_ws.simps, subst split_ws.simps) (simp add: Let_def split: if_splits)
qed

lemma split_ws_one: "list_all (\<lambda>c. \<not> is_ws c) w \<Longrightarrow> split_ws w = [w]"
  by (subst split_ws.simps) (simp add: list_all_iff dropWhile_eq_Nil_conv)

lemma split_ws_name: "w \<in> set (split_ws s) \<Longrightarrow> w = [] \<or> is_name w"
  using split_ws_no_ws by (auto simp: is_name_def)

section \<open>What the methods do to the set of names\<close>

definition names_of :: "element \<Rightarrow> string set" where
  "names_of e = set (words (class_name e))"

definition class_text :: "string \<Rightarrow> bool" where
  "class_text s \<longleftrightarrow> blanks_only s \<and> distinct (words s)"

text \<open>An element whose class text lists each name once, with blanks in between.\<close>

definition class_ok :: "element \<Rightarrow> bool" where
  "class_ok e \<longleftrightarrow> node_type e = 1 \<and> class_text (class_name e) \<and>
     (case saved_class e of None \<Rightarrow> True | Some s \<Rightarrow> class_text s)"

text \<open>\<open>addClass\<close> never loses or invents a name, whatever separates the names it finds.\<close>

lemma add_name_spaced:
  assumes "c = [] \<or> is_name c"
  obtains y where "add_name c (spaced x) = spaced y" "set (words y) = set (words x) \<union> set (words c)"
    and "class_text x \<Longrightarrow> class_text y"
proof (cases "contains (spaced c) (spaced x)")
  case True
  then have "set (words c) \<subseteq> set (words x)"
    using assms contains_name [of c "spaced x"] by (auto simp: words_name)
  with True that [of x] show ?thesis by (auto simp: add_name_def)
next
  case False
  let ?y = "x @ CHR '' '' # c"
  have "class_text ?y" if x: "class_text x"
  proof -
    have "c \<notin> set (words x)" if "is_name c"
      using False that name_contained [of c "spaced x"] x by (auto simp: class_text_def)
    then show ?thesis
      using assms x by (auto simp: class_text_def words_append words_name blanks_only_def is_name_def list_all_iff)
  qed
  with False that [of ?y] show ?thesis by (simp add: add_name_def spaced_def words_append)
qed

lemma fold_add_name:
  assumes "\<And>c. c \<in> set cs \<Longrightarrow> c = [] \<or> is_name c"
  shows "\<exists>y. fold add_name cs (spaced x) = spaced y \<and> set (words y) = set (words x) \<union> \<Union> (set ` words ` set cs)
    \<and> (class_text x \<longrightarrow> class_text y)"
  using assms
proof (induction cs arbitrary: x)
  case (Cons c cs)
  obtain y where y: "add_name c (spaced x) = spaced y" "set (words y) = set (words x) \<union> set (words c)"
    "class_text x \<Longrightarrow> class_text y" using add_name_spaced Cons.prems by (metis list.set_intros(1))
  from Cons.IH [of y] Cons.prems y show ?case by (auto simp: Un_assoc)
qed auto

lemma words_split: "\<Union> (set ` words ` set (split_ws v)) = set (words v)"
proof -
  have "set (words c) = {c} - {[]}" if "c \<in> set (split_ws v)" for c
    using split_ws_name [OF that] by (auto simp: words_name is_name_def)
  then have "\<Union> (set ` words ` set (split_ws v)) = set (filter (\<lambda>w. w \<noteq> []) (split_ws v))" by auto
  then show ?thesis by (simp add: split_ws_words)
qed

lemma class_text_trim: "class_text s \<Longrightarrow> class_text (str_trim s)"
  by (simp add: class_text_def blanks_only_trim)

lemma class_text_spaced: "class_text (spaced s) = class_text s"
  by (simp add: class_text_def)

lemma add_names_of:
  assumes "node_type e = 1"
  shows "names_of (add_names v e) = names_of e \<union> set (words v)" "class_ok e \<Longrightarrow> class_ok (add_names v e)"
proof -
  obtain y where y: "fold add_name (split_ws v) (spaced (class_name e)) = spaced y"
    "set (words y) = set (words (class_name e)) \<union> set (words v)" "class_text (class_name e) \<longrightarrow> class_text y"
    using fold_add_name [of "split_ws v" "class_name e"] split_ws_name words_split by metis
  have one: "class_text v" if "length (split_ws v) = 1"
    using split_ws_name [of v v] split_ws_single [OF that]
    by (auto simp: class_text_def blanks_only_def words_name is_name_def list_all_iff)
  show "names_of (add_names v e) = names_of e \<union> set (words v)"
    using assms y by (simp add: add_names_def names_of_def Let_def)
  show "class_ok (add_names v e)" if "class_ok e"
    using that one y by (simp add: add_names_def class_ok_def class_text_trim class_text_spaced Let_def)
qed

text \<open>\<open>removeClass\<close> takes out one occurrence of each name.\<close>

lemma replace_first_cases:
  "replace_first p r s = s \<and> \<not> contains p s \<or> (\<exists>u v. s = u @ p @ v \<and> replace_first p r s = u @ r @ v)"
proof (induction s)
  case (Cons c s)
  show ?case
  proof (cases "prefix p (c # s)")
    case True
    then obtain v where v: "c # s = p @ v" by (auto simp: prefix_def)
    have "replace_first p r (c # s) = r @ drop (length p) (c # s)" using True by simp
    also have "\<dots> = [] @ r @ v" unfolding v by simp
    finally show ?thesis using v by (metis append_Nil)
  next
    case False
    with Cons show ?thesis by (auto simp: Cons_eq_append_conv)
  qed
qed auto

lemma replace_name:
  assumes "c = [] \<or> is_name c" "bounded t" "class_text t"
  defines "t' \<equiv> replace_first (spaced c) '' '' t"
  shows "bounded t'" "class_text t'" "set (words t') = set (words t) - set (words c)"
proof -
  consider "t' = t" "\<not> contains (spaced c) t" | u v where "t = u @ spaced c @ v" "t' = u @ '' '' @ v"
    using replace_first_cases [of "spaced c" "'' ''" t] unfolding t'_def by blast
  then have "bounded t' \<and> class_text t' \<and> set (words t') = set (words t) - set (words c)"
  proof cases
    case 1
    then have "is_name c \<Longrightarrow> c \<notin> set (words t)"
      using name_contained [of c t] assms(2,3) by (auto simp: class_text_def)
    with 1 assms show ?thesis by (auto simp: words_name)
  next
    case 2
    then have "words t = words u @ words c @ words v" "words t' = words u @ words v"
      by (simp_all add: words_around words_append)
    moreover have "bounded t'" using assms(2) 2 by (cases u) (auto simp: bounded_def spaced_def)
    moreover have "blanks_only t'" using assms(3) 2 by (auto simp: class_text_def blanks_only_def spaced_def)
    ultimately show ?thesis using assms(3) by (auto simp: class_text_def)
  qed
  then show "bounded t'" "class_text t'" "set (words t') = set (words t) - set (words c)" by auto
qed

lemma fold_replace_name:
  assumes "\<And>c. c \<in> set cs \<Longrightarrow> c = [] \<or> is_name c" "bounded t" "class_text t"
  defines "t' \<equiv> fold (\<lambda>c. replace_first (spaced c) '' '') cs t"
  shows "class_text t' \<and> set (words t') = set (words t) - \<Union> (set ` words ` set cs)"
  using assms(1-3) unfolding t'_def
proof (induction cs arbitrary: t)
  case (Cons c cs)
  have c: "c = [] \<or> is_name c" using Cons.prems(1) by simp
  note r = replace_name [OF c Cons.prems(2,3)]
  from Cons.IH [OF _ r(1,2)] r(3) Cons.prems(1) show ?case by auto
qed simp

lemma class_ok_text: "class_ok e \<Longrightarrow> class_text (class_name e) \<and> node_type e = 1"
  by (simp add: class_ok_def)

lemma remove_names_of:
  assumes "class_ok e"
  shows "names_of (remove_names (Some v) e) = names_of e - set (words v) \<and> class_ok (remove_names (Some v) e)"
proof (cases "class_name e = []")
  case True
  with assms show ?thesis by (simp add: remove_names_def names_of_def)
next
  case False
  have b: "blank (spaced (class_name e)) = spaced (class_name e)"
    using assms known_blanks [of "spaced (class_name e)"] by (simp add: class_ok_def class_text_def)
  have "class_text (spaced (class_name e))" using assms by (simp add: class_ok_def class_text_spaced)
  from fold_replace_name [OF _ _ this, of "split_ws v"] split_ws_name False assms
  show ?thesis
    unfolding words_split by (simp add: remove_names_def names_of_def class_ok_def b class_text_trim)
qed

lemma has_name_of: "class_ok e \<Longrightarrow> is_name c \<Longrightarrow> has_name c e \<longleftrightarrow> c \<in> names_of e"
  unfolding names_of_def
  by (rule has_name_iff) (simp_all add: class_ok_def class_text_def known_blanks)

section \<open>The interface\<close>

text \<open>What a set of names promises, and what follows for toggling.\<close>

locale name_set =
  fixes names :: "'e \<Rightarrow> string set"
    and ok :: "'e \<Rightarrow> bool"
    and put :: "string \<Rightarrow> 'e \<Rightarrow> 'e"
    and del :: "string \<Rightarrow> 'e \<Rightarrow> 'e"
    and has :: "string \<Rightarrow> 'e \<Rightarrow> bool"
  assumes put: "ok e \<Longrightarrow> is_name c \<Longrightarrow> ok (put c e) \<and> names (put c e) = insert c (names e)"
    and del: "ok e \<Longrightarrow> is_name c \<Longrightarrow> ok (del c e) \<and> names (del c e) = names e - {c}"
    and has: "ok e \<Longrightarrow> is_name c \<Longrightarrow> has c e \<longleftrightarrow> c \<in> names e"
begin

definition flip :: "string \<Rightarrow> 'e \<Rightarrow> 'e" where
  "flip c e = (if has c e then del c e else put c e)"

lemma flip: "ok e \<Longrightarrow> is_name c \<Longrightarrow> ok (flip c e) \<and> names (flip c e) = sym_diff (names e) {c}"
  by (auto simp: flip_def put del has)

lemma flips: "ok e \<Longrightarrow> list_all is_name cs \<Longrightarrow> distinct cs \<Longrightarrow>
    ok (fold flip cs e) \<and> names (fold flip cs e) = sym_diff (names e) (set cs)"
  by (induction cs arbitrary: e) (auto simp: flip)

lemma puts: "ok e \<Longrightarrow> list_all is_name cs \<Longrightarrow>
    ok (fold put cs e) \<and> names (fold put cs e) = names e \<union> set cs"
  by (induction cs arbitrary: e) (auto simp: put)

lemma dels: "ok e \<Longrightarrow> list_all is_name cs \<Longrightarrow>
    ok (fold del cs e) \<and> names (fold del cs e) = names e - set cs"
  by (induction cs arbitrary: e) (auto simp: del)

end

interpretation class_set: name_set names_of class_ok "\<lambda>c. add_one (Text c)" "\<lambda>c. remove_one (Text c)" has_name
proof
  fix e c assume e: "class_ok e" and c: "is_name c"
  then have "c \<noteq> []" "words c = [c]" by (simp_all add: is_name_def words_name)
  with add_names_of [of e c] remove_names_of [OF e, of c] e
  show "class_ok (add_one (Text c) e) \<and> names_of (add_one (Text c) e) = insert c (names_of e)"
    "class_ok (remove_one (Text c) e) \<and> names_of (remove_one (Text c) e) = names_of e - {c}"
    by (auto simp: class_ok_def)
  show "has_name c e \<longleftrightarrow> c \<in> names_of e" by (rule has_name_of [OF e c])
qed

section \<open>Lists of names\<close>

lemma class_set_flip: "class_set.flip = toggle_name None"
  by (intro ext) (simp add: class_set.flip_def toggle_name_def del: add_one.simps remove_one.simps)

lemma toggle_name_Some:
  "toggle_name (Some True) = (\<lambda>c. add_one (Text c))" "toggle_name (Some False) = (\<lambda>c. remove_one (Text c))"
  by (intro ext, simp add: toggle_name_def)+

lemma count_list_member: "1 \<le> count_list xs x \<Longrightarrow> x \<in> set xs"
  by (metis count_notin not_one_le_zero)

text \<open>A text that does not start with a separator is split into its names, and perhaps an empty one.\<close>

lemma split_ws_no_leading:
  "\<not> is_ws (hd v) \<or> v = [] \<Longrightarrow> takeWhile (\<lambda>c. c \<noteq> []) (split_ws v) = words v"
proof (induction v rule: split_ws.induct)
  case (1 v)
  let ?r = "dropWhile (\<lambda>c. \<not> is_ws c) v" and ?w = "takeWhile (\<lambda>c. \<not> is_ws c) v"
  show ?case
  proof (cases "?r = []")
    case True
    then have "split_ws v = [v]" by (intro split_ws_one) (simp add: list_all_iff dropWhile_eq_Nil_conv)
    then show ?thesis using split_ws_words [of v] by auto
  next
    case False
    then have s: "split_ws v = ?w # split_ws (dropWhile is_ws ?r)"
      by (simp only: split_ws.simps [of v] Let_def if_False)
    have "?w \<noteq> []" using 1(2) False by (cases v) auto
    moreover have "\<not> is_ws (hd (dropWhile is_ws ?r)) \<or> dropWhile is_ws ?r = []"
      using hd_dropWhile [of is_ws ?r] by blast
    ultimately have "takeWhile (\<lambda>c. c \<noteq> []) (split_ws v) = ?w # words (dropWhile is_ws ?r)"
      unfolding s takeWhile.simps by (simp only: 1(1) [OF refl False] not_False_eq_True if_True)
    moreover have "words v = ?w # words (dropWhile is_ws ?r)"
      using \<open>?w \<noteq> []\<close> unfolding split_ws_words [of v, symmetric] s filter.simps
      by (simp only: split_ws_words not_False_eq_True if_True)
    ultimately show ?thesis by (simp only:)
  qed
qed

lemma words_names: "list_all is_name (words v)"
  by (auto simp: list_all_iff intro: words_are_names)

lemma toggle_names_of:
  assumes "class_ok e" "v = [] \<or> \<not> is_ws (hd v)"
  shows "class_ok (toggle_names (Some True) v e) \<and> names_of (toggle_names (Some True) v e) = names_of e \<union> set (words v)"
    and "class_ok (toggle_names (Some False) v e) \<and> names_of (toggle_names (Some False) v e) = names_of e - set (words v)"
    and "distinct (words v) \<Longrightarrow>
      class_ok (toggle_names None v e) \<and> names_of (toggle_names None v e) = sym_diff (names_of e) (set (words v))"
proof -
  have s: "takeWhile (\<lambda>c. c \<noteq> []) (split_ws v) = words v"
    by (rule split_ws_no_leading) (use assms(2) in blast)
  show "class_ok (toggle_names (Some True) v e) \<and> names_of (toggle_names (Some True) v e) = names_of e \<union> set (words v)"
    using class_set.puts [OF assms(1) words_names [of v]] by (simp only: toggle_names_def s toggle_name_Some)
  show "class_ok (toggle_names (Some False) v e) \<and> names_of (toggle_names (Some False) v e) = names_of e - set (words v)"
    using class_set.dels [OF assms(1) words_names [of v]] by (simp only: toggle_names_def s toggle_name_Some)
  show "class_ok (toggle_names None v e) \<and> names_of (toggle_names None v e) = sym_diff (names_of e) (set (words v))"
    if "distinct (words v)"
    using class_set.flips [OF assms(1) words_names [of v] that] by (simp only: toggle_names_def s class_set_flip)
qed

text \<open>The loop of \<open>toggleClass\<close> ends at the empty name before a leading separator.\<close>

lemma toggle_stops_at_leading_blank:
  assumes "is_ws c"
  shows "toggleClass (Text (c # v)) st es = es"
proof -
  have "toggle_names st (c # v) = id" using assms by (simp add: toggle_names_def split_ws.simps [of "c # v"] fun_eq_iff)
  then show ?thesis by (simp add: toggleClass_def each_element_def)
qed



text \<open>
  C: \<open>removeClass\<close> takes out one occurrence only: an element that has a name twice still has it
  afterwards.
\<close>

theorem removeClass_leaves_duplicates:
  assumes "node_type e = 1" "known_ws (class_name e)" "is_name c" "2 \<le> count_list (words (class_name e)) c"
  shows "hasClass c (removeClass (Text c) [e])"
proof -
  let ?t = "spaced (blank (class_name e))" and ?e = "remove_one (Text c) e"
  have c: "c \<noteq> []" "split_ws c = [c]" using assms(3) by (auto simp: is_name_def split_ws_one)
  have n: "class_name e \<noteq> []" using assms(4) by auto
  then have e: "?e = e\<lparr>class_name := str_trim (replace_first (spaced c) '' '' ?t)\<rparr>"
    using assms(1) c by (simp add: remove_names_def blank_spaced)
  have b: "blanks_only ?t" using assms(2) by (simp add: blank_blanks)
  have "1 \<le> count_list (words (replace_first (spaced c) '' '' ?t)) c \<and> blanks_only (replace_first (spaced c) '' '' ?t)"
    using replace_first_cases [of "spaced c" "'' ''" ?t]
  proof (elim disjE exE conjE)
    fix u v assume t: "?t = u @ spaced c @ v" "replace_first (spaced c) '' '' ?t = u @ '' '' @ v"
    then have "words (class_name e) = words u @ c # words v"
      using words_around [of u c v] words_name [OF assms(3)] by (metis append_Cons append_Nil words_blank words_spaced)
    with t assms(4) b show ?thesis by (simp add: words_append blanks_only_def)
  qed (use assms(4) b in simp)
  then have "c \<in> set (words (replace_first (spaced c) '' '' ?t)) \<and> blanks_only (replace_first (spaced c) '' '' ?t)"
    using count_list_member [of "words (replace_first (spaced c) '' '' ?t)" c] by blast
  then have "blanks_only (class_name ?e) \<and> c \<in> set (words (class_name ?e))"
    by (simp add: e blanks_only_trim del: remove_one.simps)
  then have "has_name c ?e"
    using assms(1) has_name_iff [of ?e c] assms(3) known_blanks by (simp add: e del: remove_one.simps)
  then show ?thesis by (simp add: hasClass_def removeClass_def each_element_def)
qed

lemma removeClass_leaves_duplicates_witness:
  "hasClass ''a'' (removeClass (Text ''a'') [\<lparr>node_type = 1, class_name = ''a b a'', saved_class = None\<rparr>])"
  by (rule removeClass_leaves_duplicates) code_simp+

end
