(* ===== verification/JQ_Attributes.thy ===== *)
theory JQ_Attributes
  imports JQ_Data
begin

text \<open>
  \<open>jquery-1.7.2.js\<close>, lines 800 to 858 and 2225 to 2854: \<open>access\<close>, which the setters of sets of
  elements go through, and the attributes and properties of one element with their hooks.

  The elements are the page's. What the code asks of them is a parameter: attributes, attribute
  nodes and properties, and how assigning one changes the element. The features of the browser
  that \<open>jQuery.support\<close> has found are a parameter as well, so that the hooks for old browsers are
  modelled with the others.
\<close>

section \<open>Elements\<close>

text \<open>An attribute node has a value and says if it was specified.\<close>

record ('e, 'f) dom =
  nodeType :: "'e \<Rightarrow> int"
  nodeName :: "'e \<Rightarrow> string"
  isXMLDoc :: "'e \<Rightarrow> bool"
  hasParent :: "'e \<Rightarrow> bool"
  hasGetAttribute :: "'e \<Rightarrow> bool"
  getAttribute :: "'e \<Rightarrow> string \<Rightarrow> string option"
  setAttribute :: "string \<Rightarrow> string \<Rightarrow> 'e \<Rightarrow> 'e"
  removeAttribute :: "string \<Rightarrow> 'e \<Rightarrow> 'e"
  getAttributeNode :: "'e \<Rightarrow> string \<Rightarrow> (string \<times> bool) option"
  setAttributeNode :: "string \<Rightarrow> string \<Rightarrow> 'e \<Rightarrow> 'e"
  property :: "'e \<Rightarrow> string \<Rightarrow> 'f jsv option"
  setProperty :: "string \<Rightarrow> 'f jsv \<Rightarrow> 'e \<Rightarrow> 'e"
  getCssText :: "'e \<Rightarrow> string"
  setCssText :: "string \<Rightarrow> 'e \<Rightarrow> 'e"
  setMethod :: "string \<Rightarrow> 'f jsv \<Rightarrow> 'e \<Rightarrow> ('e \<times> 'f jsv) throws"

record support =
  getSetAttribute :: bool
  radioValue :: bool
  hrefNormalized :: bool
  styleAttr :: bool
  enctypeProp :: bool

definition read_property :: "('e, 'f) dom \<Rightarrow> 'e \<Rightarrow> string \<Rightarrow> 'f jsv" where
  "read_property D e k = (case property D e k of Some v \<Rightarrow> v | None \<Rightarrow> Undef)"

definition is_node :: "('e, 'f) dom \<Rightarrow> 'e \<Rightarrow> string \<Rightarrow> bool" where
  "is_node D e name \<longleftrightarrow> lower (nodeName D e) = name"

text \<open>Text, comment and attribute nodes.\<close>

definition no_attributes :: "('e, 'f) dom \<Rightarrow> 'e \<Rightarrow> bool" where
  "no_attributes D e \<longleftrightarrow> nodeType D e \<in> {3, 8, 2}"

definition notxml :: "('e, 'f) dom \<Rightarrow> 'e \<Rightarrow> bool" where
  "notxml D e \<longleftrightarrow> nodeType D e \<noteq> 1 \<or> \<not> isXMLDoc D e"

section \<open>Names\<close>

definition boolean_names :: "string list" where
  "boolean_names = [''autofocus'', ''autoplay'', ''async'', ''checked'', ''controls'', ''defer'', ''disabled'',
     ''hidden'', ''loop'', ''multiple'', ''open'', ''readonly'', ''required'', ''scoped'', ''selected'']"

definition rboolean :: "string \<Rightarrow> bool" where
  "rboolean name \<longleftrightarrow> lower name \<in> set boolean_names"

definition attrFn :: "string list" where
  "attrFn = [''val'', ''css'', ''html'', ''text'', ''data'', ''width'', ''height'', ''offset'']"

definition propFix :: "support \<Rightarrow> (string \<times> string) list" where
  "propFix S = [(''tabindex'', ''tabIndex''), (''readonly'', ''readOnly''), (''for'', ''htmlFor''),
     (''class'', ''className''), (''maxlength'', ''maxLength''), (''cellspacing'', ''cellSpacing''),
     (''cellpadding'', ''cellPadding''), (''rowspan'', ''rowSpan''), (''colspan'', ''colSpan''),
     (''usemap'', ''useMap''), (''frameborder'', ''frameBorder''), (''contenteditable'', ''contentEditable'')] @
     (if enctypeProp S then [] else [(''enctype'', ''encoding'')])"

text \<open>
  \<open>jQuery.propFix[name] || name\<close>, as the name of a property: what \<open>propFix\<close> inherits counts too,
  and is turned into a text.
\<close>

definition fix_name :: "'f env \<Rightarrow> support \<Rightarrow> string \<Rightarrow> string" where
  "fix_name E S name =
     (case map_of (propFix S) name of
        Some p \<Rightarrow> p
      | None \<Rightarrow> let v = inherit E PObject name in if truthy v then to_str E v else name)"

section \<open>Properties\<close>

text \<open>\<open>parseInt(s, 10)\<close>\<close>

definition parse_int :: "string \<Rightarrow> 'f jsv" where
  "parse_int s =
     (let t = dropWhile is_ws s;
          neg = (t \<noteq> [] \<and> hd t = CHR ''-'');
          u = (if t \<noteq> [] \<and> hd t \<in> {CHR ''-'', CHR ''+''} then tl t else t);
          ds = takeWhile is_digit u
      in if ds = [] then Num NNaN
         else Num (NFin (if neg then - int (read_dec 0 ds) else int (read_dec 0 ds))))"

definition tabIndex_get :: "('e, 'f) dom \<Rightarrow> 'e \<Rightarrow> 'f jsv" where
  "tabIndex_get D e =
     (case getAttributeNode D e ''tabindex'' of
        Some (v, True) \<Rightarrow> parse_int v
      | _ \<Rightarrow>
          if lower (nodeName D e) \<in> {''button'', ''input'', ''object'', ''select'', ''textarea''} \<or>
             lower (nodeName D e) \<in> {''a'', ''area''} \<and> truthy (read_property D e ''href'')
          then Num (NFin 0) else Undef)"

text \<open>The hook for \<open>selected\<close> returns \<open>null\<close>, which is as if there were none.\<close>

definition prop_get :: "'f env \<Rightarrow> support \<Rightarrow> ('e, 'f) dom \<Rightarrow> 'e \<Rightarrow> string \<Rightarrow> 'f jsv" where
  "prop_get E S D e name =
     (if no_attributes D e then Undef
      else if notxml D e then
        (let p = fix_name E S name
         in if p = ''tabIndex'' then tabIndex_get D e else read_property D e p)
      else read_property D e name)"

text \<open>In old browsers attributes are set through their nodes.\<close>

definition nodeHook_get :: "('e, 'f) dom \<Rightarrow> 'e \<Rightarrow> string \<Rightarrow> 'f jsv" where
  "nodeHook_get D e name =
     (case getAttributeNode D e name of
        Some (v, specified) \<Rightarrow>
          if (if name \<in> {''name'', ''id'', ''coords''} then v \<noteq> [] else specified) then Str v else Undef
      | None \<Rightarrow> Undef)"

definition nodeHook_set :: "'f env \<Rightarrow> ('e, 'f) dom \<Rightarrow> 'e \<Rightarrow> 'f jsv \<Rightarrow> string \<Rightarrow> 'e \<times> 'f jsv" where
  "nodeHook_set E D e v name = (setAttributeNode D name (to_str E v) e, Str (to_str E v))"

text \<open>There the setter for \<open>tabIndex\<close> is shared with the attribute.\<close>

definition prop_set ::
  "'f env \<Rightarrow> support \<Rightarrow> ('e, 'f) dom \<Rightarrow> 'e \<Rightarrow> string \<Rightarrow> 'f jsv \<Rightarrow> 'e \<times> 'f jsv" where
  "prop_set E S D e name v =
     (if no_attributes D e then (e, Undef)
      else
        let p = (if notxml D e then fix_name E S name else name)
        in if notxml D e \<and> p = ''tabIndex'' \<and> \<not> getSetAttribute S then nodeHook_set E D e v p
           else (setProperty D p v e, v))"

section \<open>Hooks of attributes\<close>

datatype hook = HType | HValue | HTabIndex | HSize | HHref | HEditable | HStyle | HBool | HNode | HNone

definition attr_hook :: "'f env \<Rightarrow> support \<Rightarrow> string \<Rightarrow> hook" where
  "attr_hook E S name =
     (if name = ''type'' then HType
      else if name = ''value'' then HValue
      else if name = ''tabindex'' then HTabIndex
      else if name \<in> {''width'', ''height''} \<and> \<not> (getSetAttribute S \<and> hrefNormalized S) then HSize
      else if name \<in> {''href'', ''src''} \<and> \<not> hrefNormalized S then HHref
      else if name = ''contenteditable'' \<and> \<not> getSetAttribute S then HEditable
      else if name = ''style'' \<and> \<not> styleAttr S then HStyle
      else if truthy (inherit E PObject name) then HNone
      else if rboolean name then HBool
      else if getSetAttribute S then HNone else HNode)"

definition boolHook_get :: "'f env \<Rightarrow> support \<Rightarrow> ('e, 'f) dom \<Rightarrow> 'e \<Rightarrow> string \<Rightarrow> 'f jsv" where
  "boolHook_get E S D e name =
     (let p = prop_get E S D e name
      in if p = Bool True \<or> typeof p \<noteq> TBoolean \<and> getAttributeNode D e name \<noteq> None
         then Str (lower name) else Undef)"

text \<open>
  A getter that is missing is as one that returns \<open>null\<close>, a setter that is missing as one that
  does nothing and returns \<open>undefined\<close>.
\<close>

definition hook_get :: "'f env \<Rightarrow> support \<Rightarrow> ('e, 'f) dom \<Rightarrow> hook \<Rightarrow> 'e \<Rightarrow> string \<Rightarrow> 'f jsv" where
  "hook_get E S D h e name =
     (let fetched = (case getAttribute D e name of None \<Rightarrow> Undef | Some t \<Rightarrow> Str t)
      in case h of
        HValue \<Rightarrow>
          if \<not> getSetAttribute S \<and> is_node D e ''button'' then nodeHook_get D e name
          else (case property D e name of None \<Rightarrow> Null | Some _ \<Rightarrow> read_property D e ''value'')
      | HTabIndex \<Rightarrow> tabIndex_get D e
      | HSize \<Rightarrow> if hrefNormalized S then Null else fetched
      | HHref \<Rightarrow> fetched
      | HEditable \<Rightarrow> nodeHook_get D e name
      | HStyle \<Rightarrow> (let t = lower (getCssText D e) in if t = [] then Undef else Str t)
      | HBool \<Rightarrow> boolHook_get E S D e name
      | HNode \<Rightarrow> nodeHook_get D e name
      | _ \<Rightarrow> Null)"

section \<open>\<open>removeAttr\<close> and \<open>attr\<close>\<close>

text \<open>
  One name of \<open>removeAttr\<close>. The call \<open>jQuery.attr(elem, name, "")\<close> is a parameter here, because
  \<open>attr\<close> calls \<open>removeAttr\<close> itself; it is not made for boolean attributes.
\<close>

definition remove_name ::
  "'f env \<Rightarrow> support \<Rightarrow> ('e, 'f) dom \<Rightarrow> (string \<Rightarrow> 'e \<Rightarrow> 'e throws) \<Rightarrow> string \<Rightarrow> 'e \<Rightarrow> 'e throws" where
  "remove_name E S D clear name e =
     (if name = [] then Inr e
      else
        let propName = fix_name E S name; isBool = rboolean name
        in bindE (if isBool then Inr e else clear name e) (\<lambda>e1.
             let e2 = removeAttribute D (if getSetAttribute S then name else propName) e1
             in Inr (if isBool \<and> property D e2 propName \<noteq> None then setProperty D propName (Bool False) e2 else e2)))"

fun remove_names ::
  "'f env \<Rightarrow> support \<Rightarrow> ('e, 'f) dom \<Rightarrow> (string \<Rightarrow> 'e \<Rightarrow> 'e throws) \<Rightarrow> string list \<Rightarrow> 'e \<Rightarrow> 'e throws" where
  "remove_names E S D clear [] e = Inr e"
| "remove_names E S D clear (n # ns) e = bindE (remove_name E S D clear n e) (remove_names E S D clear ns)"

definition remove_attrs ::
  "'f env \<Rightarrow> support \<Rightarrow> ('e, 'f) dom \<Rightarrow> (string \<Rightarrow> 'e \<Rightarrow> 'e throws) \<Rightarrow> string \<Rightarrow> 'e \<Rightarrow> 'e throws" where
  "remove_attrs E S D clear value e =
     (if value \<noteq> [] \<and> nodeType D e = 1 then remove_names E S D clear (split_ws (lower value)) e else Inr e)"

definition boolHook_set ::
  "'f env \<Rightarrow> support \<Rightarrow> ('e, 'f) dom \<Rightarrow> 'e \<Rightarrow> 'f jsv \<Rightarrow> string \<Rightarrow> ('e \<times> 'f jsv) throws" where
  "boolHook_set E S D e v name =
     (if v = Bool False
      then bindE (remove_attrs E S D (\<lambda>_. Inr) name e) (\<lambda>e1. Inr (e1, Str name))
      else
        let propName = fix_name E S name;
            e1 = (if property D e propName \<noteq> None then setProperty D propName (Bool True) e else e)
        in Inr (setAttribute D name (lower name) e1, Str name))"

definition typeHook_set :: "'f env \<Rightarrow> support \<Rightarrow> ('e, 'f) dom \<Rightarrow> 'e \<Rightarrow> 'f jsv \<Rightarrow> ('e \<times> 'f jsv) throws" where
  "typeHook_set E S D e v =
     (if lower (nodeName D e) \<in> {''button'', ''input''} \<and> hasParent D e
      then Inl (ErrorMsg (''type property can'' @ CHR 0x27 # ''t be changed''))
      else if \<not> radioValue S \<and> v = Str ''radio'' \<and> is_node D e ''input'' then
        (let val = read_property D e ''value''; e1 = setAttribute D ''type'' ''radio'' e
         in Inr (if truthy val then setProperty D ''value'' val e1 else e1, v))
      else Inr (e, Undef))"

definition hook_set ::
  "'f env \<Rightarrow> support \<Rightarrow> ('e, 'f) dom \<Rightarrow> hook \<Rightarrow> 'e \<Rightarrow> 'f jsv \<Rightarrow> string \<Rightarrow> ('e \<times> 'f jsv) throws" where
  "hook_set E S D h e v name =
     (case h of
        HType \<Rightarrow> typeHook_set E S D e v
      | HValue \<Rightarrow>
          if \<not> getSetAttribute S \<and> is_node D e ''button'' then Inr (nodeHook_set E D e v name)
          else Inr (setProperty D ''value'' v e, Undef)
      | HTabIndex \<Rightarrow> if getSetAttribute S then Inr (e, Undef) else Inr (nodeHook_set E D e v name)
      | HSize \<Rightarrow>
          if \<not> getSetAttribute S \<and> v = Str [] then Inr (setAttribute D name ''auto'' e, v) else Inr (e, Undef)
      | HEditable \<Rightarrow>
          Inr (fst (nodeHook_set E D e (if v = Str [] then Str ''false'' else v) name), Undef)
      | HStyle \<Rightarrow> Inr (setCssText D (to_str E v) e, Str (to_str E v))
      | HBool \<Rightarrow> boolHook_set E S D e v name
      | HNode \<Rightarrow> Inr (nodeHook_set E D e v name)
      | _ \<Rightarrow> Inr (e, Undef))"

text \<open>The part of \<open>attr\<close> for a value that is neither \<open>undefined\<close> nor \<open>null\<close>.\<close>

definition attr_put ::
  "'f env \<Rightarrow> support \<Rightarrow> ('e, 'f) dom \<Rightarrow> 'e \<Rightarrow> string \<Rightarrow> 'f jsv \<Rightarrow> ('e \<times> 'f jsv) throws" where
  "attr_put E S D e name v =
     (if no_attributes D e then Inr (e, Undef)
      else if \<not> hasGetAttribute D e then Inr (prop_set E S D e name v)
      else
        let n = (if notxml D e then lower name else name)
        in bindE (if notxml D e then hook_set E S D (attr_hook E S n) e v n else Inr (e, Undef)) (\<lambda>(e1, ret).
             if ret \<noteq> Undef then Inr (e1, ret) else Inr (setAttribute D n (to_str E v) e1, v)))"

definition removeAttr :: "'f env \<Rightarrow> support \<Rightarrow> ('e, 'f) dom \<Rightarrow> string \<Rightarrow> 'e \<Rightarrow> 'e throws" where
  "removeAttr E S D =
     remove_attrs E S D (\<lambda>name e. bindE (attr_put E S D e name (Str [])) (\<lambda>(e1, _). Inr e1))"

definition attr_get :: "'f env \<Rightarrow> support \<Rightarrow> ('e, 'f) dom \<Rightarrow> 'e \<Rightarrow> string \<Rightarrow> 'f jsv" where
  "attr_get E S D e name =
     (if no_attributes D e then Undef
      else if \<not> hasGetAttribute D e then prop_get E S D e name
      else
        let n = (if notxml D e then lower name else name);
            ret = (if notxml D e then hook_get E S D (attr_hook E S n) e n else Null)
        in if ret \<noteq> Null then ret
           else case getAttribute D e n of None \<Rightarrow> Undef | Some t \<Rightarrow> Str t)"

text \<open>\<open>jQuery.attr(elem, name, value, pass)\<close>\<close>

definition attr ::
  "'f env \<Rightarrow> support \<Rightarrow> ('e, 'f) dom \<Rightarrow> bool \<Rightarrow> string \<Rightarrow> 'f jsv \<Rightarrow> 'e \<Rightarrow> ('e \<times> 'f jsv) throws" where
  "attr E S D pass name v e =
     (if no_attributes D e then Inr (e, Undef)
      else if pass \<and> (name \<in> set attrFn \<or> inherited E PObject name \<noteq> None) then setMethod D name v e
      else if v = Undef then Inr (e, attr_get E S D e name)
      else if v = Null \<and> hasGetAttribute D e then
        bindE (removeAttr E S D (if notxml D e then lower name else name) e) (\<lambda>e1. Inr (e1, Undef))
      else attr_put E S D e name v)"

text \<open>\<open>jQuery.prop(elem, name, value)\<close>\<close>

definition jq_prop ::
  "'f env \<Rightarrow> support \<Rightarrow> ('e, 'f) dom \<Rightarrow> string \<Rightarrow> 'f jsv \<Rightarrow> 'e \<Rightarrow> 'e \<times> 'f jsv" where
  "jq_prop E S D name v e = (if v = Undef then (e, prop_get E S D e name) else prop_set E S D e name v)"

section \<open>\<open>access\<close>\<close>

text \<open>
  A method on a set that gets one value or sets all. \<open>fn\<close> is the routine for one element, which
  reads when the value is \<open>undefined\<close>; \<open>callv\<close> calls a function of the page with an element, its
  index and the value so far.
\<close>

datatype ('e, 'f) accessed = Chain "'e list" | Got "'e list" "'f jsv"

datatype 'f access_key = Name string | Names "(string \<times> 'f jsv) list"

definition executed :: "'f jsv \<Rightarrow> 'f jsv \<Rightarrow> bool" where
  "executed value pass \<longleftrightarrow> pass = Undef \<and> typeof value = TFunction"

fun set_each ::
  "('f \<Rightarrow> 'e \<Rightarrow> nat \<Rightarrow> 'f jsv \<Rightarrow> 'f jsv) \<Rightarrow> ('f jsv \<Rightarrow> 'f jsv \<Rightarrow> 'e \<Rightarrow> ('e \<times> 'f jsv) throws) \<Rightarrow>
   'f jsv \<Rightarrow> 'f jsv \<Rightarrow> nat \<Rightarrow> 'e list \<Rightarrow> 'e list throws" where
  "set_each callv fn value pass i [] = Inr []"
| "set_each callv fn value pass i (e # es) =
     bindE (case (executed value pass, value) of
              (True, Fn f) \<Rightarrow> bindE (fn Undef Undef e) (\<lambda>(e1, old). fn (callv f e1 i old) pass e1)
            | _ \<Rightarrow> fn value pass e) (\<lambda>(e', _).
       bindE (set_each callv fn value pass (Suc i) es) (\<lambda>es'. Inr (e' # es')))"

definition access_name ::
  "('f \<Rightarrow> 'e \<Rightarrow> nat \<Rightarrow> 'f jsv \<Rightarrow> 'f jsv) \<Rightarrow> (string \<Rightarrow> 'f jsv \<Rightarrow> 'f jsv \<Rightarrow> 'e \<Rightarrow> ('e \<times> 'f jsv) throws) \<Rightarrow>
   string \<Rightarrow> 'f jsv \<Rightarrow> bool \<Rightarrow> 'f jsv \<Rightarrow> 'f jsv \<Rightarrow> 'e list \<Rightarrow> ('e, 'f) accessed throws" where
  "access_name callv fn key value chainable emptyGet pass es =
     (if value \<noteq> Undef then bindE (set_each callv (fn key) value pass 0 es) (\<lambda>es'. Inr (Chain es'))
      else if chainable then Inr (Chain es)
      else case es of
        [] \<Rightarrow> Inr (Got [] emptyGet)
      | e # rest \<Rightarrow> bindE (fn key Undef Undef e) (\<lambda>(e1, r). Inr (Got (e1 # rest) r)))"

fun elements_of :: "('e, 'f) accessed \<Rightarrow> 'e list" where
  "elements_of (Chain es) = es"
| "elements_of (Got es r) = es"

definition access ::
  "('f \<Rightarrow> 'e \<Rightarrow> nat \<Rightarrow> 'f jsv \<Rightarrow> 'f jsv) \<Rightarrow> (string \<Rightarrow> 'f jsv \<Rightarrow> 'f jsv \<Rightarrow> 'e \<Rightarrow> ('e \<times> 'f jsv) throws) \<Rightarrow>
   'f access_key \<Rightarrow> 'f jsv \<Rightarrow> bool \<Rightarrow> 'f jsv \<Rightarrow> 'f jsv \<Rightarrow> 'e list \<Rightarrow> ('e, 'f) accessed throws" where
  "access callv fn key value chainable emptyGet pass es =
     (case key of
        Name k \<Rightarrow> access_name callv fn k value chainable emptyGet pass es
      | Names ps \<Rightarrow>
          bindE (fold (\<lambda>(k, v) r. bindE r (\<lambda>es. bindE (access_name callv fn k v True emptyGet value es) (\<lambda>a. Inr (elements_of a))))
            ps (Inr es)) (\<lambda>es'. Inr (Chain es')))"

text \<open>
  Without a key, \<open>fn\<close> works on the whole set; for a function of the page it is called on every
  element alone.
\<close>

definition access_bulk ::
  "('f \<Rightarrow> 'e \<Rightarrow> nat \<Rightarrow> 'f jsv \<Rightarrow> 'f jsv) \<Rightarrow> ('e list \<Rightarrow> 'f jsv \<Rightarrow> ('e list \<times> 'f jsv) throws) \<Rightarrow>
   'f jsv \<Rightarrow> bool \<Rightarrow> 'f jsv \<Rightarrow> 'e list \<Rightarrow> ('e, 'f) accessed throws" where
  "access_bulk callv fn value chainable pass es =
     (if value \<noteq> Undef then
        (if executed value pass then
           bindE (set_each callv (\<lambda>v _ e. bindE (fn [e] v) (\<lambda>(es1, r). Inr (case es1 of [] \<Rightarrow> e | e1 # _ \<Rightarrow> e1, r)))
             value pass 0 es) (\<lambda>es'. Inr (Chain es'))
         else bindE (fn es value) (\<lambda>(es', _). Inr (Chain es')))
      else if chainable then Inr (Chain es)
      else bindE (fn es Undef) (\<lambda>(es', r). Inr (Got es' r)))"

section \<open>The methods of sets\<close>

definition fn_attr ::
  "('f \<Rightarrow> 'e \<Rightarrow> nat \<Rightarrow> 'f jsv \<Rightarrow> 'f jsv) \<Rightarrow> 'f env \<Rightarrow> support \<Rightarrow> ('e, 'f) dom \<Rightarrow>
   'f access_key \<Rightarrow> 'f jsv option \<Rightarrow> 'e list \<Rightarrow> ('e, 'f) accessed throws" where
  "fn_attr callv E S D key v =
     access callv (\<lambda>k v pass. attr E S D (truthy pass) k v) key (case v of None \<Rightarrow> Undef | Some x \<Rightarrow> x) (v \<noteq> None) Undef Undef"

definition fn_prop ::
  "('f \<Rightarrow> 'e \<Rightarrow> nat \<Rightarrow> 'f jsv \<Rightarrow> 'f jsv) \<Rightarrow> 'f env \<Rightarrow> support \<Rightarrow> ('e, 'f) dom \<Rightarrow>
   'f access_key \<Rightarrow> 'f jsv option \<Rightarrow> 'e list \<Rightarrow> ('e, 'f) accessed throws" where
  "fn_prop callv E S D key v =
     access callv (\<lambda>k v pass e. Inr (jq_prop E S D k v e)) key (case v of None \<Rightarrow> Undef | Some x \<Rightarrow> x) (v \<noteq> None) Undef Undef"

fun fn_removeAttr :: "'f env \<Rightarrow> support \<Rightarrow> ('e, 'f) dom \<Rightarrow> string \<Rightarrow> 'e list \<Rightarrow> 'e list throws" where
  "fn_removeAttr E S D name [] = Inr []"
| "fn_removeAttr E S D name (e # es) =
     bindE (removeAttr E S D name e) (\<lambda>e1. bindE (fn_removeAttr E S D name es) (\<lambda>es1. Inr (e1 # es1)))"

text \<open>
  \<open>removeProp\<close> on one element; \<open>erase\<close> is what assigning \<open>undefined\<close> and deleting do to it, or
  leave undone where the browser raises, since the code catches that.
\<close>

definition fn_removeProp :: "'f env \<Rightarrow> support \<Rightarrow> (string \<Rightarrow> 'e \<Rightarrow> 'e) \<Rightarrow> string \<Rightarrow> 'e list \<Rightarrow> 'e list" where
  "fn_removeProp E S erase name es = map (erase (fix_name E S name)) es"

section \<open>What the page promises\<close>

text \<open>
  Elements keep the attributes they are given. Setting an attribute neither adds a property nor
  turns one off, and turning a property off does not bring an attribute back. \<open>el\<close> are the
  elements it is promised for.
\<close>

definition dom_ok :: "('e, 'f) dom \<Rightarrow> ('e \<Rightarrow> bool) \<Rightarrow> bool" where
  "dom_ok D el \<longleftrightarrow>
     (\<forall>e. el e \<longrightarrow> nodeType D e = 1 \<and> \<not> isXMLDoc D e \<and> hasGetAttribute D e) \<and>
     (\<forall>e n v. el e \<longrightarrow> el (setAttribute D n v e) \<and>
        getAttribute D (setAttribute D n v e) = (getAttribute D e)(n \<mapsto> v) \<and>
        (\<forall>p. property D e p \<in> {None, Some (Bool True)} \<longrightarrow> property D (setAttribute D n v e) p = property D e p)) \<and>
     (\<forall>e n. el e \<longrightarrow> el (removeAttribute D n e) \<and>
        getAttribute D (removeAttribute D n e) = (getAttribute D e)(n := None)) \<and>
     (\<forall>e p v. el e \<longrightarrow> el (setProperty D p v e) \<and> property D (setProperty D p v e) p = Some v) \<and>
     (\<forall>e p m. el e \<longrightarrow> getAttribute D e m = None \<longrightarrow> getAttribute D (setProperty D p (Bool False) e) m = None) \<and>
     (\<forall>e n. el e \<longrightarrow> (getAttributeNode D e n = None \<longleftrightarrow> getAttribute D e n = None))"

lemma dom_okD:
  assumes "dom_ok D el" "el e"
  shows "nodeType D e = 1" "\<not> isXMLDoc D e" "hasGetAttribute D e"
    and "el (setAttribute D n v e)" "getAttribute D (setAttribute D n v e) = (getAttribute D e)(n \<mapsto> v)"
    and "property D e p = None \<Longrightarrow> property D (setAttribute D n v e) p = None"
    and "property D e p = Some (Bool True) \<Longrightarrow> property D (setAttribute D n v e) p = Some (Bool True)"
    and "el (removeAttribute D n e)" "getAttribute D (removeAttribute D n e) = (getAttribute D e)(n := None)"
    and "el (setProperty D p x e)" "property D (setProperty D p x e) p = Some x"
    and "getAttribute D e n = None \<Longrightarrow> getAttribute D (setProperty D p (Bool False) e) n = None"
    and "getAttributeNode D e n = None \<longleftrightarrow> getAttribute D e n = None"
  using assms unfolding dom_ok_def by simp_all

lemma is_ws_to_lower [simp]: "is_ws (to_lower c) = is_ws c"
  by (auto simp: is_ws_def to_lower_def is_upper_def)

lemma split_ws_solid: "list_all (\<lambda>c. \<not> is_ws c) w \<Longrightarrow> split_ws w = [w]"
  by (subst split_ws.simps) (simp add: list_all_iff dropWhile_eq_Nil_conv)

lemma split_lower: "list_all (\<lambda>c. \<not> is_ws c) w \<Longrightarrow> split_ws (lower w) = [lower w]"
  by (rule split_ws_solid) (simp add: lower_def list_all_iff)

text \<open>An element of an HTML page: its attributes are there, and names are in lower case.\<close>

lemma html_element:
  assumes "dom_ok D el" "el e"
  shows "\<not> no_attributes D e" "notxml D e" "hasGetAttribute D e"
  using dom_okD [OF assms] by (simp_all add: no_attributes_def notxml_def)

lemma attr_put_html:
  assumes "dom_ok D el" "el e"
  shows "attr_put E S D e name v =
     bindE (hook_set E S D (attr_hook E S (lower name)) e v (lower name)) (\<lambda>(e1, ret).
       if ret \<noteq> Undef then Inr (e1, ret) else Inr (setAttribute D (lower name) (to_str E v) e1, v))"
  by (simp add: attr_put_def Let_def html_element [OF assms])

lemma attr_get_html:
  assumes "dom_ok D el" "el e"
  shows "attr_get E S D e name =
     (let ret = hook_get E S D (attr_hook E S (lower name)) e (lower name)
      in if ret \<noteq> Null then ret else case getAttribute D e (lower name) of None \<Rightarrow> Undef | Some t \<Rightarrow> Str t)"
  by (simp add: attr_get_def Let_def html_element [OF assms])

lemma propFix_tabIndex: "map_of (propFix S) n = Some ''tabIndex'' \<Longrightarrow> n = ''tabindex''"
  by (drule map_of_SomeD) (simp add: propFix_def split: if_splits)

lemma tab_not_boolean: "\<not> rboolean ''tabindex''" "\<not> rboolean ''tabIndex''"
  by code_simp+

lemma HBool_cases:
  assumes "attr_hook E S n = HBool"
  shows "rboolean n" "fix_name E S n \<noteq> ''tabIndex''"
proof -
  show b: "rboolean n" using assms by (simp add: attr_hook_def split: if_splits)
  have "\<not> truthy (inherit E PObject n)" using assms by (simp add: attr_hook_def split: if_splits)
  then have "n = ''tabindex'' \<or> n = ''tabIndex''" if "fix_name E S n = ''tabIndex''"
    using that propFix_tabIndex [of S n] by (auto simp: fix_name_def Let_def split: option.splits)
  with b tab_not_boolean show "fix_name E S n \<noteq> ''tabIndex''" by metis
qed

lemma boolHook_get_html:
  assumes "dom_ok D el" "el e" "attr_hook E S n = HBool"
  shows "boolHook_get E S D e n =
    (let p = read_property D e (fix_name E S n)
     in if p = Bool True \<or> typeof p \<noteq> TBoolean \<and> getAttribute D e n \<noteq> None then Str (lower n) else Undef)"
  using html_element [OF assms(1,2)] HBool_cases [OF assms(3)] dom_okD(13) [OF assms(1,2)]
  by (simp add: boolHook_get_def prop_get_def Let_def)

lemma attr_get_bool:
  assumes "dom_ok D el" "el e" "attr_hook E S (lower name) = HBool"
  shows "attr_get E S D e name = boolHook_get E S D e (lower name)"
  by (simp add: attr_get_html [OF assms(1,2)] assms(3) hook_get_def Let_def) (simp add: boolHook_get_def Let_def)

lemma bool_on:
  assumes "dom_ok D el" "el e" "attr_hook E S n = HBool" "getAttribute D e n \<noteq> None"
    and "property D e (fix_name E S n) = None \<or> property D e (fix_name E S n) = Some (Bool True)"
  shows "boolHook_get E S D e n = Str (lower n)"
  using assms(4,5) by (auto simp: boolHook_get_html [OF assms(1-3)] read_property_def)

lemma bool_off:
  assumes "dom_ok D el" "el e" "attr_hook E S n = HBool" "getAttribute D e n = None"
    and "property D e (fix_name E S n) = None \<or> property D e (fix_name E S n) = Some (Bool False)"
  shows "boolHook_get E S D e n = Undef"
  using assms(4,5) by (auto simp: boolHook_get_html [OF assms(1-3)] read_property_def)

text \<open>Setting and removing, for the two kinds of attributes that need no old browser's hook.\<close>

lemma lower_boolean: "rboolean n \<Longrightarrow> rboolean (lower n)"
  by (simp add: rboolean_def)

lemma set_bool:
  assumes D: "dom_ok D el" "el e" and h: "attr_hook E S (lower name) = HBool" and v: "v \<noteq> Bool False"
  shows "\<exists>e'. attr_put E S D e name v = Inr (e', Str (lower name)) \<and> el e' \<and> attr_get E S D e' name = Str (lower name)"
proof -
  let ?n = "lower name" and ?p = "fix_name E S (lower name)"
  let ?e1 = "if property D e ?p \<noteq> None then setProperty D ?p (Bool True) e else e"
  let ?e2 = "setAttribute D ?n (lower ?n) ?e1"
  have e1: "el ?e1" using dom_okD(10) [OF D] D by simp
  have e2: "el ?e2" by (rule dom_okD(4) [OF D(1) e1])
  have p: "property D ?e2 ?p = None \<or> property D ?e2 ?p = Some (Bool True)"
    using dom_okD(6,7) [OF D(1) e1] dom_okD(11) [OF D] by (cases "property D e ?p") simp_all
  have "getAttribute D ?e2 ?n \<noteq> None" using dom_okD(5) [OF D(1) e1] by simp
  then have "boolHook_get E S D ?e2 ?n = Str ?n" using bool_on [OF D(1) e2 h _ p] by simp
  moreover have "attr_put E S D e name v = Inr (?e2, Str ?n)"
    using v by (simp add: attr_put_html [OF D] h hook_set_def boolHook_set_def Let_def)
  moreover have "el ?e2" by (rule e2)
  ultimately show ?thesis using attr_get_bool [OF D(1) e2 h] by metis
qed

lemma unset_bool:
  assumes D: "dom_ok D el" "el e" and S: "getSetAttribute S" and h: "attr_hook E S (lower name) = HBool"
    and n: "name \<noteq> []" "list_all (\<lambda>c. \<not> is_ws c) name"
  shows "\<exists>e'. remove_attrs E S D c (lower name) e = Inr e' \<and> el e' \<and> attr_get E S D e' name = Undef"
proof -
  let ?n = "lower name" and ?p = "fix_name E S (lower name)"
  let ?e1 = "removeAttribute D ?n e"
  let ?e2 = "if property D ?e1 ?p \<noteq> None then setProperty D ?p (Bool False) ?e1 else ?e1"
  note h' = HBool_cases [OF h]
  have ne: "?n \<noteq> []" using n by (simp add: lower_def)
  have e1: "el ?e1" by (rule dom_okD(8) [OF D])
  have e2: "el ?e2" using dom_okD(10) [OF D(1) e1] e1 by simp
  have "getAttribute D ?e1 ?n = None" using dom_okD(9) [OF D] by simp
  then have "getAttribute D ?e2 ?n = None" using dom_okD(12) [OF D(1) e1] by simp
  moreover have "property D ?e2 ?p = None \<or> property D ?e2 ?p = Some (Bool False)"
    using dom_okD(11) [OF D(1) e1] by (cases "property D ?e1 ?p") simp_all
  ultimately have "boolHook_get E S D ?e2 ?n = Undef" by (rule bool_off [OF D(1) e2 h])
  moreover have "split_ws (lower ?n) = [?n]" using split_lower [of name] n(2) by simp
  then have "remove_attrs E S D c ?n e = Inr ?e2"
    using ne h'(1) S dom_okD(1) [OF D] by (simp add: remove_attrs_def remove_name_def Let_def)
  ultimately show ?thesis using e2 attr_get_bool [OF D(1) e2 h] by metis
qed

lemma set_plain:
  assumes D: "dom_ok D el" "el e" and h: "attr_hook E S (lower name) = HNone"
  shows "attr_put E S D e name v = Inr (setAttribute D (lower name) (to_str E v) e, v)"
    and "attr_get E S D (setAttribute D (lower name) (to_str E v) e) name = Str (to_str E v)"
  using dom_okD(5) [OF D]
  by (simp_all add: attr_put_html [OF D] attr_get_html [OF D(1) dom_okD(4) [OF D]] h hook_set_def hook_get_def Let_def)

lemma remove_plain:
  assumes D: "dom_ok D el" "el e" and S: "getSetAttribute S" and h: "attr_hook E S (lower name) = HNone"
    and nb: "\<not> rboolean name" and n: "name \<noteq> []" "list_all (\<lambda>c. \<not> is_ws c) name"
  shows "\<exists>e'. removeAttr E S D (lower name) e = Inr e' \<and> el e' \<and> attr_get E S D e' name = Undef"
proof -
  let ?n = "lower name"
  let ?e1 = "setAttribute D ?n [] e"
  let ?e2 = "removeAttribute D ?n ?e1"
  have e1: "el ?e1" by (rule dom_okD(4) [OF D])
  have e2: "el ?e2" by (rule dom_okD(8) [OF D(1) e1])
  have "attr_put E S D e ?n (Str []) = Inr (?e1, Str [])" using set_plain(1) [OF D, of E S ?n "Str []"] h by simp
  moreover have "split_ws (lower ?n) = [?n]" using split_lower [of name] n(2) by simp
  moreover have "?n \<noteq> []" "\<not> rboolean ?n" using n(1) nb by (simp_all add: lower_def rboolean_def comp_def)
  ultimately have "removeAttr E S D ?n e = Inr ?e2"
    using S dom_okD(1) [OF D] by (simp add: removeAttr_def remove_attrs_def remove_name_def Let_def)
  moreover have "getAttribute D ?e2 ?n = None" using dom_okD(9) [OF D(1) e1] by simp
  ultimately show ?thesis using e2 by (simp add: attr_get_html [OF D(1) e2] h hook_get_def Let_def)
qed


text \<open>An element that keeps its attributes and its properties apart.\<close>

definition plain_dom :: "((string \<Rightarrow> string option) \<times> (string \<Rightarrow> 'f jsv option), 'f) dom" where
  "plain_dom = \<lparr>nodeType = (\<lambda>_. 1), nodeName = (\<lambda>_. ''INPUT''), isXMLDoc = (\<lambda>_. False), hasParent = (\<lambda>_. True),
     hasGetAttribute = (\<lambda>_. True), getAttribute = fst,
     setAttribute = (\<lambda>n v (as, ps). (as(n \<mapsto> v), ps)), removeAttribute = (\<lambda>n (as, ps). (as(n := None), ps)),
     getAttributeNode = (\<lambda>e n. map_option (\<lambda>v. (v, True)) (fst e n)),
     setAttributeNode = (\<lambda>n v (as, ps). (as(n \<mapsto> v), ps)),
     property = snd, setProperty = (\<lambda>p v (as, ps). (as, ps(p \<mapsto> v))),
     getCssText = (\<lambda>_. []), setCssText = (\<lambda>_ e. e), setMethod = (\<lambda>_ v e. Inr (e, v))\<rparr>"

lemma plain_dom_ok: "dom_ok plain_dom (\<lambda>_. True)"
  by (auto simp: dom_ok_def plain_dom_def)

definition no_prototypes :: "'f env" where
  "no_prototypes = \<lparr>inherited = (\<lambda>_ _. None), call0 = (\<lambda>_ _. Undef), obj_str = (\<lambda>_. ''[object Object]'')\<rparr>"


text \<open>
  \<open>jQuery.propFix[name] || name\<close> finds what every object inherits: \<open>prop\<close> with such a name, like
  \<open>"constructor"\<close>, works on the property whose name is the text of the inherited function.
\<close>

lemma prop_misses_inherited_names:
  assumes "\<not> no_attributes D e" "notxml D e" "truthy (inherit E PObject name)" "map_of (propFix S) name = None"
    and "v \<noteq> Undef" "getSetAttribute S"
  shows "fst (jq_prop E S D name v e) = setProperty D (to_str E (inherit E PObject name)) v e"
  using assms by (simp add: jq_prop_def prop_set_def fix_name_def Let_def)

end
