(* ===== verification/JQ_Val.thy ===== *)
theory JQ_Val
  imports JQ_Attributes
begin

text \<open>
  \<open>jquery-1.7.2.js\<close>, lines 2371 to 2498 and 2848 to 2867: \<open>val\<close> and its hooks for form controls.

  The page decides how its controls react to an assignment: which options of a list end up
  selected when one is selected or deselected, and what a control makes of a value it is given.
\<close>

section \<open>Form controls\<close>

text \<open>
  An option: the node of its attribute \<open>value\<close> and if it was specified, its value and its text,
  and whether it is disabled (as a property, as an attribute), its parent is, and the parent is
  an \<open>optgroup\<close>.
\<close>

record option_el =
  o_value_node :: "bool option"
  o_value :: string
  o_text :: string
  o_disabled :: bool
  o_disabled_attr :: bool
  o_parent_disabled :: bool
  o_in_optgroup :: bool

record select_el =
  multiple :: bool
  options :: "option_el list"
  chosen :: "bool list"

record 'f field =
  f_node_type :: int
  f_type :: string
  f_node :: string
  f_value :: "'f jsv"
  f_value_node :: "(string \<times> bool) option"
  f_checked :: bool

datatype 'f control = Field "'f field" | Option option_el | Select select_el

record 'f form_host =
  oldAttributes :: bool
  checkOn :: bool
  optDisabled :: bool
  pickOption :: "select_el \<Rightarrow> nat \<Rightarrow> bool \<Rightarrow> bool list"
  accept :: "'f field \<Rightarrow> 'f jsv \<Rightarrow> 'f jsv"
  asText :: "'f jsv \<Rightarrow> string"

section \<open>Getting\<close>

definition option_val :: "option_el \<Rightarrow> string" where
  "option_val p = (case o_value_node p of Some False \<Rightarrow> o_text p | _ \<Rightarrow> o_value p)"

definition selectedIndex :: "select_el \<Rightarrow> nat option" where
  "selectedIndex s = index_of True (chosen s)"

definition counts :: "'f form_host \<Rightarrow> option_el \<Rightarrow> bool" where
  "counts H p \<longleftrightarrow> (if optDisabled H then \<not> o_disabled p else \<not> o_disabled_attr p) \<and>
     (\<not> o_parent_disabled p \<or> \<not> o_in_optgroup p)"

text \<open>The values of the selected options in a range of indices.\<close>

fun selected_values :: "'f form_host \<Rightarrow> (option_el \<times> bool) list \<Rightarrow> string list" where
  "selected_values H [] = []"
| "selected_values H ((p, on) # ps) =
     (if on \<and> counts H p then option_val p # selected_values H ps else selected_values H ps)"

definition select_get :: "'f form_host \<Rightarrow> select_el \<Rightarrow> 'f jsv" where
  "select_get H s =
     (case selectedIndex s of
        None \<Rightarrow> Null
      | Some i \<Rightarrow>
          if multiple s then Arr (map Str (selected_values H (zip (options s) (chosen s))))
          else case selected_values H [(options s ! i, chosen s ! i)] of
                 v # _ \<Rightarrow> Str v
               | [] \<Rightarrow> if options s \<noteq> [] then Str (option_val (options s ! i)) else Arr [])"

definition is_check :: "'f field \<Rightarrow> bool" where
  "is_check x \<longleftrightarrow> f_type x \<in> {''radio'', ''checkbox''}"

text \<open>Buttons have a hook in old browsers, by type or by name.\<close>

definition is_button :: "'f form_host \<Rightarrow> 'f field \<Rightarrow> bool" where
  "is_button H x \<longleftrightarrow> oldAttributes H \<and> (f_type x = ''button'' \<or> f_node x = ''button'')"

definition field_hook_get :: "'f form_host \<Rightarrow> 'f field \<Rightarrow> 'f jsv" where
  "field_hook_get H x =
     (if is_check x \<and> \<not> checkOn H then (case f_value_node x of None \<Rightarrow> Str ''on'' | Some _ \<Rightarrow> f_value x)
      else if \<not> is_check x \<and> is_button H x then
        (case f_value_node x of Some (v, True) \<Rightarrow> Str v | _ \<Rightarrow> Undef)
      else Undef)"

definition field_get :: "'f form_host \<Rightarrow> 'f field \<Rightarrow> 'f jsv" where
  "field_get H x =
     (let ret = field_hook_get H x
      in if ret \<noteq> Undef then ret
         else case f_value x of
           Str t \<Rightarrow> Str (filter (\<lambda>c. c \<noteq> CHR 0x0D) t)
         | v \<Rightarrow> if is_nullish v then Str [] else v)"

definition control_get :: "'f form_host \<Rightarrow> 'f control \<Rightarrow> 'f jsv" where
  "control_get H c =
     (case c of Field x \<Rightarrow> field_get H x | Option p \<Rightarrow> Str (option_val p) | Select s \<Rightarrow> select_get H s)"

text \<open>\<open>val()\<close>\<close>

definition val_get :: "'f form_host \<Rightarrow> 'f control list \<Rightarrow> 'f jsv" where
  "val_get H cs = (case cs of [] \<Rightarrow> Undef | c # _ \<Rightarrow> control_get H c)"

section \<open>Setting\<close>

text \<open>What becomes of the value before it is set.\<close>

definition normal_value :: "'f form_host \<Rightarrow> 'f jsv \<Rightarrow> 'f jsv" where
  "normal_value H v =
     (if is_nullish v then Str []
      else case v of
        Num n \<Rightarrow> Str (num_str n)
      | Arr xs \<Rightarrow> Arr (map (\<lambda>x. if is_nullish x then Str [] else Str (asText H x)) xs)
      | _ \<Rightarrow> v)"

definition as_values :: "'f jsv \<Rightarrow> 'f jsv list" where
  "as_values v = (case v of Arr xs \<Rightarrow> xs | _ \<Rightarrow> [v])"

fun select_options :: "'f form_host \<Rightarrow> 'f jsv list \<Rightarrow> nat \<Rightarrow> option_el list \<Rightarrow> select_el \<Rightarrow> select_el" where
  "select_options H vs i [] s = s"
| "select_options H vs i (p # ps) s =
     select_options H vs (Suc i) ps (s\<lparr>chosen := pickOption H s i (Str (option_val p) \<in> set vs)\<rparr>)"

definition select_set :: "'f form_host \<Rightarrow> 'f jsv \<Rightarrow> select_el \<Rightarrow> select_el" where
  "select_set H v s =
     (let vs = as_values v; s1 = select_options H vs 0 (options s) s
      in if vs = [] then s1\<lparr>chosen := map (\<lambda>_. False) (chosen s1)\<rparr> else s1)"

definition field_set :: "'f form_host \<Rightarrow> 'f jsv \<Rightarrow> 'f field \<Rightarrow> 'f field" where
  "field_set H v x =
     (case (is_check x, v) of
        (True, Arr xs) \<Rightarrow> x\<lparr>f_checked := (field_get H x \<in> set xs)\<rparr>
      | _ \<Rightarrow>
          if \<not> is_check x \<and> is_button H x
          then x\<lparr>f_value_node := Some (asText H v, True)\<rparr> else x\<lparr>f_value := accept H x v\<rparr>)"

definition control_set :: "'f form_host \<Rightarrow> 'f jsv \<Rightarrow> 'f control \<Rightarrow> 'f control" where
  "control_set H v c =
     (case c of
        Field x \<Rightarrow> Field (field_set H v x)
      | Option p \<Rightarrow> Option (p\<lparr>o_value := asText H v, o_value_node := Some True\<rparr>)
      | Select s \<Rightarrow> Select (select_set H v s))"

definition takes_value :: "'f control \<Rightarrow> bool" where
  "takes_value c = (case c of Field x \<Rightarrow> f_node_type x = 1 | _ \<Rightarrow> True)"

text \<open>\<open>val(value)\<close>: a function of the page sees the index and the value so far.\<close>

definition val_one :: "('f \<Rightarrow> nat \<Rightarrow> 'f jsv \<Rightarrow> 'f jsv) \<Rightarrow> 'f form_host \<Rightarrow> 'f jsv \<Rightarrow> nat \<Rightarrow> 'f control \<Rightarrow> 'f control" where
  "val_one callv H v i c =
     (if takes_value c then
        control_set H (normal_value H (case v of Fn f \<Rightarrow> callv f i (control_get H c) | _ \<Rightarrow> v)) c
      else c)"

definition val_set ::
  "('f \<Rightarrow> nat \<Rightarrow> 'f jsv \<Rightarrow> 'f jsv) \<Rightarrow> 'f form_host \<Rightarrow> 'f jsv \<Rightarrow> 'f control list \<Rightarrow> 'f control list" where
  "val_set callv H v cs = map (\<lambda>(i, c). val_one callv H v i c) (zip [0..<length cs] cs)"

section \<open>Lists of options\<close>

text \<open>What a list that allows several selected options does with an assignment.\<close>

definition free_choice :: "'f form_host \<Rightarrow> bool" where
  "free_choice H \<longleftrightarrow> (\<forall>s i b. multiple s \<longrightarrow> pickOption H s i b = (chosen s)[i := b])"

lemma selected_values_filter:
  "selected_values H (map (\<lambda>p. (p, Q p)) ps) = map option_val (filter (counts H) (filter Q ps))"
  by (induction ps) auto

lemma select_options_multiple:
  assumes "free_choice H"
  shows "multiple s \<Longrightarrow> length (chosen s) = i + length ps \<Longrightarrow>
    select_options H vs i ps s =
      s\<lparr>chosen := take i (chosen s) @ map (\<lambda>p. Str (option_val p) \<in> set vs) ps\<rparr>"
proof (induction ps arbitrary: i s)
  case (Cons p ps)
  let ?b = "Str (option_val p) \<in> set vs"
  have "pickOption H s i ?b = (chosen s)[i := ?b]" using assms Cons.prems by (simp add: free_choice_def)
  moreover have "take (Suc i) ((chosen s)[i := ?b]) = take i (chosen s) @ [?b]"
    using Cons.prems by (simp add: take_Suc_conv_app_nth)
  ultimately show ?case using Cons.IH [of "s\<lparr>chosen := (chosen s)[i := ?b]\<rparr>" "Suc i"] Cons.prems by simp
qed simp

lemma index_of_True: "index_of True bs = None \<longleftrightarrow> \<not> list_ex id bs"
  by (auto simp: index_of_None list_ex_iff)

text \<open>
  C36: C: A list that allows one selected option has the value of the option that is selected, even
  if that is disabled. Setting values on a list that allows several selects the options with one
  of the values, and getting then yields the values of the enabled ones in their order, or \<open>null\<close>
  if nothing is selected.
\<close>

theorem select_set_get:
  assumes "free_choice H" "multiple s" "length (chosen s) = length (options s)"
    and "\<not> multiple t" "length (chosen t) = length (options t)"
  shows "val_get H (val_set callv H (Arr (map Str vs)) [Select s]) =
      (let hit = filter (\<lambda>p. option_val p \<in> set (map (\<lambda>v. asText H (Str v)) vs)) (options s)
       in if hit = [] then Null else Arr (map (\<lambda>p. Str (option_val p)) (filter (counts H) hit))) \<and>
    val_get H [Select t] = (case selectedIndex t of None \<Rightarrow> Null | Some i \<Rightarrow> Str (option_val (options t ! i)))"
proof
  let ?us = "map (\<lambda>v. Str (asText H (Str v))) vs"
  let ?Q = "\<lambda>p. option_val p \<in> set (map (\<lambda>v. asText H (Str v)) vs)"
  have q: "map (\<lambda>p. Str (option_val p) \<in> set ?us) (options s) = map ?Q (options s)" by auto
  have "select_options H ?us 0 (options s) s = s\<lparr>chosen := map ?Q (options s)\<rparr>"
    using select_options_multiple [OF assms(1,2), of 0 "options s" ?us] assms(3)
    by (simp only: q take0 append_Nil add_0)
  then have s1: "select_set H (Arr ?us) s = s\<lparr>chosen := map ?Q (options s)\<rparr>"
    by (auto simp: select_set_def as_values_def Let_def)
  have "selectedIndex (select_set H (Arr ?us) s) = None \<longleftrightarrow> filter ?Q (options s) = []"
    by (auto simp: s1 selectedIndex_def index_of_True list_ex_iff filter_empty_conv)
  then have "select_get H (select_set H (Arr ?us) s) =
      (if filter ?Q (options s) = [] then Null
       else Arr (map Str (selected_values H (zip (options s) (map ?Q (options s))))))"
    using assms(2) by (auto simp: select_get_def s1 split: option.splits)
  moreover have "zip (options s) (map ?Q (options s)) = map (\<lambda>p. (p, ?Q p)) (options s)"
    by (simp add: zip_map2 zip_same_conv_map)
  moreover have "normal_value H (Arr (map Str vs)) = Arr ?us" by (simp add: normal_value_def)
  then have "val_set callv H (Arr (map Str vs)) [Select s] = [Select (select_set H (Arr ?us) s)]"
    by (simp add: val_set_def val_one_def takes_value_def control_set_def)
  ultimately show "val_get H (val_set callv H (Arr (map Str vs)) [Select s]) =
      (let hit = filter ?Q (options s)
       in if hit = [] then Null else Arr (map (\<lambda>p. Str (option_val p)) (filter (counts H) hit)))"
    using selected_values_filter [of H ?Q "options s"] by (simp add: val_get_def control_get_def Let_def comp_def)
  show "val_get H [Select t] = (case selectedIndex t of None \<Rightarrow> Null | Some i \<Rightarrow> Str (option_val (options t ! i)))"
    using assms(4,5) by (auto simp: val_get_def control_get_def select_get_def selectedIndex_def split: option.splits)
qed

definition demo_host :: "unit form_host" where
  "demo_host = \<lparr>oldAttributes = False, checkOn = True, optDisabled = True, pickOption = (\<lambda>s i b. (chosen s)[i := b]),
     accept = (\<lambda>_ v. v), asText = (\<lambda>v. case v of Str t \<Rightarrow> t | _ \<Rightarrow> [])\<rparr>"

definition demo_option :: "string \<Rightarrow> bool \<Rightarrow> option_el" where
  "demo_option v off = \<lparr>o_value_node = Some True, o_value = v, o_text = ''text'', o_disabled = off,
     o_disabled_attr = off, o_parent_disabled = False, o_in_optgroup = False\<rparr>"

lemma select_set_get_witness:
  "val_get demo_host (val_set (\<lambda>_ _ v. v) demo_host (Arr (map Str [''c'', ''a'', ''b'']))
     [Select \<lparr>multiple = True, options = [demo_option ''a'' False, demo_option ''b'' True, demo_option ''c'' False],
        chosen = [False, True, False]\<rparr>]) = Arr [Str ''a'', Str ''c''] \<and>
   val_get demo_host [Select \<lparr>multiple = False, options = [demo_option ''a'' False, demo_option ''b'' True],
        chosen = [False, True]\<rparr>] = Str ''b''"
proof -
  have free: "free_choice demo_host" by (simp add: free_choice_def demo_host_def)
  show ?thesis
    using select_set_get [OF free, where s = "\<lparr>multiple = True, options = [demo_option ''a'' False, demo_option ''b'' True, demo_option ''c'' False],
        chosen = [False, True, False]\<rparr>" and t = "\<lparr>multiple = False, options = [demo_option ''a'' False, demo_option ''b'' True],
        chosen = [False, True]\<rparr>" and vs = "[''c'', ''a'', ''b'']" and callv = "\<lambda>_ _ v. v"]
    by (simp add: demo_host_def demo_option_def option_val_def counts_def selectedIndex_def)
qed

end
