(* ===== verification/JQ_Extend.thy ===== *)
theory JQ_Extend
  imports JS_Prelude
begin

text \<open>
  \<open>jquery-1.7.2.js\<close>, lines 324 to 386 and 495 to 548: \<open>extend\<close> with the tests of objects it rests
  on. What it promises is about identity, so objects live in a heap here, and prototypes are
  objects.
\<close>

section \<open>Objects\<close>

text \<open>
  Primitive values other than \<open>undefined\<close> and \<open>null\<close> have no properties of interest here. An
  object has properties that \<open>for ... in\<close> visits, in that order, and hidden ones.
\<close>

datatype 'p hval = HUndef | HNull | HPrim 'p | HRef nat

datatype hclass = CObject | CArray | CFunction | COther

record 'p object =
  cls :: hclass
  own :: "(string \<times> 'p hval) list"
  hidden :: "(string \<times> 'p hval) list"
  proto :: "nat option"
  is_node :: bool
  is_window :: bool

record 'p heap =
  objects :: "nat \<Rightarrow> 'p object"
  fresh_ref :: nat

text \<open>The prototypes of objects and of arrays.\<close>

definition objectProto :: nat where "objectProto = 0"
definition arrayProto :: nat where "arrayProto = 1"

definition proto_key :: string where "proto_key = ''__proto__''"

text \<open>An own property; \<open>hasOwn\<close>.\<close>

definition own_get :: "'p object \<Rightarrow> string \<Rightarrow> 'p hval option" where
  "own_get ob k = (case map_of (own ob) k of Some v \<Rightarrow> Some v | None \<Rightarrow> map_of (hidden ob) k)"

definition hasOwn :: "'p object \<Rightarrow> string \<Rightarrow> bool" where
  "hasOwn ob k \<longleftrightarrow> own_get ob k \<noteq> None"

text \<open>
  The value of a property, up the chain of prototypes; \<open>n\<close> bounds the length of the chain, and
  \<open>__proto__\<close> reads the prototype itself unless it is an own property.
\<close>

fun chain_get :: "nat \<Rightarrow> 'p heap \<Rightarrow> nat \<Rightarrow> string \<Rightarrow> 'p hval" where
  "chain_get 0 h r k = HUndef"
| "chain_get (Suc n) h r k =
     (case own_get (objects h r) k of
        Some v \<Rightarrow> v
      | None \<Rightarrow> case proto (objects h r) of Some p \<Rightarrow> chain_get n h p k | None \<Rightarrow> HUndef)"

definition chain_bound :: nat where "chain_bound = 16"

definition hget :: "'p heap \<Rightarrow> nat \<Rightarrow> string \<Rightarrow> 'p hval" where
  "hget h r k =
     (if k = proto_key \<and> \<not> hasOwn (objects h r) k
      then (case proto (objects h r) of Some p \<Rightarrow> HRef p | None \<Rightarrow> HNull)
      else chain_get chain_bound h r k)"

definition set_object :: "nat \<Rightarrow> 'p object \<Rightarrow> 'p heap \<Rightarrow> 'p heap" where
  "set_object r ob h = h\<lparr>objects := (objects h)(r := ob)\<rparr>"

text \<open>\<open>target[k] = v\<close>: through \<open>__proto__\<close> this sets the prototype.\<close>

definition hput :: "nat \<Rightarrow> string \<Rightarrow> 'p hval \<Rightarrow> 'p heap \<Rightarrow> 'p heap" where
  "hput r k v h =
     (let ob = objects h r
      in if k = proto_key \<and> \<not> hasOwn ob k then
           (case v of
              HRef p \<Rightarrow> set_object r (ob\<lparr>proto := Some p\<rparr>) h
            | HNull \<Rightarrow> set_object r (ob\<lparr>proto := None\<rparr>) h
            | _ \<Rightarrow> h)
         else if map_of (own ob) k = None \<and> map_of (hidden ob) k \<noteq> None
         then set_object r (ob\<lparr>hidden := AList.update k v (hidden ob)\<rparr>) h
         else set_object r (ob\<lparr>own := AList.update k v (own ob)\<rparr>) h)"

text \<open>The keys \<open>for ... in\<close> visits: own ones first, then those of the prototypes.\<close>

fun chain_keys :: "nat \<Rightarrow> 'p heap \<Rightarrow> nat \<Rightarrow> string list" where
  "chain_keys 0 h r = []"
| "chain_keys (Suc n) h r =
     (let ob = objects h r; mine = map fst (own ob)
      in mine @ (case proto ob of
           Some p \<Rightarrow> filter (\<lambda>k. \<not> hasOwn ob k) (chain_keys n h p)
         | None \<Rightarrow> []))"

definition hkeys :: "'p heap \<Rightarrow> nat \<Rightarrow> string list" where
  "hkeys h r = chain_keys chain_bound h r"

definition new_object :: "hclass \<Rightarrow> 'p object" where
  "new_object c = \<lparr>cls = c, own = [], hidden = [],
     proto = Some (if c = CArray then arrayProto else objectProto), is_node = False, is_window = False\<rparr>"

definition alloc :: "hclass \<Rightarrow> 'p heap \<Rightarrow> nat \<times> 'p heap" where
  "alloc c h = (fresh_ref h, h\<lparr>objects := (objects h)(fresh_ref h := new_object c), fresh_ref := Suc (fresh_ref h)\<rparr>)"

section \<open>Tests\<close>

definition isArray :: "'p heap \<Rightarrow> 'p hval \<Rightarrow> bool" where
  "isArray h v = (case v of HRef r \<Rightarrow> cls (objects h r) = CArray | _ \<Rightarrow> False)"

definition isFunction :: "'p heap \<Rightarrow> 'p hval \<Rightarrow> bool" where
  "isFunction h v = (case v of HRef r \<Rightarrow> cls (objects h r) = CFunction | _ \<Rightarrow> False)"

text \<open>
  The test of the constructor: what is wrong with \<open>obj.constructor.prototype\<close> raises, and the
  code takes that for an object that is not plain.
\<close>

definition foreign_constructor :: "'p heap \<Rightarrow> nat \<Rightarrow> bool" where
  "foreign_constructor h r =
     (case hget h r ''constructor'' of
        HRef c \<Rightarrow> \<not> hasOwn (objects h r) ''constructor'' \<and>
          (case hget h c ''prototype'' of HRef p \<Rightarrow> \<not> hasOwn (objects h p) ''isPrototypeOf'' | _ \<Rightarrow> True)
      | _ \<Rightarrow> False)"

definition isPlainObject :: "'p heap \<Rightarrow> 'p hval \<Rightarrow> bool" where
  "isPlainObject h v =
     (case v of
        HRef r \<Rightarrow>
          cls (objects h r) = CObject \<and> \<not> is_node (objects h r) \<and> \<not> is_window (objects h r) \<and>
          \<not> foreign_constructor h r \<and>
          (let ks = hkeys h r in ks = [] \<or> hasOwn (objects h r) (last ks))
      | _ \<Rightarrow> False)"

definition isEmptyObject :: "'p heap \<Rightarrow> nat \<Rightarrow> bool" where
  "isEmptyObject h r \<longleftrightarrow> hkeys h r = []"

section \<open>\<open>extend\<close>\<close>

definition clonable :: "'p heap \<Rightarrow> 'p hval \<Rightarrow> bool" where
  "clonable h v \<longleftrightarrow> isPlainObject h v \<or> isArray h v"

text \<open>The object a copy goes into: what the target has there if that is of the same kind, else a new one.\<close>

definition clone_target :: "'p hval \<Rightarrow> 'p hval \<Rightarrow> 'p heap \<Rightarrow> nat \<times> 'p heap" where
  "clone_target src copy h =
     (if isPlainObject h copy
      then (case (isPlainObject h src, src) of (True, HRef c) \<Rightarrow> (c, h) | _ \<Rightarrow> alloc CObject h)
      else (case (isArray h src, src) of (True, HRef c) \<Rightarrow> (c, h) | _ \<Rightarrow> alloc CArray h))"

text \<open>
  The loop over the names of an object of options, and the recursion; the first argument bounds
  the depth, and \<open>None\<close> says it was not enough.
\<close>

fun extend_names ::
  "nat \<Rightarrow> bool \<Rightarrow> nat \<Rightarrow> nat \<Rightarrow> string list \<Rightarrow> 'p heap \<Rightarrow> 'p heap option" where
  "extend_names n deep t ops [] h = Some h"
| "extend_names n deep t ops (k # ks) h =
     (let src = hget h t k; copy = hget h ops k
      in if copy = HRef t then extend_names n deep t ops ks h
         else if deep \<and> clonable h copy then
           (case (n, copy) of
              (Suc m, HRef s) \<Rightarrow>
                (let (c, h1) = clone_target src copy h
                 in case extend_names m deep c s (hkeys h1 s) h1 of
                      None \<Rightarrow> None
                    | Some h2 \<Rightarrow> extend_names n deep t ops ks (hput t k (HRef c) h2))
            | _ \<Rightarrow> None)
         else if copy \<noteq> HUndef then extend_names n deep t ops ks (hput t k copy h)
         else extend_names n deep t ops ks h)"

text \<open>The sources in turn; those that are not objects have no names to visit.\<close>

fun extend_sources :: "nat \<Rightarrow> bool \<Rightarrow> nat \<Rightarrow> 'p hval list \<Rightarrow> 'p heap \<Rightarrow> 'p heap option" where
  "extend_sources n deep t [] h = Some h"
| "extend_sources n deep t (v # vs) h =
     (case v of
        HRef s \<Rightarrow>
          (case extend_names n deep t s (hkeys h s) h of
             None \<Rightarrow> None
           | Some h1 \<Rightarrow> extend_sources n deep t vs h1)
      | _ \<Rightarrow> extend_sources n deep t vs h)"

text \<open>
  \<open>jQuery.extend(deep, target, ...)\<close>: \<open>deep\<close> is the first argument if it is a boolean, and
  \<open>this\<close> the target if there is one object only.
\<close>

definition extend :: "nat \<Rightarrow> nat \<Rightarrow> bool option \<Rightarrow> 'p hval list \<Rightarrow> 'p heap \<Rightarrow> (nat \<times> 'p heap) option" where
  "extend n this deep args h =
     (let d = (deep = Some True);
          (t, h1, sources) =
            (case args of
               [] \<Rightarrow> (let (t, h1) = alloc CObject h in (t, h1, []))
             | [v] \<Rightarrow> (this, h, [v])
             | v # vs \<Rightarrow> (case v of HRef r \<Rightarrow> (r, h, vs) | _ \<Rightarrow> (let (t, h1) = alloc CObject h in (t, h1, vs))))
      in map_option (Pair t) (extend_sources n d t sources h1))"

section \<open>Heaps\<close>

text \<open>
  Objects refer to allocated objects only, the two prototypes are there, and nothing that they
  hold would be cloned.
\<close>

definition old_value :: "nat \<Rightarrow> 'p hval \<Rightarrow> bool" where
  "old_value N v = (case v of HRef r \<Rightarrow> r < N | _ \<Rightarrow> True)"

definition heap_ok :: "'p heap \<Rightarrow> bool" where
  "heap_ok h \<longleftrightarrow>
     objectProto < fresh_ref h \<and> arrayProto < fresh_ref h \<and>
     proto (objects h objectProto) = None \<and> proto (objects h arrayProto) = Some objectProto \<and>
     (\<forall>k v. own_get (objects h objectProto) k = Some v \<or> own_get (objects h arrayProto) k = Some v \<longrightarrow> \<not> clonable h v) \<and>
     (\<forall>r < fresh_ref h. (\<forall>p. proto (objects h r) = Some p \<longrightarrow> p < fresh_ref h) \<and>
        (\<forall>k v. own_get (objects h r) k = Some v \<longrightarrow> old_value (fresh_ref h) v))"

text \<open>A heap that still has all objects of another one.\<close>

definition keeps :: "'p heap \<Rightarrow> 'p heap \<Rightarrow> bool" where
  "keeps h0 h \<longleftrightarrow> fresh_ref h0 \<le> fresh_ref h \<and> (\<forall>r < fresh_ref h0. objects h r = objects h0 r)"

lemma chain_get_old: "heap_ok h \<Longrightarrow> r < fresh_ref h \<Longrightarrow> old_value (fresh_ref h) (chain_get n h r k)"
  by (induction n h r k rule: chain_get.induct) (auto simp: heap_ok_def old_value_def split: option.splits)

lemma hget_old: "heap_ok h \<Longrightarrow> r < fresh_ref h \<Longrightarrow> old_value (fresh_ref h) (hget h r k)"
  using chain_get_old [of h r chain_bound k] by (auto simp: hget_def heap_ok_def old_value_def split: option.splits)

lemma hget_old_ref: "heap_ok h \<Longrightarrow> r < fresh_ref h \<Longrightarrow> hget h r k = HRef x \<Longrightarrow> x < fresh_ref h"
  using hget_old [of h r k] by (simp add: old_value_def)

lemma keeps_chain:
  assumes "keeps h0 h" "heap_ok h0"
  shows "r < fresh_ref h0 \<Longrightarrow> chain_get n h r k = chain_get n h0 r k"
    and "r < fresh_ref h0 \<Longrightarrow> chain_keys n h r = chain_keys n h0 r"
  using assms by (induction n arbitrary: r) (auto simp: keeps_def heap_ok_def Let_def split: option.splits)

lemma keeps_object: "keeps h0 h \<Longrightarrow> r < fresh_ref h0 \<Longrightarrow> objects h r = objects h0 r"
  by (simp add: keeps_def)

lemma keeps_hget: "keeps h0 h \<Longrightarrow> heap_ok h0 \<Longrightarrow> r < fresh_ref h0 \<Longrightarrow> hget h r k = hget h0 r k"
  by (cases "k = proto_key") (auto simp: hget_def keeps_chain keeps_object)

lemma keeps_hkeys: "keeps h0 h \<Longrightarrow> heap_ok h0 \<Longrightarrow> r < fresh_ref h0 \<Longrightarrow> hkeys h r = hkeys h0 r"
  by (simp add: hkeys_def keeps_chain)

lemma keeps_constructor:
  assumes "keeps h0 h" "heap_ok h0" "r < fresh_ref h0"
  shows "foreign_constructor h r = foreign_constructor h0 r"
proof -
  note get = keeps_hget [OF assms(1,2)] and old = hget_old_ref [OF assms(2)]
  have obj: "x < fresh_ref h0 \<Longrightarrow> objects h x = objects h0 x" for x using assms(1) by (simp add: keeps_def)
  show ?thesis
  proof (cases "hget h0 r ''constructor''")
    case (HRef c)
    then have c: "c < fresh_ref h0" by (rule old [OF assms(3)])
    show ?thesis
      using HRef old [OF c] by (auto simp: foreign_constructor_def get assms(3) c obj split: hval.splits)
  qed (simp_all add: foreign_constructor_def get assms(3))
qed

lemma keeps_tests:
  assumes "keeps h0 h" "heap_ok h0" "old_value (fresh_ref h0) v"
  shows "isPlainObject h v = isPlainObject h0 v" "isArray h v = isArray h0 v" "clonable h v = clonable h0 v"
proof -
  show "isPlainObject h v = isPlainObject h0 v"
    using assms keeps_constructor [OF assms(1,2)] keeps_hkeys [OF assms(1,2)]
    by (cases v) (auto simp: isPlainObject_def old_value_def keeps_def)
  moreover show "isArray h v = isArray h0 v"
    using assms by (cases v) (auto simp: isArray_def old_value_def keeps_def)
  ultimately show "clonable h v = clonable h0 v" by (simp add: clonable_def)
qed

section \<open>A deep copy\<close>

text \<open>
  The objects made by a deep copy hold no object of the old heap that would be cloned. They
  inherit from one of the two prototypes.
\<close>

definition fresh_ok :: "'p heap \<Rightarrow> 'p heap \<Rightarrow> 'p hval \<Rightarrow> bool" where
  "fresh_ok h0 h v =
     (case v of HRef x \<Rightarrow> x < fresh_ref h \<and> (x < fresh_ref h0 \<longrightarrow> \<not> clonable h0 v) | _ \<Rightarrow> True)"

definition copying :: "'p heap \<Rightarrow> 'p heap \<Rightarrow> bool" where
  "copying h0 h \<longleftrightarrow> keeps h0 h \<and>
     (\<forall>r. fresh_ref h0 \<le> r \<longrightarrow> r < fresh_ref h \<longrightarrow>
        proto (objects h r) \<in> {Some objectProto, Some arrayProto} \<and> hidden (objects h r) = [] \<and>
        (\<forall>k v. map_of (own (objects h r)) k = Some v \<longrightarrow> fresh_ok h0 h v))"

lemma copyingD:
  assumes "copying h0 h" "fresh_ref h0 \<le> t" "t < fresh_ref h"
  shows "proto (objects h t) = Some objectProto \<or> proto (objects h t) = Some arrayProto" "hidden (objects h t) = []"
    "map_of (own (objects h t)) k = Some v \<Longrightarrow> fresh_ok h0 h v"
  using assms by (auto simp: copying_def)

lemma copying_start: "heap_ok h \<Longrightarrow> copying h h"
  by (auto simp: copying_def keeps_def)

lemma fresh_ok_mono: "fresh_ok h0 h v \<Longrightarrow> fresh_ref h \<le> fresh_ref h' \<Longrightarrow> fresh_ok h0 h' v"
  by (auto simp: fresh_ok_def split: hval.splits)

lemma copying_alloc:
  assumes "copying h0 h" "alloc c h = (x, h1)"
  shows "copying h0 h1" "x = fresh_ref h" "fresh_ref h1 = Suc (fresh_ref h)"
proof -
  show x: "x = fresh_ref h" "fresh_ref h1 = Suc (fresh_ref h)"
    using assms(2) by (auto simp: alloc_def)
  have h1: "objects h1 = (objects h)(x := new_object c)" using assms(2) by (auto simp: alloc_def)
  show "copying h0 h1"
    unfolding copying_def
  proof (intro conjI allI impI)
    show "keeps h0 h1" using assms(1) x h1 by (auto simp: copying_def keeps_def)
    fix r assume r: "fresh_ref h0 \<le> r" "r < fresh_ref h1"
    show "proto (objects h1 r) \<in> {Some objectProto, Some arrayProto}" "hidden (objects h1 r) = []"
      using assms(1) r x h1 by (auto simp: copying_def new_object_def less_Suc_eq)
    fix k v assume "map_of (own (objects h1 r)) k = Some v"
    then have "fresh_ok h0 h v" using assms(1) r x h1 by (auto simp: copying_def new_object_def less_Suc_eq split: if_splits)
    then show "fresh_ok h0 h1 v" by (rule fresh_ok_mono) (simp add: x)
  qed
qed

lemma copying_put:
  assumes "copying h0 h" "fresh_ref h0 \<le> t" "t < fresh_ref h" "k \<noteq> proto_key" "fresh_ok h0 h v"
  shows "copying h0 (hput t k v h)" "fresh_ref (hput t k v h) = fresh_ref h"
proof -
  have "hidden (objects h t) = []" using assms by (simp add: copying_def)
  then have put: "hput t k v h = set_object t ((objects h t)\<lparr>own := AList.update k v (own (objects h t))\<rparr>) h"
    using assms(4) by (simp add: hput_def Let_def)
  show fr: "fresh_ref (hput t k v h) = fresh_ref h" by (simp add: put set_object_def)
  have same: "fresh_ok h0 (hput t k v h) = fresh_ok h0 h" unfolding fresh_ok_def fr ..
  show "copying h0 (hput t k v h)"
    unfolding copying_def same fr using assms
    by (auto simp: copying_def keeps_def put set_object_def update_conv')
qed

text \<open>What a new object has under a name is never an old object that would be cloned.\<close>

lemma fresh_get:
  assumes "heap_ok h0" "copying h0 h" "fresh_ref h0 \<le> t" "t < fresh_ref h" "k \<noteq> proto_key"
  shows "fresh_ok h0 h (hget h t k)"
proof -
  have k: "keeps h0 h" using assms(2) by (simp add: copying_def)
  have obj: "objects h objectProto = objects h0 objectProto" "objects h arrayProto = objects h0 arrayProto"
    using k assms(1) by (simp_all add: keeps_def heap_ok_def)
  have b: "fresh_ok h0 h v" if "own_get (objects h0 p) q = Some v" "p \<in> {objectProto, arrayProto}" for p q v
  proof -
    have "\<not> clonable h0 v \<and> old_value (fresh_ref h0) v" using that assms(1) unfolding heap_ok_def by blast
    then show ?thesis using k by (auto simp: fresh_ok_def old_value_def keeps_def split: hval.splits)
  qed
  have u: "fresh_ok h0 h HUndef" by (simp add: fresh_ok_def)
  have pr: "fresh_ok h0 h (chain_get n h p q)" if "p \<in> {objectProto, arrayProto}" for n p q
  proof -
    have o: "fresh_ok h0 h (chain_get m h objectProto q)" for m
      using b [of objectProto q] assms(1) u obj by (cases m) (auto simp: heap_ok_def split: option.splits)
    with b [of arrayProto q] b [of objectProto q] assms(1) u obj that show ?thesis
      by (cases n) (auto simp: heap_ok_def split: option.splits)
  qed
  note t = copyingD [OF assms(2-4)]
  have "fresh_ok h0 h (chain_get (Suc n) h t k)" for n
  proof (cases "map_of (own (objects h t)) k")
    case None
    with t(1,2) pr [of _ n k] show ?thesis by (auto simp: own_get_def)
  next
    case (Some v)
    then show ?thesis using t(3) by (simp add: own_get_def)
  qed
  from this [of 15] show ?thesis using assms(5) by (simp add: hget_def chain_bound_def)
qed

text \<open>Where a copy goes is new, whether it was there before or is made.\<close>

lemma clone_target_new:
  assumes "heap_ok h0" "copying h0 h" "fresh_ok h0 h src" "clone_target src copy h = (c, h1)"
  shows "copying h0 h1" "fresh_ref h0 \<le> c" "c < fresh_ref h1" "fresh_ref h \<le> fresh_ref h1"
proof -
  have k: "keeps h0 h" using assms(2) by (simp add: copying_def)
  have reuse: "fresh_ref h0 \<le> x \<and> x < fresh_ref h" if "src = HRef x" "clonable h (HRef x)" for x
    using assms(3) that keeps_tests(3) [OF k assms(1), of "HRef x"]
    by (cases "x < fresh_ref h0") (auto simp: fresh_ok_def old_value_def)
  consider "h1 = h" "src = HRef c" "clonable h (HRef c)" | d where "alloc d h = (c, h1)"
    using assms(4) by (auto simp: clone_target_def clonable_def split: if_splits prod.splits bool.splits hval.splits)
  then have "copying h0 h1 \<and> fresh_ref h0 \<le> c \<and> c < fresh_ref h1 \<and> fresh_ref h \<le> fresh_ref h1"
  proof cases
    case 1
    with reuse assms(2) show ?thesis by simp
  next
    case 2
    from copying_alloc [OF assms(2) 2] k show ?thesis by (auto simp: keeps_def)
  qed
  then show "copying h0 h1" "fresh_ref h0 \<le> c" "c < fresh_ref h1" "fresh_ref h \<le> fresh_ref h1" by auto
qed

text \<open>
  The names of the old heap that are visited do not include \<open>__proto__\<close>, and the objects that
  are cloned do not nest forever: each has a rank.
\<close>

definition safe_keys :: "'p heap \<Rightarrow> bool" where
  "safe_keys h \<longleftrightarrow> (\<forall>r < fresh_ref h. proto_key \<notin> set (hkeys h r))"

definition ranked :: "'p heap \<Rightarrow> (nat \<Rightarrow> nat) \<Rightarrow> bool" where
  "ranked h rank \<longleftrightarrow> (\<forall>r < fresh_ref h. \<forall>k \<in> set (hkeys h r). \<forall>s.
     hget h r k = HRef s \<and> clonable h (HRef s) \<longrightarrow> rank s < rank r)"

text \<open>One name.\<close>

lemma extend_name_copies:
  assumes ok: "heap_ok h0" "safe_keys h0" "ranked h0 rank" and h: "copying h0 h"
    and t: "fresh_ref h0 \<le> t" "t < fresh_ref h" and ops: "ops < fresh_ref h0" and k: "k \<in> set (hkeys h0 ops)"
    and nested: "\<And>m c s h1. n = Suc m \<Longrightarrow> copying h0 h1 \<Longrightarrow> fresh_ref h0 \<le> c \<Longrightarrow> c < fresh_ref h1 \<Longrightarrow>
      s < fresh_ref h0 \<Longrightarrow> rank s \<le> m \<Longrightarrow>
      \<exists>h2. extend_names m True c s (hkeys h0 s) h1 = Some h2 \<and> copying h0 h2 \<and> fresh_ref h1 \<le> fresh_ref h2"
    and n: "rank ops \<le> n"
  shows "\<exists>h'. extend_names n True t ops (k # ks) h = extend_names n True t ops ks h' \<and> copying h0 h' \<and> fresh_ref h \<le> fresh_ref h'"
proof -
  have kp: "keeps h0 h" using h by (simp add: copying_def)
  let ?copy = "hget h ops k" and ?src = "hget h t k"
  have kk: "k \<noteq> proto_key" using ok(2) ops k by (auto simp: safe_keys_def)
  have copy: "?copy = hget h0 ops k" by (rule keeps_hget [OF kp ok(1) ops])
  have old: "old_value (fresh_ref h0) ?copy" unfolding copy by (rule hget_old [OF ok(1) ops])
  have same: "clonable h ?copy = clonable h0 ?copy" by (rule keeps_tests(3) [OF kp ok(1) old])
  have nt: "?copy \<noteq> HRef t" using old t(1) by (auto simp: old_value_def)
  have src: "fresh_ok h0 h ?src" by (rule fresh_get [OF ok(1) h t kk])
  show ?thesis
  proof (cases "clonable h ?copy")
    case True
    then obtain s where s: "?copy = HRef s" by (cases ?copy) (auto simp: clonable_def isPlainObject_def isArray_def)
    with True same copy have "rank s < rank ops" using ok(3) ops k by (auto simp: ranked_def)
    with n obtain m where m: "n = Suc m" "rank s \<le> m" by (cases n) auto
    have sN: "s < fresh_ref h0" using old s by (simp add: old_value_def)
    obtain c h1 where ch: "clone_target ?src ?copy h = (c, h1)" by (cases "clone_target ?src ?copy h")
    note c = clone_target_new [OF ok(1) h src ch]
    have "hkeys h1 s = hkeys h0 s" using c(1) sN by (intro keeps_hkeys [OF _ ok(1)]) (simp_all add: copying_def)
    moreover obtain h2 where h2: "extend_names m True c s (hkeys h0 s) h1 = Some h2" "copying h0 h2" "fresh_ref h1 \<le> fresh_ref h2"
      using nested [OF m(1) c(1-3) sN m(2)] by blast
    moreover have cok: "fresh_ok h0 h2 (HRef c)" using c h2(3) by (simp add: fresh_ok_def)
    have t2: "t < fresh_ref h2" using t(2) c(4) h2(3) by simp
    note p = copying_put [OF h2(2) t(1) t2 kk cok]
    ultimately have "extend_names n True t ops (k # ks) h = extend_names n True t ops ks (hput t k (HRef c) h2)"
      using True nt s ch m(1) by simp
    then show ?thesis using p c(4) h2(3) by (intro exI [of _ "hput t k (HRef c) h2"]) simp
  next
    case False
    have "fresh_ok h0 h ?copy" using False same old kp by (auto simp: fresh_ok_def old_value_def keeps_def split: hval.splits)
    note p = copying_put [OF h t kk this]
    show ?thesis
    proof (cases "?copy = HUndef")
      case True
      then show ?thesis using h nt False by (intro exI [of _ h]) simp
    next
      case u: False
      then show ?thesis using p nt False by (intro exI [of _ "hput t k ?copy h"]) (simp add: Let_def)
    qed
  qed
qed

lemma extend_names_copies:
  assumes "heap_ok h0" "safe_keys h0" "ranked h0 rank"
  shows "copying h0 h \<Longrightarrow> fresh_ref h0 \<le> t \<Longrightarrow> t < fresh_ref h \<Longrightarrow> ops < fresh_ref h0 \<Longrightarrow>
    set ks \<subseteq> set (hkeys h0 ops) \<Longrightarrow> rank ops \<le> n \<Longrightarrow>
    \<exists>h'. extend_names n True t ops ks h = Some h' \<and> copying h0 h' \<and> fresh_ref h \<le> fresh_ref h'"
proof (induction n arbitrary: t ops ks h rule: less_induct)
  case (less n)
  from less.prems show ?case
  proof (induction ks arbitrary: h)
    case (Cons k ks)
    have "\<exists>h'. extend_names n True t ops (k # ks) h = extend_names n True t ops ks h' \<and> copying h0 h' \<and> fresh_ref h \<le> fresh_ref h'"
      by (rule extend_name_copies [OF assms Cons.prems(1-4)]) (use Cons.prems(5,6) less.IH in auto)
    then obtain h1 where "extend_names n True t ops (k # ks) h = extend_names n True t ops ks h1"
      "copying h0 h1" "fresh_ref h \<le> fresh_ref h1" by blast
    with Cons.IH [of h1] Cons.prems show ?case by fastforce
  qed auto
qed

lemma extend_sources_copies:
  assumes "heap_ok h0" "safe_keys h0" "ranked h0 rank"
  shows "copying h0 h \<Longrightarrow> fresh_ref h0 \<le> t \<Longrightarrow> t < fresh_ref h \<Longrightarrow>
    \<forall>v \<in> set vs. old_value (fresh_ref h0) v \<and> (\<forall>s. v = HRef s \<longrightarrow> rank s \<le> n) \<Longrightarrow>
    \<exists>h'. extend_sources n True t vs h = Some h' \<and> copying h0 h' \<and> fresh_ref h \<le> fresh_ref h'"
proof (induction vs arbitrary: h)
  case (Cons v vs)
  show ?case
  proof (cases v)
    case (HRef s)
    then have s: "s < fresh_ref h0" "rank s \<le> n" using Cons.prems(4) by (simp_all add: old_value_def)
    have "hkeys h s = hkeys h0 s"
      using Cons.prems(1) s(1) by (intro keeps_hkeys [OF _ assms(1)]) (simp_all add: copying_def)
    with extend_names_copies [OF assms Cons.prems(1-3) s(1) subset_refl s(2)]
    obtain h1 where "extend_names n True t s (hkeys h s) h = Some h1" "copying h0 h1" "fresh_ref h \<le> fresh_ref h1" by auto
    with Cons.IH [of h1] Cons.prems HRef show ?thesis by fastforce
  qed (use Cons in auto)
qed auto

text \<open>
  C37: C: \<open>jQuery.extend(true, {}, ...)\<close> on sources whose plain objects and arrays do not nest forever
  and have no property \<open>__proto__\<close> returns; it changes no object that was there before, and the
  objects it makes hold no plain object and no array of the sources.
\<close>

theorem deep_extend_copies:
  assumes "heap_ok h" and "safe_keys h" and "ranked h rank"
    and "\<forall>v \<in> set sources. old_value (fresh_ref h) v \<and> (\<forall>s. v = HRef s \<longrightarrow> rank s \<le> n)"
    and "sources \<noteq> []" and "alloc CObject h = (t, h1)"
  shows "\<exists>h'. extend n this (Some True) (HRef t # sources) h1 = Some (t, h') \<and>
    (\<forall>r < fresh_ref h. objects h' r = objects h r) \<and>
    (\<forall>r k s. fresh_ref h \<le> r \<and> r < fresh_ref h' \<and> map_of (own (objects h' r)) k = Some (HRef s) \<longrightarrow>
       s < fresh_ref h' \<and> (s < fresh_ref h \<longrightarrow> \<not> clonable h' (HRef s)))"
proof -
  note a = copying_alloc [OF copying_start [OF assms(1)] assms(6)]
  from extend_sources_copies [OF assms(1-3) a(1) _ _ assms(4)] a(2,3)
  obtain h' where h': "extend_sources n True t sources h1 = Some h'" "copying h h'" by auto
  then have k: "keeps h h'" by (simp add: copying_def)
  have "extend n this (Some True) (HRef t # sources) h1 = Some (t, h')"
    using h'(1) assms(5) by (cases sources) (simp_all add: extend_def)
  moreover have "\<forall>r < fresh_ref h. objects h' r = objects h r" using k by (simp add: keeps_def)
  moreover have "s < fresh_ref h' \<and> (s < fresh_ref h \<longrightarrow> \<not> clonable h' (HRef s))"
    if "fresh_ref h \<le> r" "r < fresh_ref h'" "map_of (own (objects h' r)) q = Some (HRef s)" for r q s
    using copyingD(3) [OF h'(2) that] keeps_tests(3) [OF k assms(1), of "HRef s"] by (auto simp: fresh_ok_def old_value_def)
  ultimately show ?thesis by blast
qed

text \<open>Pages as the following two theorems take them: nothing has been added to the prototype of objects.\<close>

definition clean :: "'p heap \<Rightarrow> bool" where
  "clean h \<longleftrightarrow> heap_ok h \<and> own (objects h objectProto) = [] \<and> cls (objects h objectProto) = CObject \<and>
     \<not> is_node (objects h objectProto) \<and> \<not> is_window (objects h objectProto) \<and>
     hasOwn (objects h objectProto) ''constructor''"

text \<open>An object made by \<open>{}\<close> that has got one property.\<close>

definition single :: "string \<Rightarrow> 'p hval \<Rightarrow> 'p object" where
  "single k v = (new_object CObject)\<lparr>own := [(k, v)]\<rparr>"

lemma single_sel [simp]:
  "cls (single k v) = CObject" "own (single k v) = [(k, v)]" "hidden (single k v) = []"
  "proto (single k v) = Some objectProto" "\<not> is_node (single k v)" "\<not> is_window (single k v)"
  by (simp_all add: single_def new_object_def)

lemma single_keys:
  assumes "clean h" "objects h s = single k v"
  shows "hkeys h s = [k]"
proof -
  have "chain_keys (Suc n) h s = [k]" for n
    using assms by (cases n) (simp_all add: clean_def heap_ok_def)
  from this [of 15] show ?thesis by (simp add: hkeys_def chain_bound_def)
qed

lemma single_get: "objects h s = single k v \<Longrightarrow> hget h s k = v"
proof -
  assume s: "objects h s = single k v"
  have "chain_get (Suc n) h s k = v" for n using s by (simp add: own_get_def)
  from this [of 15] s show "hget h s k = v" by (simp add: hget_def chain_bound_def hasOwn_def own_get_def)
qed

lemma single_plain:
  assumes "clean h" "objects h s = single k v" "\<not> foreign_constructor h s"
  shows "isPlainObject h (HRef s)"
  using assms single_keys [OF assms(1,2)] by (simp add: isPlainObject_def hasOwn_def own_get_def)

text \<open>
  C: The test that is to prevent a never-ending loop compares the copy with the target only. On a
  plain object that holds itself, a deep copy never returns, whatever depth is allowed.
\<close>

theorem deep_extend_never_returns:
  assumes "clean h" and "objects h s = single k (HRef s)" and "s < fresh_ref h" and "k \<noteq> proto_key"
    and "\<not> foreign_constructor h s" and "alloc CObject h = (t, h1)"
  shows "extend n this (Some True) [HRef t, HRef s] h1 = None"
proof -
  have ok: "heap_ok h" using assms(1) by (simp add: clean_def)
  have loop: "extend_names n True t s [k] h' = None"
    if "copying h h'" "fresh_ref h \<le> t" "t < fresh_ref h'" for n t h'
    using that
  proof (induction n arbitrary: t h' rule: less_induct)
    case (less n)
    have kp: "keeps h h'" using less.prems(1) by (simp add: copying_def)
    have copy: "hget h' s k = HRef s"
      using keeps_hget [OF kp ok assms(3)] single_get [OF assms(2)] by simp
    have cl: "clonable h' (HRef s)"
      using keeps_tests(3) [OF kp ok, of "HRef s"] single_plain [OF assms(1,2,5)] assms(3)
      by (simp add: clonable_def old_value_def)
    have keys: "hkeys h2 s = [k]" if "copying h h2" for h2
      using keeps_hkeys [OF _ ok assms(3)] single_keys [OF assms(1,2)] that by (simp add: copying_def)
    obtain c h2 where ch: "clone_target (hget h' t k) (HRef s) h' = (c, h2)"
      by (cases "clone_target (hget h' t k) (HRef s) h'")
    note c = clone_target_new [OF ok less.prems(1) fresh_get [OF ok less.prems assms(4)] ch]
    have "m < n \<Longrightarrow> extend_names m True c s [k] h2 = None" for m by (rule less.IH [OF _ c(1-3)])
    then show ?case using copy cl ch keys [OF c(1)] less.prems(2) assms(3) by (cases n) (auto simp: Let_def)
  qed
  note a = copying_alloc [OF copying_start [OF ok] assms(6)]
  have "hkeys h1 s = [k]"
    using keeps_hkeys [OF _ ok assms(3), of h1] single_keys [OF assms(1,2)] a(1) by (simp add: copying_def)
  then show ?thesis using loop [OF a(1)] a(2,3) by (simp add: extend_def)
qed

text \<open>
  C: A source with an own property \<open>__proto__\<close>, as \<open>JSON.parse\<close> makes it, gives a deep copy
  access to the prototype of all objects: afterwards every object that inherits from it and has
  no such property itself has the one the source names.
\<close>

theorem deep_extend_pollutes:
  assumes "clean h" and "objects h s = single proto_key (HRef p)" and "s < fresh_ref h"
    and "objects h p = single k (HPrim v)" and "p < fresh_ref h" and "\<not> foreign_constructor h p"
    and "k \<noteq> proto_key" and "\<not> hasOwn (objects h objectProto) k" and "alloc CObject h = (t, h1)"
  shows "\<exists>h'. extend (Suc n) this (Some True) [HRef t, HRef s] h1 = Some (t, h') \<and>
    (\<forall>r < fresh_ref h. proto (objects h r) = Some objectProto \<and> \<not> hasOwn (objects h r) k \<longrightarrow>
       hget h r k = HUndef \<and> hget h' r k = HPrim v)"
proof -
  have ok: "heap_ok h" using assms(1) by (simp add: clean_def)
  note a = copying_alloc [OF copying_start [OF ok] assms(9)]
  have kp: "keeps h h1" using a(1) by (simp add: copying_def)
  have o: "objectProto < fresh_ref h" "proto (objects h objectProto) = None" using ok by (simp_all add: heap_ok_def)
  have t: "t \<noteq> objectProto" "t \<noteq> p" "objects h1 t = new_object CObject"
    using a(2) o(1) assms(5,9) by (auto simp: alloc_def)
  have keys: "hkeys h1 s = [proto_key]" "hkeys h1 p = [k]"
    using keeps_hkeys [OF kp ok] assms(3,5) single_keys [OF assms(1)] assms(2,4) by simp_all
  have gets: "hget h1 s proto_key = HRef p" "hget h1 p k = HPrim v"
    using keeps_hget [OF kp ok] assms(3,5) single_get [OF assms(2)] single_get [OF assms(4)] by simp_all
  have get_t: "hget h1 t proto_key = HRef objectProto"
    by (simp add: hget_def hasOwn_def own_get_def t(3) new_object_def)
  have "hkeys h objectProto = []"
  proof -
    have "chain_keys (Suc n) h objectProto = []" for n using assms(1) o(2) by (simp add: clean_def)
    from this [of 15] show ?thesis by (simp add: hkeys_def chain_bound_def)
  qed
  then have "isPlainObject h (HRef objectProto)" using assms(1)
    by (simp add: isPlainObject_def clean_def foreign_constructor_def split: hval.splits)
  then have plain: "isPlainObject h1 (HRef objectProto)" "isPlainObject h1 (HRef p)"
    using keeps_tests(1) [OF kp ok] single_plain [OF assms(1,4,6)] o(1) assms(5) by (simp_all add: old_value_def)
  define h2 where "h2 = set_object objectProto ((objects h1 objectProto)\<lparr>own := [(k, HPrim v)]\<rparr>) h1"
  define h3 where "h3 = set_object t ((objects h1 t)\<lparr>proto := Some objectProto\<rparr>) h2"
  have ob: "own (objects h1 objectProto) = []" "map_of (hidden (objects h1 objectProto)) k = None"
    using keeps_object [OF kp o(1)] assms(1,8) by (simp_all add: clean_def hasOwn_def own_get_def split: option.splits)
  have put1: "hput objectProto k (HPrim v) h1 = h2"
    using assms(7) ob by (simp add: hput_def Let_def h2_def)
  have put2: "hput t proto_key (HRef objectProto) h2 = h3"
    using t by (simp add: hput_def Let_def h3_def h2_def set_object_def hasOwn_def own_get_def new_object_def)
  have "extend_names n True objectProto p [k] h1 = Some h2"
    using gets(2) put1 by (simp add: Let_def clonable_def isPlainObject_def isArray_def)
  then have "extend_names (Suc n) True t s [proto_key] h1 = Some h3"
    using gets(1) get_t t(2) plain keys(2) put2 by (auto simp: Let_def clonable_def clone_target_def)
  then have ext: "extend (Suc n) this (Some True) [HRef t, HRef s] h1 = Some (t, h3)"
    using keys(1) by (simp add: extend_def)
  have "hget h r k = HUndef \<and> hget h3 r k = HPrim v"
    if r: "r < fresh_ref h" "proto (objects h r) = Some objectProto" "\<not> hasOwn (objects h r) k" for r
  proof -
    have "r \<noteq> objectProto" "r \<noteq> t" using r o(2) a(2) by auto
    then have same: "objects h3 r = objects h r" using keeps_object [OF kp r(1)] by (simp add: h3_def h2_def set_object_def)
    have pr: "own (objects h3 objectProto) = [(k, HPrim v)]" using t(1) by (simp add: h3_def h2_def set_object_def)
    have "chain_get (Suc (Suc n)) h r k = HUndef \<and> chain_get (Suc (Suc n)) h3 r k = HPrim v" for n
      using r o(2) assms(8) same pr by (simp add: hasOwn_def own_get_def)
    from this [of 14] assms(7) show ?thesis by (simp add: hget_def chain_bound_def)
  qed
  then show ?thesis using ext by blast
qed

text \<open>A page with the prototypes, the constructor of objects, and what a script has made.\<close>

definition demo_heap :: "nat object list \<Rightarrow> nat heap" where
  "demo_heap made =
     \<lparr>objects = (\<lambda>r.
        if r = objectProto then \<lparr>cls = CObject, own = [], hidden = [(''constructor'', HRef 2), (''isPrototypeOf'', HRef 2)],
          proto = None, is_node = False, is_window = False\<rparr>
        else if r = arrayProto then (new_object COther)
        else if r = 2 then \<lparr>cls = CFunction, own = [], hidden = [(''prototype'', HRef objectProto)], proto = Some objectProto,
          is_node = False, is_window = False\<rparr>
        else if r < 3 + length made then made ! (r - 3) else new_object COther),
      fresh_ref = 3 + length made\<rparr>"

lemma demo_objects:
  "objects (demo_heap made) objectProto = \<lparr>cls = CObject, own = [], hidden = [(''constructor'', HRef 2), (''isPrototypeOf'', HRef 2)],
     proto = None, is_node = False, is_window = False\<rparr>"
  "objects (demo_heap made) arrayProto = new_object COther"
  "i < length made \<Longrightarrow> objects (demo_heap made) (3 + i) = made ! i"
  by (simp_all add: demo_heap_def objectProto_def arrayProto_def)

lemma demo_fresh: "fresh_ref (demo_heap made) = 3 + length made"
  by (simp add: demo_heap_def)

lemma demo_made:
  "r < fresh_ref (demo_heap made) \<Longrightarrow> r \<in> {objectProto, arrayProto, 2} \<or> (\<exists>i < length made. r = 3 + i)"
  by (cases "r < 3") (auto simp: demo_heap_def objectProto_def arrayProto_def intro!: exI [of _ "r - 3"])

lemma demo_ok:
  assumes "\<And>ob. ob \<in> set made \<Longrightarrow> proto ob = Some objectProto \<and>
    (\<forall>k v. own_get ob k = Some v \<longrightarrow> old_value (3 + length made) v)"
  shows "heap_ok (demo_heap made)" "clean (demo_heap made)"
proof -
  have f: "\<not> clonable (demo_heap made) (HRef 2)"
    by (simp add: demo_heap_def clonable_def isPlainObject_def isArray_def objectProto_def arrayProto_def)
  have two: "objects (demo_heap made) 2 = \<lparr>cls = CFunction, own = [], hidden = [(''prototype'', HRef objectProto)], proto = Some objectProto,
          is_node = False, is_window = False\<rparr>"
    by (simp add: demo_heap_def objectProto_def arrayProto_def)
  have each: "(\<forall>p. proto (objects (demo_heap made) r) = Some p \<longrightarrow> p < fresh_ref (demo_heap made)) \<and>
        (\<forall>k v. own_get (objects (demo_heap made) r) k = Some v \<longrightarrow> old_value (fresh_ref (demo_heap made)) v)"
    if "r < fresh_ref (demo_heap made)" for r
    using demo_made [OF that]
  proof (elim disjE exE conjE)
    fix i assume i: "i < length made" "r = 3 + i"
    then have "objects (demo_heap made) r = made ! i" "made ! i \<in> set made" by (simp_all add: demo_objects)
    with assms [of "made ! i"] show ?thesis by (auto simp: demo_fresh objectProto_def)
  qed (auto simp: demo_objects two, auto simp: demo_heap_def objectProto_def own_get_def new_object_def old_value_def split: if_splits)
  show "heap_ok (demo_heap made)"
    unfolding heap_ok_def
    using each f by (auto simp: demo_objects own_get_def new_object_def)
      (auto simp: demo_heap_def objectProto_def arrayProto_def split: if_splits)
  then show "clean (demo_heap made)" by (simp add: clean_def demo_objects hasOwn_def own_get_def)
qed

lemma deep_extend_never_returns_witness:
  "extend 7 2 (Some True) [HRef 4, HRef 3] (snd (alloc CObject (demo_heap [single ''self'' (HRef 3)]))) = None"
proof -
  let ?h = "demo_heap [single ''self'' (HRef 3)]"
  have "clean ?h" by (rule demo_ok) (auto simp: own_get_def old_value_def split: if_splits)
  moreover have "objects ?h 3 = single ''self'' (HRef 3)" using demo_objects(3) [of 0 "[single ''self'' (HRef 3)]"] by simp
  moreover have "\<not> foreign_constructor ?h 3" by code_simp
  moreover have "alloc CObject ?h = (4, snd (alloc CObject ?h))" by (simp add: alloc_def demo_heap_def)
  ultimately show ?thesis
    by (intro deep_extend_never_returns [where s = 3 and k = "''self''" and h = ?h])
      (simp_all add: proto_key_def demo_heap_def)
qed

lemma deep_extend_pollutes_witness:
  "\<exists>h'. extend (Suc 0) 2 (Some True) [HRef 5, HRef 3]
      (snd (alloc CObject (demo_heap [single proto_key (HRef 4), single ''admin'' (HPrim 1)]))) = Some (5, h') \<and>
    hget h' 3 ''admin'' = HPrim 1"
proof -
  let ?made = "[single proto_key (HRef 4), single ''admin'' (HPrim 1)]"
  let ?h = "demo_heap ?made"
  have "clean ?h" by (rule demo_ok) (auto simp: own_get_def old_value_def split: if_splits)
  moreover have obs: "objects ?h 3 = single proto_key (HRef 4)" "objects ?h 4 = single ''admin'' (HPrim 1)"
    using demo_objects(3) [of 0 ?made] demo_objects(3) [of 1 ?made] by simp_all
  moreover have "\<not> foreign_constructor ?h 4" by code_simp
  moreover have "alloc CObject ?h = (5, snd (alloc CObject ?h))" by (simp add: alloc_def demo_heap_def)
  moreover have "\<not> hasOwn (objects ?h objectProto) ''admin''" by (simp add: demo_objects hasOwn_def own_get_def)
  ultimately obtain h' where "extend (Suc 0) 2 (Some True) [HRef 5, HRef 3] (snd (alloc CObject ?h)) = Some (5, h')"
    and r: "\<forall>r < fresh_ref ?h. proto (objects ?h r) = Some objectProto \<and> \<not> hasOwn (objects ?h r) ''admin'' \<longrightarrow>
       hget ?h r ''admin'' = HUndef \<and> hget h' r ''admin'' = HPrim 1"
    using deep_extend_pollutes [of ?h 3 4 "''admin''" 1 5 "snd (alloc CObject ?h)" 0 2]
    by (auto simp: demo_fresh proto_key_def)
  moreover have "hget h' 3 ''admin'' = HPrim 1"
    using r obs(1) by (simp add: demo_fresh hasOwn_def own_get_def proto_key_def)
  ultimately show ?thesis by blast
qed

lemma deep_extend_copies_witness:
  "\<exists>h'. extend 1 2 (Some True) [HRef 5, HRef 3]
      (snd (alloc CObject (demo_heap [single ''a'' (HRef 4), single ''b'' (HPrim 1)]))) = Some (5, h') \<and>
    objects h' 4 = single ''b'' (HPrim 1)"
proof -
  let ?made = "[single ''a'' (HRef 4), single ''b'' (HPrim 1)]"
  let ?h = "demo_heap ?made" and ?rank = "\<lambda>r :: nat. if r = 3 then 1 else 0 :: nat"
  have ok: "heap_ok ?h" by (rule demo_ok) (auto simp: own_get_def old_value_def split: if_splits)
  have obs: "objects ?h 3 = single ''a'' (HRef 4)" "objects ?h 4 = single ''b'' (HPrim 1)"
    using demo_objects(3) [of 0 ?made] demo_objects(3) [of 1 ?made] by simp_all
  have keys: "hkeys ?h 0 = []" "hkeys ?h 1 = []" "hkeys ?h 2 = []" "hkeys ?h 3 = [''a'']" "hkeys ?h 4 = [''b'']"
    by code_simp+
  have r: "r \<in> {0, 1, 2, 3, 4}" if "r < fresh_ref ?h" for r using that by (auto simp: demo_fresh)
  have safe: "safe_keys ?h" unfolding safe_keys_def using r keys by (force simp: proto_key_def)
  have rank: "ranked ?h ?rank"
    unfolding ranked_def using r keys single_get [OF obs(1)] single_get [OF obs(2)] by force
  have al: "alloc CObject ?h = (5, snd (alloc CObject ?h))" by (simp add: alloc_def demo_heap_def)
  from deep_extend_copies [OF ok safe rank _ _ al, of "[HRef 3]" 1 2]
  show ?thesis using obs(2) by (auto simp: demo_fresh old_value_def)
qed

end
