(* ===== verification/JQ_Sets.thy ===== *)
theory JQ_Sets
  imports JS_Prelude
begin

text \<open>
  \<open>jquery-1.7.2.js\<close>, lines 207 to 318 and 630 to 823: the sets of elements with the chain of sets
  they come from, the routines on arrays, and \<open>proxy\<close>.
\<close>

section \<open>Sets of elements\<close>

datatype ('a, 'c) jset =
  JSet (elems: "'a list") (prevObject: "('a, 'c) jset option") (selector: string) (origin: "'c option")

text \<open>\<open>Array.prototype.slice\<close> with integer bounds.\<close>

definition clamp :: "int \<Rightarrow> int \<Rightarrow> int" where
  "clamp n i = (if i < 0 then max 0 (n + i) else min i n)"

definition array_slice :: "int \<Rightarrow> int option \<Rightarrow> 'a list \<Rightarrow> 'a list" where
  "array_slice a b xs =
     (let n = int (length xs); i = clamp n a; j = (case b of None \<Rightarrow> n | Some z \<Rightarrow> clamp n z)
      in take (nat (j - i)) (drop (nat i) xs))"

text \<open>\<open>get(num)\<close>; \<open>get()\<close> and \<open>toArray()\<close> are all elements.\<close>

definition get_at :: "int \<Rightarrow> ('a, 'c) jset \<Rightarrow> 'a option" where
  "get_at num s =
     (let n = int (length (elems s)); i = (if num < 0 then n + num else num)
      in if 0 \<le> i \<and> i < n then Some (elems s ! nat i) else None)"

definition empty_set :: "('a, 'c) jset" where
  "empty_set = JSet [] None [] None"

definition pushStack :: "'a list \<Rightarrow> string \<Rightarrow> string \<Rightarrow> ('a, 'c) jset \<Rightarrow> ('a, 'c) jset" where
  "pushStack xs name sel s =
     JSet xs (Some s)
       (if name = ''find'' then selector s @ (if selector s \<noteq> [] then '' '' else []) @ sel
        else if name \<noteq> [] then selector s @ ''.'' @ name @ ''('' @ sel @ '')''
        else [])
       (origin s)"

definition set_slice :: "int \<Rightarrow> int option \<Rightarrow> ('a, 'c) jset \<Rightarrow> ('a, 'c) jset" where
  "set_slice a b s =
     pushStack (array_slice a b (elems s)) ''slice''
       (join '','' (dec_int a # (case b of None \<Rightarrow> [] | Some z \<Rightarrow> [dec_int z]))) s"

definition set_eq :: "int \<Rightarrow> ('a, 'c) jset \<Rightarrow> ('a, 'c) jset" where
  "set_eq i s = (if i = - 1 then set_slice i None s else set_slice i (Some (i + 1)) s)"

definition set_first :: "('a, 'c) jset \<Rightarrow> ('a, 'c) jset" where
  "set_first s = set_eq 0 s"

definition set_last :: "('a, 'c) jset \<Rightarrow> ('a, 'c) jset" where
  "set_last s = set_eq (- 1) s"

definition set_end :: "('a, 'c) jset \<Rightarrow> ('a, 'c) jset" where
  "set_end s = (case prevObject s of Some p \<Rightarrow> p | None \<Rightarrow> empty_set)"

section \<open>Visiting\<close>

text \<open>
  \<open>each\<close> on something with a length, which is read once, and on an object with names. The
  callback says if it returned \<open>false\<close>; it may change the state \<open>'s\<close>, which the next element is
  read from.
\<close>

function each_index :: "('s \<Rightarrow> nat \<Rightarrow> 'a) \<Rightarrow> (nat \<Rightarrow> 'a \<Rightarrow> 's \<Rightarrow> 's \<times> bool) \<Rightarrow> nat \<Rightarrow> nat \<Rightarrow> 's \<Rightarrow> 's" where
  "each_index at cb i len s =
     (if i < len then
        (let (s', stop) = cb i (at s i) s in if stop then s' else each_index at cb (Suc i) len s')
      else s)"
  by pat_completeness auto
termination by (relation "measure (\<lambda>(at, cb, i, len, s). len - i)") auto

declare each_index.simps [simp del]

fun each_name :: "('s \<Rightarrow> string \<Rightarrow> 'a) \<Rightarrow> (string \<Rightarrow> 'a \<Rightarrow> 's \<Rightarrow> 's \<times> bool) \<Rightarrow> string list \<Rightarrow> 's \<Rightarrow> 's" where
  "each_name at cb [] s = s"
| "each_name at cb (k # ks) s =
     (let (s', stop) = cb k (at s k) s in if stop then s' else each_name at cb ks s')"

section \<open>Arrays\<close>

text \<open>What \<open>makeArray\<close> asks of its argument: nothing there, one value, or something like an array.\<close>

datatype 'a many =
    Nothing
  | One 'a
  | Sized "'a list"
  | Unsized "nat \<Rightarrow> 'a option"

text \<open>The second loop of \<open>merge\<close>, which goes on while there are elements.\<close>

partial_function (option) merge_unsized :: "(nat \<Rightarrow> 'a option) \<Rightarrow> nat \<Rightarrow> 'a list \<Rightarrow> 'a list option" where
  "merge_unsized at j acc =
     (case at j of None \<Rightarrow> Some acc | Some x \<Rightarrow> merge_unsized at (Suc j) (acc @ [x]))"

declare merge_unsized.simps [code]

fun merge_sized :: "'a list \<Rightarrow> 'a list \<Rightarrow> 'a list" where
  "merge_sized first [] = first"
| "merge_sized first (x # xs) = merge_sized (first @ [x]) xs"

definition makeArray :: "'a many \<Rightarrow> 'a list \<Rightarrow> 'a list option" where
  "makeArray v results =
     (case v of
        Nothing \<Rightarrow> Some results
      | One x \<Rightarrow> Some (results @ [x])
      | Sized xs \<Rightarrow> Some (merge_sized results xs)
      | Unsized at \<Rightarrow> merge_unsized at 0 results)"

text \<open>The kind of a value; a window counts as one value, which trees of values never are.\<close>

definition array_like :: "'f env \<Rightarrow> 'f jsv \<Rightarrow> 'f jsv many" where
  "array_like E v =
     (if is_nullish v then Nothing
      else case get_prop E v ''length'' of
        Inl _ \<Rightarrow> Nothing
      | Inr n \<Rightarrow>
          if is_nullish n \<or> typeof v = TString \<or> typeof v = TFunction then One v
          else case n of
            Num m \<Rightarrow>
              Sized (map (\<lambda>j. case get_prop E v (dec_nat j) of Inr x \<Rightarrow> x | Inl _ \<Rightarrow> Undef)
                [0..<(case m of NFin k \<Rightarrow> nat k | _ \<Rightarrow> 0)])
          | _ \<Rightarrow>
              Unsized (\<lambda>j. case get_prop E v (dec_nat j) of
                Inr x \<Rightarrow> if x = Undef then None else Some x | Inl _ \<Rightarrow> None))"

text \<open>\<open>inArray\<close> with its own loop, which skips holes, and with \<open>indexOf\<close>.\<close>

fun in_from :: "'a \<Rightarrow> nat \<Rightarrow> 'a option list \<Rightarrow> int" where
  "in_from x i [] = - 1"
| "in_from x i (y # ys) = (if y = Some x then int i else in_from x (Suc i) ys)"

definition inArray :: "'a \<Rightarrow> 'a option list \<Rightarrow> int \<Rightarrow> int" where
  "inArray x ys i =
     (let len = int (length ys); start = nat (if i \<noteq> 0 then if i < 0 then max 0 (len + i) else i else 0)
      in in_from x start (drop start ys))"

definition native_indexOf :: "'a \<Rightarrow> 'a option list \<Rightarrow> int \<Rightarrow> int" where
  "native_indexOf x ys n =
     (let len = int (length ys); k = (if n \<ge> 0 then n else max 0 (len - \<bar>n\<bar>))
      in case filter (\<lambda>j. k \<le> int j \<and> ys ! j = Some x) [0..<length ys] of [] \<Rightarrow> - 1 | j # _ \<Rightarrow> int j)"

definition grep :: "('a \<Rightarrow> nat \<Rightarrow> bool) \<Rightarrow> bool \<Rightarrow> 'a list \<Rightarrow> 'a list" where
  "grep callback inverted xs = map fst (filter (\<lambda>(x, i). inverted \<noteq> callback x i) (zip xs [0..<length xs]))"

text \<open>
  \<open>map\<close>: results that are \<open>null\<close> or \<open>undefined\<close> are left out, and those that are arrays are put
  in with their elements.
\<close>

datatype 'b mapped = NoResult | OneResult 'b | ManyResults "'b list"

fun flatten :: "'b mapped list \<Rightarrow> 'b list" where
  "flatten [] = []"
| "flatten (NoResult # rs) = flatten rs"
| "flatten (OneResult v # rs) = v # flatten rs"
| "flatten (ManyResults vs # rs) = vs @ flatten rs"

fun map_index :: "('a \<Rightarrow> nat \<Rightarrow> 'b mapped) \<Rightarrow> nat \<Rightarrow> 'a list \<Rightarrow> 'b mapped list" where
  "map_index cb i [] = []"
| "map_index cb i (x # xs) =
     (case cb x i of NoResult \<Rightarrow> map_index cb (Suc i) xs | r \<Rightarrow> r # map_index cb (Suc i) xs)"

fun map_names :: "('a \<Rightarrow> string \<Rightarrow> 'b mapped) \<Rightarrow> (string \<times> 'a) list \<Rightarrow> 'b mapped list" where
  "map_names cb [] = []"
| "map_names cb ((k, x) # ps) =
     (case cb x k of NoResult \<Rightarrow> map_names cb ps | r \<Rightarrow> r # map_names cb ps)"

text \<open>When \<open>map\<close> treats its argument as an array.\<close>

definition map_as_array :: "bool \<Rightarrow> 'f jsv \<Rightarrow> 'f jsv list \<Rightarrow> bool \<Rightarrow> bool" where
  "map_as_array is_set len xs is_array \<longleftrightarrow>
     is_set \<or> typeof len = TNumber \<and>
       (len = Num (NFin (int (length xs))) \<and> xs \<noteq> [] \<and> truthy (hd xs) \<and> truthy (last xs) \<or>
        len = Num (NFin 0) \<or> is_array)"

definition jq_map :: "('a \<Rightarrow> nat \<Rightarrow> 'b mapped) \<Rightarrow> 'a list \<Rightarrow> 'b list" where
  "jq_map cb xs = flatten (map_index cb 0 xs)"

definition jq_map_object :: "('a \<Rightarrow> string \<Rightarrow> 'b mapped) \<Rightarrow> (string \<times> 'a) list \<Rightarrow> 'b list" where
  "jq_map_object cb ps = flatten (map_names cb ps)"

text \<open>\<open>this.map(callback)\<close>\<close>

definition set_map :: "('a \<Rightarrow> nat \<Rightarrow> 'a mapped) \<Rightarrow> ('a, 'c) jset \<Rightarrow> ('a, 'c) jset" where
  "set_map cb s = pushStack (jq_map cb (elems s)) [] [] s"

text \<open>\<open>trim\<close>, where the browser has none of its own.\<close>

definition jq_trim :: "'f env \<Rightarrow> 'f jsv \<Rightarrow> string" where
  "jq_trim E v = (if is_nullish v then [] else str_trim (to_str E v))"

section \<open>\<open>proxy\<close>\<close>

text \<open>
  Functions are numbered in the order they are made; a proxy has a function it stands for, the
  context and the arguments it is bound to. \<open>guid_of\<close> is the property \<open>guid\<close> of functions.
\<close>

record ('c, 'a) fn_table =
  guid_of :: "nat \<Rightarrow> nat option"
  next_guid :: nat
  bound_to :: "nat \<Rightarrow> (nat \<times> 'c \<times> 'a list) option"
  next_fn :: nat

definition no_functions :: "('c, 'a) fn_table" where
  "no_functions = \<lparr>guid_of = (\<lambda>_. None), next_guid = 1, bound_to = (\<lambda>_. None), next_fn = 0\<rparr>"

definition new_function :: "('c, 'a) fn_table \<Rightarrow> ('c, 'a) fn_table" where
  "new_function w = w\<lparr>next_fn := Suc (next_fn w)\<rparr>"

definition bind_function :: "nat \<Rightarrow> 'c \<Rightarrow> 'a list \<Rightarrow> ('c, 'a) fn_table \<Rightarrow> ('c, 'a) fn_table" where
  "bind_function f c as w =
     (let p = next_fn w; g = (case guid_of w f of Some g \<Rightarrow> g | None \<Rightarrow> next_guid w)
      in \<lparr>guid_of = (guid_of w)(f \<mapsto> g, p \<mapsto> g),
          next_guid = (if guid_of w f = None then Suc (next_guid w) else next_guid w),
          bound_to = (bound_to w)(p \<mapsto> (f, c, as)), next_fn = Suc p\<rparr>)"

text \<open>
  The first two arguments of \<open>proxy\<close>: a function and a context, or an object and the name of one
  of its methods, found by \<open>meth\<close>. The result is the proxy, or \<open>undefined\<close>.
\<close>

datatype 'c proxied = Whole "nat option" 'c | Method 'c string

definition proxy ::
  "('c \<Rightarrow> string \<Rightarrow> nat option) \<Rightarrow> 'c proxied \<Rightarrow> 'a list \<Rightarrow> ('c, 'a) fn_table \<Rightarrow> nat option \<times> ('c, 'a) fn_table" where
  "proxy meth q as w =
     (let (fn, c) = (case q of Whole fn c \<Rightarrow> (fn, c) | Method ob name \<Rightarrow> (meth ob name, ob))
      in case fn of
           None \<Rightarrow> (None, w)
         | Some f \<Rightarrow> (Some (next_fn w), bind_function f c as w))"

text \<open>
  A call of a function: which function of the page runs, with which context and arguments. A
  proxy stands for a function made before it, so that the number of the function bounds the
  number of proxies in between.
\<close>

fun resolve_call :: "nat \<Rightarrow> ('c, 'a) fn_table \<Rightarrow> nat \<Rightarrow> 'c \<Rightarrow> 'a list \<Rightarrow> nat \<times> 'c \<times> 'a list" where
  "resolve_call 0 w f this as = (f, this, as)"
| "resolve_call (Suc n) w f this as =
     (case bound_to w f of
        None \<Rightarrow> (f, this, as)
      | Some (g, c, bs) \<Rightarrow> resolve_call n w g c (bs @ as))"

definition call_function :: "('c, 'a) fn_table \<Rightarrow> nat \<Rightarrow> 'c \<Rightarrow> 'a list \<Rightarrow> nat \<times> 'c \<times> 'a list" where
  "call_function w f = resolve_call f w f"

fun root_of :: "nat \<Rightarrow> ('c, 'a) fn_table \<Rightarrow> nat \<Rightarrow> nat" where
  "root_of 0 w f = f"
| "root_of (Suc n) w f = (case bound_to w f of None \<Rightarrow> f | Some (g, _) \<Rightarrow> root_of n w g)"

inductive function_step :: "('c \<Rightarrow> string \<Rightarrow> nat option) \<Rightarrow> ('c, 'a) fn_table \<Rightarrow> ('c, 'a) fn_table \<Rightarrow> bool"
  for meth where
  made: "function_step meth w (new_function w)"
| proxied: "(\<And>f. (case q of Whole fn _ \<Rightarrow> fn = Some f | Method ob n \<Rightarrow> meth ob n = Some f) \<Longrightarrow> f < next_fn w) \<Longrightarrow>
    function_step meth w (snd (proxy meth q as w))"

section \<open>Correctness\<close>

lemma clamp_le: "0 \<le> n \<Longrightarrow> 0 \<le> clamp n i \<and> clamp n i \<le> n"
  by (auto simp: clamp_def)

lemma take_one_drop: "i < length xs \<Longrightarrow> take 1 (drop i xs) = [xs ! i]"
  by (simp add: take_Suc hd_drop_conv_nth)

text \<open>
  C: \<open>eq(i)\<close> is the set of the element \<open>get(i)\<close> returns, counting from the end for a negative index
  and empty where there is none; \<open>end\<close> leads back to the set that \<open>eq\<close>, \<open>slice\<close> or \<open>map\<close> was
  called on.
\<close>

theorem eq_is_get:
  "elems (set_eq i s) = (case get_at i s of None \<Rightarrow> [] | Some x \<Rightarrow> [x]) \<and>
   set_end (set_eq i s) = s \<and> set_end (set_slice a b s) = s \<and> set_end (set_map cb s) = s"
proof -
  let ?xs = "elems s" and ?n = "int (length (elems s))"
  have last: "array_slice (- 1) None ?xs = (if ?xs = [] then [] else [?xs ! (length ?xs - 1)])"
    by (cases ?xs rule: rev_cases) (simp_all add: array_slice_def clamp_def Let_def)
  have other: "array_slice i (Some (i + 1)) ?xs =
      (let j = (if i < 0 then ?n + i else i) in if 0 \<le> j \<and> j < ?n then [?xs ! nat j] else [])" if "i \<noteq> - 1"
  proof (cases "0 \<le> (if i < 0 then ?n + i else i) \<and> (if i < 0 then ?n + i else i) < ?n")
    case True
    then have "clamp ?n i = (if i < 0 then ?n + i else i)" "clamp ?n (i + 1) = clamp ?n i + 1"
      using that by (auto simp: clamp_def)
    with True take_one_drop [of "nat (if i < 0 then ?n + i else i)" ?xs] show ?thesis
      by (auto simp: array_slice_def Let_def)
  next
    case False
    then have "clamp ?n (i + 1) \<le> clamp ?n i" using that by (auto simp: clamp_def)
    with False show ?thesis by (auto simp: array_slice_def Let_def)
  qed
  have "nat (?n - 1) = length ?xs - Suc 0" by arith
  then show ?thesis
    using last other
    by (cases "i = - 1") (auto simp: set_eq_def set_slice_def set_map_def pushStack_def set_end_def get_at_def Let_def
        nat_diff_distrib split: if_splits)
qed

lemma in_from_filter:
  "in_from x i ys = (case filter (\<lambda>j. ys ! j = Some x) [0..<length ys] of [] \<Rightarrow> - 1 | j # _ \<Rightarrow> int (i + j))"
proof (induction ys arbitrary: i)
  case (Cons y ys)
  have "[0..<length (y # ys)] = 0 # map Suc [0..<length ys]" by (simp add: upt_conv_Cons map_Suc_upt del: upt_Suc)
  then have "filter (\<lambda>j. (y # ys) ! j = Some x) [0..<length (y # ys)] =
      (if y = Some x then [0] else []) @ map Suc (filter (\<lambda>j. ys ! j = Some x) [0..<length ys])"
    by (simp add: filter_map comp_def)
  with Cons.IH [of "Suc i"] show ?case by (auto split: list.splits)
qed simp

lemma filter_upt_from:
  assumes "k \<le> n"
  shows "filter (\<lambda>j. k \<le> j \<and> P j) [0..<n] = filter P [k..<n]"
proof -
  have "[0..<n] = [0..<k] @ [k..<n]" using assms upt_add_eq_append [of 0 k "n - k"] by simp
  then show ?thesis by (auto intro!: filter_cong)
qed

lemma filter_drop_index:
  assumes "k \<le> length ys"
  shows "filter (\<lambda>j. ys ! j = y) [k..<length ys] =
    map ((+) k) (filter (\<lambda>j. drop k ys ! j = y) [0..<length (drop k ys)])"
proof -
  have "[k..<length ys] = map ((+) k) [0..<length ys - k]"
    by (rule nth_equalityI) (use assms in auto)
  then show ?thesis using assms by (auto simp: filter_map comp_def intro!: filter_cong)
qed

text \<open>The loop of \<open>inArray\<close> finds what \<open>indexOf\<close> finds.\<close>

lemma inArray_native: "inArray x ys i = native_indexOf x ys i"
proof -
  define k where "k = nat (if i \<noteq> 0 then if i < 0 then max 0 (int (length ys) + i) else i else 0)"
  have nat: "native_indexOf x ys i =
      (case filter (\<lambda>j. k \<le> j \<and> ys ! j = Some x) [0..<length ys] of [] \<Rightarrow> - 1 | j # _ \<Rightarrow> int j)"
  proof -
    have "(if i \<ge> 0 then i else max 0 (int (length ys) - \<bar>i\<bar>)) = int k" by (auto simp: k_def)
    then show ?thesis by (simp add: native_indexOf_def Let_def)
  qed
  have own: "inArray x ys i = in_from x k (drop k ys)" by (simp add: inArray_def k_def Let_def)
  show ?thesis
  proof (cases "k \<le> length ys")
    case True
    then show ?thesis unfolding nat own in_from_filter filter_upt_from [OF True] filter_drop_index [OF True]
      by (auto split: list.splits)
  next
    case False
    then have "filter (\<lambda>j. k \<le> j \<and> ys ! j = Some x) [0..<length ys] = []" by auto
    with False show ?thesis by (simp add: nat own)
  qed
qed

text \<open>Every function that shares a number with another stands for the same function of the page.\<close>

definition fn_ok :: "('c, 'a) fn_table \<Rightarrow> bool" where
  "fn_ok w \<longleftrightarrow>
     (\<forall>p f c as. bound_to w p = Some (f, c, as) \<longrightarrow> f < p \<and> p < next_fn w) \<and>
     (\<forall>f g. guid_of w f = Some g \<longrightarrow> f < next_fn w \<and> g < next_guid w) \<and>
     (\<forall>f f' g. guid_of w f = Some g \<longrightarrow> guid_of w f' = Some g \<longrightarrow> root_of f w f = root_of f' w f') \<and>
     (\<forall>p f c as. bound_to w p = Some (f, c, as) \<longrightarrow> guid_of w p = guid_of w f \<and> guid_of w f \<noteq> None)"

lemma root_same: "(\<And>p. p \<le> f \<Longrightarrow> bound_to w' p = bound_to w p) \<Longrightarrow>
    (\<And>p f c as. bound_to w p = Some (f, c, as) \<Longrightarrow> f < p) \<Longrightarrow> root_of n w' f = root_of n w f"
proof (induction n arbitrary: f)
  case (Suc n)
  show ?case
  proof (cases "bound_to w f")
    case (Some b)
    then obtain g c as where b: "bound_to w f = Some (g, c, as)" by (cases b) auto
    with Suc.prems(2) have "g < f" by blast
    then have "root_of n w' g = root_of n w g" using Suc.IH [of g] Suc.prems by simp
    then show ?thesis using b Suc.prems(1) [of f] by simp
  qed (use Suc.prems(1) [of f] in simp)
qed simp

lemma root_fuel: "(\<And>p f c as. bound_to w p = Some (f, c, as) \<Longrightarrow> f < p) \<Longrightarrow> f \<le> n \<Longrightarrow> root_of n w f = root_of f w f"
proof (induction f arbitrary: n rule: less_induct)
  case (less f)
  show ?case
  proof (cases "bound_to w f")
    case None
    then show ?thesis by (cases n; cases f) auto
  next
    case (Some b)
    then obtain g c as where b: "bound_to w f = Some (g, c, as)" by (cases b) auto
    with less.prems(1) have g: "g < f" by blast
    then obtain m l where "n = Suc m" "f = Suc l" "g \<le> m" "g \<le> l"
      using less.prems(2) by (cases n; cases f) auto
    with b less.IH [OF g less.prems(1), where n = m] less.IH [OF g less.prems(1), where n = l] show ?thesis by simp
  qed
qed

lemma fn_okD:
  assumes "fn_ok w"
  shows "bound_to w p = Some (f, c, as) \<Longrightarrow> f < p \<and> p < next_fn w"
    and "guid_of w f = Some g \<Longrightarrow> f < next_fn w \<and> g < next_guid w"
    and "guid_of w f = Some g \<Longrightarrow> guid_of w f' = Some g \<Longrightarrow> root_of f w f = root_of f' w f'"
    and "bound_to w p = Some (f, c, as) \<Longrightarrow> guid_of w p = guid_of w f \<and> guid_of w f \<noteq> None"
  using assms unfolding fn_ok_def by blast+

lemma fn_ok_bind:
  assumes ok: "fn_ok w" and f: "f < next_fn w"
  shows "fn_ok (bind_function f c as w)"
proof -
  let ?w = "bind_function f c as w" and ?p = "next_fn w"
  define g where "g = (case guid_of w f of Some g \<Rightarrow> g | None \<Rightarrow> next_guid w)"
  have w: "guid_of ?w = (guid_of w)(f \<mapsto> g, ?p \<mapsto> g)" "bound_to ?w = (bound_to w)(?p \<mapsto> (f, c, as))"
    "next_fn ?w = Suc ?p" "next_guid w \<le> next_guid ?w" "g < next_guid ?w"
    using fn_okD(2) [OF ok, of f] by (auto simp: bind_function_def g_def Let_def split: option.splits)
  have down: "h < q" if "bound_to ?w q = Some (h, d, bs)" for q h d bs
    using that w(2) f fn_okD(1) [OF ok, of q h d bs] by (auto split: if_splits)
  have downw: "h < q" if "bound_to w q = Some (h, d, bs)" for q h d bs using that fn_okD(1) [OF ok] by blast
  have same: "root_of q ?w q = root_of q w q" if "q < ?p" for q
    by (rule root_same) (use that w(2) downw in auto)
  have root_p: "root_of ?p ?w ?p = root_of f w f"
  proof -
    obtain l where l: "?p = Suc l" "f \<le> l" using f by (cases ?p) auto
    have "root_of ?p ?w ?p = root_of l ?w f" using l(1) w(2) by simp
    also have "\<dots> = root_of f ?w f" by (rule root_fuel [OF down l(2)])
    also have "\<dots> = root_of f w f" by (rule same [OF f])
    finally show ?thesis .
  qed
  have shared: "root_of q w q = root_of f w f" if "guid_of w q = Some g" for q
  proof (cases "guid_of w f")
    case None
    with that fn_okD(2) [OF ok, of q g] show ?thesis by (simp add: g_def)
  next
    case (Some g')
    with that fn_okD(3) [OF ok, of q g f] show ?thesis by (simp add: g_def)
  qed
  show ?thesis
    unfolding fn_ok_def
  proof (intro conjI allI impI)
    fix q h d bs assume b: "bound_to ?w q = Some (h, d, bs)"
    show "h < q" by (rule down [OF b])
    show "q < next_fn ?w" using b w(2,3) fn_okD(1) [OF ok, of q h d bs] by (auto split: if_splits)
    have bw: "guid_of w q = guid_of w h \<and> guid_of w h \<noteq> None" "q < ?p" if "q \<noteq> ?p"
      using b w(2) that fn_okD(1,4) [OF ok, of q h d bs] by (auto split: if_splits)
    show "guid_of ?w q = guid_of ?w h" "guid_of ?w h \<noteq> None"
      using b w(1,2) f bw down [OF b] by (auto simp: g_def split: if_splits option.splits)
  next
    fix q k assume "guid_of ?w q = Some k"
    then show "q < next_fn ?w" "k < next_guid ?w"
      using w f fn_okD(2) [OF ok, of q k] by (auto split: if_splits)
  next
    fix q q' k assume "guid_of ?w q = Some k" "guid_of ?w q' = Some k"
    note qs = this
    have old: "guid_of w x = Some k' \<Longrightarrow> root_of x ?w x = root_of x w x" for x k'
      using same fn_okD(2) [OF ok] by blast
    show "root_of q ?w q = root_of q' ?w q'"
    proof (cases "k = g")
      case True
      have "root_of x ?w x = root_of f w f" if "guid_of ?w x = Some g" for x
        using that w(1) root_p same [OF f] shared old by (auto split: if_splits)
      with qs True show ?thesis by simp
    next
      case False
      then have "guid_of w q = Some k" "guid_of w q' = Some k" using qs w(1) by (auto split: if_splits)
      then show ?thesis using old fn_okD(3) [OF ok] by metis
    qed
  qed
qed

lemma fn_ok_step: "function_step meth w w' \<Longrightarrow> fn_ok w \<Longrightarrow> fn_ok w'"
proof (induction rule: function_step.induct)
  case (made w)
  have "root_of n (new_function w) f = root_of n w f" for n f
    by (induction n arbitrary: f) (simp_all add: new_function_def split: option.splits)
  note root = this
  have sel: "bound_to (new_function w) = bound_to w" "guid_of (new_function w) = guid_of w"
    "next_fn (new_function w) = Suc (next_fn w)" "next_guid (new_function w) = next_guid w"
    by (simp_all add: new_function_def)
  from made show ?case unfolding fn_ok_def root sel by (meson less_SucI)
next
  case (proxied q w as)
  define fn where "fn = (case q of Whole fn _ \<Rightarrow> fn | Method ob n \<Rightarrow> meth ob n)"
  show ?case
  proof (cases fn)
    case None
    then show ?thesis using proxied(2) by (cases q) (simp_all add: proxy_def fn_def)
  next
    case (Some f)
    then have "f < next_fn w" using proxied(1) [of f] by (cases q) (simp_all add: fn_def)
    from fn_ok_bind [OF proxied(2) this] Some show ?thesis by (cases q) (simp_all add: proxy_def fn_def)
  qed
qed

interpretation proxies: preserved_invariant "function_step meth" fn_ok
  by unfold_locales (rule fn_ok_step)

lemma fn_ok_start: "fn_ok no_functions"
  by (simp add: fn_ok_def no_functions_def)

lemma resolve_root: "fst (resolve_call n w f this as) = root_of n w f"
  by (induction n w f this as rule: resolve_call.induct) (auto split: option.splits)

lemma resolve_same: "f \<le> n \<Longrightarrow> f \<le> m \<Longrightarrow> (\<And>p. p \<le> f \<Longrightarrow> bound_to w' p = bound_to w p) \<Longrightarrow>
    (\<And>p g c as. bound_to w p = Some (g, c, as) \<Longrightarrow> g < p) \<Longrightarrow>
    resolve_call n w' f this as = resolve_call m w f this as"
proof (induction f arbitrary: n m this as rule: less_induct)
  case (less f)
  show ?case
  proof (cases "bound_to w f")
    case None
    then show ?thesis using less.prems(3) [of f] by (cases n; cases m) auto
  next
    case (Some b)
    then obtain g c bs where b: "bound_to w f = Some (g, c, bs)" by (cases b) auto
    with less.prems(4) have g: "g < f" by blast
    then obtain k l where kl: "n = Suc k" "m = Suc l" "g \<le> k" "g \<le> l"
      using less.prems(1,2) by (cases n; cases m) auto
    have "resolve_call k w' g c (bs @ as) = resolve_call l w g c (bs @ as)"
      by (rule less.IH [OF g kl(3,4)]) (use less.prems g in auto)
    then show ?thesis using b kl less.prems(3) [of f] by simp
  qed
qed

text \<open>
  C: However functions and proxies are made, two functions that carry the same number run the
  same function of the page when they are called; and a proxy carries the number of the function
  it stands for.
\<close>

theorem guid_identifies:
  assumes "(function_step meth)\<^sup>*\<^sup>* no_functions w" and "guid_of w f = Some g" and "guid_of w f' = Some g"
  shows "fst (call_function w f c as) = fst (call_function w f' c' as') \<and>
    (f < next_fn w \<longrightarrow> (case proxy meth (Whole (Some f) d) bs w of (p, w') \<Rightarrow>
       p = Some (next_fn w) \<and> guid_of w' (next_fn w) = Some g \<and>
       call_function w' (next_fn w) c as = call_function w f d (bs @ as)))"
proof -
  have ok: "fn_ok w" by (rule proxies.reachable [OF assms(1) fn_ok_start])
  have "fst (call_function w f c as) = fst (call_function w f' c' as')"
    unfolding call_function_def resolve_root by (rule fn_okD(3) [OF ok assms(2,3)])
  moreover have "call_function (bind_function f d bs w) (next_fn w) c as = call_function w f d (bs @ as)"
    if f: "f < next_fn w"
  proof -
    let ?w = "bind_function f d bs w"
    have b: "bound_to ?w = (bound_to w)(next_fn w \<mapsto> (f, d, bs))" by (simp add: bind_function_def Let_def)
    obtain l where l: "next_fn w = Suc l" "f \<le> l" using f by (cases "next_fn w") auto
    have "resolve_call l ?w f d (bs @ as) = resolve_call f w f d (bs @ as)"
      by (rule resolve_same) (use b l f fn_okD(1) [OF ok] in auto)
    then show ?thesis using b l(1) by (simp add: call_function_def)
  qed
  moreover have "guid_of (bind_function f d bs w) (next_fn w) = Some g" using assms(2) by (simp add: bind_function_def Let_def)
  ultimately show ?thesis by (simp add: proxy_def)
qed

lemma guid_identifies_witness:
  "fst (call_function (bind_function 1 () [''a''] (bind_function 0 () [] (new_function no_functions))) 2 () []) =
   fst (call_function (bind_function 1 () [''a''] (bind_function 0 () [] (new_function no_functions))) 0 () [])"
proof -
  let ?a = "new_function no_functions :: (unit, string) fn_table"
  let ?b = "bind_function 0 () [] ?a" and ?c = "bind_function 1 () [''a''] (bind_function 0 () [] ?a)"
  have "function_step (\<lambda>_ _. None) no_functions ?a" by (rule made)
  moreover have "function_step (\<lambda>_ _. None) ?a ?b"
    using proxied [where q = "Whole (Some 0) ()" and w = ?a and meth = "\<lambda>_ _. None" and as = "[]"] by (simp add: proxy_def new_function_def no_functions_def)
  moreover have "function_step (\<lambda>_ _. None) ?b ?c"
    using proxied [where q = "Whole (Some 1) ()" and w = ?b and meth = "\<lambda>_ _. None" and as = "[''a'']"]
    by (simp add: proxy_def bind_function_def new_function_def no_functions_def Let_def)
  ultimately have "(function_step (\<lambda>_ _. None))\<^sup>*\<^sup>* no_functions ?c" by (meson converse_rtranclp_into_rtranclp rtranclp.rtrancl_refl)
  from guid_identifies [OF this, of 2 1 0 "()" "[]" "()" "[]"] show ?thesis
    by (simp add: bind_function_def new_function_def no_functions_def Let_def)
qed

end
