(* ===== verification/JQ_Ready.thy ===== *)
theory JQ_Ready
  imports JQ_Callbacks
begin

text \<open>
  \<open>jquery-1.7.2.js\<close>, lines 274 to 282, 389 to 486 and 931 to 968: the functions that wait for the
  document. They are kept in a list with the flags \<open>once memory\<close>, list 0 of the world, and run when
  the document is ready and every hold has been released.
\<close>

section \<open>State\<close>

text \<open>
  \<open>bound\<close> says that \<open>readyList\<close> is defined. What the browser has registered or scheduled: the
  listeners of the document and the window, calls of \<open>ready\<close> and of \<open>doScrollCheck\<close> by a timer.
  The other fields are facts about the browser and the page. \<open>triggers\<close> counts how often the event
  \<open>ready\<close> has been triggered.
\<close>

record page_ready =
  isReady :: bool
  readyWait :: int
  bound :: bool
  domListener :: bool
  loadListener :: bool
  readyTimers :: nat
  scrollTimers :: nat
  triggers :: nat
  hasBody :: bool
  docComplete :: bool
  hasAddEventListener :: bool
  hasAttachEvent :: bool
  pollsScroll :: bool

type_synonym 'f ready_world = "('f, unit, page_ready) world"

text \<open>What a routine leads to: \<open>readyList\<close> may be \<open>undefined\<close>, and a callback may not return.\<close>

datatype 'w ended = Returns 'w | Raises 'w | Endless

definition then_run :: "'w ended \<Rightarrow> ('w \<Rightarrow> 'w ended) \<Rightarrow> 'w ended" where
  "then_run r k = (case r of Returns w \<Rightarrow> k w | _ \<Rightarrow> r)"

definition change_page :: "(page_ready \<Rightarrow> page_ready) \<Rightarrow> 'f ready_world \<Rightarrow> 'f ready_world" where
  "change_page g w = w\<lparr>extra := g (extra w)\<rparr>"

section \<open>\<open>ready\<close>\<close>

text \<open>The conditions of \<open>ready\<close>, and whether the list is fired in the end.\<close>

definition enter_ready :: "bool \<Rightarrow> page_ready \<Rightarrow> page_ready \<times> bool" where
  "enter_ready wait s =
     (let s1 = (if wait then s\<lparr>readyWait := readyWait s - 1\<rparr> else s)
      in if wait \<and> readyWait s1 = 0 \<or> \<not> wait \<and> \<not> isReady s1 then
           (if \<not> hasBody s1 then (s1\<lparr>readyTimers := Suc (readyTimers s1)\<rparr>, False)
            else
              let s2 = s1\<lparr>isReady := True\<rparr>
              in if \<not> wait then
                   (let s3 = s2\<lparr>readyWait := readyWait s2 - 1\<rparr> in (s3, \<not> readyWait s3 > 0))
                 else (s2, True))
         else (s1, False))"

definition fire_ready ::
  "('f \<Rightarrow> unit \<Rightarrow> ('f, unit, page_ready) behaviour) \<Rightarrow> 'f ready_world \<Rightarrow> 'f ready_world ended" where
  "fire_ready E w =
     (if \<not> bound (extra w) then Raises w
      else case run E (perform (Fire 0 ()) w) of
        None \<Rightarrow> Endless
      | Some w1 \<Rightarrow> Returns (change_page (\<lambda>s. s\<lparr>triggers := Suc (triggers s)\<rparr>) w1))"

definition ready ::
  "('f \<Rightarrow> unit \<Rightarrow> ('f, unit, page_ready) behaviour) \<Rightarrow> bool \<Rightarrow> 'f ready_world \<Rightarrow> 'f ready_world ended" where
  "ready E wait w =
     (let (s, go) = enter_ready wait (extra w); w1 = w\<lparr>extra := s\<rparr>
      in if go then fire_ready E w1 else Returns w1)"

definition holdReady ::
  "('f \<Rightarrow> unit \<Rightarrow> ('f, unit, page_ready) behaviour) \<Rightarrow> bool \<Rightarrow> 'f ready_world \<Rightarrow> 'f ready_world ended" where
  "holdReady E hold w =
     (if hold then Returns (change_page (\<lambda>s. s\<lparr>readyWait := readyWait s + 1\<rparr>) w) else ready E True w)"

section \<open>Listening\<close>

text \<open>
  The poll for old browsers: \<open>works\<close> says if the call of \<open>doScroll\<close> is accepted.
\<close>

definition doScrollCheck ::
  "('f \<Rightarrow> unit \<Rightarrow> ('f, unit, page_ready) behaviour) \<Rightarrow> bool \<Rightarrow> 'f ready_world \<Rightarrow> 'f ready_world ended" where
  "doScrollCheck E works w =
     (if isReady (extra w) then Returns w
      else if \<not> works then Returns (change_page (\<lambda>s. s\<lparr>scrollTimers := Suc (scrollTimers s)\<rparr>) w)
      else ready E False w)"

definition listen :: "page_ready \<Rightarrow> page_ready" where
  "listen s =
     (if docComplete s then s\<lparr>readyTimers := Suc (readyTimers s)\<rparr>
      else if hasAddEventListener s then s\<lparr>domListener := True, loadListener := True\<rparr>
      else if hasAttachEvent s then s\<lparr>domListener := True, loadListener := True\<rparr>
      else s)"

definition bindReady ::
  "('f \<Rightarrow> unit \<Rightarrow> ('f, unit, page_ready) behaviour) \<Rightarrow> bool \<Rightarrow> 'f ready_world \<Rightarrow> 'f ready_world ended" where
  "bindReady E works w =
     (if bound (extra w) then Returns w
      else
        let s = extra w;
            w1 = change_page (\<lambda>s. listen (s\<lparr>bound := True\<rparr>)) (set_list 0 (new_list (createFlags ''once memory'')) w)
        in if \<not> docComplete s \<and> \<not> hasAddEventListener s \<and> hasAttachEvent s \<and> pollsScroll s
           then doScrollCheck E works w1 else Returns w1)"

text \<open>\<open>$(document).ready(f)\<close>\<close>

definition fn_ready ::
  "('f \<Rightarrow> unit \<Rightarrow> ('f, unit, page_ready) behaviour) \<Rightarrow> bool \<Rightarrow> 'f \<Rightarrow> 'f ready_world \<Rightarrow> 'f ready_world ended" where
  "fn_ready E works f w =
     then_run (bindReady E works w) (\<lambda>w1.
       case run E (perform (Add 0 [AFun f]) w1) of None \<Rightarrow> Endless | Some w2 \<Rightarrow> Returns w2)"

text \<open>The listener of the document; the old form looks at the state of the document first.\<close>

definition DOMContentLoaded ::
  "('f \<Rightarrow> unit \<Rightarrow> ('f, unit, page_ready) behaviour) \<Rightarrow> 'f ready_world \<Rightarrow> 'f ready_world ended" where
  "DOMContentLoaded E w =
     (if hasAddEventListener (extra w) \<or> docComplete (extra w)
      then ready E False (change_page (\<lambda>s. s\<lparr>domListener := False\<rparr>) w)
      else Returns w)"

section \<open>What happens to a page\<close>

datatype 'f ready_event =
    CallReady 'f bool
  | Hold
  | Release
  | DocumentEvent
  | WindowLoad
  | ReadyTimer
  | ScrollTimer bool

definition ready_event ::
  "('f \<Rightarrow> unit \<Rightarrow> ('f, unit, page_ready) behaviour) \<Rightarrow> 'f ready_event \<Rightarrow> 'f ready_world \<Rightarrow> 'f ready_world ended" where
  "ready_event E e w =
     (case e of
        CallReady f works \<Rightarrow> fn_ready E works f w
      | Hold \<Rightarrow> holdReady E True w
      | Release \<Rightarrow> holdReady E False w
      | DocumentEvent \<Rightarrow> if domListener (extra w) then DOMContentLoaded E w else Returns w
      | WindowLoad \<Rightarrow> if loadListener (extra w) then ready E False w else Returns w
      | ReadyTimer \<Rightarrow>
          if readyTimers (extra w) = 0 then Returns w
          else ready E False (change_page (\<lambda>s. s\<lparr>readyTimers := readyTimers s - 1\<rparr>) w)
      | ScrollTimer works \<Rightarrow>
          if scrollTimers (extra w) = 0 then Returns w
          else doScrollCheck E works (change_page (\<lambda>s. s\<lparr>scrollTimers := scrollTimers s - 1\<rparr>) w))"

fun ready_events ::
  "('f \<Rightarrow> unit \<Rightarrow> ('f, unit, page_ready) behaviour) \<Rightarrow> 'f ready_event list \<Rightarrow> 'f ready_world \<Rightarrow> 'f ready_world ended" where
  "ready_events E [] w = Returns w"
| "ready_events E (e # es) w = then_run (ready_event E e w) (ready_events E es)"

section \<open>When the functions run\<close>

text \<open>What has happened so far, as a page sees it.\<close>

definition holds_left :: "'f ready_event list \<Rightarrow> int" where
  "holds_left es = int (length (filter (\<lambda>e. e = Hold) es)) - int (length (filter (\<lambda>e. e = Release) es))"

definition announced :: "'f ready_event list \<Rightarrow> bool" where
  "announced es \<longleftrightarrow> DocumentEvent \<in> set es \<or> WindowLoad \<in> set es"

fun handed_in :: "'f ready_event list \<Rightarrow> 'f list" where
  "handed_in [] = []"
| "handed_in (CallReady f b # es) = f # handed_in es"
| "handed_in (_ # es) = handed_in es"

definition opened :: "'f ready_event list \<Rightarrow> bool" where
  "opened es \<longleftrightarrow> (\<exists>n \<le> length es. announced (take n es) \<and> holds_left (take n es) = 0)"

text \<open>A page with a body in a browser that has \<open>addEventListener\<close>, still being loaded.\<close>

definition loading_page :: "'f ready_world" where
  "loading_page = \<lparr>lists = (\<lambda>_. new_list (createFlags [])), called = [],
     extra = \<lparr>isReady = False, readyWait = 1, bound = False, domListener = False, loadListener = False,
       readyTimers = 0, scrollTimers = 0, triggers = 0, hasBody = True, docComplete = False,
       hasAddEventListener = True, hasAttachEvent = False, pollsScroll = False\<rparr>\<rparr>"

text \<open>The list before it is fired and after.\<close>

definition waiting_list :: "'f list \<Rightarrow> ('f, unit) cbs" where
  "waiting_list fs = (new_list (createFlags ''once memory''))\<lparr>c_list := Some fs\<rparr>"

definition done_list :: "('f, unit) cbs \<Rightarrow> bool" where
  "done_list c \<longleftrightarrow> c_flags c = createFlags ''once memory'' \<and> c_list c = Some [] \<and> c_stack c = Some [] \<and>
     c_memory c = Mem () \<and> \<not> c_firing c \<and> c_start c = 0"

lemma ready_flags [simp]:
  "once (createFlags ''once memory'')" "memory (createFlags ''once memory'')"
  "\<not> unique (createFlags ''once memory'')" "\<not> stopOnFalse (createFlags ''once memory'')"
  by code_simp+

lemma not_halted [simp]: "\<not> halted False r fs"
  by (simp add: halted_def)

lemma fired_all [simp]: "fired_part False r fs = fs"
  by (induction fs) simp_all

text \<open>Functions that only return a value.\<close>

definition only_return :: "('f \<Rightarrow> unit \<Rightarrow> ('f, unit, 'x) behaviour) \<Rightarrow> bool" where
  "only_return E \<longleftrightarrow> (\<forall>f. \<exists>b. E f () = Page (\<lambda>_. Return b))"

text \<open>A loop over the list calls its functions and leaves it done.\<close>

lemma ready_loop:
  assumes "only_return E" and "lists w 0 = c"
    and "c_flags c = createFlags ''once memory''" "c_list c = Some fs" "c_stack c = Some []" "c_memory c = Mem ()"
    and "c_start c = 0" "c_index c = 0" "c_length c = int (length fs)"
  shows "\<exists>w'. run E (w, [Loop 0 ()]) = Some w' \<and> extra w' = extra w \<and>
    called w' = called w @ map (\<lambda>f. (0, f, ())) fs \<and> done_list (lists w' 0)"
proof -
  obtain r where "\<And>f. E f () = Page (\<lambda>_. Return (r f))" using assms(1) unfolding only_return_def by metis
  then have "\<exists>i. run E (w, Loop 0 () # []) =
     run E (leave 0 [] ((set_list 0 (c\<lparr>c_index := i,
         c_memory := (if halted (stopOnFalse (c_flags c)) r fs then MTrue else c_memory c)\<rparr>) w)
       \<lparr>called := called w @ map (\<lambda>f. (0, f, ())) (fired_part (stopOnFalse (c_flags c)) r fs)\<rparr>))"
    by (intro run_loop [where pre = "[]"]) (use assms in auto)
  then show ?thesis
    using assms by (auto simp: leave_def loops_def end_fire_def Let_def done_list_def)
qed

lemma fire_waiting_or_done:
  assumes only: "only_return E" and b: "bound (extra w)"
    and l: "lists w 0 = waiting_list fs \<and> called w = [] \<or> done_list (lists w 0) \<and> called w = map (\<lambda>f. (0, f, ())) fs"
  shows "\<exists>w'. fire_ready E w = Returns w' \<and> extra w' = (extra w)\<lparr>triggers := Suc (triggers (extra w))\<rparr> \<and>
    done_list (lists w' 0) \<and> called w' = map (\<lambda>f. (0, f, ())) fs"
  using l
proof
  assume l: "lists w 0 = waiting_list fs \<and> called w = []"
  let ?c = "begin_fire () (waiting_list fs)"
  have p: "perform (Fire 0 ()) w = (set_list 0 ?c w, [Loop 0 ()])"
    using l by (simp add: fireWith_def loops_def waiting_list_def new_list_def)
  have "\<exists>w'. run E (set_list 0 ?c w, [Loop 0 ()]) = Some w' \<and> extra w' = extra (set_list 0 ?c w) \<and>
    called w' = called (set_list 0 ?c w) @ map (\<lambda>f. (0, f, ())) fs \<and> done_list (lists w' 0)"
    by (rule ready_loop [where c = ?c, OF only]) (simp_all add: begin_fire_def waiting_list_def new_list_def)
  with p l b show ?thesis by (auto simp: fire_ready_def change_page_def)
next
  assume l: "done_list (lists w 0) \<and> called w = map (\<lambda>f. (0, f, ())) fs"
  then have "perform (Fire 0 ()) w = (w, [])"
    by (simp add: done_list_def fireWith_def loops_def set_list_def)
  with l b show ?thesis by (simp add: fire_ready_def change_page_def)
qed

lemma add_waiting_or_done:
  assumes only: "only_return E"
  shows "lists w 0 = waiting_list fs \<Longrightarrow>
      \<exists>w'. run E (perform (Add 0 [AFun f]) w) = Some w' \<and> extra w' = extra w \<and> called w' = called w \<and>
        lists w' 0 = waiting_list (fs @ [f])"
    and "done_list (lists w 0) \<Longrightarrow>
      \<exists>w'. run E (perform (Add 0 [AFun f]) w) = Some w' \<and> extra w' = extra w \<and>
        called w' = called w @ [(0, f, ())] \<and> done_list (lists w' 0)"
proof -
  assume "lists w 0 = waiting_list fs"
  then show "\<exists>w'. run E (perform (Add 0 [AFun f]) w) = Some w' \<and> extra w' = extra w \<and> called w' = called w \<and>
        lists w' 0 = waiting_list (fs @ [f])"
    by (simp add: add_def loops_def waiting_list_def new_list_def)
next
  assume l: "done_list (lists w 0)"
  let ?c = "begin_fire () ((lists w 0)\<lparr>c_list := Some [f], c_start := 0\<rparr>)"
  have p: "perform (Add 0 [AFun f]) w = (set_list 0 ?c w, [Loop 0 ()])"
    using l by (simp add: add_def loops_def done_list_def)
  have "\<exists>w'. run E (set_list 0 ?c w, [Loop 0 ()]) = Some w' \<and> extra w' = extra (set_list 0 ?c w) \<and>
    called w' = called (set_list 0 ?c w) @ map (\<lambda>f. (0, f, ())) [f] \<and> done_list (lists w' 0)"
    by (rule ready_loop [where c = ?c, OF only]) (use l in \<open>simp_all add: begin_fire_def done_list_def\<close>)
  with p show "\<exists>w'. run E (perform (Add 0 [AFun f]) w) = Some w' \<and> extra w' = extra w \<and>
        called w' = called w @ [(0, f, ())] \<and> done_list (lists w' 0)" by simp
qed

text \<open>How the state follows the events.\<close>

definition page_follows :: "'f ready_event list \<Rightarrow> page_ready \<Rightarrow> bool" where
  "page_follows es s \<longleftrightarrow>
     bound s \<and> hasBody s \<and> hasAddEventListener s \<and> loadListener s \<and> readyTimers s = 0 \<and> scrollTimers s = 0 \<and>
     (domListener s \<longleftrightarrow> DocumentEvent \<notin> set es) \<and> (isReady s \<longleftrightarrow> announced es) \<and>
     readyWait s = 1 + holds_left es - (if announced es then 1 else 0)"

definition list_follows :: "'f ready_event list \<Rightarrow> 'f ready_world \<Rightarrow> bool" where
  "list_follows es w \<longleftrightarrow>
     (if opened es then done_list (lists w 0) \<and> called w = map (\<lambda>f. (0, f, ())) (handed_in es)
      else lists w 0 = waiting_list (handed_in es) \<and> called w = [])"

definition follows :: "'f ready_event list \<Rightarrow> 'f ready_world \<Rightarrow> bool" where
  "follows es w \<longleftrightarrow> page_follows es (extra w) \<and> list_follows es w"

lemma page_follows_triggers: "x = s\<lparr>triggers := n\<rparr> \<Longrightarrow> page_follows es x = page_follows es s"
  by (simp add: page_follows_def)

lemma opened_snoc: "opened (es @ [e]) \<longleftrightarrow> opened es \<or> announced (es @ [e]) \<and> holds_left (es @ [e]) = 0"
proof
  assume "opened (es @ [e])"
  then obtain n where n: "n \<le> Suc (length es)" "announced (take n (es @ [e]))" "holds_left (take n (es @ [e])) = 0"
    by (auto simp: opened_def)
  show "opened es \<or> announced (es @ [e]) \<and> holds_left (es @ [e]) = 0"
  proof (cases "n = Suc (length es)")
    case True
    then show ?thesis using n by simp
  next
    case False
    then have "n \<le> length es" using n(1) by simp
    then show ?thesis using n(2,3) by (auto simp: opened_def)
  qed
next
  assume "opened es \<or> announced (es @ [e]) \<and> holds_left (es @ [e]) = 0"
  then show "opened (es @ [e])"
  proof
    assume "opened es"
    then obtain n where "n \<le> length es" "announced (take n es)" "holds_left (take n es) = 0" by (auto simp: opened_def)
    then show ?thesis unfolding opened_def by (intro exI [of _ n]) simp
  next
    assume "announced (es @ [e]) \<and> holds_left (es @ [e]) = 0"
    then show ?thesis unfolding opened_def by (intro exI [of _ "Suc (length es)"]) simp
  qed
qed

lemma handed_in_append [simp]: "handed_in (es @ es') = handed_in es @ handed_in es'"
  by (induction es rule: handed_in.induct) simp_all

lemma holds_left_snoc [simp]:
  "holds_left (es @ [e]) = holds_left es + (if e = Hold then 1 else if e = Release then - 1 else 0)"
  by (simp add: holds_left_def)

lemma announced_snoc [simp]: "announced (es @ [e]) \<longleftrightarrow> announced es \<or> e = DocumentEvent \<or> e = WindowLoad"
  by (auto simp: announced_def)

text \<open>What \<open>ready\<close> does on such a page: it passes if nothing is held any more.\<close>

lemma ready_signal:
  assumes only: "only_return E" and w: "bound (extra w)" "hasBody (extra w)"
    and l: "lists w 0 = waiting_list fs \<and> called w = [] \<or> done_list (lists w 0) \<and> called w = map (\<lambda>f. (0, f, ())) fs"
    and go: "enter_ready wait (extra w) = (s, go)"
  shows "\<exists>w'. ready E wait w = Returns w' \<and> extra w' = s\<lparr>triggers := triggers (extra w')\<rparr> \<and>
    (if go then done_list (lists w' 0) \<and> called w' = map (\<lambda>f. (0, f, ())) fs
     else lists w' 0 = lists w 0 \<and> called w' = called w)"
proof (cases go)
  case True
  have "bound s" using go w(1) by (auto simp: enter_ready_def Let_def split: if_splits)
  with fire_waiting_or_done [OF only, of "w\<lparr>extra := s\<rparr>" fs] l True go show ?thesis
    by (auto simp: ready_def)
next
  case False
  with go show ?thesis by (simp add: ready_def)
qed

lemma announced_take: "announced (take n es) \<Longrightarrow> announced es"
  by (auto simp: announced_def dest: in_set_takeD)

lemma opened_announced: "opened es \<Longrightarrow> announced es"
  by (auto simp: opened_def dest: announced_take)

lemma opened_now: "announced es \<Longrightarrow> holds_left es = 0 \<Longrightarrow> opened es"
  unfolding opened_def by (intro exI [of _ "length es"]) simp

lemma follows_list:
  assumes "follows es w"
  shows "lists w 0 = waiting_list (handed_in es) \<and> called w = [] \<or>
      done_list (lists w 0) \<and> called w = map (\<lambda>f. (0, f, ())) (handed_in es)"
  using assms by (auto simp: follows_def list_follows_def split: if_splits)

text \<open>A call of \<open>ready\<close>: what it makes of the page decides about the list.\<close>

lemma follows_ready:
  assumes only: "only_return E" and f: "follows es w" and sel: "lists w1 = lists w" "called w1 = called w"
    and en: "enter_ready wait (extra w1) = (s, go)" and b: "bound (extra w1)" "hasBody (extra w1)"
    and s: "page_follows es' s" and h: "handed_in es' = handed_in es"
    and o: "opened es' \<longleftrightarrow> opened es \<or> go"
  shows "\<exists>w'. ready E wait w1 = Returns w' \<and> follows es' w'"
proof -
  from ready_signal [OF only b _ en, of "handed_in es"] follows_list [OF f]
  obtain w' where r: "ready E wait w1 = Returns w'" "extra w' = s\<lparr>triggers := triggers (extra w')\<rparr>"
    "if go then done_list (lists w' 0) \<and> called w' = map (\<lambda>f. (0, f, ())) (handed_in es)
     else lists w' 0 = lists w 0 \<and> called w' = called w"
    by (auto simp: sel)
  have "page_follows es' (extra w')" using page_follows_triggers [OF r(2), of es'] s by blast
  moreover have "list_follows es' w'"
    using r(3) f o h by (cases go) (auto simp: follows_def list_follows_def)
  ultimately show ?thesis using r(1) by (auto simp: follows_def)
qed

text \<open>An announcement by the browser, after its listener has been removed if it is the document's.\<close>

lemma follows_announcement:
  assumes only: "only_return E" and f: "follows es w" and left: "0 \<le> holds_left es"
    and e: "e = DocumentEvent \<and> d = False \<or> e = WindowLoad \<and> d = domListener (extra w)"
  shows "\<exists>w'. ready E False (change_page (\<lambda>s. s\<lparr>domListener := d\<rparr>) w) = Returns w' \<and> follows (es @ [e]) w'"
proof -
  let ?w = "change_page (\<lambda>s. s\<lparr>domListener := d\<rparr>) w"
  have sel: "lists ?w = lists w" "called ?w = called w" "extra ?w = (extra w)\<lparr>domListener := d\<rparr>"
    by (simp_all add: change_page_def)
  have p: "page_follows es (extra w)" using f by (simp add: follows_def)
  obtain s go where en: "enter_ready False (extra ?w) = (s, go)" by (cases "enter_ready False (extra ?w)")
  have h: "handed_in (es @ [e]) = handed_in es" "holds_left (es @ [e]) = holds_left es" "announced (es @ [e])"
    using e by auto
  have "opened (es @ [e]) \<longleftrightarrow> opened es \<or> holds_left es = 0" using h by (simp add: opened_snoc)
  moreover have "go \<longleftrightarrow> \<not> announced es \<and> holds_left es = 0"
    using en p left by (auto simp: sel page_follows_def enter_ready_def Let_def split: if_splits)
  ultimately have o: "opened (es @ [e]) \<longleftrightarrow> opened es \<or> go"
    using opened_now [of es] by blast
  have "page_follows (es @ [e]) s"
    using en p e h(2) by (auto simp: sel page_follows_def enter_ready_def Let_def split: if_splits)
  from follows_ready [OF only f sel(1,2) en _ _ this h(1) o] p show ?thesis
    by (simp add: sel page_follows_def)
qed

lemma follows_release:
  assumes only: "only_return E" and f: "follows es w" and left: "0 \<le> holds_left (es @ [Release])"
  shows "\<exists>w'. ready E True w = Returns w' \<and> follows (es @ [Release]) w'"
proof -
  have p: "page_follows es (extra w)" using f by (simp add: follows_def)
  obtain s go where en: "enter_ready True (extra w) = (s, go)" by (cases "enter_ready True (extra w)")
  have go: "go \<longleftrightarrow> announced es \<and> holds_left es = 1"
    using en p left by (auto simp: page_follows_def enter_ready_def Let_def split: if_splits)
  then have o: "opened (es @ [Release]) \<longleftrightarrow> opened es \<or> go" by (simp add: opened_snoc)
  have "page_follows (es @ [Release]) s"
    using en p left by (auto simp: page_follows_def enter_ready_def Let_def split: if_splits)
  from follows_ready [OF only f refl refl en _ _ this _ o] p show ?thesis by (simp add: page_follows_def)
qed

lemma follows_call:
  assumes only: "only_return E" and f: "follows es w"
  shows "\<exists>w'. fn_ready E b g w = Returns w' \<and> follows (es @ [CallReady g b]) w'"
proof -
  have p: "page_follows es (extra w)" using f by (simp add: follows_def)
  then have bind: "bindReady E b w = Returns w" by (simp add: bindReady_def page_follows_def)
  have p': "page_follows (es @ [CallReady g b]) (extra w)" using p by (simp add: page_follows_def)
  have o: "opened (es @ [CallReady g b]) = opened es" using opened_now [of es] by (auto simp: opened_snoc)
  show ?thesis
  proof (cases "opened es")
    case True
    then have "done_list (lists w 0)" using f by (simp add: follows_def list_follows_def)
    from add_waiting_or_done(2) [OF only this, of g] True f p' show ?thesis
      by (auto simp: fn_ready_def bind then_run_def follows_def list_follows_def o)
  next
    case False
    then have "lists w 0 = waiting_list (handed_in es)" using f by (simp add: follows_def list_follows_def)
    from add_waiting_or_done(1) [OF only this, of g] False f p' show ?thesis
      by (auto simp: fn_ready_def bind then_run_def follows_def list_follows_def o)
  qed
qed

lemma follows_step:
  assumes only: "only_return E" and f: "follows es w" and left: "0 \<le> holds_left es" "0 \<le> holds_left (es @ [e])"
  shows "\<exists>w'. ready_event E e w = Returns w' \<and> follows (es @ [e]) w'"
proof -
  have p: "page_follows es (extra w)" using f by (simp add: follows_def)
  show ?thesis
  proof (cases e)
    case (CallReady g b)
    with follows_call [OF only f] show ?thesis by (simp add: ready_event_def)
  next
    case Hold
    then show ?thesis
      using f left by (auto simp: ready_event_def holdReady_def follows_def page_follows_def list_follows_def
        change_page_def opened_snoc)
  next
    case Release
    with follows_release [OF only f] left show ?thesis by (simp add: ready_event_def holdReady_def)
  next
    case DocumentEvent
    show ?thesis
    proof (cases "domListener (extra w)")
      case True
      with follows_announcement [OF only f left(1), of e False] DocumentEvent p show ?thesis
        by (simp add: ready_event_def DOMContentLoaded_def page_follows_def)
    next
      case False
      then have "announced es" using p by (auto simp: page_follows_def announced_def)
      then have "opened (es @ [e]) = opened es" using DocumentEvent opened_now [of es] by (auto simp: opened_snoc)
      with False DocumentEvent f \<open>announced es\<close> show ?thesis
        by (auto simp: ready_event_def follows_def page_follows_def list_follows_def)
    qed
  next
    case WindowLoad
    have "change_page (\<lambda>s. s\<lparr>domListener := domListener (extra w)\<rparr>) w = w" by (simp add: change_page_def)
    with follows_announcement [OF only f left(1), of e "domListener (extra w)"] WindowLoad p show ?thesis
      by (simp add: ready_event_def page_follows_def)
  next
    case ReadyTimer
    then show ?thesis
      using f opened_now [of es] by (auto simp: ready_event_def follows_def page_follows_def list_follows_def opened_snoc)
  next
    case (ScrollTimer b)
    then show ?thesis
      using f opened_now [of es] by (auto simp: ready_event_def follows_def page_follows_def list_follows_def opened_snoc)
  qed
qed

lemma ready_events_snoc: "ready_events E (es @ [e]) w = then_run (ready_events E es w) (ready_event E e)"
  by (induction es arbitrary: w) (auto simp: then_run_def split: ended.splits)

lemma follows_events:
  assumes only: "only_return E"
  shows "(\<And>n. 0 \<le> holds_left (take n (CallReady g b # es))) \<Longrightarrow>
    \<exists>w. ready_events E (CallReady g b # es) loading_page = Returns w \<and> follows (CallReady g b # es) w"
proof (induction es rule: rev_induct)
  case Nil
  let ?w = "change_page (\<lambda>s. listen (s\<lparr>bound := True\<rparr>)) (set_list 0 (new_list (createFlags ''once memory'')) loading_page)"
  have f: "follows [] ?w"
    by (simp add: follows_def page_follows_def list_follows_def change_page_def loading_page_def listen_def holds_left_def
        announced_def opened_def waiting_list_def new_list_def)
  have b: "bindReady E b loading_page = Returns ?w" "bindReady E b ?w = Returns ?w"
    by (simp_all add: bindReady_def loading_page_def change_page_def listen_def)
  have "fn_ready E b g loading_page = fn_ready E b g ?w"
    by (simp only: fn_ready_def b then_run_def ended.case)
  with follows_call [OF only f, of b g] show ?case by (auto simp: ready_event_def then_run_def)
next
  case (snoc e es)
  have "0 \<le> holds_left (take n (CallReady g b # es))" for n
    using snoc.prems [of "min n (Suc (length es))"] by (cases n) (auto simp: min_def split: if_splits)
  with snoc.IH obtain w where w: "ready_events E (CallReady g b # es) loading_page = Returns w" "follows (CallReady g b # es) w"
    by blast
  have "0 \<le> holds_left (CallReady g b # es)" "0 \<le> holds_left ((CallReady g b # es) @ [e])"
    using snoc.prems [of "Suc (length es)"] snoc.prems [of "Suc (Suc (length es))"] by simp_all
  from follows_step [OF only w(2) this] w(1) ready_events_snoc [of E "CallReady g b # es" e loading_page]
  show ?case by (auto simp: then_run_def)
qed



end
