(* ===== verification/JQ_Namespaces.thy ===== *)
theory JQ_Namespaces
  imports JS_Prelude "HOL-Library.Sublist" "HOL-Library.Multiset" "HOL-Library.Char_ord" "HOL-Library.List_Lexorder"
begin

text \<open>
  \<open>jquery-1.7.2.js\<close>, lines 2872 to 2906, and what \<open>event.add\<close>, \<open>event.remove\<close> and
  \<open>event.trigger\<close> make of the text they are given: names of events separated by blanks, each with
  namespaces after dots. Every regular expression of these lines is written out as a function.
\<close>

section \<open>\<open>hoverHack\<close>\<close>

text \<open>\<open>\b\<close> between the first \<open>n\<close> characters and the rest.\<close>

definition boundary :: "string \<Rightarrow> nat \<Rightarrow> bool" where
  "boundary s n \<longleftrightarrow>
     (n > 0 \<and> n \<le> length s \<and> is_word (s ! (n - 1))) \<noteq> (n < length s \<and> is_word (s ! n))"

text \<open>
  \<open>rhoverHack\<close>, the expression \<open>/(?:^|\s)hover(\.\S+)?\b/\<close>: the length of the group, the
  longest one first, in the text after \<open>hover\<close>.
\<close>

definition hover_group :: "string \<Rightarrow> nat option" where
  "hover_group r =
     (let run = (case r of [] \<Rightarrow> 0 | c # cs \<Rightarrow> if c = CHR ''.'' then length (takeWhile (\<lambda>d. \<not> is_ws d) cs) else 0)
      in find (\<lambda>n. boundary (CHR ''r'' # r) (Suc n)) (map Suc (rev [1..<Suc run]) @ [0]))"

definition hover_here :: "string \<Rightarrow> (string \<times> string) option" where
  "hover_here s =
     (if take 5 s = ''hover'' then
        map_option (\<lambda>n. (take n (drop 5 s), drop n (drop 5 s))) (hover_group (drop 5 s))
      else None)"

definition rhoverHack :: "bool \<Rightarrow> string \<Rightarrow> (string \<times> string) option" where
  "rhoverHack at_start s =
     (case (if at_start then hover_here s else None) of
        Some m \<Rightarrow> Some m
      | None \<Rightarrow> (case s of [] \<Rightarrow> None | c # cs \<Rightarrow> if is_ws c then hover_here cs else None))"

fun replace_hover :: "bool \<Rightarrow> string \<Rightarrow> string" where
  "replace_hover at_start [] = []"
| "replace_hover at_start (c # cs) =
     (case rhoverHack at_start (c # cs) of
        Some (g, r) \<Rightarrow> ''mouseenter'' @ g @ '' mouseleave'' @ g @ r
      | None \<Rightarrow> c # replace_hover False cs)"

definition hoverHack :: "string \<Rightarrow> string" where
  "hoverHack events = replace_hover True events"

definition event_names :: "string \<Rightarrow> string list" where
  "event_names types = split_at CHR '' '' (str_trim (hoverHack types))"

text \<open>
  The expression replaces the white space before \<open>hover\<close> too and does not put it back, so a
  name in front of it is glued to the first of the two names it stands for.
\<close>

lemma hover_swallows_blank:
  "hoverHack ''click hover'' = ''clickmouseenter mouseleave''"
  "event_names ''hover.menu click'' = [''mouseenter.menu'', ''mouseleave.menu'', ''click'']"
  by code_simp+

section \<open>Types and namespaces\<close>

definition is_line_end :: "char \<Rightarrow> bool" where
  "is_line_end c \<longleftrightarrow> (of_char c :: nat) = 10 \<or> (of_char c :: nat) = 13"

text \<open>
  \<open>rtypenamespace\<close>, the expression \<open>/^([^\.]*)?(?:\.(.+))?$/\<close>. A group that matches nothing is
  \<open>undefined\<close>, and so are both when the text does not match, as for a name that ends in a dot.
\<close>

definition rtypenamespace :: "string \<Rightarrow> string option \<times> string option" where
  "rtypenamespace t =
     (let a = takeWhile (\<lambda>c. c \<noteq> CHR ''.'') t;
          r = dropWhile (\<lambda>c. c \<noteq> CHR ''.'') t;
          typ = (if a = [] then None else Some a)
      in case r of
           [] \<Rightarrow> (typ, None)
         | _ # ns \<Rightarrow> if ns \<noteq> [] \<and> list_all (\<lambda>c. \<not> is_line_end c) ns then (typ, Some ns) else (None, None))"

definition namespaces_of :: "string \<Rightarrow> string list" where
  "namespaces_of ns = sort (split_at CHR ''.'' ns)"

definition namespace_text :: "string \<Rightarrow> string" where
  "namespace_text ns = join ''.'' (namespaces_of ns)"

section \<open>The regular expression of namespaces\<close>

text \<open>
  \<open>new RegExp("(^|\\.)" + parts.join("\\.(?:.*\\.)?") + "(\\.|$)")\<close>. Where no part has a
  character that means something in an expression, \<open>ns_here\<close> and \<open>ns_match\<close> are what it tests;
  otherwise it is the engine of the browser that decides, a parameter, for which an ill-formed
  expression is \<open>None\<close>.
\<close>

type_synonym regexps = "string \<Rightarrow> (string \<Rightarrow> bool) option"

definition literal_name :: "string \<Rightarrow> bool" where
  "literal_name p \<longleftrightarrow> list_all (\<lambda>c. c \<notin> set syntax_chars) p"

definition strip_prefix :: "string \<Rightarrow> string \<Rightarrow> string option" where
  "strip_prefix p s = (if take (length p) s = p then Some (drop (length p) s) else None)"

text \<open>What may follow \<open>\.(?:.*\.)?\<close> after its first dot, and what follows any dot.\<close>

fun after_gap :: "string \<Rightarrow> string list" where
  "after_gap [] = []"
| "after_gap (c # cs) =
     (if c = CHR ''.'' then [cs] else []) @ (if is_line_end c then [] else after_gap cs)"

fun after_dot :: "string \<Rightarrow> string list" where
  "after_dot [] = []"
| "after_dot (c # cs) = (if c = CHR ''.'' then [cs] else []) @ after_dot cs"

fun ns_here :: "string list \<Rightarrow> string \<Rightarrow> bool" where
  "ns_here [] s = (s = [] \<or> hd s = CHR ''.'')"
| "ns_here [p] s =
     (case strip_prefix p s of None \<Rightarrow> False | Some r \<Rightarrow> r = [] \<or> hd r = CHR ''.'')"
| "ns_here (p # q # ps) s =
     (case strip_prefix p s of
        Some (c # r) \<Rightarrow> c = CHR ''.'' \<and> list_ex (ns_here (q # ps)) (r # after_gap r)
      | _ \<Rightarrow> False)"

definition ns_match :: "string list \<Rightarrow> string \<Rightarrow> bool" where
  "ns_match ps s = list_ex (ns_here ps) (s # after_dot s)"

definition ns_pattern :: "string list \<Rightarrow> string" where
  "ns_pattern ps =
     (let dot = [CHR 0x5C, CHR ''.'']
      in ''(^|'' @ dot @ '')'' @ join (dot @ ''(?:.*'' @ dot @ '')?'') ps @ ''('' @ dot @ ''|$)'')"

definition ns_regexp :: "regexps \<Rightarrow> string list \<Rightarrow> (string \<Rightarrow> bool) option" where
  "ns_regexp R ps = (if list_all literal_name ps then Some (ns_match ps) else R (ns_pattern ps))"

subsection \<open>It tests for a part of the namespaces\<close>

definition no_dot :: "string \<Rightarrow> bool" where
  "no_dot p \<longleftrightarrow> CHR ''.'' \<notin> set p"

lemma split_at_no_dots: "\<forall>p \<in> set (split_at c s). c \<notin> set p"
  by (induction s) (auto split: list.splits)

lemma split_at_chars: "p \<in> set (split_at c s) \<Longrightarrow> set p \<subseteq> set s"
proof (induction s arbitrary: p)
  case Nil
  then show ?case by simp
next
  case (Cons x s)
  then show ?case by (cases "split_at c s") (auto split: if_splits, blast+)
qed

lemma after_dot_append: "no_dot p \<Longrightarrow> after_dot (p @ CHR ''.'' # s) = s # after_dot s"
  by (induction p) (auto simp: no_dot_def)

lemma after_dot_no_dot: "no_dot p \<Longrightarrow> after_dot p = []"
  by (induction p) (auto simp: no_dot_def)

lemma after_gap_line: "\<forall>c \<in> set s. \<not> is_line_end c \<Longrightarrow> after_gap s = after_dot s"
  by (induction s) auto

text \<open>The texts that follow a dot in a joined text are its joined tails.\<close>

fun tails :: "'a list \<Rightarrow> 'a list list" where
  "tails [] = []"
| "tails (x # xs) = (x # xs) # tails xs"

lemma tails_cases: "zs \<in> set (tails qs) \<longleftrightarrow> zs \<noteq> [] \<and> suffix zs qs"
  by (induction qs) (auto simp: suffix_Cons)

lemma dots_of_join:
  "\<forall>q \<in> set qs. no_dot q \<Longrightarrow> qs \<noteq> [] \<Longrightarrow>
    join ''.'' qs # after_dot (join ''.'' qs) = map (join ''.'') (tails qs)"
proof (induction "''.''::string" qs rule: join.induct)
  case 1
  then show ?case by simp
next
  case (2 q)
  then show ?case by (simp add: after_dot_no_dot)
next
  case (3 x y zs)
  then show ?case by (simp add: after_dot_append)
qed

lemma part_at_front:
  assumes "no_dot p" and "no_dot q" and "r = [] \<or> hd r = CHR ''.''"
  shows "strip_prefix p (q @ r) = Some u \<and> (u = [] \<or> hd u = CHR ''.'') \<longleftrightarrow> p = q \<and> u = r"
  using assms
proof (induction p arbitrary: q)
  case Nil
  then show ?case by (cases q) (auto simp: strip_prefix_def no_dot_def)
next
  case (Cons c p)
  then show ?case
  proof (cases q)
    case Nil
    with Cons.prems show ?thesis by (cases r) (auto simp: strip_prefix_def no_dot_def)
  next
    case (Cons d q')
    with Cons.prems Cons.IH [of q'] show ?thesis by (auto simp: strip_prefix_def no_dot_def)
  qed
qed

lemma join_Cons_split: "join ''.'' (q # qs) = q @ (if qs = [] then [] else CHR ''.'' # join ''.'' qs)"
  by (cases qs) simp_all

lemma ns_gap_case:
  "(case z of [] \<Rightarrow> False | c # r \<Rightarrow> c = d \<and> P r) \<longleftrightarrow> (\<exists>u. z = d # u \<and> P u)"
  by (cases z) auto

lemma ex_front:
  assumes "\<And>u. strip_prefix p s = Some u \<and> (u = [] \<or> hd u = CHR ''.'') \<longleftrightarrow>
    p = q \<and> u = (if b then [] else CHR ''.'' # r)"
  shows "(\<exists>u. strip_prefix p s = Some (CHR ''.'' # u) \<and> P u) \<longleftrightarrow> p = q \<and> \<not> b \<and> P r"
proof -
  have "strip_prefix p s = Some (CHR ''.'' # u) \<longleftrightarrow> p = q \<and> \<not> b \<and> u = r" for u
    using assms [of "CHR ''.'' # u"] by (metis list.distinct(1) list.inject list.sel(1))
  then show ?thesis by simp
qed

lemma ns_here_Cons:
  assumes "no_dot p" and "no_dot q"
    and "\<forall>z \<in> set qs. no_dot z" and "\<forall>c \<in> set (join ''.'' qs). \<not> is_line_end c"
  shows "ns_here (p # ps) (join ''.'' (q # qs)) \<longleftrightarrow>
    p = q \<and> (ps = [] \<or> (\<exists>zs \<in> set (tails qs). ns_here ps (join ''.'' zs)))"
proof -
  let ?r = "if qs = [] then [] else CHR ''.'' # join ''.'' qs"
  have front: "strip_prefix p (q @ ?r) = Some u \<and> (u = [] \<or> hd u = CHR ''.'') \<longleftrightarrow> p = q \<and> u = ?r" for u
    by (rule part_at_front [OF assms(1,2)]) simp
  show ?thesis
  proof (cases ps)
    case Nil
    have "ns_here [p] (q @ ?r) \<longleftrightarrow> (\<exists>u. strip_prefix p (q @ ?r) = Some u \<and> (u = [] \<or> hd u = CHR ''.''))"
      unfolding ns_here.simps by (cases "strip_prefix p (q @ ?r)") (simp_all only: option.simps simp_thms option.inject)
    then show ?thesis unfolding join_Cons_split Nil using front by metis
  next
    case (Cons p' ps')
    have gap: "qs \<noteq> [] \<Longrightarrow> join ''.'' qs # after_gap (join ''.'' qs) = map (join ''.'') (tails qs)"
      using assms(3,4) by (simp add: after_gap_line dots_of_join)
    have "ns_here (p # ps) (q @ ?r) \<longleftrightarrow>
        (\<exists>u. strip_prefix p (q @ ?r) = Some (CHR ''.'' # u) \<and> list_ex (ns_here ps) (u # after_gap u))"
      unfolding Cons ns_here.simps by (cases "strip_prefix p (q @ ?r)") (simp_all only: option.simps simp_thms ns_gap_case option.inject)
    also have "\<dots> \<longleftrightarrow> p = q \<and> qs \<noteq> [] \<and>
        list_ex (ns_here ps) (join ''.'' qs # after_gap (join ''.'' qs))"
      by (rule ex_front [OF front])
    also have "\<dots> \<longleftrightarrow> p = q \<and> (\<exists>zs \<in> set (tails qs). ns_here ps (join ''.'' zs))"
      by (cases "qs = []") (simp_all only: gap list_ex_iff set_map bex_simps tails.simps list.set(1) simp_thms)
    finally show ?thesis unfolding join_Cons_split using Cons by simp
  qed
qed

definition somewhere :: "string list \<Rightarrow> string list \<Rightarrow> bool" where
  "somewhere ps qs \<longleftrightarrow> (\<exists>zs \<in> set (tails qs). ns_here ps (join ''.'' zs))"

lemma somewhere_Cons:
  "somewhere ps (q # qs) \<longleftrightarrow> ns_here ps (join ''.'' (q # qs)) \<or> somewhere ps qs"
  by (simp add: somewhere_def)

lemma join_tail_chars: "set (join ''.'' qs) \<subseteq> set (join ''.'' (q # qs))"
  by (cases qs) auto

lemma somewhere_is_subseq:
  assumes "ps \<noteq> []" and "\<forall>p \<in> set ps. no_dot p" and "\<forall>q \<in> set qs. no_dot q"
    and "\<forall>c \<in> set (join ''.'' qs). \<not> is_line_end c"
  shows "somewhere ps qs \<longleftrightarrow> subseq ps qs"
  using assms
proof (induction qs arbitrary: ps)
  case Nil
  then show ?case by (simp add: somewhere_def)
next
  case (Cons q qs)
  obtain p ps' where ps: "ps = p # ps'" using Cons.prems(1) by (cases ps) auto
  have tail: "\<forall>c \<in> set (join ''.'' qs). \<not> is_line_end c"
    using Cons.prems(4) join_tail_chars [of qs q] by blast
  have rec: "xs \<noteq> [] \<Longrightarrow> \<forall>x \<in> set xs. no_dot x \<Longrightarrow> somewhere xs qs \<longleftrightarrow> subseq xs qs" for xs
    using Cons.IH Cons.prems(3) tail by simp
  have first: "ns_here (p # ps') (join ''.'' (q # qs)) \<longleftrightarrow> p = q \<and> (ps' = [] \<or> somewhere ps' qs)"
    unfolding somewhere_def using Cons.prems(2,3) tail ps by (intro ns_here_Cons) simp_all
  have "somewhere ps (q # qs) \<longleftrightarrow> p = q \<and> (ps' = [] \<or> subseq ps' qs) \<or> subseq ps qs"
    unfolding somewhere_Cons ps first using rec [of ps'] rec [of ps] Cons.prems(1,2) ps by auto
  also have "\<dots> \<longleftrightarrow> subseq ps (q # qs)"
    unfolding ps by (auto simp: subseq_Cons2_iff dest: subseq_Cons')
  finally show ?case .
qed

lemma subseq_mset: "subseq ps qs \<Longrightarrow> mset ps \<subseteq># mset qs"
  by (induction rule: list_emb.induct) (auto intro: subset_mset.order_trans)

lemma mset_skip:
  assumes "q \<notin># M" and "M \<subseteq># add_mset q N"
  shows "M \<subseteq># N"
proof (rule mset_subset_eqI)
  fix a
  have "count M a \<le> count (add_mset q N) a" using assms(2) by (rule mset_subset_eq_count)
  then show "count M a \<le> count N a" using assms(1) by (cases "a = q") (simp_all add: not_in_iff)
qed

lemma sorted_subseq:
  fixes ps qs :: "'a :: linorder list"
  assumes "sorted ps" and "sorted qs" and "mset ps \<subseteq># mset qs"
  shows "subseq ps qs"
  using assms
proof (induction qs arbitrary: ps)
  case Nil
  then show ?case by simp
next
  case (Cons q qs)
  show ?case
  proof (cases ps)
    case Nil
    then show ?thesis by simp
  next
    case ps: (Cons p ps')
    show ?thesis
    proof (cases "p = q")
      case True
      with Cons ps show ?thesis by simp
    next
      case False
      have "p \<in># mset (q # qs)" using Cons.prems(3) ps by (auto dest: mset_subset_eqD)
      then have "q < p" using False Cons.prems(2) by auto
      then have q: "q \<notin># mset ps" using Cons.prems(1) ps by auto
      have "mset ps \<subseteq># mset qs"
        by (rule mset_skip [OF q Cons.prems(3) [unfolded mset.simps]])
      then have "subseq ps qs" using Cons.IH [OF Cons.prems(1)] Cons.prems(2) by simp
      then show ?thesis by (rule list_emb_Cons)
    qed
  qed
qed

lemma sort_not_empty: "xs \<noteq> [] \<Longrightarrow> sort xs \<noteq> []"
  by (metis mset_sort mset_zero_iff)

lemma join_chars: "set (join s qs) \<subseteq> set s \<union> \<Union> (set ` set qs)"
  by (induction s qs rule: join.induct) auto

lemma ns_regexp_subset:
  assumes "list_all literal_name (namespaces_of a)"
    and "list_all (\<lambda>c. \<not> is_line_end c) b"
  shows "\<exists>test. ns_regexp R (namespaces_of a) = Some test \<and>
    (test (namespace_text b) \<longleftrightarrow> mset (split_at CHR ''.'' a) \<subseteq># mset (split_at CHR ''.'' b))"
proof -
  let ?ps = "namespaces_of a" and ?qs = "namespaces_of b"
  have ps: "?ps \<noteq> []" "\<forall>p \<in> set ?ps. no_dot p" "sorted ?ps" "mset ?ps = mset (split_at CHR ''.'' a)"
    by (simp_all add: namespaces_of_def no_dot_def split_at_no_dots sort_not_empty)
  have qs: "?qs \<noteq> []" "\<forall>q \<in> set ?qs. no_dot q" "sorted ?qs" "mset ?qs = mset (split_at CHR ''.'' b)"
    by (simp_all add: namespaces_of_def no_dot_def split_at_no_dots sort_not_empty)
  have "set (join ''.'' ?qs) \<subseteq> {CHR ''.''} \<union> \<Union> (set ` set ?qs)"
    using join_chars [of "''.''" ?qs] by simp
  also have "\<dots> \<subseteq> {CHR ''.''} \<union> set b"
    using split_at_chars [of _ "CHR ''.''" b] by (auto simp: namespaces_of_def)
  finally have lines: "\<forall>c \<in> set (join ''.'' ?qs). \<not> is_line_end c"
    using assms(2) by (auto simp: list_all_iff is_line_end_def)
  have "ns_match ?ps (join ''.'' ?qs) \<longleftrightarrow> somewhere ?ps ?qs"
    unfolding ns_match_def somewhere_def dots_of_join [OF qs(2,1)] by (simp add: list_ex_iff)
  also have "\<dots> \<longleftrightarrow> subseq ?ps ?qs"
    by (rule somewhere_is_subseq [OF ps(1,2) qs(2) lines])
  also have "\<dots> \<longleftrightarrow> mset ?ps \<subseteq># mset ?qs"
    using subseq_mset sorted_subseq [OF ps(3) qs(3)] by blast
  finally show ?thesis
    using assms(1) ps(4) qs(4) by (simp add: ns_regexp_def namespace_text_def)
qed



end
