(* ===== verification/JQ_Event.thy ===== *)
theory JQ_Event
  imports JQ_Namespaces
begin

text \<open>
  \<open>jquery-1.7.2.js\<close>, lines 2912 to 3094, 3440 to 3499, 3596 to 3622 and 3726 to 3752: the tables of
  handlers that \<open>event.add\<close> and \<open>event.remove\<close> keep for each element, and the special events.
\<close>

section \<open>State\<close>

text \<open>
  A handler object; \<open>undefined\<close> types and selectors are \<open>None\<close>. Its field \<open>quick\<close> is a
  function of the selector and is computed where it is used. \<open>'f\<close> names functions.
\<close>

record 'f handle_obj =
  h_type :: "string option"
  h_origType :: "string option"
  h_data :: "'f jsv"
  h_handler :: 'f
  h_guid :: nat
  h_selector :: "string option"
  h_namespace :: string

text \<open>The array of handlers of one type, with its property \<open>delegateCount\<close>.\<close>

record 'f handler_list =
  handlers :: "'f handle_obj list"
  delegateCount :: nat

text \<open>
  What the page supplies. \<open>ancestors\<close> are the \<open>parentNode\<close>s of a node from the nearest on,
  \<open>sizzle\<close> tests a selector that is not simple, and \<open>plainNames\<close> are the functions that every
  plain object inherits, with their number of parameters.
\<close>

datatype event_model = AddEventListener | AttachEvent | NoEvents

record 'e page_dom =
  nodeType :: "'e \<Rightarrow> nat"
  acceptData :: "'e \<Rightarrow> bool"
  isWindow :: "'e \<Rightarrow> bool"
  ancestors :: "'e \<Rightarrow> 'e list"
  ownerDocument :: "'e \<Rightarrow> 'e option"
  viewOf :: "'e \<Rightarrow> 'e"
  nodeName :: "'e \<Rightarrow> string"
  idAttr :: "'e \<Rightarrow> string option"
  classAttr :: "'e \<Rightarrow> string option"
  disabled :: "'e \<Rightarrow> bool"
  noWidth :: "'e \<Rightarrow> bool"
  sizzle :: "string \<Rightarrow> 'e \<Rightarrow> bool"
  eventModel :: "'e \<Rightarrow> event_model"
  focusinBubbles :: bool
  plainNames :: "string \<Rightarrow> nat option"

text \<open>
  What changes. \<open>tables\<close> is \<open>_data(elem).events\<close>, in the order of insertion; the function
  \<open>_data(elem).handle\<close> is there exactly when \<open>events\<close> is. \<open>listeners\<close> are the registrations of
  that function with the browser, \<open>beforeUnload\<close> the windows whose \<open>onbeforeunload\<close> it is, and
  \<open>attaches\<close> and \<open>captures\<close> the counters and the listeners of the simulated \<open>focusin\<close> and
  \<open>focusout\<close>. \<open>cached\<close> are the elements in \<open>jQuery.cache\<close> and \<open>otherData\<close> those that have data
  of other kinds there; \<open>used\<close> is \<open>jQuery.event.global\<close>; \<open>readyBinds\<close> counts the calls of
  \<open>bindReady\<close>; \<open>inline\<close> are the properties \<open>onclick\<close> and so on; \<open>page\<close> is whatever else
  handlers work on.
\<close>

record ('e, 'f, 'p) event_world =
  tables :: "'e \<Rightarrow> (string \<times> 'f handler_list) list option"
  cached :: "'e list"
  otherData :: "'e \<Rightarrow> bool"
  listeners :: "('e \<times> string) set"
  beforeUnload :: "'e \<Rightarrow> bool"
  readyBinds :: nat
  attaches :: "string \<Rightarrow> int"
  captures :: "string set"
  used :: "string set"
  guids :: "'f \<Rightarrow> nat option"
  next_guid :: nat
  triggered :: "string option"
  inline :: "'e \<Rightarrow> string \<Rightarrow> 'f option"
  page :: 'p

text \<open>A routine returns or raises, and in both cases leaves a world.\<close>

datatype ('a, 'w) outcome = Done 'a 'w | Fail js_error 'w

fun final :: "('a, 'w) outcome \<Rightarrow> 'w" where
  "final (Done _ w) = w"
| "final (Fail _ w) = w"

fun andthen :: "('a, 'w) outcome \<Rightarrow> ('a \<Rightarrow> 'w \<Rightarrow> ('b, 'w) outcome) \<Rightarrow> ('b, 'w) outcome" where
  "andthen (Done a w) k = k a w"
| "andthen (Fail x w) k = Fail x w"

fun each :: "('a \<Rightarrow> 'w \<Rightarrow> (unit, 'w) outcome) \<Rightarrow> 'a list \<Rightarrow> 'w \<Rightarrow> (unit, 'w) outcome" where
  "each f [] w = Done () w"
| "each f (x # xs) w = andthen (f x w) (\<lambda>_. each f xs)"

lemma final_andthen:
  "I (final m) \<Longrightarrow> (\<And>a w. m = Done a w \<Longrightarrow> I (final (k a w))) \<Longrightarrow> I (final (andthen m k))"
  by (cases m) simp_all

lemma final_each: "(\<And>x w. I w \<Longrightarrow> I (final (f x w))) \<Longrightarrow> I w \<Longrightarrow> I (final (each f xs w))"
proof (induction xs arbitrary: w)
  case Nil
  then show ?case by simp
next
  case (Cons x xs)
  then have "I (final (f x w))" by blast
  with Cons show ?case by (cases "f x w") simp_all
qed

definition table :: "('e, 'f, 'p) event_world \<Rightarrow> 'e \<Rightarrow> (string \<times> 'f handler_list) list" where
  "table w e = (case tables w e of None \<Rightarrow> [] | Some tab \<Rightarrow> tab)"

definition set_table ::
  "'e \<Rightarrow> (string \<times> 'f handler_list) list \<Rightarrow> ('e, 'f, 'p) event_world \<Rightarrow> ('e, 'f, 'p) event_world" where
  "set_table e tab w = w\<lparr>tables := (tables w)(e := Some tab)\<rparr>"

definition chosen :: "string option \<Rightarrow> bool" where
  "chosen sel \<longleftrightarrow> sel \<noteq> None \<and> sel \<noteq> Some []"

text \<open>The name under which \<open>events[type]\<close> is kept.\<close>

fun key :: "string option \<Rightarrow> string" where
  "key None = ''undefined''"
| "key (Some t) = t"

section \<open>\<open>jQuery.event.special\<close>\<close>

text \<open>
  The entries a browser with bubbling \<open>submit\<close> and \<open>change\<close> has. \<open>SetupCapture orig\<close> is the
  pair \<open>setup\<close>, \<open>teardown\<close> of \<open>focusin\<close> and \<open>focusout\<close> where the browser has no such event,
  \<open>mouse\<close> tells that there is the \<open>handle\<close> of \<open>mouseenter\<close> and \<open>mouseleave\<close>.
\<close>

datatype setup_hook = NoSetup | SetupReady | SetupUnload | SetupCapture string

record special_event =
  delegateType :: "string option"
  bindType :: "string option"
  noBubble :: bool
  setupHook :: setup_hook
  mouse :: bool

definition plain_special :: special_event where
  "plain_special = \<lparr>delegateType = None, bindType = None, noBubble = False, setupHook = NoSetup, mouse = False\<rparr>"

definition special_of :: "'e page_dom \<Rightarrow> string option \<Rightarrow> special_event" where
  "special_of D typ =
     (let t = key typ in
      if t = ''ready'' then plain_special\<lparr>setupHook := SetupReady\<rparr>
      else if t = ''load'' then plain_special\<lparr>noBubble := True\<rparr>
      else if t = ''focus'' then plain_special\<lparr>delegateType := Some ''focusin''\<rparr>
      else if t = ''blur'' then plain_special\<lparr>delegateType := Some ''focusout''\<rparr>
      else if t = ''beforeunload'' then plain_special\<lparr>setupHook := SetupUnload\<rparr>
      else if t = ''mouseenter'' then
        plain_special\<lparr>delegateType := Some ''mouseover'', bindType := Some ''mouseover'', mouse := True\<rparr>
      else if t = ''mouseleave'' then
        plain_special\<lparr>delegateType := Some ''mouseout'', bindType := Some ''mouseout'', mouse := True\<rparr>
      else if t = ''focusin'' \<and> \<not> focusinBubbles D then plain_special\<lparr>setupHook := SetupCapture ''focus''\<rparr>
      else if t = ''focusout'' \<and> \<not> focusinBubbles D then plain_special\<lparr>setupHook := SetupCapture ''blur''\<rparr>
      else plain_special)"

definition mapped_type :: "'e page_dom \<Rightarrow> string option \<Rightarrow> string option \<Rightarrow> string option" where
  "mapped_type D sel typ =
     (case (if chosen sel then delegateType (special_of D typ) else bindType (special_of D typ)) of
        None \<Rightarrow> typ | Some t \<Rightarrow> Some t)"

text \<open>The first handler of a type: \<open>setup\<close>, or else a registration with the browser.\<close>

definition set_up :: "'e page_dom \<Rightarrow> 'e \<Rightarrow> string \<Rightarrow> special_event \<Rightarrow> ('e, 'f, 'p) event_world \<Rightarrow> ('e, 'f, 'p) event_world" where
  "set_up D e k sp w =
     (case setupHook sp of
        NoSetup \<Rightarrow> if eventModel D e = NoEvents then w else w\<lparr>listeners := insert (e, k) (listeners w)\<rparr>
      | SetupReady \<Rightarrow> w\<lparr>readyBinds := Suc (readyBinds w)\<rparr>
      | SetupUnload \<Rightarrow> if isWindow D e then w\<lparr>beforeUnload := (beforeUnload w)(e := True)\<rparr> else w
      | SetupCapture orig \<Rightarrow>
          w\<lparr>captures := (if attaches w k = 0 then insert orig (captures w) else captures w),
            attaches := (attaches w)(k := attaches w k + 1)\<rparr>)"

text \<open>
  The last one gone: \<open>o\<close> is the type whose \<open>special\<close> is asked, \<open>k\<close> the type in the table. The
  \<open>teardown\<close> of \<open>beforeunload\<close> compares with a parameter that \<open>remove\<close> does not pass.
\<close>

definition tear_down :: "'e \<Rightarrow> string \<Rightarrow> string \<Rightarrow> special_event \<Rightarrow> ('e, 'f, 'p) event_world \<Rightarrow> ('e, 'f, 'p) event_world" where
  "tear_down e orig_type k sp w =
     (case setupHook sp of
        SetupUnload \<Rightarrow> w
      | SetupCapture orig \<Rightarrow>
          (let n = attaches w orig_type - 1
           in w\<lparr>attaches := (attaches w)(orig_type := n),
                captures := (if n = 0 then captures w - {orig} else captures w)\<rparr>)
      | _ \<Rightarrow> w\<lparr>listeners := listeners w - {(e, k)}\<rparr>)"

section \<open>\<open>event.add\<close>\<close>

datatype 'f handler_arg = NoHandler | Plain 'f | Given "'f handle_obj"

text \<open>\<open>jQuery.extend(obj, handleObjIn)\<close>, which skips what is \<open>undefined\<close>.\<close>

definition or_else :: "'a option \<Rightarrow> 'a option \<Rightarrow> 'a option" where
  "or_else a b = (case a of None \<Rightarrow> b | Some _ \<Rightarrow> a)"

definition extend_obj :: "'f handle_obj \<Rightarrow> 'f handle_obj option \<Rightarrow> 'f handle_obj" where
  "extend_obj obj given =
     (case given of
        None \<Rightarrow> obj
      | Some g \<Rightarrow>
          g\<lparr>h_type := or_else (h_type g) (h_type obj),
            h_origType := or_else (h_origType g) (h_origType obj),
            h_data := (if h_data g = Undef then h_data obj else h_data g),
            h_selector := or_else (h_selector g) (h_selector obj)\<rparr>)"

text \<open>Delegates go in front.\<close>

definition put_handler :: "string option \<Rightarrow> 'f handle_obj \<Rightarrow> 'f handler_list \<Rightarrow> 'f handler_list" where
  "put_handler sel h l =
     (if chosen sel then
        l\<lparr>handlers := take (delegateCount l) (handlers l) @ h # drop (delegateCount l) (handlers l),
          delegateCount := delegateCount l + 1\<rparr>
      else l\<lparr>handlers := handlers l @ [h]\<rparr>)"

definition add_type ::
  "'e page_dom \<Rightarrow> 'e \<Rightarrow> 'f \<Rightarrow> nat \<Rightarrow> 'f jsv \<Rightarrow> string option \<Rightarrow> 'f handle_obj option \<Rightarrow> string \<Rightarrow>
   ('e, 'f, 'p) event_world \<Rightarrow> (unit, ('e, 'f, 'p) event_world) outcome" where
  "add_type D e f g data sel given t w =
     (let (orig, ns) = rtypenamespace t;
          typ = mapped_type D sel orig;
          k = key typ;
          obj = extend_obj
            \<lparr>h_type = typ, h_origType = orig, h_data = data, h_handler = f, h_guid = g,
             h_selector = sel, h_namespace = namespace_text (case ns of None \<Rightarrow> [] | Some s \<Rightarrow> s)\<rparr> given;
          note_use = (\<lambda>w. w\<lparr>used := insert k (used w)\<rparr>)
      in case dict_get (\<lambda>n. plainNames D n \<noteq> None) (map_of (table w e)) k of
           Proto \<Rightarrow> Fail TypeError w
         | Own l \<Rightarrow> Done () (note_use (set_table e (AList.update k (put_handler sel obj l) (table w e)) w))
         | Absent \<Rightarrow>
             Done () (note_use (set_up D e k (special_of D typ)
               (set_table e (AList.update k (put_handler sel obj \<lparr>handlers = [], delegateCount = 0\<rparr>) (table w e)) w))))"

definition need_guid :: "'f \<Rightarrow> ('e, 'f, 'p) event_world \<Rightarrow> nat \<times> ('e, 'f, 'p) event_world" where
  "need_guid f w =
     (case guids w f of
        Some g \<Rightarrow> (g, w)
      | None \<Rightarrow> (next_guid w, w\<lparr>guids := (guids w)(f \<mapsto> next_guid w), next_guid := next_guid w + 1\<rparr>))"

definition start_data :: "'e \<Rightarrow> ('e, 'f, 'p) event_world \<Rightarrow> ('e, 'f, 'p) event_world" where
  "start_data e w =
     (if tables w e = None then
        set_table e [] (if e \<in> set (cached w) then w else w\<lparr>cached := cached w @ [e]\<rparr>)
      else w)"

definition add_types ::
  "'e page_dom \<Rightarrow> 'e \<Rightarrow> string \<Rightarrow> 'f \<Rightarrow> 'f handle_obj option \<Rightarrow> 'f jsv \<Rightarrow> string option \<Rightarrow>
   ('e, 'f, 'p) event_world \<Rightarrow> (unit, ('e, 'f, 'p) event_world) outcome" where
  "add_types D e types f given data sel w =
     (let (guid, w1) = need_guid f w
      in each (add_type D e f guid data sel given) (event_names types) (start_data e w1))"

definition add ::
  "'e page_dom \<Rightarrow> 'e \<Rightarrow> string \<Rightarrow> 'f handler_arg \<Rightarrow> 'f jsv \<Rightarrow> string option \<Rightarrow>
   ('e, 'f, 'p) event_world \<Rightarrow> (unit, ('e, 'f, 'p) event_world) outcome" where
  "add D e types handler data selector w =
     (if nodeType D e = 3 \<or> nodeType D e = 8 \<or> types = [] \<or> \<not> acceptData D e then Done () w
      else case handler of
        NoHandler \<Rightarrow> Done () w
      | Plain f \<Rightarrow> add_types D e types f None data selector w
      | Given g \<Rightarrow> add_types D e types (h_handler g) (Some g) data (h_selector g) w)"

section \<open>\<open>event.remove\<close>\<close>

text \<open>The loop over the handlers of one type, which steps back after each \<open>splice\<close>.\<close>

definition splice_out :: "nat \<Rightarrow> 'f handler_list \<Rightarrow> 'f handler_list" where
  "splice_out j l =
     l\<lparr>handlers := list_remove_at j (handlers l),
       delegateCount := (if chosen (h_selector (handlers l ! j)) then delegateCount l - 1 else delegateCount l)\<rparr>"

lemma splice_out_handlers [simp]: "handlers (splice_out j l) = list_remove_at j (handlers l)"
  by (simp add: splice_out_def)

function remove_loop :: "('f handle_obj \<Rightarrow> bool) \<Rightarrow> nat \<Rightarrow> 'f handler_list \<Rightarrow> 'f handler_list" where
  "remove_loop P j l =
     (if j < length (handlers l) then
        if P (handlers l ! j) then remove_loop P j (splice_out j l) else remove_loop P (Suc j) l
      else l)"
  by pat_completeness auto
termination
  by (relation "measure (\<lambda>(P, j, l). length (handlers l) - j)") (auto simp: list_remove_at_def)

declare remove_loop.simps [simp del]

definition removable ::
  "('e, 'f, 'p) event_world \<Rightarrow> string \<Rightarrow> 'f option \<Rightarrow> string option \<Rightarrow> bool \<Rightarrow> (string \<Rightarrow> bool) \<Rightarrow> 'f handle_obj \<Rightarrow> bool" where
  "removable w orig handler sel mapped test h \<longleftrightarrow>
     (mapped \<or> Some orig = h_origType h) \<and>
     (case handler of None \<Rightarrow> True | Some f \<Rightarrow> guids w f = Some (h_guid h)) \<and>
     test (h_namespace h) \<and>
     (\<not> chosen sel \<or> sel = h_selector h \<or> sel = Some ''**'' \<and> chosen (h_selector h))"

text \<open>One type with its namespaces. A function that the table inherits has an undefined first element.\<close>

definition namespace_test :: "regexps \<Rightarrow> string option \<Rightarrow> (string \<Rightarrow> bool) option" where
  "namespace_test R ns =
     (case ns of None \<Rightarrow> Some (\<lambda>_. True) | Some a \<Rightarrow> ns_regexp R (namespaces_of a))"

definition remove_type ::
  "'e page_dom \<Rightarrow> regexps \<Rightarrow> 'e \<Rightarrow> string \<Rightarrow> string option \<Rightarrow> 'f option \<Rightarrow> string option \<Rightarrow> bool \<Rightarrow>
   ('e, 'f, 'p) event_world \<Rightarrow> (unit, ('e, 'f, 'p) event_world) outcome" where
  "remove_type D R e orig ns handler sel mapped w =
     (let k = key (mapped_type D sel (Some orig))
      in case namespace_test R ns of
           None \<Rightarrow> Fail (SyntaxError ''Invalid regular expression'') w
         | Some test \<Rightarrow>
             (case dict_get (\<lambda>n. plainNames D n \<noteq> None) (map_of (table w e)) k of
                Absent \<Rightarrow> Done () w
              | Proto \<Rightarrow> if plainNames D k = Some 0 then Done () w else Fail TypeError w
              | Own l \<Rightarrow>
                  let l' = remove_loop (removable w orig handler sel mapped test) 0 l
                  in Done ()
                       (if handlers l' = [] \<and> handlers l \<noteq> [] then
                          tear_down e orig k (special_of D (Some orig)) (set_table e (AList.delete k (table w e)) w)
                        else set_table e (AList.update k l' (table w e)) w)))"

definition drop_if_empty :: "'e \<Rightarrow> ('e, 'f, 'p) event_world \<Rightarrow> ('e, 'f, 'p) event_world" where
  "drop_if_empty e w =
     (if table w e = [] then
        w\<lparr>tables := (tables w)(e := None),
          cached := (if otherData w e then cached w else removeAll e (cached w))\<rparr>
      else w)"

text \<open>
  A name without a type stands for all types of the element, each removed by a call of
  \<open>remove\<close> for the type followed by that name. The first argument bounds the depth of these
  calls: where it is used up the browser raises an error of its own.
\<close>

definition remove_all ::
  "(string \<Rightarrow> ('e, 'f, 'p) event_world \<Rightarrow> (unit, ('e, 'f, 'p) event_world) outcome) \<Rightarrow> 'e \<Rightarrow> string \<Rightarrow>
   ('e, 'f, 'p) event_world \<Rightarrow> (unit, ('e, 'f, 'p) event_world) outcome" where
  "remove_all again e t w =
     each (\<lambda>k w. if map_of (table w e) k = None then Done () w else again (k @ t) w) (map fst (table w e)) w"

fun remove ::
  "nat \<Rightarrow> 'e page_dom \<Rightarrow> regexps \<Rightarrow> 'e \<Rightarrow> string \<Rightarrow> 'f option \<Rightarrow> string option \<Rightarrow> bool \<Rightarrow>
   ('e, 'f, 'p) event_world \<Rightarrow> (unit, ('e, 'f, 'p) event_world) outcome" where
  "remove 0 D R e types handler sel mapped w = Fail (ErrorMsg ''Maximum call stack size exceeded'') w"
| "remove (Suc n) D R e types handler sel mapped w =
     (if tables w e = None then Done () w
      else andthen
        (each
          (\<lambda>t w. case rtypenamespace t of
             (None, _) \<Rightarrow> remove_all (\<lambda>ts. remove n D R e ts handler sel True) e t w
           | (Some orig, ns) \<Rightarrow> remove_type D R e orig ns handler sel mapped w)
          (event_names types) w)
        (\<lambda>_ w. Done () (drop_if_empty e w)))"

section \<open>What every table keeps\<close>

text \<open>
  The handlers with a selector lead, \<open>delegateCount\<close> is their number, and no type is kept
  without handlers.
\<close>

definition delegated :: "'f handle_obj \<Rightarrow> bool" where
  "delegated h \<longleftrightarrow> chosen (h_selector h)"

definition list_ok :: "'f handler_list \<Rightarrow> bool" where
  "list_ok l \<longleftrightarrow>
     (\<exists>ds rs. handlers l = ds @ rs \<and> delegateCount l = length ds \<and>
       list_all delegated ds \<and> list_all (\<lambda>h. \<not> delegated h) rs)"

definition table_ok :: "(string \<times> 'f handler_list) list \<Rightarrow> bool" where
  "table_ok tab \<longleftrightarrow>
     distinct (map fst tab) \<and> (\<forall>(k, l) \<in> set tab. list_ok l \<and> handlers l \<noteq> [])"

definition has_type :: "('e, 'f, 'p) event_world \<Rightarrow> string \<Rightarrow> 'e \<Rightarrow> bool" where
  "has_type w k e \<longleftrightarrow> k \<in> fst ` set (table w e)"

text \<open>
  The browser calls the handle of an element for exactly the types in its table, special types
  apart; the listener of the document that simulates \<open>focusin\<close> or \<open>focusout\<close> is there while an
  element has handlers for it.
\<close>

definition listening :: "'e page_dom \<Rightarrow> ('e, 'f, 'p) event_world \<Rightarrow> bool" where
  "listening D w \<longleftrightarrow>
     (\<forall>e k. (e, k) \<in> listeners w \<longleftrightarrow>
       has_type w k e \<and> setupHook (special_of D (Some k)) = NoSetup \<and> eventModel D e \<noteq> NoEvents)"

definition capturing :: "'e page_dom \<Rightarrow> ('e, 'f, 'p) event_world \<Rightarrow> bool" where
  "capturing D w \<longleftrightarrow>
     (\<forall>k orig. setupHook (special_of D (Some k)) = SetupCapture orig \<longrightarrow>
       (orig \<in> captures w \<longleftrightarrow> attaches w k > 0) \<and>
       finite {e. has_type w k e} \<and> int (card {e. has_type w k e}) \<le> attaches w k)"

definition world_ok :: "'e page_dom \<Rightarrow> ('e, 'f, 'p) event_world \<Rightarrow> bool" where
  "world_ok D w \<longleftrightarrow> (\<forall>e. table_ok (table w e)) \<and> listening D w \<and> capturing D w"

subsection \<open>Lists and tables\<close>

lemma list_ok_Nil: "list_ok \<lparr>handlers = [], delegateCount = 0\<rparr>"
  by (simp add: list_ok_def)

lemma list_ok_put:
  assumes "list_ok l" and "delegated h \<longleftrightarrow> chosen sel"
  shows "list_ok (put_handler sel h l)"
proof -
  from assms(1) obtain ds rs where l: "handlers l = ds @ rs" "delegateCount l = length ds"
    "list_all delegated ds" "list_all (\<lambda>h. \<not> delegated h) rs"
    by (auto simp: list_ok_def)
  show ?thesis
  proof (cases "chosen sel")
    case True
    then show ?thesis
      unfolding list_ok_def using l assms(2) by (intro exI [of _ "ds @ [h]"] exI [of _ rs]) (simp add: put_handler_def)
  next
    case False
    then show ?thesis
      unfolding list_ok_def using l assms(2) by (intro exI [of _ ds] exI [of _ "rs @ [h]"]) (simp add: put_handler_def)
  qed
qed

lemma put_handler_nonempty [simp]: "handlers (put_handler sel h l) \<noteq> []"
  by (simp add: put_handler_def)

lemma remove_at_front: "j < length xs \<Longrightarrow> list_remove_at j (xs @ ys) = list_remove_at j xs @ ys"
  by (simp add: list_remove_at_def)

lemma remove_at_back: "list_remove_at (length xs + j) (xs @ ys) = xs @ list_remove_at j ys"
  by (simp add: list_remove_at_def)

lemma length_remove_at: "j < length xs \<Longrightarrow> length (list_remove_at j xs) = length xs - 1"
  by (simp add: list_remove_at_def)

lemma all_remove_at: "list_all P xs \<Longrightarrow> list_all P (list_remove_at j xs)"
  using list_remove_at_subset by (fastforce simp: list_all_iff)

lemma list_ok_remove_at:
  assumes "list_ok l" and j: "j < length (handlers l)"
  shows "list_ok (splice_out j l)"
proof -
  from assms(1) obtain ds rs where l: "handlers l = ds @ rs" "delegateCount l = length ds"
    "list_all delegated ds" "list_all (\<lambda>h. \<not> delegated h) rs"
    by (auto simp: list_ok_def)
  show ?thesis
  proof (cases "j < length ds")
    case True
    then have "chosen (h_selector (handlers l ! j))"
      using l by (simp add: nth_append list_all_length delegated_def)
    with True l show ?thesis
      unfolding list_ok_def splice_out_def
      by (intro exI [of _ "list_remove_at j ds"] exI [of _ rs])
        (simp add: remove_at_front length_remove_at all_remove_at)
  next
    case False
    then obtain i where i: "j = length ds + i" by (metis le_add_diff_inverse not_less)
    then have "\<not> chosen (h_selector (handlers l ! j))"
      using l j by (simp add: nth_append list_all_length delegated_def)
    with i l show ?thesis
      unfolding list_ok_def splice_out_def
      by (intro exI [of _ ds] exI [of _ "list_remove_at i rs"])
        (simp add: remove_at_back all_remove_at)
  qed
qed

lemma list_ok_remove_loop: "list_ok l \<Longrightarrow> list_ok (remove_loop P j l)"
proof (induction P j l rule: remove_loop.induct)
  case (1 P j l)
  show ?case
    by (subst remove_loop.simps) (simp add: 1 list_ok_remove_at)
qed

lemma remove_loop_handlers:
  "handlers (remove_loop P j l) = take j (handlers l) @ filter (\<lambda>h. \<not> P h) (drop j (handlers l))"
proof (induction P j l rule: remove_loop.induct)
  case (1 P j l)
  show ?case
  proof (cases "j < length (handlers l)")
    case False
    then show ?thesis by (subst remove_loop.simps) simp
  next
    case True
    then have d: "drop j (handlers l) = handlers l ! j # drop (Suc j) (handlers l)"
      by (simp add: Cons_nth_drop_Suc)
    have t: "take (Suc j) (handlers l) = take j (handlers l) @ [handlers l ! j]"
      using True by (rule take_Suc_conv_app_nth)
    show ?thesis
      by (subst remove_loop.simps)
        (use 1 True in \<open>simp add: d t list_remove_at_def min_def\<close>)
  qed
qed

lemma table_ok_update:
  assumes "table_ok tab" and "list_ok l" and "handlers l \<noteq> []"
  shows "table_ok (AList.update k l tab)"
proof -
  have "set (AList.update k l tab) \<subseteq> insert (k, l) (set tab)"
    by (induction tab) auto
  with assms show ?thesis unfolding table_ok_def by (auto simp: distinct_update)
qed

lemma table_ok_delete: "table_ok tab \<Longrightarrow> table_ok (AList.delete k tab)"
proof -
  assume "table_ok tab"
  moreover have "set (AList.delete k tab) \<subseteq> set tab" by (auto simp: AList.delete_eq)
  ultimately show ?thesis unfolding table_ok_def by (blast intro: distinct_delete)
qed

lemma table_ok_lookup: "table_ok tab \<Longrightarrow> map_of tab k = Some l \<Longrightarrow> list_ok l \<and> handlers l \<noteq> []"
  by (auto simp: table_ok_def dest: map_of_SomeD)

lemma list_ok_split:
  "list_ok l \<Longrightarrow>
    handlers l = filter delegated (handlers l) @ filter (\<lambda>h. \<not> delegated h) (handlers l) \<and>
    delegateCount l = length (filter delegated (handlers l))"
proof -
  assume "list_ok l"
  then obtain ds rs where "handlers l = ds @ rs" "delegateCount l = length ds"
    "list_all delegated ds" "list_all (\<lambda>h. \<not> delegated h) rs"
    by (auto simp: list_ok_def)
  moreover from this have "filter delegated ds = ds" "filter delegated rs = []"
    "filter (\<lambda>h. \<not> delegated h) ds = []" "filter (\<lambda>h. \<not> delegated h) rs = rs"
    by (simp_all add: list_all_iff filter_id_conv filter_empty_conv)
  ultimately show ?thesis by simp
qed

lemma list_ok_count: "list_ok l \<Longrightarrow> delegateCount l = length (filter delegated (handlers l))"
  using list_ok_split by blast

subsection \<open>Worlds\<close>

lemma special_of_key: "special_of D (Some (key typ)) = special_of D typ"
  by (cases "typ") (simp_all add: special_of_def)

lemma special_setup:
  "setupHook (special_of D typ) =
     (if key typ = ''ready'' then SetupReady
      else if key typ = ''beforeunload'' then SetupUnload
      else if key typ = ''focusin'' \<and> \<not> focusinBubbles D then SetupCapture ''focus''
      else if key typ = ''focusout'' \<and> \<not> focusinBubbles D then SetupCapture ''blur''
      else NoSetup)"
  by (simp add: special_of_def Let_def plain_special_def)

lemma capture_inj:
  "setupHook (special_of D (Some k)) = SetupCapture c \<Longrightarrow>
   setupHook (special_of D (Some k')) = SetupCapture c \<Longrightarrow> k = k'"
  by (auto simp: special_setup split: if_splits)

lemma mapped_special:
  assumes "setupHook (special_of D (Some orig)) \<noteq> NoSetup"
  shows "mapped_type D sel (Some orig) = Some orig"
  using assms
  by (auto simp: special_setup mapped_type_def special_of_def plain_special_def split: if_splits)

lemma table_set [simp]: "table (set_table e tab w) e' = (if e' = e then tab else table w e')"
  by (simp add: table_def set_table_def)

lemma set_table_fields [simp]:
  "listeners (set_table e tab w) = listeners w" "captures (set_table e tab w) = captures w"
  "attaches (set_table e tab w) = attaches w"
  by (simp_all add: set_table_def)

lemma set_up_fields [simp]: "table (set_up D e k sp w) = table w"
  by (rule ext) (simp add: table_def set_up_def split: setup_hook.splits)

lemma tear_down_fields [simp]: "table (tear_down e orig k sp w) = table w"
  by (rule ext) (simp add: table_def tear_down_def Let_def split: setup_hook.splits)

lemma has_type_table: "has_type w k e \<longleftrightarrow> map_of (table w e) k \<noteq> None"
  by (simp add: has_type_def map_of_eq_None_iff)

lemma world_ok_same:
  assumes "world_ok D w" and "\<And>e. table w' e = table w e" and "listeners w' = listeners w"
    and "captures w' = captures w" and "attaches w' = attaches w"
  shows "world_ok D w'"
  using assms by (simp add: world_ok_def listening_def capturing_def has_type_def)

lemma world_ok_keep:
  assumes w: "world_ok D w" and tab: "table_ok tab" and keys: "fst ` set tab = fst ` set (table w e)"
  shows "world_ok D (set_table e tab w)"
proof -
  have "has_type (set_table e tab w) k = has_type w k" for k
    by (rule ext) (simp add: has_type_def keys)
  with w tab show ?thesis by (simp add: world_ok_def listening_def capturing_def)
qed

lemma card_insert_le_Suc:
  assumes "finite A" and "int (card A) \<le> n"
  shows "finite (insert e A) \<and> int (card (insert e A)) \<le> n + 1"
  using assms by (simp add: card_insert_if)

lemma world_ok_new:
  assumes w: "world_ok D w" and tab: "table_ok tab"
    and keys: "fst ` set tab = insert k (fst ` set (table w e))" and new: "\<not> has_type w k e"
  shows "world_ok D (set_up D e k (special_of D (Some k)) (set_table e tab w))"
proof -
  let ?w = "set_up D e k (special_of D (Some k)) (set_table e tab w)"
  have types: "has_type ?w k' e' \<longleftrightarrow> has_type w k' e' \<or> (k' = k \<and> e' = e)" for k' e'
    by (auto simp: has_type_def keys)
  have listen: "listening D ?w"
    unfolding listening_def
  proof (intro allI)
    fix e' k'
    have old: "(e', k') \<in> listeners w \<longleftrightarrow>
        has_type w k' e' \<and> setupHook (special_of D (Some k')) = NoSetup \<and> eventModel D e' \<noteq> NoEvents"
      using w by (simp add: world_ok_def listening_def)
    have "(e', k') \<in> listeners ?w \<longleftrightarrow> (e', k') \<in> listeners w \<or>
        (e' = e \<and> k' = k \<and> setupHook (special_of D (Some k)) = NoSetup \<and> eventModel D e \<noteq> NoEvents)"
      by (auto simp: set_up_def split: setup_hook.splits)
    then show "(e', k') \<in> listeners ?w \<longleftrightarrow>
        has_type ?w k' e' \<and> setupHook (special_of D (Some k')) = NoSetup \<and> eventModel D e' \<noteq> NoEvents"
      unfolding types using old by blast
  qed
  have capture: "capturing D ?w"
    unfolding capturing_def
  proof (intro allI impI)
    fix k' orig
    assume c: "setupHook (special_of D (Some k')) = SetupCapture orig"
    then have old: "(orig \<in> captures w \<longleftrightarrow> attaches w k' > 0)"
      "finite {e. has_type w k' e}" "int (card {e. has_type w k' e}) \<le> attaches w k'"
      using w by (simp_all add: world_ok_def capturing_def)
    show "(orig \<in> captures ?w \<longleftrightarrow> attaches ?w k' > 0) \<and>
        finite {e. has_type ?w k' e} \<and> int (card {e. has_type ?w k' e}) \<le> attaches ?w k'"
    proof (cases "k' = k")
      case True
      have s: "{e'. has_type ?w k' e'} = insert e {e'. has_type w k' e'}"
        unfolding types using True by auto
      have n: "attaches w k \<ge> 0" using old(3) True by (meson of_nat_0_le_iff order_trans)
      have a: "attaches ?w k' = attaches w k' + 1" "orig \<in> captures ?w"
        using c True old(1) n by (auto simp: set_up_def)
      show ?thesis
        unfolding s a(1) using a(2) n True card_insert_le_Suc [OF old(2,3), of e] by simp
    next
      case False
      have s: "{e'. has_type ?w k' e'} = {e'. has_type w k' e'}"
        unfolding types using False by auto
      have "attaches ?w k' = attaches w k'" "orig \<in> captures ?w \<longleftrightarrow> orig \<in> captures w"
        using False capture_inj [OF c] by (auto simp: set_up_def split: setup_hook.splits)
      with s old show ?thesis by simp
    qed
  qed
  have "table_ok (table ?w e')" for e'
    using w tab by (simp add: world_ok_def)
  with listen capture show ?thesis by (simp add: world_ok_def)
qed

lemma world_ok_gone:
  assumes w: "world_ok D w" and tab: "table_ok tab" and k: "k = key (mapped_type D sel (Some orig))"
    and keys: "fst ` set tab = fst ` set (table w e) - {k}" and had: "has_type w k e"
  shows "world_ok D (tear_down e orig k (special_of D (Some orig)) (set_table e tab w))"
proof -
  let ?s = "setupHook (special_of D (Some orig))"
  let ?w = "tear_down e orig k (special_of D (Some orig)) (set_table e tab w)"
  have same: "?s \<noteq> NoSetup \<Longrightarrow> k = orig"
    using k by (simp add: mapped_special)
  have types: "has_type ?w k' e' \<longleftrightarrow> has_type w k' e' \<and> \<not> (k' = k \<and> e' = e)" for k' e'
    by (auto simp: has_type_def keys)
  have listen: "listening D ?w"
    unfolding listening_def
  proof (intro allI)
    fix e' k'
    have old: "(e', k') \<in> listeners w \<longleftrightarrow>
        has_type w k' e' \<and> setupHook (special_of D (Some k')) = NoSetup \<and> eventModel D e' \<noteq> NoEvents"
      using w by (simp add: world_ok_def listening_def)
    have kept: "listeners ?w = listeners w \<and> ?s \<noteq> NoSetup \<or> listeners ?w = listeners w - {(e, k)}"
      by (auto simp: tear_down_def Let_def split: setup_hook.splits)
    then show "(e', k') \<in> listeners ?w \<longleftrightarrow>
        has_type ?w k' e' \<and> setupHook (special_of D (Some k')) = NoSetup \<and> eventModel D e' \<noteq> NoEvents"
      unfolding types using old same by auto
  qed
  have capture: "capturing D ?w"
    unfolding capturing_def
  proof (intro allI impI)
    fix k' c
    assume c: "setupHook (special_of D (Some k')) = SetupCapture c"
    then have old: "(c \<in> captures w \<longleftrightarrow> attaches w k' > 0)"
      "finite {e. has_type w k' e}" "int (card {e. has_type w k' e}) \<le> attaches w k'"
      using w by (simp_all add: world_ok_def capturing_def)
    show "(c \<in> captures ?w \<longleftrightarrow> attaches ?w k' > 0) \<and>
        finite {e. has_type ?w k' e} \<and> int (card {e. has_type ?w k' e}) \<le> attaches ?w k'"
    proof (cases "k' = orig")
      case True
      then have ko: "k = orig" using c same by simp
      have s: "{e'. has_type ?w k' e'} = {e'. has_type w k' e'} - {e}"
        unfolding types using True ko by auto
      have mem: "e \<in> {e'. has_type w k' e'}" using had True ko by simp
      then have "card {e'. has_type w k' e'} > 0" using old(2) by (auto simp: card_gt_0_iff)
      with mem have card: "int (card ({e'. has_type w k' e'} - {e})) = int (card {e'. has_type w k' e'}) - 1"
        "card {e'. has_type w k' e'} > 0"
        by (simp_all only: card_Diff_singleton of_nat_diff Suc_leI One_nat_def of_nat_Suc of_nat_0 add_0_right simp_thms)

      have a: "attaches ?w k' = attaches w k' - 1"
        "c \<in> captures ?w \<longleftrightarrow> c \<in> captures w \<and> attaches w k' - 1 \<noteq> 0"
        using c True by (auto simp: tear_down_def Let_def)
      show ?thesis
        unfolding s a card(1) using old card(2) by auto
    next
      case False
      have a: "attaches ?w k' = attaches w k'" "c \<in> captures ?w \<longleftrightarrow> c \<in> captures w"
        using False capture_inj [OF c] by (auto simp: tear_down_def Let_def split: setup_hook.splits)
      have sub: "{e'. has_type ?w k' e'} \<subseteq> {e'. has_type w k' e'}"
        unfolding types by auto
      have "card {e'. has_type ?w k' e'} \<le> card {e'. has_type w k' e'}"
        by (rule card_mono [OF old(2) sub])
      then show ?thesis
        unfolding a using old finite_subset [OF sub old(2)] by linarith
    qed
  qed
  have "table_ok (table ?w e')" for e'
    using w tab by (simp add: world_ok_def)
  with listen capture show ?thesis by (simp add: world_ok_def)
qed

subsection \<open>\<open>add\<close> and \<open>remove\<close> keep it\<close>

lemma put_keys: "fst ` set (AList.update k l tab) = insert k (fst ` set tab)"
  by (simp add: dom_update)

lemma delete_keys_set: "fst ` set (AList.delete k tab) = fst ` set tab - {k}"
  by (auto simp: AList.delete_eq image_iff)

lemma extend_obj_selector:
  "given = None \<or> (\<exists>g. given = Some g \<and> sel = h_selector g) \<Longrightarrow> h_selector obj = sel \<Longrightarrow>
    delegated (extend_obj obj given) \<longleftrightarrow> chosen sel"
  by (auto simp: extend_obj_def delegated_def or_else_def split: option.splits)

lemma world_ok_table: "world_ok D w \<Longrightarrow> table_ok (table w e)"
  by (simp add: world_ok_def)

lemma own_table: "dict_get inh (map_of tab) k = Own l \<Longrightarrow> map_of tab k = Some l"
  by (simp add: dict_get_Own)

lemma absent_table: "dict_get inh (map_of tab) k = Absent \<Longrightarrow> map_of tab k = None"
  by (simp add: dict_get_def split: option.splits if_splits)

lemma world_ok_used [simp]: "world_ok D (w\<lparr>used := u\<rparr>) \<longleftrightarrow> world_ok D w"
  by (simp add: world_ok_def listening_def capturing_def has_type_def table_def)

lemma world_ok_add_type:
  assumes w: "world_ok D w" and sel: "given = None \<or> (\<exists>g. given = Some g \<and> sel = h_selector g)"
  shows "world_ok D (final (add_type D e f g data sel given t w))"
proof -
  obtain orig ns where t: "rtypenamespace t = (orig, ns)" by fastforce
  let ?ty = "mapped_type D sel orig"
  let ?k = "key ?ty"
  define obj where "obj = extend_obj
    \<lparr>h_type = ?ty, h_origType = orig, h_data = data, h_handler = f, h_guid = g,
     h_selector = sel, h_namespace = namespace_text (case ns of None \<Rightarrow> [] | Some s \<Rightarrow> s)\<rparr> given"
  have obj: "delegated obj \<longleftrightarrow> chosen sel"
    unfolding obj_def by (rule extend_obj_selector [OF sel]) simp
  note add = add_type_def t Let_def obj_def [symmetric] prod.case
  show ?thesis
  proof (cases "dict_get (\<lambda>n. plainNames D n \<noteq> None) (map_of (table w e)) ?k")
    case Proto
    then show ?thesis using w unfolding add by simp
  next
    case (Own l)
    then have l: "map_of (table w e) ?k = Some l" by (rule own_table)
    then have in_tab: "?k \<in> fst ` set (table w e)" by (force dest: map_of_SomeD)
    have "table_ok (AList.update ?k (put_handler sel obj l) (table w e))"
      using table_ok_lookup [OF world_ok_table [OF w] l] obj
      by (intro table_ok_update world_ok_table [OF w] list_ok_put) simp_all
    then have "world_ok D (set_table e (AList.update ?k (put_handler sel obj l) (table w e)) w)"
      using in_tab by (intro world_ok_keep [OF w]) (simp_all add: put_keys insert_absorb)
    with Own show ?thesis unfolding add by simp
  next
    case Absent
    let ?l = "put_handler sel obj \<lparr>handlers = [], delegateCount = 0\<rparr>"
    have new: "\<not> has_type w ?k e"
      using absent_table [OF Absent] by (simp add: has_type_table)
    have "table_ok (AList.update ?k ?l (table w e))"
      using obj by (intro table_ok_update world_ok_table [OF w] list_ok_put list_ok_Nil) simp_all
    then have "world_ok D (set_up D e ?k (special_of D ?ty) (set_table e (AList.update ?k ?l (table w e)) w))"
      unfolding special_of_key [of D ?ty, symmetric]
      by (rule world_ok_new [OF w _ put_keys new])
    with Absent show ?thesis unfolding add by simp
  qed
qed

lemma world_ok_start: "world_ok D w \<Longrightarrow> world_ok D (start_data e w)"
  by (rule world_ok_same [of D w]) (auto simp: start_data_def set_table_def table_def split: option.splits)

lemma world_ok_guid: "need_guid f w = (g, w') \<Longrightarrow> world_ok D w \<Longrightarrow> world_ok D w'"
  by (rule world_ok_same [of D w]) (auto simp: need_guid_def table_def split: option.splits)

lemma world_ok_add_types:
  assumes w: "world_ok D w" and sel: "given = None \<or> (\<exists>g. given = Some g \<and> sel = h_selector g)"
  shows "world_ok D (final (add_types D e types f given data sel w))"
proof -
  obtain g w1 where g: "need_guid f w = (g, w1)" by fastforce
  have "world_ok D (start_data e w1)"
    by (rule world_ok_start [OF world_ok_guid [OF g w]])
  moreover have "\<And>t v. world_ok D v \<Longrightarrow> world_ok D (final (add_type D e f g data sel given t v))"
    by (rule world_ok_add_type [OF _ sel])
  ultimately show ?thesis
    unfolding add_types_def g Let_def prod.case by (intro final_each [of "world_ok D"])
qed

lemma world_ok_add [wf_intros]: "world_ok D w \<Longrightarrow> world_ok D (final (add D e types handler data sel w))"
  by (auto simp: add_def world_ok_add_types split: handler_arg.split)

lemma world_ok_remove_type:
  assumes w: "world_ok D w"
  shows "world_ok D (final (remove_type D R e orig ns handler sel mapped w))"
proof (cases "namespace_test R ns")
  case None
  then show ?thesis using w by (simp add: remove_type_def Let_def)
next
  case (Some test)
  let ?k = "key (mapped_type D sel (Some orig))"
  note remove = remove_type_def Let_def Some option.case
  show ?thesis
  proof (cases "dict_get (\<lambda>n. plainNames D n \<noteq> None) (map_of (table w e)) ?k")
    case Proto
    then show ?thesis using w unfolding remove by simp
  next
    case Absent
    then show ?thesis using w unfolding remove by simp
  next
    case (Own l)
    let ?l' = "remove_loop (removable w orig handler sel mapped test) 0 l"
    have l: "map_of (table w e) ?k = Some l" using Own by (rule own_table)
    then have in_tab: "?k \<in> fst ` set (table w e)" by (force dest: map_of_SomeD)
    have ok: "list_ok l" "handlers l \<noteq> []"
      using table_ok_lookup [OF world_ok_table [OF w] l] by simp_all
    show ?thesis
    proof (cases "handlers ?l' = []")
      case True
      have "has_type w ?k e" using l by (simp add: has_type_table)
      then have "world_ok D (tear_down e orig ?k (special_of D (Some orig)) (set_table e (AList.delete ?k (table w e)) w))"
        by (intro world_ok_gone [OF w table_ok_delete [OF world_ok_table [OF w]] refl delete_keys_set])
      with True ok(2) Own show ?thesis unfolding remove by simp
    next
      case False
      then have "world_ok D (set_table e (AList.update ?k ?l' (table w e)) w)"
        using in_tab ok list_ok_remove_loop
        by (intro world_ok_keep [OF w] table_ok_update world_ok_table [OF w])
          (simp_all add: put_keys insert_absorb)
      with False Own show ?thesis unfolding remove by simp
    qed
  qed
qed

lemma world_ok_drop: "world_ok D w \<Longrightarrow> world_ok D (drop_if_empty e w)"
  by (rule world_ok_same [of D w]) (auto simp: drop_if_empty_def table_def split: option.splits)

lemma world_ok_remove [wf_intros]:
  fixes w :: "('e, 'f, 'p) event_world"
  assumes "world_ok D w"
  shows "world_ok D (final (remove n D R e types handler sel mapped w))"
  using assms
proof (induction n arbitrary: types mapped w)
  case 0
  then show ?case by simp
next
  case (Suc n)
  have all: "world_ok D v \<Longrightarrow>
      world_ok D (final (remove_all (\<lambda>ts. remove n D R e ts handler sel True) e t v))" for t and v :: "('e, 'f, 'p) event_world"
    unfolding remove_all_def by (rule final_each [of "world_ok D"]) (use Suc.IH in simp_all)
  have one: "world_ok D v \<Longrightarrow> world_ok D (final (case rtypenamespace t of
      (None, _) \<Rightarrow> remove_all (\<lambda>ts. remove n D R e ts handler sel True) e t v
    | (Some orig, ns) \<Rightarrow> remove_type D R e orig ns handler sel mapped v))" for t and v :: "('e, 'f, 'p) event_world"
    by (auto split: prod.split option.split intro: all world_ok_remove_type)
  have "world_ok D (final (each
      (\<lambda>t w. case rtypenamespace t of
         (None, _) \<Rightarrow> remove_all (\<lambda>ts. remove n D R e ts handler sel True) e t w
       | (Some orig, ns) \<Rightarrow> remove_type D R e orig ns handler sel mapped w) (event_names types) w))"
    by (rule final_each [of "world_ok D", OF one Suc.prems])
  with Suc.prems show ?case
    unfolding remove.simps by (auto intro!: final_andthen [of "world_ok D"] world_ok_drop)
qed

section \<open>Before anything is bound\<close>

definition empty_world :: "'p \<Rightarrow> ('e, 'f, 'p) event_world" where
  "empty_world p =
     \<lparr>tables = \<lambda>_. None, cached = [], otherData = \<lambda>_. False, listeners = {}, beforeUnload = \<lambda>_. False,
      readyBinds = 0, attaches = \<lambda>_. 0, captures = {}, used = {}, guids = \<lambda>_. None, next_guid = 1,
      triggered = None, inline = \<lambda>_ _. None, page = p\<rparr>"

lemma world_ok_empty: "world_ok D (empty_world p)"
  by (simp add: world_ok_def table_ok_def listening_def capturing_def has_type_def table_def empty_world_def)

text \<open>
  A small page: a document 0 with an element 1 in it and an element 2 in that; 3 is the window.
\<close>

definition small_page :: "bool \<Rightarrow> nat page_dom" where
  "small_page bubbles =
     \<lparr>nodeType = \<lambda>e. (if e = 0 then 9 else 1), acceptData = \<lambda>_. True, isWindow = \<lambda>e. e = 3,
      ancestors = \<lambda>e. (if e = 2 then [1, 0] else if e = 1 then [0] else []),
      ownerDocument = \<lambda>e. (if e = 1 \<or> e = 2 then Some 0 else None), viewOf = \<lambda>_. 3,
      nodeName = \<lambda>e. (if e = 1 then ''UL'' else ''LI''), idAttr = \<lambda>_. None,
      classAttr = \<lambda>e. (if e = 2 then Some ''row'' else None), disabled = \<lambda>_. False, noWidth = \<lambda>_. False,
      sizzle = \<lambda>_ _. False, eventModel = \<lambda>_. AddEventListener, focusinBubbles = bubbles,
      plainNames = \<lambda>k. (if k = ''constructor'' then Some 1 else if k = ''toString'' then Some 0 else None)\<rparr>"

definition no_regexps :: regexps where
  "no_regexps = (\<lambda>_. None)"

text \<open>
  \<open>teardown\<close> of \<open>beforeunload\<close> never finds the handle it should compare with, so the window
  keeps calling it after the last handler is gone. A delegated \<open>focus\<close> is kept as \<open>focusin\<close>, but
  \<open>remove\<close> asks the special events for \<open>focus\<close> when it is over, so the listener of the document
  and its counter stay.
\<close>

lemma beforeunload_stays:
  fixes w :: "(nat, nat, unit) event_world"
  defines "w \<equiv> final (remove 2 (small_page True) no_regexps 3 ''beforeunload'' None None False
    (final (add (small_page True) 3 ''beforeunload'' (Plain 7) Undef None (empty_world ()))))"
  shows "tables w 3 = None \<and> beforeUnload w 3"
  unfolding w_def by code_simp

lemma focus_capture_stays:
  fixes w :: "(nat, nat, unit) event_world"
  defines "w \<equiv> final (remove 2 (small_page False) no_regexps 1 ''focus'' None (Some ''input'') False
    (final (add (small_page False) 1 ''focus'' (Plain 7) Undef (Some ''input'') (empty_world ()))))"
  shows "tables w 1 = None \<and> attaches w ''focusin'' = 1 \<and> ''focus'' \<in> captures w"
  unfolding w_def by code_simp

end
