(* ===== verification/JQ_Unbind.thy ===== *)
theory JQ_Unbind
  imports JQ_Event
begin

text \<open>
  What \<open>event.remove\<close> does to what \<open>event.add\<close> has done: it takes back a handler and leaves the
  element as it was; a name that ends in a dot makes it call itself for ever.
\<close>

section \<open>A name that ends in a dot\<close>

text \<open>
  For such a name the expression fails, so \<open>remove\<close> takes it for a name without a type and calls
  itself for every type of the element followed by the name, which ends in a dot again.
\<close>

lemma hoverHack_no_h: "CHR ''h'' \<notin> set s \<Longrightarrow> hoverHack s = s"
proof -
  have here: "CHR ''h'' \<notin> set s \<Longrightarrow> hover_here s = None" for s
    by (cases s) (auto simp: hover_here_def)
  have "CHR ''h'' \<notin> set s \<Longrightarrow> replace_hover b s = s" for b
  proof (induction s arbitrary: b)
    case Nil
    then show ?case by simp
  next
    case (Cons c cs)
    then have "rhoverHack b (c # cs) = None"
      using here [of "c # cs"] here [of cs] by (simp add: rhoverHack_def)
    with Cons show ?case by simp
  qed
  then show "CHR ''h'' \<notin> set s \<Longrightarrow> hoverHack s = s" by (simp add: hoverHack_def)
qed

definition simple_char :: "char \<Rightarrow> bool" where
  "simple_char c \<longleftrightarrow> c \<noteq> CHR ''h'' \<and> \<not> is_ws c"

lemma trim_no_ws: "\<forall>c \<in> set s. \<not> is_ws c \<Longrightarrow> str_trim s = s"
proof -
  assume "\<forall>c \<in> set s. \<not> is_ws c"
  then have "dropWhile is_ws s = s" "dropWhile is_ws (rev s) = rev s"
    by (intro dropWhile_id, cases s, simp_all, intro dropWhile_id, cases "rev s", simp, metis list.set_intros(1) list.sel(1) set_rev)
  then show ?thesis by (simp add: str_trim_def)
qed

lemma event_names_single:
  assumes "\<forall>c \<in> set s. simple_char c"
  shows "event_names s = [s]"
proof -
  have "is_ws CHR '' ''" by (simp add: is_ws_def)
  then have "CHR ''h'' \<notin> set s" "\<forall>c \<in> set s. \<not> is_ws c" "CHR '' '' \<notin> set s"
    using assms unfolding simple_char_def by blast+
  then show ?thesis
    by (simp add: event_names_def hoverHack_no_h trim_no_ws split_at_no_sep)
qed

lemma rtypenamespace_dotted:
  assumes "CHR ''.'' \<notin> set s"
  shows "rtypenamespace (s @ ''.'') = (None, None)"
proof -
  have all: "\<And>c. c \<in> set s \<Longrightarrow> c \<noteq> CHR ''.''" using assms by metis
  have "takeWhile (\<lambda>c. c \<noteq> CHR ''.'') (s @ ''.'') = s" "dropWhile (\<lambda>c. c \<noteq> CHR ''.'') (s @ ''.'') = ''.''"
    by (simp_all only: takeWhile_append2 [OF all] dropWhile_append2 [OF all])
      (simp_all only: takeWhile.simps dropWhile.simps simp_thms if_False append_Nil2)
  then show ?thesis by (simp only: rtypenamespace_def Let_def list.case simp_thms if_False prod.inject)
qed

lemma remove_dotted_deep:
  assumes "table w e = (k, l) # tab" and "\<forall>c \<in> set (k @ s). simple_char c \<and> c \<noteq> CHR ''.''"
  shows "\<exists>x. remove n D R e (s @ ''.'') handler sel mapped w = Fail x w"
  using assms(2)
proof (induction n arbitrary: s mapped)
  case 0
  then show ?case by simp
next
  case (Suc n)
  have dot: "simple_char CHR ''.''" by (simp add: simple_char_def is_ws_def)
  have "tables w e \<noteq> None" using assms(1) by (cases "tables w e") (simp_all add: table_def)
  moreover have "event_names (s @ ''.'') = [s @ ''.'']"
    by (rule event_names_single) (use Suc.prems dot in \<open>simp only: set_append ball_Un list.set ball_simps simp_thms, blast\<close>)
  moreover have "rtypenamespace (s @ ''.'') = (None, None)"
    by (rule rtypenamespace_dotted) (use Suc.prems in \<open>simp only: set_append ball_Un, blast\<close>)
  moreover obtain x where "remove n D R e ((k @ s) @ ''.'') handler sel True w = Fail x w"
    using Suc.IH [of "k @ s" True] Suc.prems by (simp only: set_append ball_Un) blast
  ultimately show ?case
    by (simp add: remove_all_def assms(1))
qed

text \<open>
  Unbinding a name that ends in a dot never gets anywhere: however deep the calls may nest, the
  depth is used up and nothing has been removed.
\<close>

theorem unbind_dotted_overflows:
  assumes "table w e = (''click'', l) # tab"
  shows "\<exists>x. remove n D R e ''click.'' handler sel mapped w = Fail x w"
proof -
  have "\<forall>c \<in> set (''click'' @ ''click''). simple_char c \<and> c \<noteq> CHR ''.''" by code_simp
  from remove_dotted_deep [OF assms this] show ?thesis by simp
qed

lemma unbind_dotted_overflows_witness:
  "\<exists>x. remove 50 (small_page True) no_regexps 1 ''click.'' None None False
     (set_table 1 [(''click'', \<lparr>handlers = [], delegateCount = 0\<rparr>)] (empty_world ()) :: (nat, nat, unit) event_world) =
   Fail x (set_table 1 [(''click'', \<lparr>handlers = [], delegateCount = 0\<rparr>)] (empty_world ()))"
  by (rule unbind_dotted_overflows) simp

text \<open>Names that have a type need one call.\<close>

lemma each_cong: "(\<And>x w. x \<in> set xs \<Longrightarrow> f x w = g x w) \<Longrightarrow> each f xs w = each g xs w"
proof (induction xs arbitrary: w)
  case Nil
  then show ?case by simp
next
  case (Cons x xs)
  then show ?case by (cases "g x w") simp_all
qed

lemma remove_typed:
  assumes "\<forall>t \<in> set (event_names types). fst (rtypenamespace t) \<noteq> None"
  shows "remove (Suc n) D R e types handler sel mapped w = remove (Suc m) D R e types handler sel mapped w"
proof -
  have "each (\<lambda>t w. case rtypenamespace t of
         (None, _) \<Rightarrow> remove_all (\<lambda>ts. remove n D R e ts handler sel True) e t w
       | (Some orig, ns) \<Rightarrow> remove_type D R e orig ns handler sel mapped w) (event_names types) w =
    each (\<lambda>t w. case rtypenamespace t of
         (None, _) \<Rightarrow> remove_all (\<lambda>ts. remove m D R e ts handler sel True) e t w
       | (Some orig, ns) \<Rightarrow> remove_type D R e orig ns handler sel mapped w) (event_names types) w"
    using assms by (intro each_cong) (auto split: prod.splits option.splits)
  then show ?thesis by simp
qed

section \<open>Unbinding undoes binding\<close>

lemma list_ok_eq: "list_ok l \<Longrightarrow> list_ok l' \<Longrightarrow> handlers l = handlers (l' :: 'f handler_list) \<Longrightarrow> l = l'"
  using list_ok_count [of l] list_ok_count [of l'] by (simp add: handler_list.equality)

lemma filter_put_handler:
  assumes "P h" and "\<forall>x \<in> set (handlers l). \<not> P x"
  shows "filter (\<lambda>x. \<not> P x) (handlers (put_handler sel h l)) = handlers l"
proof -
  have "filter (\<lambda>x. \<not> P x) xs = xs" if "set xs \<subseteq> set (handlers l)" for xs
    using assms(2) that by (auto simp: filter_id_conv)
  then show ?thesis
    using assms(1) by (simp add: put_handler_def set_take_subset set_drop_subset)
qed

lemma remove_put_handler:
  assumes ok: "list_ok l" and sel: "delegated h \<longleftrightarrow> chosen sel"
    and "P h" and "\<forall>x \<in> set (handlers l). \<not> P x"
  shows "remove_loop P 0 (put_handler sel h l) = l"
proof (rule list_ok_eq)
  show "list_ok (remove_loop P 0 (put_handler sel h l))"
    by (intro list_ok_remove_loop list_ok_put ok sel)
  show "handlers (remove_loop P 0 (put_handler sel h l)) = handlers l"
    by (simp add: remove_loop_handlers filter_put_handler [OF assms(3,4)])
qed (rule ok)

lemma update_back: "map_of tab k = Some l \<Longrightarrow> AList.update k l (AList.update k x tab) = tab"
  by (induction tab) auto

lemma delete_new: "map_of tab k = None \<Longrightarrow> AList.delete k (AList.update k x tab) = tab"
  by (simp add: delete_update_same map_of_eq_None_iff)

text \<open>A namespace matches itself.\<close>

lemma own_namespace:
  assumes "rtypenamespace t = (orig, ns)"
    and "\<And>a. ns = Some a \<Longrightarrow> list_all literal_name (namespaces_of a)"
  shows "\<exists>test. namespace_test R ns = Some test \<and> test (namespace_text (case ns of None \<Rightarrow> [] | Some s \<Rightarrow> s))"
proof (cases ns)
  case None
  then show ?thesis by (simp add: namespace_test_def)
next
  case (Some a)
  then have "list_all (\<lambda>c. \<not> is_line_end c) a"
    using assms(1) by (auto simp: rtypenamespace_def Let_def split: list.splits if_splits)
  from ns_regexp_subset [OF assms(2) [OF Some] this, of R] Some
  show ?thesis by (auto simp: namespace_test_def)
qed

lemma same_used: "used (set_up D e k sp w) = used w" "used (set_table e tab w) = used w"
  by (simp_all add: set_up_def set_table_def split: setup_hook.split)



end
