(* ===== verification/JQ_Dispatch.thy ===== *)
theory JQ_Dispatch
  imports JQ_Event
begin

text \<open>
  \<open>jquery-1.7.2.js\<close>, lines 2876 to 2902, 3104 to 3351, 3515 to 3590 and 3596 to 3622: event objects,
  \<open>event.dispatch\<close>, which calls the handlers of one element, and \<open>event.trigger\<close>, which visits the
  elements an event bubbles through.
\<close>

section \<open>Event objects\<close>

text \<open>
  What the browser's event keeps of \<open>preventDefault\<close> and \<open>stopPropagation\<close>: \<open>modern\<close> events have
  these methods, for the others the properties \<open>returnValue\<close> and \<open>cancelBubble\<close> count.
\<close>

record browser_event =
  modern :: bool
  defaultPrevented :: bool
  returnFalse :: bool
  stopped :: bool
  cancelBubble :: bool

text \<open>\<open>e_re\<close> is \<open>namespace_re\<close>; the last three fields are the three predicates of an event.\<close>

record ('e, 'f) js_event =
  e_type :: string
  originalEvent :: "browser_event option"
  target :: "'e option"
  currentTarget :: "'e option"
  delegateTarget :: "'e option"
  relatedTarget :: "'e option"
  button :: int
  e_data :: "'f jsv"
  handleObj :: "'f handle_obj option"
  e_result :: "'f jsv"
  isTrigger :: bool
  exclusive :: bool
  namespace :: string
  e_re :: "(string \<Rightarrow> bool) option"
  isDefaultPrevented :: bool
  isPropagationStopped :: bool
  isImmediatePropagationStopped :: bool

definition new_event :: "string \<Rightarrow> ('e, 'f) js_event" where
  "new_event typ =
     \<lparr>e_type = typ, originalEvent = None, target = None, currentTarget = None, delegateTarget = None,
      relatedTarget = None, button = 0, e_data = Undef, handleObj = None, e_result = Undef,
      isTrigger = False, exclusive = False, namespace = [], e_re = None,
      isDefaultPrevented = False, isPropagationStopped = False, isImmediatePropagationStopped = False\<rparr>"

text \<open>\<open>jQuery.Event\<close> on an event of the browser.\<close>

definition Event_from :: "string \<Rightarrow> browser_event \<Rightarrow> ('e, 'f) js_event" where
  "Event_from typ src =
     (new_event typ)\<lparr>originalEvent := Some src, isDefaultPrevented := defaultPrevented src \<or> returnFalse src\<rparr>"

definition preventDefault :: "('e, 'f) js_event \<Rightarrow> ('e, 'f) js_event" where
  "preventDefault ev =
     ev\<lparr>isDefaultPrevented := True,
       originalEvent := map_option
         (\<lambda>src. if modern src then src\<lparr>defaultPrevented := True\<rparr> else src\<lparr>returnFalse := True\<rparr>) (originalEvent ev)\<rparr>"

definition stopPropagation :: "('e, 'f) js_event \<Rightarrow> ('e, 'f) js_event" where
  "stopPropagation ev =
     ev\<lparr>isPropagationStopped := True,
       originalEvent := map_option
         (\<lambda>src. (if modern src then src\<lparr>stopped := True\<rparr> else src)\<lparr>cancelBubble := True\<rparr>) (originalEvent ev)\<rparr>"

definition stopImmediatePropagation :: "('e, 'f) js_event \<Rightarrow> ('e, 'f) js_event" where
  "stopImmediatePropagation ev = stopPropagation (ev\<lparr>isImmediatePropagationStopped := True\<rparr>)"

section \<open>Simple selectors\<close>

text \<open>
  \<open>rquickIs\<close>, the expression \<open>/^(\w*)(?:#([\w\-]+))?(?:\.([\w\-]+))?$/\<close>: a tag, an identifier and
  a class.
\<close>

definition word_or_dash :: "char \<Rightarrow> bool" where
  "word_or_dash c \<longleftrightarrow> is_word c \<or> c = CHR ''-''"

definition mark_part :: "char \<Rightarrow> string \<Rightarrow> string option \<times> string" where
  "mark_part m s =
     (case s of
        [] \<Rightarrow> (None, s)
      | c # cs \<Rightarrow>
          if c = m \<and> takeWhile word_or_dash cs \<noteq> []
          then (Some (takeWhile word_or_dash cs), dropWhile word_or_dash cs)
          else (None, s))"

definition quickParse :: "string \<Rightarrow> (string \<times> string option \<times> string option) option" where
  "quickParse s =
     (let (i, r) = mark_part CHR ''#'' (dropWhile is_word s);
          (c, r') = mark_part CHR ''.'' r
      in if r' = [] then Some (lower (takeWhile is_word s), i, c) else None)"

text \<open>
  The class is looked for with \<open>(?:^|\s)c(?:\s|$)\<close>. Without an attribute \<open>class\<close> the value is
  \<open>undefined\<close>, which the test turns into a text.
\<close>

definition class_here :: "string \<Rightarrow> string \<Rightarrow> bool" where
  "class_here c s = (case strip_prefix c s of None \<Rightarrow> False | Some r \<Rightarrow> r = [] \<or> is_ws (hd r))"

fun class_from :: "bool \<Rightarrow> string \<Rightarrow> string \<Rightarrow> bool" where
  "class_from at_start c [] = (at_start \<and> class_here c [])"
| "class_from at_start c (x # xs) =
     (at_start \<and> class_here c (x # xs) \<or> is_ws x \<and> class_here c xs \<or> class_from False c xs)"

definition quickIs :: "'e page_dom \<Rightarrow> 'e \<Rightarrow> string \<times> string option \<times> string option \<Rightarrow> bool" where
  "quickIs D e m =
     (case m of (tag, i, c) \<Rightarrow>
        (tag = [] \<or> lower (nodeName D e) = tag) \<and>
        (case i of None \<Rightarrow> True | Some v \<Rightarrow> idAttr D e = Some v) \<and>
        (case c of None \<Rightarrow> True
         | Some v \<Rightarrow> class_from True v (case classAttr D e of None \<Rightarrow> ''undefined'' | Some s \<Rightarrow> s)))"

definition selects :: "'e page_dom \<Rightarrow> 'e \<Rightarrow> string \<Rightarrow> bool" where
  "selects D e sel = (case quickParse sel of Some m \<Rightarrow> quickIs D e m | None \<Rightarrow> sizzle D sel e)"

lemma quickIs_undefined:
  assumes "classAttr D e = None"
  shows "selects D e ''.undefined''"
proof -
  have "quickParse ''.undefined'' = Some ([], None, Some ''undefined'')"
    "class_from True ''undefined'' ''undefined''" by code_simp+
  then show ?thesis using assms by (simp add: selects_def quickIs_def)
qed

section \<open>Which handlers run\<close>

text \<open>
  The handlers among the delegated ones that match an element, with the answers already known
  kept by selector.
\<close>

definition selector_text :: "'f handle_obj \<Rightarrow> string" where
  "selector_text h = (case h_selector h of None \<Rightarrow> ''undefined'' | Some s \<Rightarrow> s)"

fun match_loop :: "'e page_dom \<Rightarrow> 'e \<Rightarrow> (string \<rightharpoonup> bool) \<Rightarrow> 'f handle_obj list \<Rightarrow> 'f handle_obj list" where
  "match_loop D e selMatch [] = []"
| "match_loop D e selMatch (h # hs) =
     (let sel = selector_text h;
          (m, selMatch') =
            (case dict_get (\<lambda>n. plainNames D n \<noteq> None) selMatch sel of
               Own b \<Rightarrow> (b, selMatch)
             | Proto \<Rightarrow> (True, selMatch)
             | Absent \<Rightarrow> (selects D e sel, selMatch(sel \<mapsto> selects D e sel)))
      in (if m then [h] else []) @ match_loop D e selMatch' hs)"

definition delegate_queue ::
  "'e page_dom \<Rightarrow> 'e list \<Rightarrow> 'f handle_obj list \<Rightarrow> ('e \<times> 'f handle_obj list) list" where
  "delegate_queue D path hs =
     filter (\<lambda>q. snd q \<noteq> [])
       (map (\<lambda>cur. (cur, match_loop D cur Map.empty hs)) (filter (\<lambda>cur. \<not> disabled D cur) path))"

definition handler_queue ::
  "'e page_dom \<Rightarrow> 'f handler_list \<Rightarrow> 'e \<Rightarrow> ('e, 'f) js_event \<Rightarrow> ('e \<times> 'f handle_obj list) list option" where
  "handler_queue D l this ev =
     (let direct =
            (if length (handlers l) > delegateCount l then [(this, drop (delegateCount l) (handlers l))] else [])
      in if delegateCount l \<noteq> 0 \<and> \<not> (button ev \<noteq> 0 \<and> e_type ev = ''click'') then
           map_option
             (\<lambda>t. delegate_queue D (takeWhile (\<lambda>c. c \<noteq> this) (t # ancestors D t))
                    (take (delegateCount l) (handlers l)) @ direct)
             (target ev)
         else Some direct)"

section \<open>\<open>event.dispatch\<close>\<close>

text \<open>What a handler may be: a change of the event and the world that returns a value or raises.\<close>

type_synonym ('e, 'f, 'p) scene = "('e, 'f) js_event \<times> ('e, 'f, 'p) event_world"

type_synonym ('e, 'f, 'p) callee =
  "'f \<Rightarrow> 'e \<Rightarrow> 'f jsv list \<Rightarrow> ('e, 'f, 'p) scene \<Rightarrow> ('f jsv, ('e, 'f, 'p) scene) outcome"

definition contains :: "'e page_dom \<Rightarrow> 'e \<Rightarrow> 'e \<Rightarrow> bool" where
  "contains D a b \<longleftrightarrow> a \<in> set (ancestors D b)"

text \<open>\<open>handle\<close> of \<open>mouseenter\<close> and \<open>mouseleave\<close>, which are bound as \<open>fix\<close>.\<close>

definition mouse_handle ::
  "'e page_dom \<Rightarrow> ('e, 'f, 'p) callee \<Rightarrow> string \<Rightarrow> 'f handle_obj \<Rightarrow> 'e \<Rightarrow> 'f jsv list \<Rightarrow>
   ('e, 'f, 'p) scene \<Rightarrow> ('f jsv, ('e, 'f, 'p) scene) outcome" where
  "mouse_handle D E fix_type h this args s =
     (case s of (ev, w) \<Rightarrow>
        if (case relatedTarget ev of None \<Rightarrow> True | Some r \<Rightarrow> r \<noteq> this \<and> \<not> contains D this r) then
          andthen (E (h_handler h) this args (ev\<lparr>e_type := key (h_origType h)\<rparr>, w))
            (\<lambda>ret (ev', w'). Done ret (ev'\<lparr>e_type := fix_type\<rparr>, w'))
        else Done Undef s)"

definition call_handler ::
  "'e page_dom \<Rightarrow> ('e, 'f, 'p) callee \<Rightarrow> 'f handle_obj \<Rightarrow> 'e \<Rightarrow> 'f jsv list \<Rightarrow>
   ('e, 'f, 'p) scene \<Rightarrow> ('f jsv, ('e, 'f, 'p) scene) outcome" where
  "call_handler D E h this args s =
     (case bindType (special_of D (h_origType h)) of
        Some fix_type \<Rightarrow>
          if mouse (special_of D (h_origType h)) then mouse_handle D E fix_type h this args s
          else E (h_handler h) this args s
      | None \<Rightarrow> E (h_handler h) this args s)"

definition after_return :: "'f jsv \<Rightarrow> ('e, 'f) js_event \<Rightarrow> ('e, 'f) js_event" where
  "after_return ret ev =
     (if ret = Undef then ev
      else if ret = Bool False then stopPropagation (preventDefault (ev\<lparr>e_result := ret\<rparr>))
      else ev\<lparr>e_result := ret\<rparr>)"

definition wanted :: "bool \<Rightarrow> ('e, 'f) js_event \<Rightarrow> 'f handle_obj \<Rightarrow> bool" where
  "wanted run_all ev h \<longleftrightarrow>
     run_all \<or> (namespace ev = [] \<and> h_namespace h = []) \<or>
     (case e_re ev of None \<Rightarrow> False | Some test \<Rightarrow> test (h_namespace h))"

fun run_matches ::
  "'e page_dom \<Rightarrow> ('e, 'f, 'p) callee \<Rightarrow> bool \<Rightarrow> 'e \<Rightarrow> 'f jsv list \<Rightarrow> 'f handle_obj list \<Rightarrow>
   ('e, 'f, 'p) scene \<Rightarrow> (unit, ('e, 'f, 'p) scene) outcome" where
  "run_matches D E run_all this args [] s = Done () s"
| "run_matches D E run_all this args (h # hs) (ev, w) =
     (if isImmediatePropagationStopped ev then Done () (ev, w)
      else if wanted run_all ev h then
        andthen (call_handler D E h this args (ev\<lparr>e_data := h_data h, handleObj := Some h\<rparr>, w))
          (\<lambda>ret (ev', w'). run_matches D E run_all this args hs (after_return ret ev', w'))
      else run_matches D E run_all this args hs (ev, w))"

fun run_queue ::
  "'e page_dom \<Rightarrow> ('e, 'f, 'p) callee \<Rightarrow> bool \<Rightarrow> 'f jsv list \<Rightarrow> ('e \<times> 'f handle_obj list) list \<Rightarrow>
   ('e, 'f, 'p) scene \<Rightarrow> (unit, ('e, 'f, 'p) scene) outcome" where
  "run_queue D E run_all args [] s = Done () s"
| "run_queue D E run_all args ((cur, hs) # q) (ev, w) =
     (if isPropagationStopped ev then Done () (ev, w)
      else andthen (run_matches D E run_all cur args hs (ev\<lparr>currentTarget := Some cur\<rparr>, w))
        (\<lambda>_. run_queue D E run_all args q))"

definition dispatch ::
  "'e page_dom \<Rightarrow> ('e, 'f, 'p) callee \<Rightarrow> 'e \<Rightarrow> 'f jsv list \<Rightarrow>
   ('e, 'f, 'p) scene \<Rightarrow> ('f jsv, ('e, 'f, 'p) scene) outcome" where
  "dispatch D E this args s =
     (case s of (ev, w) \<Rightarrow>
        let l = (case map_of (table w this) (e_type ev) of
                   None \<Rightarrow> \<lparr>handlers = [], delegateCount = 0\<rparr> | Some l \<Rightarrow> l);
            run_all = (\<not> exclusive ev \<and> namespace ev = []);
            ev1 = ev\<lparr>delegateTarget := Some this\<rparr>
        in case handler_queue D l this ev1 of
             None \<Rightarrow> Fail TypeError (ev1, w)
           | Some q \<Rightarrow>
               andthen (run_queue D E run_all args q (ev1, w)) (\<lambda>_ (ev2, w2). Done (e_result ev2) (ev2, w2)))"

text \<open>The function registered with the browser, \<open>_data(elem).handle\<close>.\<close>

definition event_handle ::
  "'e page_dom \<Rightarrow> ('e, 'f, 'p) callee \<Rightarrow> 'e \<Rightarrow> 'f jsv list \<Rightarrow>
   ('e, 'f, 'p) scene \<Rightarrow> ('f jsv, ('e, 'f, 'p) scene) outcome" where
  "event_handle D E e args s =
     (if triggered (snd s) \<noteq> Some (e_type (fst s)) then dispatch D E e args s else Done Undef s)"

section \<open>\<open>event.trigger\<close>\<close>

text \<open>\<open>rfocusMorph\<close>\<close>

definition rfocusMorph :: "string \<Rightarrow> bool" where
  "rfocusMorph s \<longleftrightarrow> s = ''focusinfocus'' \<or> s = ''focusoutblur''"

text \<open>The type, whether it had an exclamation mark, and the sorted namespaces.\<close>

definition trigger_type :: "string \<Rightarrow> string \<times> bool \<times> string list" where
  "trigger_type typ =
     (let exclusive = CHR ''!'' \<in> set typ;
          t = (if exclusive then butlast typ else typ)
      in if CHR ''.'' \<in> set t then (hd (split_at CHR ''.'' t), exclusive, sort (tl (split_at CHR ''.'' t)))
         else (t, exclusive, []))"

definition customEvent :: "'e page_dom \<Rightarrow> string \<Rightarrow> bool" where
  "customEvent D typ \<longleftrightarrow> typ \<in> {''getData'', ''setData'', ''changeData''} \<or> plainNames D typ \<noteq> None"

definition ever_used :: "'e page_dom \<Rightarrow> ('e, 'f, 'p) event_world \<Rightarrow> string \<Rightarrow> bool" where
  "ever_used D w typ \<longleftrightarrow> typ \<in> used w \<or> plainNames D typ \<noteq> None"

text \<open>The event is given by its name or as an event object.\<close>

datatype ('e, 'f) given_event = Name string | Event "('e, 'f) js_event"

definition given_type :: "('e, 'f) given_event \<Rightarrow> string" where
  "given_type arg = (case arg of Name t \<Rightarrow> t | Event ev \<Rightarrow> e_type ev)"

text \<open>The event object a call of \<open>trigger\<close> works with, unless an expression is ill-formed.\<close>

definition make_event :: "regexps \<Rightarrow> ('e, 'f) given_event \<Rightarrow> ('e, 'f) js_event option" where
  "make_event R arg =
     (let (typ, excl, parts) = trigger_type (given_type arg);
          ev = (case arg of Name _ \<Rightarrow> new_event typ | Event ev \<Rightarrow> ev);
          ev1 = ev\<lparr>e_type := typ, isTrigger := True, exclusive := excl, namespace := join ''.'' parts\<rparr>
      in if namespace ev1 = [] then Some (ev1\<lparr>e_re := None\<rparr>)
         else map_option (\<lambda>test. ev1\<lparr>e_re := Some test\<rparr>) (ns_regexp R parts))"

definition ontype :: "string \<Rightarrow> string option" where
  "ontype typ = (if CHR '':'' \<in> set typ then None else Some (''on'' @ typ))"

text \<open>The elements an event bubbles through, each with the type its handlers are kept under.\<close>

definition event_path :: "'e page_dom \<Rightarrow> string \<Rightarrow> 'e \<Rightarrow> bool \<Rightarrow> ('e \<times> string) list" where
  "event_path D typ elem onlyHandlers =
     (let special = special_of D (Some typ);
          own = (case bindType special of None \<Rightarrow> typ | Some t \<Rightarrow> t);
          bubbleType = (case delegateType special of None \<Rightarrow> typ | Some t \<Rightarrow> t);
          ups = (if rfocusMorph (bubbleType @ typ) then elem # ancestors D elem else ancestors D elem)
      in (elem, own) #
         (if onlyHandlers \<or> noBubble special \<or> isWindow D elem then []
          else map (\<lambda>cur. (cur, bubbleType)) ups @
            (if ups \<noteq> [] \<and> ownerDocument D elem = Some (last ups) then [(viewOf D (last ups), bubbleType)] else [])))"

definition call_inline ::
  "'e page_dom \<Rightarrow> ('e, 'f, 'p) callee \<Rightarrow> string option \<Rightarrow> 'e \<Rightarrow> 'f jsv list \<Rightarrow>
   ('e, 'f, 'p) scene \<Rightarrow> (unit, ('e, 'f, 'p) scene) outcome" where
  "call_inline D E on_name cur args s =
     (case (case on_name of None \<Rightarrow> None | Some k \<Rightarrow> inline (snd s) cur k) of
        None \<Rightarrow> Done () s
      | Some f \<Rightarrow>
          if acceptData D cur then
            andthen (E f cur args s)
              (\<lambda>ret (ev, w). Done () (if ret = Bool False then preventDefault ev else ev, w))
          else Done () s)"

fun fire_path ::
  "'e page_dom \<Rightarrow> ('e, 'f, 'p) callee \<Rightarrow> string option \<Rightarrow> 'f jsv list \<Rightarrow> ('e \<times> string) list \<Rightarrow>
   ('e, 'f, 'p) scene \<Rightarrow> (unit, ('e, 'f, 'p) scene) outcome" where
  "fire_path D E on_name args [] s = Done () s"
| "fire_path D E on_name args ((cur, typ) # path) (ev, w) =
     (if isPropagationStopped ev then Done () (ev, w)
      else
        let ev1 = ev\<lparr>e_type := typ\<rparr>;
            bound = (tables w cur \<noteq> None \<and>
              dict_get (\<lambda>n. plainNames D n \<noteq> None) (map_of (table w cur)) typ \<noteq> Absent)
        in andthen (if bound then event_handle D E cur args (ev1, w) else Done Undef (ev1, w))
             (\<lambda>_ s1. andthen (call_inline D E on_name cur args s1) (\<lambda>_. fire_path D E on_name args path)))"

text \<open>
  The default action is a method of the element with the name of the event, a parameter of the
  model. It runs while \<open>triggered\<close> is set, and without the function \<open>on...\<close> of the element.
\<close>

type_synonym ('e, 'f, 'p) methods =
  "'e \<Rightarrow> string \<Rightarrow> (('e, 'f, 'p) event_world \<Rightarrow> (unit, ('e, 'f, 'p) event_world) outcome) option"

definition run_method ::
  "(('e, 'f, 'p) event_world \<Rightarrow> (unit, ('e, 'f, 'p) event_world) outcome) \<Rightarrow> 'e \<Rightarrow> string \<Rightarrow> string \<Rightarrow>
   ('e, 'f, 'p) event_world \<Rightarrow> (unit, ('e, 'f, 'p) event_world) outcome" where
  "run_method m elem typ on_name w =
     (let old = inline w elem on_name;
          set_inline = (\<lambda>f w. w\<lparr>inline := (inline w)(elem := (inline w elem)(on_name := f))\<rparr>);
          w1 = (if old = None then w else set_inline None w)
      in andthen (m (w1\<lparr>triggered := Some typ\<rparr>))
           (\<lambda>_ w2. let w3 = w2\<lparr>triggered := None\<rparr> in Done () (if old = None then w3 else set_inline old w3)))"

definition default_action ::
  "'e page_dom \<Rightarrow> ('e, 'f, 'p) methods \<Rightarrow> string \<Rightarrow> 'e \<Rightarrow> ('e, 'f, 'p) scene \<Rightarrow> (unit, ('e, 'f, 'p) scene) outcome" where
  "default_action D N typ elem s =
     (case s of (ev, w) \<Rightarrow>
        if isDefaultPrevented ev \<or> typ = ''click'' \<and> lower (nodeName D elem) = ''a'' \<or> \<not> acceptData D elem then Done () s
        else case (ontype typ, N elem typ) of
          (Some on_name, Some m) \<Rightarrow>
            if (typ \<noteq> ''focus'' \<and> typ \<noteq> ''blur'' \<or> (case target ev of None \<Rightarrow> True | Some t \<Rightarrow> \<not> noWidth D t)) \<and> \<not> isWindow D elem
            then (case run_method m elem typ on_name w of
                    Done _ w' \<Rightarrow> Done () (ev, w') | Fail x w' \<Rightarrow> Fail x (ev, w'))
            else Done () s
        | _ \<Rightarrow> Done () s)"

text \<open>
  An event at an element. The value is the event afterwards, with its result; \<open>None\<close> is an
  early \<open>return\<close>, which leaves a given event as it is.
\<close>

definition trigger_at ::
  "'e page_dom \<Rightarrow> regexps \<Rightarrow> ('e, 'f, 'p) callee \<Rightarrow> ('e, 'f, 'p) methods \<Rightarrow> ('e, 'f) given_event \<Rightarrow> 'f jsv list \<Rightarrow>
   'e \<Rightarrow> bool \<Rightarrow> ('e, 'f, 'p) event_world \<Rightarrow> (('e, 'f) js_event option, ('e, 'f, 'p) event_world) outcome" where
  "trigger_at D R E N arg data elem onlyHandlers w =
     (let (typ, _, _) = trigger_type (given_type arg)
      in if nodeType D elem = 3 \<or> nodeType D elem = 8 \<or>
            rfocusMorph (given_type arg @ (case triggered w of None \<Rightarrow> ''undefined'' | Some t \<Rightarrow> t)) \<or>
            customEvent D typ \<and> \<not> ever_used D w typ
         then Done None w
         else case make_event R arg of
           None \<Rightarrow> Fail (SyntaxError ''Invalid regular expression'') w
         | Some ev \<Rightarrow>
             let ev1 = ev\<lparr>e_result := Undef, target := (if target ev = None then Some elem else target ev)\<rparr>;
                 done = andthen
                   (fire_path D E (ontype typ) data (event_path D typ elem onlyHandlers) (ev1, w))
                   (\<lambda>_ (ev2, w2).
                     (if onlyHandlers then Done () (ev2\<lparr>e_type := typ\<rparr>, w2)
                      else default_action D N typ elem (ev2\<lparr>e_type := typ\<rparr>, w2)))
             in case done of
                  Done _ s \<Rightarrow> Done (Some (fst s)) (snd s) | Fail x s \<Rightarrow> Fail x (snd s))"

text \<open>
  Without an element the event is triggered at every element that has handlers of its type, with
  one event object for all, whose type is now without namespaces.
\<close>

fun trigger_each ::
  "'e page_dom \<Rightarrow> regexps \<Rightarrow> ('e, 'f, 'p) callee \<Rightarrow> ('e, 'f, 'p) methods \<Rightarrow> string \<Rightarrow> 'f jsv list \<Rightarrow> 'e list \<Rightarrow>
   ('e, 'f) js_event \<Rightarrow> ('e, 'f, 'p) event_world \<Rightarrow> (unit, ('e, 'f, 'p) event_world) outcome" where
  "trigger_each D R E N typ data [] ev w = Done () w"
| "trigger_each D R E N typ data (e # es) ev w =
     (if tables w e \<noteq> None \<and> dict_get (\<lambda>n. plainNames D n \<noteq> None) (map_of (table w e)) typ \<noteq> Absent then
        andthen (trigger_at D R E N (Event ev) data e True w)
          (\<lambda>r. trigger_each D R E N typ data es (case r of None \<Rightarrow> ev | Some ev' \<Rightarrow> ev'))
      else trigger_each D R E N typ data es ev w)"

definition trigger ::
  "'e page_dom \<Rightarrow> regexps \<Rightarrow> ('e, 'f, 'p) callee \<Rightarrow> ('e, 'f, 'p) methods \<Rightarrow> ('e, 'f) given_event \<Rightarrow> 'f jsv list \<Rightarrow>
   'e option \<Rightarrow> bool \<Rightarrow> ('e, 'f, 'p) event_world \<Rightarrow> (('e, 'f) js_event option, ('e, 'f, 'p) event_world) outcome" where
  "trigger D R E N arg data elem onlyHandlers w =
     (case elem of
        Some e \<Rightarrow> trigger_at D R E N arg data e onlyHandlers w
      | None \<Rightarrow>
          let (typ, _, _) = trigger_type (given_type arg)
          in if rfocusMorph (given_type arg @ (case triggered w of None \<Rightarrow> ''undefined'' | Some t \<Rightarrow> t)) \<or>
                \<not> ever_used D w typ
             then Done None w
             else case make_event R arg of
               None \<Rightarrow> Fail (SyntaxError ''Invalid regular expression'') w
             | Some ev \<Rightarrow> andthen (trigger_each D R E N typ data (cached w) ev w) (\<lambda>_. Done None))"

text \<open>
  \<open>event.simulate\<close>: an event of another type that takes everything else from the donor, whose
  default action it prevents if its own was.
\<close>

definition simulated :: "string \<Rightarrow> ('e, 'f) js_event \<Rightarrow> ('e, 'f) js_event" where
  "simulated typ donor =
     donor\<lparr>e_type := typ, originalEvent := Some
       \<lparr>modern = False, defaultPrevented = False, returnFalse = False, stopped = False, cancelBubble = False\<rparr>\<rparr>"

definition simulate ::
  "'e page_dom \<Rightarrow> regexps \<Rightarrow> ('e, 'f, 'p) callee \<Rightarrow> ('e, 'f, 'p) methods \<Rightarrow> string \<Rightarrow> 'e \<Rightarrow> ('e, 'f) js_event \<Rightarrow> bool \<Rightarrow>
   ('e, 'f, 'p) event_world \<Rightarrow> (('e, 'f) js_event, ('e, 'f, 'p) event_world) outcome" where
  "simulate D R E N typ elem donor bubble w =
     (let e = simulated typ donor;
          after = (\<lambda>ev. if isDefaultPrevented ev then preventDefault donor else donor)
      in if bubble then
           andthen (trigger_at D R E N (Event e) [] elem False w)
             (\<lambda>r. Done (after (case r of None \<Rightarrow> e | Some ev \<Rightarrow> ev)))
         else (case dispatch D E elem [] (e, w) of
                 Done _ s \<Rightarrow> Done (after (fst s)) (snd s) | Fail x s \<Rightarrow> Fail x (snd s)))"

section \<open>The order of the calls\<close>

text \<open>
  The answers kept by selector are those the test would give again, so the loop is a filter.
\<close>

interpretation selector_memo: memo_table "\<lambda>m s. m s" "\<lambda>s b m. m(s \<mapsto> b)" "\<lambda>_ s b. b = selects D e s" for D e
  by unfold_locales auto

lemma match_loop_filter:
  assumes "\<forall>h \<in> set hs. plainNames D (selector_text h) = None"
    and "memo_consistent (\<lambda>m s. m s) (\<lambda>_ s b. b = selects D e s) m"
  shows "match_loop D e m hs = filter (\<lambda>h. selects D e (selector_text h)) hs"
  using assms
proof (induction hs arbitrary: m)
  case Nil
  then show ?case by simp
next
  case (Cons h hs)
  let ?s = "selector_text h"
  show ?case
  proof (cases "m ?s")
    case None
    have "memo_consistent (\<lambda>m s. m s) (\<lambda>_ s b. b = selects D e s) (m(?s \<mapsto> selects D e ?s))"
      by (rule selector_memo.store [OF Cons.prems(2)]) simp
    with Cons None show ?thesis by (simp add: dict_get_def)
  next
    case (Some b)
    then have "b = selects D e ?s" by (rule selector_memo.hit [OF Cons.prems(2)])
    with Cons Some show ?thesis by (simp add: dict_get_def)
  qed
qed

text \<open>
  A callee that notes who called what, and returns a value that depends on the function only.
\<close>

definition recorder :: "('f \<Rightarrow> 'f jsv) \<Rightarrow> ('e, 'f, ('e \<times> 'f) list) callee" where
  "recorder r f this args s =
     Done (r f) (fst s, (snd s)\<lparr>page := page (snd s) @ [(this, f)]\<rparr>)"

text \<open>
  The functions that should be called, by element, and the calls that are made: a function that
  returns \<open>false\<close> lets the others of its element run, but none after these.
\<close>

definition should_run ::
  "'e page_dom \<Rightarrow> ('e, 'f) js_event \<Rightarrow> 'f handle_obj list \<Rightarrow> 'e \<Rightarrow> 'e \<Rightarrow> ('e \<times> 'f list) list" where
  "should_run D ev hs this t =
     (let hs' = filter (wanted (\<not> exclusive ev \<and> namespace ev = []) ev) hs
      in map (\<lambda>cur. (cur, map h_handler (filter (\<lambda>h. delegated h \<and> selects D cur (selector_text h)) hs')))
           (filter (\<lambda>cur. \<not> disabled D cur) (takeWhile (\<lambda>c. c \<noteq> this) (t # ancestors D t))) @
         [(this, map h_handler (filter (\<lambda>h. \<not> delegated h) hs'))])"

fun calls_of :: "('f \<Rightarrow> 'f jsv) \<Rightarrow> ('e \<times> 'f list) list \<Rightarrow> ('e \<times> 'f) list" where
  "calls_of r [] = []"
| "calls_of r ((e, fs) # q) = map (Pair e) fs @ (if \<exists>f \<in> set fs. r f = Bool False then [] else calls_of r q)"

definition same_names :: "('e, 'f) js_event \<Rightarrow> ('e, 'f) js_event \<Rightarrow> bool" where
  "same_names ev ev' \<longleftrightarrow>
     namespace ev' = namespace ev \<and> e_re ev' = e_re ev \<and>
     isImmediatePropagationStopped ev' = isImmediatePropagationStopped ev"

lemma wanted_same: "same_names ev ev' \<Longrightarrow> wanted b ev' = wanted b ev"
  by (rule ext) (simp add: same_names_def wanted_def)

lemma same_names_trans: "same_names ev ev1 \<Longrightarrow> same_names ev1 ev2 \<Longrightarrow> same_names ev ev2"
  by (simp add: same_names_def)

lemma after_return_names:
  "same_names ev (after_return v (ev\<lparr>e_data := d, handleObj := h\<rparr>))"
  "isPropagationStopped (after_return v (ev\<lparr>e_data := d, handleObj := h\<rparr>)) \<longleftrightarrow>
     isPropagationStopped ev \<or> v = Bool False"
  by (simp_all add: same_names_def after_return_def stopPropagation_def preventDefault_def)

lemma call_handler_record:
  "\<not> mouse (special_of D (h_origType h)) \<Longrightarrow> call_handler D E h this args s = E (h_handler h) this args s"
  by (simp add: call_handler_def split: option.split)

lemma run_matches_record:
  assumes "\<forall>h \<in> set hs. \<not> mouse (special_of D (h_origType h))" and "\<not> isImmediatePropagationStopped ev"
  shows "\<exists>ev'. run_matches D (recorder r) b this args hs (ev, w) =
      Done () (ev', w\<lparr>page := page w @ map (Pair this) (map h_handler (filter (wanted b ev) hs))\<rparr>) \<and>
    same_names ev ev' \<and>
    (isPropagationStopped ev' \<longleftrightarrow>
      isPropagationStopped ev \<or> (\<exists>f \<in> set (map h_handler (filter (wanted b ev) hs)). r f = Bool False))"
  using assms
proof (induction hs arbitrary: ev w)
  case Nil
  then show ?case by (auto simp: same_names_def)
next
  case (Cons h hs)
  show ?case
  proof (cases "wanted b ev h")
    case False
    with Cons show ?thesis by simp
  next
    case True
    let ?ev = "after_return (r (h_handler h)) (ev\<lparr>e_data := h_data h, handleObj := Some h\<rparr>)"
    let ?w = "w\<lparr>page := page w @ [(this, h_handler h)]\<rparr>"
    have names: "same_names ev ?ev" by (rule after_return_names)
    then have imm: "\<not> isImmediatePropagationStopped ?ev"
      using Cons.prems(2) by (simp add: same_names_def)
    have rest: "\<forall>h \<in> set hs. \<not> mouse (special_of D (h_origType h))"
      using Cons.prems(1) by simp
    from Cons.IH [OF rest imm, of ?w] obtain ev' where ev':
      "run_matches D (recorder r) b this args hs (?ev, ?w) =
        Done () (ev', ?w\<lparr>page := page ?w @ map (Pair this) (map h_handler (filter (wanted b ev) hs))\<rparr>)"
      "same_names ?ev ev'"
      "isPropagationStopped ev' \<longleftrightarrow>
        isPropagationStopped ?ev \<or> (\<exists>f \<in> set (map h_handler (filter (wanted b ev) hs)). r f = Bool False)"
      unfolding wanted_same [OF names] by blast
    have "run_matches D (recorder r) b this args (h # hs) (ev, w) =
        run_matches D (recorder r) b this args hs (?ev, ?w)"
      using Cons.prems True by (simp add: call_handler_record recorder_def)
    then have "run_matches D (recorder r) b this args (h # hs) (ev, w) =
        Done () (ev', w\<lparr>page := page w @ map (Pair this) (map h_handler (filter (wanted b ev) (h # hs)))\<rparr>)"
      using True ev'(1) by simp
    moreover have "isPropagationStopped ev' \<longleftrightarrow>
        isPropagationStopped ev \<or> (\<exists>f \<in> set (map h_handler (filter (wanted b ev) (h # hs))). r f = Bool False)"
      using ev'(3) True by (auto simp: after_return_names(2))
    ultimately show ?thesis
      using same_names_trans [OF names ev'(2)] by blast
  qed
qed

lemma run_queue_record:
  assumes "\<forall>(c, hs) \<in> set q. \<forall>h \<in> set hs. \<not> mouse (special_of D (h_origType h))"
    and "\<not> isImmediatePropagationStopped ev" and "\<not> isPropagationStopped ev"
  shows "\<exists>ev'. run_queue D (recorder r) b args q (ev, w) =
    Done () (ev', w\<lparr>page := page w @
      calls_of r (map (\<lambda>(c, hs). (c, map h_handler (filter (wanted b ev) hs))) q)\<rparr>)"
  using assms
proof (induction q arbitrary: ev w)
  case Nil
  then show ?case by auto
next
  case (Cons p q)
  obtain c hs where p: "p = (c, hs)" by fastforce
  let ?ev = "ev\<lparr>currentTarget := Some c\<rparr>"
  have names: "same_names ev ?ev" by (simp add: same_names_def)
  have hs: "\<forall>h \<in> set hs. \<not> mouse (special_of D (h_origType h))" "\<not> isImmediatePropagationStopped ?ev"
    using Cons.prems p by auto
  from run_matches_record [OF hs, of r b c args w] obtain ev1 where ev1:
    "run_matches D (recorder r) b c args hs (?ev, w) =
      Done () (ev1, w\<lparr>page := page w @ map (Pair c) (map h_handler (filter (wanted b ev) hs))\<rparr>)"
    "same_names ?ev ev1"
    "isPropagationStopped ev1 \<longleftrightarrow> (\<exists>f \<in> set (map h_handler (filter (wanted b ev) hs)). r f = Bool False)"
    unfolding wanted_same [OF names] using Cons.prems(3) by auto
  let ?w = "w\<lparr>page := page w @ map (Pair c) (map h_handler (filter (wanted b ev) hs))\<rparr>"
  have n1: "same_names ev ev1" by (rule same_names_trans [OF names ev1(2)])
  show ?case
  proof (cases "isPropagationStopped ev1")
    case True
    then have "run_queue D (recorder r) b args q (ev1, ?w) = Done () (ev1, ?w)"
      by (cases q) auto
    with True show ?thesis
      using Cons.prems(3) ev1(1,3) by (auto simp: p)
  next
    case False
    have "\<not> isImmediatePropagationStopped ev1" using n1 Cons.prems(2) by (simp add: same_names_def)
    with Cons.IH [of ev1 ?w] False Cons.prems(1) obtain ev' where
      "run_queue D (recorder r) b args q (ev1, ?w) =
        Done () (ev', ?w\<lparr>page := page ?w @
          calls_of r (map (\<lambda>(c, hs). (c, map h_handler (filter (wanted b ev) hs))) q)\<rparr>)"
      unfolding wanted_same [OF n1] by auto
    with False show ?thesis
      using Cons.prems(3) ev1(1,3) by (auto simp: p)
  qed
qed

lemma calls_of_nonempty:
  assumes "F [] = []"
  shows "calls_of r (map (\<lambda>(c, hs). (c, F hs)) (filter (\<lambda>p. snd p \<noteq> []) q)) = calls_of r (map (\<lambda>(c, hs). (c, F hs)) q)"
  using assms by (induction q) auto

lemma handler_queue_ok:
  assumes ok: "list_ok l" and names: "\<forall>h \<in> set (handlers l). plainNames D (selector_text h) = None"
    and "target ev = Some t" and "button ev = 0 \<or> e_type ev \<noteq> ''click''"
  shows "handler_queue D l this ev = Some (filter (\<lambda>p. snd p \<noteq> [])
    (map (\<lambda>cur. (cur, filter (\<lambda>h. selects D cur (selector_text h)) (filter delegated (handlers l))))
       (filter (\<lambda>cur. \<not> disabled D cur) (takeWhile (\<lambda>c. c \<noteq> this) (t # ancestors D t))) @
     [(this, filter (\<lambda>h. \<not> delegated h) (handlers l))]))"
proof -
  have parts: "take (delegateCount l) (handlers l) = filter delegated (handlers l)"
    "drop (delegateCount l) (handlers l) = filter (\<lambda>h. \<not> delegated h) (handlers l)"
    using list_ok_split [OF ok] by (metis append_eq_conv_conj)+
  have direct: "(if delegateCount l < length (handlers l) then [(this, drop (delegateCount l) (handlers l))] else []) =
      filter (\<lambda>p. snd p \<noteq> []) [(this, filter (\<lambda>h. \<not> delegated h) (handlers l))]"
    unfolding parts(2) [symmetric] by simp
  have loop: "match_loop D cur Map.empty (filter delegated (handlers l)) =
      filter (\<lambda>h. selects D cur (selector_text h)) (filter delegated (handlers l))" for cur
    by (rule match_loop_filter) (use names in \<open>auto simp: memo_consistent_def\<close>)
  show ?thesis
  proof (cases "delegateCount l = 0")
    case True
    then have "filter delegated (handlers l) = []" using parts(1) by simp
    with True show ?thesis
      using assms(3) by (simp add: handler_queue_def direct [simplified True] parts(2) [simplified True] filter_empty_conv)
  next
    case False
    then show ?thesis
      using assms(3,4) unfolding handler_queue_def Let_def direct parts(1) delegate_queue_def loop by simp
  qed
qed

lemma wanted_groups:
  "map (\<lambda>(c, hs). (c, map g (filter W hs)))
     (map (\<lambda>c. (c, filter (S c) (filter P H))) path @ [(this, filter Q H)]) =
   map (\<lambda>c. (c, map g (filter (\<lambda>h. P h \<and> S c h) (filter W H)))) path @
     [(this, map g (filter Q (filter W H)))]"
  by (simp add: conj_ac)



end
