(* ===== verification/JQ_Event_Fix.thy ===== *)
theory JQ_Event_Fix
  imports JQ_Dispatch
begin

unbundle bit_operations_syntax

text \<open>
  \<open>jquery-1.7.2.js\<close>, lines 3355 to 3438: \<open>event.fix\<close>, which makes an event object from an event of
  the browser, with the hooks for keys and the mouse that lines 3929 to 3935 choose.
\<close>

section \<open>Events of the browser\<close>

datatype 'e native = Missing | Nothing | Amount int | Truth bool | Text string | Elem 'e

fun native_truthy :: "'e native \<Rightarrow> bool" where
  "native_truthy Missing = False"
| "native_truthy Nothing = False"
| "native_truthy (Amount n) = (n \<noteq> 0)"
| "native_truthy (Truth b) = b"
| "native_truthy (Text s) = (s \<noteq> [])"
| "native_truthy (Elem _) = True"

definition native_null :: "'e native \<Rightarrow> bool" where
  "native_null v \<longleftrightarrow> v = Missing \<or> v = Nothing"

fun amount :: "'e native \<Rightarrow> int" where
  "amount (Amount n) = n"
| "amount (Truth b) = (if b then 1 else 0)"
| "amount _ = 0"

type_synonym 'e props = "string \<Rightarrow> 'e native"

text \<open>
  How far the root element and the body of a document are scrolled, and the width of their left
  and upper border; a document may be without either.
\<close>

record frame =
  scrollLeft :: int
  scrollTop :: int
  clientLeft :: int
  clientTop :: int

record 'e frames =
  documentElement :: "'e \<Rightarrow> frame option"
  body :: "'e \<Rightarrow> frame option"
  theDocument :: 'e
  timeNow :: int

section \<open>\<open>event.fix\<close>\<close>

definition event_props :: "string list" where
  "event_props =
     [''attrChange'', ''attrName'', ''relatedNode'', ''srcElement'', ''altKey'', ''bubbles'', ''cancelable'',
      ''ctrlKey'', ''currentTarget'', ''eventPhase'', ''metaKey'', ''relatedTarget'', ''shiftKey'', ''target'',
      ''timeStamp'', ''view'', ''which'']"

definition key_props :: "string list" where
  "key_props = [''char'', ''charCode'', ''key'', ''keyCode'']"

definition mouse_props :: "string list" where
  "mouse_props =
     [''button'', ''buttons'', ''clientX'', ''clientY'', ''fromElement'', ''offsetX'', ''offsetY'', ''pageX'',
      ''pageY'', ''screenX'', ''screenY'', ''toElement'']"

datatype fix_hook = KeyHooks | MouseHooks | NoHooks

definition fixHooks :: "string \<Rightarrow> fix_hook" where
  "fixHooks typ =
     (if typ \<in> {''keydown'', ''keypress'', ''keyup''} then KeyHooks
      else if typ \<in> {''click'', ''dblclick'', ''mousedown'', ''mouseup'', ''mousemove'', ''mouseover'', ''mouseout'',
        ''mouseenter'', ''mouseleave'', ''contextmenu''} then MouseHooks
      else NoHooks)"

definition hook_props :: "fix_hook \<Rightarrow> string list" where
  "hook_props h = (case h of KeyHooks \<Rightarrow> key_props | MouseHooks \<Rightarrow> mouse_props | NoHooks \<Rightarrow> [])"

definition key_filter :: "'e props \<Rightarrow> 'e props \<Rightarrow> 'e props" where
  "key_filter ev original =
     (if native_null (ev ''which'')
      then ev(''which'' := (if native_null (original ''charCode'') then original ''keyCode'' else original ''charCode''))
      else ev)"

text \<open>\<open>doc && doc.scrollLeft || body && body.scrollLeft || 0\<close>\<close>

definition first_of :: "(frame \<Rightarrow> int) \<Rightarrow> frame option \<Rightarrow> frame option \<Rightarrow> int" where
  "first_of f doc b =
     (case doc of
        Some d \<Rightarrow> if f d \<noteq> 0 then f d else (case b of Some x \<Rightarrow> f x | None \<Rightarrow> 0)
      | None \<Rightarrow> (case b of Some x \<Rightarrow> f x | None \<Rightarrow> 0))"

definition button_which :: "int \<Rightarrow> int" where
  "button_which b = (if b AND 1 \<noteq> 0 then 1 else if b AND 2 \<noteq> 0 then 3 else if b AND 4 \<noteq> 0 then 2 else 0)"

definition page_position :: "'e page_dom \<Rightarrow> 'e frames \<Rightarrow> 'e props \<Rightarrow> 'e props \<Rightarrow> 'e props" where
  "page_position D F ev original =
     (if native_null (ev ''pageX'') \<and> \<not> native_null (original ''clientX'') then
        let d = (case ev ''target'' of
                   Elem t \<Rightarrow> (case ownerDocument D t of Some d \<Rightarrow> d | None \<Rightarrow> theDocument F)
                 | _ \<Rightarrow> theDocument F);
            doc = documentElement F d; b = body F d
        in ev(''pageX'' := Amount (amount (original ''clientX'') + first_of scrollLeft doc b - first_of clientLeft doc b),
              ''pageY'' := Amount (amount (original ''clientY'') + first_of scrollTop doc b - first_of clientTop doc b))
      else ev)"

definition mouse_filter :: "'e page_dom \<Rightarrow> 'e frames \<Rightarrow> 'e props \<Rightarrow> 'e props \<Rightarrow> 'e props" where
  "mouse_filter D F ev original =
     (let ev1 = page_position D F ev original;
          ev2 = (if \<not> native_truthy (ev1 ''relatedTarget'') \<and> native_truthy (original ''fromElement'')
                 then ev1(''relatedTarget'' :=
                   (if original ''fromElement'' = ev1 ''target'' then original ''toElement'' else original ''fromElement''))
                 else ev1)
      in if \<not> native_truthy (ev2 ''which'') \<and> original ''button'' \<noteq> Missing
         then ev2(''which'' := Amount (button_which (amount (original ''button''))))
         else ev2)"

definition hook_filter :: "'e page_dom \<Rightarrow> 'e frames \<Rightarrow> fix_hook \<Rightarrow> 'e props \<Rightarrow> 'e props \<Rightarrow> 'e props" where
  "hook_filter D F h ev original =
     (case h of KeyHooks \<Rightarrow> key_filter ev original | MouseHooks \<Rightarrow> mouse_filter D F ev original | NoHooks \<Rightarrow> ev)"

definition copy_props :: "string list \<Rightarrow> 'e props \<Rightarrow> 'e props \<Rightarrow> 'e props" where
  "copy_props ks original ev = foldr (\<lambda>k e. e(k := original k)) ks ev"

text \<open>The properties \<open>jQuery.Event\<close> gives to the object before the others are copied.\<close>

definition fresh_props :: "'e frames \<Rightarrow> 'e props \<Rightarrow> 'e props" where
  "fresh_props F original =
     (\<lambda>_. Missing)(''type'' := original ''type'',
       ''timeStamp'' := (if native_truthy (original ''timeStamp'') then original ''timeStamp'' else Amount (timeNow F)))"

definition fix_target :: "'e page_dom \<Rightarrow> 'e frames \<Rightarrow> 'e props \<Rightarrow> 'e props \<Rightarrow> 'e props" where
  "fix_target D F original ev =
     (let ev1 = (if native_truthy (ev ''target'') then ev
                 else ev(''target'' :=
                   (if native_truthy (original ''srcElement'') then original ''srcElement'' else Elem (theDocument F))))
      in case ev1 ''target'' of
           Elem t \<Rightarrow>
             if nodeType D t = 3
             then ev1(''target'' := (case ancestors D t of [] \<Rightarrow> Nothing | p # _ \<Rightarrow> Elem p)) else ev1
         | _ \<Rightarrow> ev1)"

definition fix_props :: "'e page_dom \<Rightarrow> 'e frames \<Rightarrow> 'e props \<Rightarrow> 'e props" where
  "fix_props D F original =
     (let h = (case original ''type'' of Text t \<Rightarrow> fixHooks t | _ \<Rightarrow> NoHooks);
          ev = fix_target D F original (copy_props (event_props @ hook_props h) original (fresh_props F original));
          ev1 = (if ev ''metaKey'' = Missing then ev(''metaKey'' := ev ''ctrlKey'') else ev)
      in hook_filter D F h ev1 original)"

text \<open>The event object, with the properties \<open>dispatch\<close> looks at.\<close>

definition as_elem :: "'e native \<Rightarrow> 'e option" where
  "as_elem v = (case v of Elem e \<Rightarrow> Some e | _ \<Rightarrow> None)"

definition event_fix :: "'e page_dom \<Rightarrow> 'e frames \<Rightarrow> browser_event \<Rightarrow> 'e props \<Rightarrow> ('e, 'f) js_event" where
  "event_fix D F src original =
     (let ev = fix_props D F original
      in (Event_from (case ev ''type'' of Text t \<Rightarrow> t | _ \<Rightarrow> []) src)\<lparr>
           target := as_elem (ev ''target''), relatedTarget := as_elem (ev ''relatedTarget''),
           button := amount (ev ''button'')\<rparr>)"

section \<open>What a handler can rely on\<close>

lemma copy_props_get:
  "copy_props ks original ev k = (if k \<in> set ks then original k else ev k)"
  unfolding copy_props_def by (induction ks) auto

lemma page_position_keeps:
  "k \<noteq> ''pageX'' \<Longrightarrow> k \<noteq> ''pageY'' \<Longrightarrow> page_position D F ev original k = ev k"
  by (simp add: page_position_def Let_def)

lemma hook_filter_keeps:
  assumes "k \<noteq> ''which''" and "k \<noteq> ''pageX''" and "k \<noteq> ''pageY''" and "k \<noteq> ''relatedTarget''"
  shows "hook_filter D F h ev original k = ev k"
  using assms by (cases h) (simp_all only: hook_filter_def fix_hook.case key_filter_def mouse_filter_def Let_def
    page_position_keeps fun_upd_other if_distrib [of "\<lambda>f. f k"] if_cancel not_False_eq_True)

text \<open>
  The copy includes the time stamp, so the one that \<open>jQuery.Event\<close> makes for an event without is
  replaced by nothing again.
\<close>

lemma fix_target_keeps:
  assumes "k \<noteq> ''target''"
  shows "fix_target D F original ev k = ev k"
proof -
  have "(if b then ev else ev(''target'' := v)) k = ev k" for b v
    using assms by (cases b) simp_all
  with assms show ?thesis
    unfolding fix_target_def Let_def
    by (cases "(if native_truthy (ev ''target'') then ev else ev(''target'' :=
      (if native_truthy (original ''srcElement'') then original ''srcElement'' else Elem (theDocument F)))) ''target''")
      (simp_all only: native.case if_distrib [of "\<lambda>f. f k"] fun_upd_other if_cancel not_False_eq_True)
qed

lemma fix_loses_time:
  "fix_props D F original ''timeStamp'' = original ''timeStamp''"
proof -
  have here: "''timeStamp'' \<in> set (event_props @ ks)" for ks by (simp add: event_props_def)
  have other: "''timeStamp'' \<noteq> ''target''" "''timeStamp'' \<noteq> ''metaKey''" "''timeStamp'' \<noteq> ''which''"
    "''timeStamp'' \<noteq> ''pageX''" "''timeStamp'' \<noteq> ''pageY''" "''timeStamp'' \<noteq> ''relatedTarget''" by simp_all
  show ?thesis
    unfolding fix_props_def Let_def hook_filter_keeps [OF other(3-6)] if_distrib [of "\<lambda>f. f ''timeStamp''"]
      fun_upd_other [OF other(2)] if_cancel fix_target_keeps [OF other(1)] copy_props_get
    using here by (simp only: if_True)
qed

text \<open>The target is never a text node, provided no text is inside a text.\<close>

lemma fix_target_no_text:
  assumes "\<And>t p ps. ancestors D t = p # ps \<Longrightarrow> nodeType D p \<noteq> 3"
    and "target (event_fix D F src original) = Some t"
  shows "nodeType D t \<noteq> 3"
proof -
  have fixed: "nodeType D t \<noteq> 3" if "fix_target D F original ev ''target'' = Elem t" for ev
  proof -
    define v where "v = (if native_truthy (ev ''target'') then ev ''target''
      else if native_truthy (original ''srcElement'') then original ''srcElement'' else Elem (theDocument F))"
    have "fix_target D F original ev ''target'' =
        (case v of
           Elem t \<Rightarrow> if nodeType D t = 3 then (case ancestors D t of [] \<Rightarrow> Nothing | p # _ \<Rightarrow> Elem p) else Elem t
         | _ \<Rightarrow> v)"
      by (cases v) (simp_all add: fix_target_def Let_def v_def [symmetric] if_distrib [of "\<lambda>f. f ''target''"] cong: if_cong)
    with that assms(1) show ?thesis
      by (cases v) (simp_all split: if_splits list.splits)
  qed
  from assms(2) have "fix_props D F original ''target'' = Elem t"
    by (cases "fix_props D F original ''target''") (simp_all add: event_fix_def Let_def as_elem_def)
  moreover have "\<exists>ev. fix_props D F original ''target'' = fix_target D F original ev ''target''"
    unfolding fix_props_def Let_def
    by (simp add: hook_filter_keeps if_distrib [of "\<lambda>f. f ''target''"]) (rule exI, rule refl)
  ultimately show ?thesis using fixed by metis
qed


end
