(* ===== verification/JQ_Event_Page.thy ===== *)
theory JQ_Event_Page
  imports JQ_Event_Fix
begin

text \<open>
  \<open>jquery-1.7.2.js\<close>, lines 3754 to 3862: the methods \<open>on\<close>, \<open>one\<close>, \<open>off\<close> and their relatives, and a
  page whose functions call them while events are dispatched.
\<close>

section \<open>Functions\<close>

text \<open>
  The functions of a page, the function that \<open>false\<close> stands for, and the wrapper that \<open>one\<close>
  makes of a function. Wrappers of one function share its number, which is all that is ever
  asked of them.
\<close>

datatype 'g func = PageFn 'g | ReturnFalse | Once "'g func"

section \<open>\<open>on\<close> and \<open>off\<close>\<close>

text \<open>The arguments \<open>selector\<close>, \<open>data\<close> and \<open>fn\<close> after those left out have been sorted out.\<close>

definition on_args :: "'f jsv \<Rightarrow> 'f jsv \<Rightarrow> 'f jsv \<Rightarrow> 'f jsv \<times> 'f jsv \<times> 'f jsv" where
  "on_args selector data fn =
     (if is_nullish data \<and> is_nullish fn then (Undef, Undef, selector)
      else if is_nullish fn then
        (if typeof selector = TString then (selector, Undef, data) else (Undef, selector, data))
      else (selector, data, fn))"

definition as_selector :: "'f jsv \<Rightarrow> string option" where
  "as_selector v = (case v of Str s \<Rightarrow> Some s | _ \<Rightarrow> None)"

text \<open>\<open>false\<close> stands for a function; without a function nothing is bound.\<close>

definition as_function :: "'g func jsv \<Rightarrow> 'g func option" where
  "as_function v = (case v of Bool False \<Rightarrow> Some ReturnFalse | Fn f \<Rightarrow> Some f | _ \<Rightarrow> None)"

definition make_once :: "'g func \<Rightarrow> ('e, 'g func, 'p) event_world \<Rightarrow> 'g func \<times> ('e, 'g func, 'p) event_world" where
  "make_once f w =
     (let (g, w1) = need_guid f w in (Once f, w1\<lparr>guids := (guids w1)(Once f \<mapsto> g)\<rparr>))"

definition on ::
  "'e page_dom \<Rightarrow> 'e list \<Rightarrow> string \<Rightarrow> 'g func jsv \<Rightarrow> 'g func jsv \<Rightarrow> 'g func jsv \<Rightarrow> bool \<Rightarrow>
   ('e, 'g func, 'p) event_world \<Rightarrow> (unit, ('e, 'g func, 'p) event_world) outcome" where
  "on D es types selector data fn one w =
     (let (sel, d, f) = on_args selector data fn
      in case as_function f of
           None \<Rightarrow> Done () w
         | Some h \<Rightarrow>
             let (h', w1) = (if one then make_once h w else (h, w))
             in each (\<lambda>e. add D e types (Plain h') d (as_selector sel)) es w1)"

text \<open>With an object of names and functions.\<close>

definition on_map ::
  "'e page_dom \<Rightarrow> 'e list \<Rightarrow> (string \<times> 'g func jsv) list \<Rightarrow> 'g func jsv \<Rightarrow> 'g func jsv \<Rightarrow> bool \<Rightarrow>
   ('e, 'g func, 'p) event_world \<Rightarrow> (unit, ('e, 'g func, 'p) event_world) outcome" where
  "on_map D es types selector data one w =
     (let (sel, d) =
        (if typeof selector \<noteq> TString then (Undef, if truthy data then data else selector) else (selector, data))
      in each (\<lambda>(t, fn). on D es t sel d fn one) types w)"

definition off ::
  "nat \<Rightarrow> 'e page_dom \<Rightarrow> regexps \<Rightarrow> 'e list \<Rightarrow> string \<Rightarrow> 'g func jsv \<Rightarrow> 'g func jsv \<Rightarrow>
   ('e, 'g func, 'p) event_world \<Rightarrow> (unit, ('e, 'g func, 'p) event_world) outcome" where
  "off n D R es types selector fn w =
     (let (sel, f) = (if selector = Bool False \<or> typeof selector = TFunction then (Undef, selector) else (selector, fn))
      in each (\<lambda>e. remove n D R e types (as_function f) (as_selector sel) False) es w)"

definition off_map ::
  "nat \<Rightarrow> 'e page_dom \<Rightarrow> regexps \<Rightarrow> 'e list \<Rightarrow> (string \<times> 'g func jsv) list \<Rightarrow> 'g func jsv \<Rightarrow>
   ('e, 'g func, 'p) event_world \<Rightarrow> (unit, ('e, 'g func, 'p) event_world) outcome" where
  "off_map n D R es types selector w = each (\<lambda>(t, fn). off n D R es t selector fn) types w"

text \<open>\<open>off(event)\<close>: what the running handler was bound with.\<close>

definition off_event ::
  "nat \<Rightarrow> 'e page_dom \<Rightarrow> regexps \<Rightarrow> ('e, 'g func) js_event \<Rightarrow>
   ('e, 'g func, 'p) event_world \<Rightarrow> (unit, ('e, 'g func, 'p) event_world) outcome" where
  "off_event n D R ev w =
     (case (handleObj ev, delegateTarget ev) of
        (Some h, Some e) \<Rightarrow>
          off n D R [e] (key (h_origType h) @ (if h_namespace h \<noteq> [] then CHR ''.'' # h_namespace h else []))
            (case h_selector h of None \<Rightarrow> Undef | Some s \<Rightarrow> Str s) (Fn (h_handler h)) w
      | _ \<Rightarrow> Done () w)"

definition bind where
  "bind D es types data fn = on D es types Null data fn False"

definition unbind where
  "unbind n D R es types fn = off n D R es types Null fn"

definition delegate where
  "delegate D es selector types data fn = on D es types selector data fn False"

definition undelegate where
  "undelegate n D R es selector types fn = off n D R es types selector fn"

definition undelegate_all where
  "undelegate_all n D R es ns = off n D R es ns (Str ''**'') Undef"

definition live where
  "live D scope sel types data fn = on D [scope] types (Str sel) data fn False"

definition die where
  "die n D R scope sel types fn = off n D R [scope] types (Str (if sel = [] then ''**'' else sel)) fn"

text \<open>The methods named after events, and \<open>hover\<close>.\<close>

definition on_named ::
  "'e page_dom \<Rightarrow> string \<Rightarrow> 'e list \<Rightarrow> 'g func jsv \<Rightarrow> 'g func jsv \<Rightarrow>
   ('e, 'g func, 'p) event_world \<Rightarrow> (unit, ('e, 'g func, 'p) event_world) outcome" where
  "on_named D name es data fn =
     (if is_nullish fn then on D es name Null Null data False else on D es name Null data fn False)"

definition hover ::
  "'e page_dom \<Rightarrow> 'e list \<Rightarrow> 'g func jsv \<Rightarrow> 'g func jsv \<Rightarrow>
   ('e, 'g func, 'p) event_world \<Rightarrow> (unit, ('e, 'g func, 'p) event_world) outcome" where
  "hover D es fnOver fnOut w =
     andthen (on_named D ''mouseenter'' es fnOver Undef w)
       (\<lambda>_. on_named D ''mouseleave'' es (if truthy fnOut then fnOut else fnOver) Undef)"

section \<open>What functions do\<close>

text \<open>
  The calls and assignments a function may make. \<open>Fire\<close> is made by the browser, which calls the
  registered handle with an event of its own, as it makes \<open>FireCapture\<close> of the listeners of the document for \<open>focus\<close> and \<open>blur\<close>; \<open>Retrigger\<close> passes the running event on. Events
  given to \<open>Trigger\<close> are values: other references to the same object do not see it change.
\<close>

datatype ('e, 'g, 'p) command =
    Add 'e string "'g func handler_arg" "'g func jsv" "string option"
  | Remove 'e string "'g func option" "string option"
  | On "'e list" string "'g func jsv" "'g func jsv" "'g func jsv" bool
  | Off "'e list" string "'g func jsv" "'g func jsv"
  | OffCurrent
  | Trigger "('e, 'g func) given_event" "'g func jsv list" "'e option" bool
  | Retrigger "'g func jsv list" "'e option" bool
  | Fire 'e browser_event "'e props"
  | FireCapture string browser_event "'e props"
  | Prevent
  | Stop
  | StopImmediate
  | SetInline 'e string "'g func option"
  | SetOther 'e bool
  | OnPage "'p \<Rightarrow> 'p"

datatype ('e, 'g, 'p) act =
    Return "'g func jsv"
  | Raise
  | Perform "('e, 'g, 'p) command" "('e, 'g func, 'p) scene \<Rightarrow> ('e, 'g, 'p) act"

fun body_of ::
  "('g \<Rightarrow> 'e \<Rightarrow> 'g func jsv list \<Rightarrow> ('e, 'g, 'p) act) \<Rightarrow> 'g func \<Rightarrow> 'e \<Rightarrow> 'g func jsv list \<Rightarrow> ('e, 'g, 'p) act" where
  "body_of B (PageFn g) this args = B g this args"
| "body_of B ReturnFalse this args = Return (Bool False)"
| "body_of B (Once f) this args = Perform OffCurrent (\<lambda>_. body_of B f this args)"

primrec perform ::
  "(('e, 'g, 'p) command \<Rightarrow> ('e, 'g func, 'p) scene \<Rightarrow> (unit, ('e, 'g func, 'p) scene) outcome) \<Rightarrow>
   ('e, 'g, 'p) act \<Rightarrow> ('e, 'g func, 'p) scene \<Rightarrow> ('g func jsv, ('e, 'g func, 'p) scene) outcome" where
  "perform X (Return v) s = Done v s"
| "perform X Raise s = Fail (ErrorMsg []) s"
| "perform X (Perform c k) s = (case X c s of Done _ s' \<Rightarrow> perform X (k s') s' | Fail x s' \<Rightarrow> Fail x s')"

definition on_world :: "('w \<Rightarrow> ('a, 'w) outcome) \<Rightarrow> 'v \<times> 'w \<Rightarrow> (unit, 'v \<times> 'w) outcome" where
  "on_world f s = (case f (snd s) of Done _ w \<Rightarrow> Done () (fst s, w) | Fail x w \<Rightarrow> Fail x (fst s, w))"

definition keep_event :: "('a, 'v \<times> 'w) outcome \<Rightarrow> 'v \<Rightarrow> (unit, 'v \<times> 'w) outcome" where
  "keep_event m v = (case m of Done _ s \<Rightarrow> Done () (v, snd s) | Fail x s \<Rightarrow> Fail x (v, snd s))"

text \<open>The type that the listeners of the document for \<open>focus\<close> and \<open>blur\<close> simulate.\<close>

definition simulated_type :: "string \<Rightarrow> string" where
  "simulated_type orig = (if orig = ''focus'' then ''focusin'' else ''focusout'')"

fun exec ::
  "nat \<Rightarrow> 'e page_dom \<Rightarrow> 'e frames \<Rightarrow> regexps \<Rightarrow> ('e, 'g func, 'p) callee \<Rightarrow> ('e, 'g func, 'p) methods \<Rightarrow> ('e, 'g, 'p) command \<Rightarrow>
   ('e, 'g func, 'p) scene \<Rightarrow> (unit, ('e, 'g func, 'p) scene) outcome" where
  "exec n D F R E N (Add e types h data sel) s = on_world (add D e types h data sel) s"
| "exec n D F R E N (Remove e types h sel) s = on_world (remove n D R e types h sel False) s"
| "exec n D F R E N (On es types sel data f one) s = on_world (on D es types sel data f one) s"
| "exec n D F R E N (Off es types sel f) s = on_world (off n D R es types sel f) s"
| "exec n D F R E N OffCurrent s = on_world (off_event n D R (fst s)) s"
| "exec n D F R E N (Trigger arg data e only) s = on_world (trigger D R E N arg data e only) s"
| "exec n D F R E N (Retrigger data e only) s =
     (case trigger D R E N (Event (fst s)) data e only (snd s) of
        Done r w \<Rightarrow> Done () (case r of None \<Rightarrow> fst s | Some ev \<Rightarrow> ev, w)
      | Fail x w \<Rightarrow> Fail x (fst s, w))"
| "exec n D F R E N (Fire e src original) s =
     (let ev = event_fix D F src original
      in if (e, e_type ev) \<in> listeners (snd s)
         then keep_event (event_handle D E e [] (ev, snd s)) (fst s)
         else Done () s)"
| "exec n D F R E N (FireCapture orig src original) s =
     (let ev = event_fix D F src original
      in case target ev of
           Some t \<Rightarrow>
             if orig \<in> captures (snd s)
             then on_world (\<lambda>w. simulate D R E N (simulated_type orig) t ev True w) s
             else Done () s
         | None \<Rightarrow> Done () s)"
| "exec n D F R E N Prevent s = Done () (preventDefault (fst s), snd s)"
| "exec n D F R E N Stop s = Done () (stopPropagation (fst s), snd s)"
| "exec n D F R E N StopImmediate s = Done () (stopImmediatePropagation (fst s), snd s)"
| "exec n D F R E N (SetInline e k f) s =
     Done () (fst s, (snd s)\<lparr>inline := (inline (snd s))(e := (inline (snd s) e)(k := f))\<rparr>)"
| "exec n D F R E N (SetOther e b) s = Done () (fst s, (snd s)\<lparr>otherData := (otherData (snd s))(e := b)\<rparr>)"
| "exec n D F R E N (OnPage g) s = Done () (fst s, (snd s)\<lparr>page := g (page (snd s))\<rparr>)"

text \<open>
  Code runs with a stack of bounded depth, which every call of a handler or of a method of an
  element uses up by one; a call beyond it raises.
\<close>

definition without_event :: "('a, 'v \<times> 'w) outcome \<Rightarrow> (unit, 'w) outcome" where
  "without_event m = (case m of Done _ s \<Rightarrow> Done () (snd s) | Fail x s \<Rightarrow> Fail x (snd s))"

fun run_code ::
  "nat \<Rightarrow> 'e page_dom \<Rightarrow> 'e frames \<Rightarrow> regexps \<Rightarrow> ('g \<Rightarrow> 'e \<Rightarrow> 'g func jsv list \<Rightarrow> ('e, 'g, 'p) act) \<Rightarrow>
   ('e \<Rightarrow> string \<Rightarrow> ('e, 'g, 'p) act option) \<Rightarrow> ('e, 'g, 'p) act \<Rightarrow>
   ('e, 'g func, 'p) scene \<Rightarrow> ('g func jsv, ('e, 'g func, 'p) scene) outcome" where
  "run_code 0 D F R B M a s = Fail (ErrorMsg ''Maximum call stack size exceeded'') s"
| "run_code (Suc n) D F R B M a s =
     perform
       (exec n D F R
         (\<lambda>f this args. run_code n D F R B M (body_of B f this args))
         (\<lambda>e typ. map_option (\<lambda>a w. without_event (run_code n D F R B M a (new_event typ, w))) (M e typ)))
       a s"

inductive page_does ::
  "'e page_dom \<Rightarrow> 'e frames \<Rightarrow> regexps \<Rightarrow> ('g \<Rightarrow> 'e \<Rightarrow> 'g func jsv list \<Rightarrow> ('e, 'g, 'p) act) \<Rightarrow>
   ('e \<Rightarrow> string \<Rightarrow> ('e, 'g, 'p) act option) \<Rightarrow>
   ('e, 'g func, 'p) event_world \<Rightarrow> ('e, 'g func, 'p) event_world \<Rightarrow> bool"
  for D F R B M where
  script: "page_does D F R B M w (snd (final (run_code n D F R B M a (ev, w))))"

inductive_cases page_doesE: "page_does D F R B M w w'"

section \<open>The tables stay in order\<close>

definition keeps :: "('w \<Rightarrow> bool) \<Rightarrow> ('v \<times> 'w \<Rightarrow> ('a, 'v \<times> 'w) outcome) \<Rightarrow> bool" where
  "keeps I f \<longleftrightarrow> (\<forall>s. I (snd s) \<longrightarrow> I (snd (final (f s))))"

definition callee_keeps :: "(('e, 'f, 'p) event_world \<Rightarrow> bool) \<Rightarrow> ('e, 'f, 'p) callee \<Rightarrow> bool" where
  "callee_keeps I E \<longleftrightarrow> (\<forall>f this args. keeps I (E f this args))"

definition methods_keep :: "(('e, 'f, 'p) event_world \<Rightarrow> bool) \<Rightarrow> ('e, 'f, 'p) methods \<Rightarrow> bool" where
  "methods_keep I N \<longleftrightarrow> (\<forall>e t m w. N e t = Some m \<longrightarrow> I w \<longrightarrow> I (final (m w)))"

lemma callee_keepsD: "callee_keeps I E \<Longrightarrow> I w \<Longrightarrow> I (snd (final (E f this args (v, w))))"
  by (simp add: callee_keeps_def keeps_def)

lemma keepsD: "keeps I f \<Longrightarrow> I w \<Longrightarrow> I (snd (final (f (v, w))))"
  by (simp add: keeps_def)

lemma keeps_andthen:
  assumes "I (snd (final m))" and "\<And>a s. I (snd s) \<Longrightarrow> I (snd (final (k a s)))"
  shows "I (snd (final (andthen m k)))"
  using assms by (cases m) simp_all

lemma keeps_on_world: "I (final (f (snd s))) \<Longrightarrow> I (snd (final (on_world f s)))"
  by (simp add: on_world_def split: outcome.split) (metis final.simps)

lemma keeps_keep_event: "I (snd (final m)) \<Longrightarrow> I (snd (final (keep_event m v)))"
  by (cases m) (simp_all add: keep_event_def)

lemma keeps_without: "I (snd (final m)) \<Longrightarrow> I (final (without_event m))"
  by (cases m) (simp_all add: without_event_def)

subsection \<open>Through \<open>dispatch\<close> and \<open>trigger\<close>\<close>

lemma keeps_call_handler:
  assumes "callee_keeps I E" and "I (snd s)"
  shows "I (snd (final (call_handler D E h this args s)))"
proof -
  obtain ev w where s: "s = (ev, w)" by fastforce
  have E: "I (snd (final (E f this args (v, w))))" for f this args v
    using callee_keepsD [OF assms(1)] assms(2) s by simp
  have "I (snd (final (mouse_handle D E t h this args s)))" for t
    using E assms(2) by (auto simp: mouse_handle_def s intro!: keeps_andthen [of I])
  with E s show ?thesis by (auto simp: call_handler_def split: option.split)
qed

lemma keeps_run_matches:
  assumes "callee_keeps I E"
  shows "I (snd s) \<Longrightarrow> I (snd (final (run_matches D E b this args hs s)))"
proof (induction hs arbitrary: s)
  case Nil
  then show ?case by simp
next
  case (Cons h hs)
  obtain ev w where s: "s = (ev, w)" by fastforce
  have "I (snd (final (call_handler D E h this args (ev\<lparr>e_data := h_data h, handleObj := Some h\<rparr>, w))))"
    using keeps_call_handler [OF assms] Cons.prems s by simp
  with Cons show ?case by (auto simp: s intro!: keeps_andthen [of I])
qed

lemma keeps_run_queue:
  assumes "callee_keeps I E"
  shows "I (snd s) \<Longrightarrow> I (snd (final (run_queue D E b args q s)))"
proof (induction q arbitrary: s)
  case Nil
  then show ?case by simp
next
  case (Cons p q)
  obtain ev w cur hs where s: "s = (ev, w)" "p = (cur, hs)" by fastforce
  have "I (snd (final (run_matches D E b cur args hs (ev\<lparr>currentTarget := Some cur\<rparr>, w))))"
    using keeps_run_matches [OF assms] Cons.prems s by simp
  with Cons show ?case by (auto simp: s intro!: keeps_andthen [of I])
qed

lemma keeps_dispatch:
  assumes "callee_keeps I E" and "I (snd s)"
  shows "I (snd (final (dispatch D E this args s)))"
proof -
  obtain ev w where s: "s = (ev, w)" by fastforce
  have "I (snd (final (run_queue D E b args q (v, w))))" for b q v
    using keeps_run_queue [OF assms(1)] assms(2) s by simp
  with assms(2) s show ?thesis
    by (auto simp: dispatch_def Let_def split: option.split intro!: keeps_andthen [of I])
qed

lemma keeps_event_handle:
  assumes "callee_keeps I E" and "I (snd s)"
  shows "I (snd (final (event_handle D E e args s)))"
  using keeps_dispatch [OF assms] assms(2) by (simp add: event_handle_def)

lemma keeps_call_inline:
  assumes "callee_keeps I E" and "I (snd s)"
  shows "I (snd (final (call_inline D E k cur args s)))"
proof -
  have "I (snd (final (E f cur args s)))" for f
    using assms unfolding callee_keeps_def keeps_def by blast
  with assms(2) show ?thesis
    by (auto simp: call_inline_def split: option.split intro!: keeps_andthen [of I])
qed

lemma keeps_fire_path:
  assumes "callee_keeps I E"
  shows "I (snd s) \<Longrightarrow> I (snd (final (fire_path D E k args path s)))"
proof (induction path arbitrary: s)
  case Nil
  then show ?case by simp
next
  case (Cons p path)
  obtain ev w cur t where s: "s = (ev, w)" "p = (cur, t)" by fastforce
  have w: "I w" using Cons.prems s by simp
  have h: "I (snd (final (event_handle D E cur args (v, w))))" for v
    using keeps_event_handle [OF assms] w by simp
  have k: "I (snd (final (andthen (call_inline D E k cur args s1) (\<lambda>_. fire_path D E k args path))))"
    if "I (snd s1)" for s1
    using keeps_call_inline [OF assms that] Cons.IH by (intro keeps_andthen [of I])
  have "I (snd (final (andthen (if c then event_handle D E cur args (v, w) else Done Undef (v, w))
      (\<lambda>_ s1. andthen (call_inline D E k cur args s1) (\<lambda>_. fire_path D E k args path)))))" for c v
    by (rule keeps_andthen [of I]) (use h w k in simp_all)
  with w show ?case
    unfolding s fire_path.simps Let_def by simp
qed

definition triggered_free :: "(('e, 'f, 'p) event_world \<Rightarrow> bool) \<Rightarrow> bool" where
  "triggered_free I \<longleftrightarrow> (\<forall>w t i. I w \<longrightarrow> I (w\<lparr>triggered := t\<rparr>) \<and> I (w\<lparr>inline := i\<rparr>))"

lemma done_final: "m = Done a w \<Longrightarrow> I (final m) \<Longrightarrow> I w"
  by simp

lemma triggered_freeD:
  assumes "triggered_free I" and "I w"
  shows "I (w\<lparr>triggered := t\<rparr>)" and "I (w\<lparr>triggered := t, inline := i\<rparr>)" and "I (w\<lparr>inline := i, triggered := t\<rparr>)"
  using assms by (simp_all add: triggered_free_def)

lemma keeps_run_method:
  assumes "triggered_free I" and "\<And>w. I w \<Longrightarrow> I (final (m w))" and "I w"
  shows "I (final (run_method m elem typ k w))"
proof -
  have "I (final (m (w\<lparr>triggered := Some typ\<rparr>)))" "I (final (m (w\<lparr>inline := i, triggered := Some typ\<rparr>)))" for i
    using assms(2) triggered_freeD [OF assms(1,3)] by blast+
  then show ?thesis
    unfolding run_method_def Let_def by (auto intro!: final_andthen [of I] triggered_freeD [OF assms(1)] dest: done_final [where I = I])
qed

lemma keeps_default_action:
  assumes "triggered_free I" and "methods_keep I N" and "I (snd s)"
  shows "I (snd (final (default_action D N typ elem s)))"
proof -
  obtain ev w where s: "s = (ev, w)" by fastforce
  have m: "I (final (run_method m elem typ k w))" if "N elem typ = Some m" for m k
    by (rule keeps_run_method [OF assms(1)]) (use assms(2,3) s that in \<open>auto simp: methods_keep_def\<close>)
  show ?thesis
  proof (cases "(ontype typ, N elem typ)")
    case (Pair a b)
    show ?thesis
    proof (cases "\<exists>k m. a = Some k \<and> b = Some m")
      case True
      then obtain k m where km: "a = Some k" "b = Some m" by blast
      then have "I (final (run_method m elem typ k w))" using m Pair by simp
      then show ?thesis
        using assms(3) Pair km by (cases "run_method m elem typ k w") (simp_all add: default_action_def s)
    next
      case False
      then show ?thesis
        using assms(3) Pair by (auto simp: default_action_def s split: option.splits)
    qed
  qed
qed

lemma keeps_trigger_at:
  assumes "callee_keeps I E" and "triggered_free I"
    and "methods_keep I N" and "I w"
  shows "I (final (trigger_at D R E N arg args elem only w))"
proof -
  have path: "I (snd (final (fire_path D E k args p (v, w))))" for k p v
    using keeps_fire_path [OF assms(1)] assms(4) by simp
  have action: "I (snd s) \<Longrightarrow> I (snd (final (default_action D N ty elem s)))" for s ty
    by (rule keeps_default_action [OF assms(2,3)])
  have action_pair: "I v \<Longrightarrow> I (snd (final (default_action D N ty elem (ev, v))))" for ev v ty
    using action [of "(ev, v)"] by simp
  have rest: "I (snd (final (andthen (fire_path D E k args p (v, w))
      (\<lambda>_ (ev2, w2). (if only then Done () (ev2\<lparr>e_type := ty\<rparr>, w2)
        else default_action D N ty elem (ev2\<lparr>e_type := ty\<rparr>, w2))))))" for k p v ty
    by (rule keeps_andthen [of I, OF path]) (clarsimp simp: action_pair)
  have wrap: "I (snd (final m)) \<Longrightarrow>
      I (final (case m of Done _ s \<Rightarrow> Done (Some (fst s)) (snd s) | Fail x s \<Rightarrow> Fail x (snd s)))" for m
    by (cases m) simp_all
  obtain t x y where t: "trigger_type (given_type arg) = (t, x, y)" by (metis prod_cases3)
  show ?thesis
    unfolding trigger_at_def t Let_def prod.case
    using assms(4) by (auto split: option.split intro!: wrap rest)
qed

lemma keeps_trigger:
  assumes "callee_keeps I E" and "triggered_free I"
    and "methods_keep I N" and "I w"
  shows "I (final (trigger D R E N arg args elem only w))"
proof -
  have at: "I v \<Longrightarrow> I (final (trigger_at D R E N a args e b v))" for v a e b
    by (rule keeps_trigger_at [OF assms(1-3)])
  have each: "I v \<Longrightarrow> I (final (trigger_each D R E N ty args es ev v))" for ty es ev v
  proof (induction es arbitrary: ev v)
    case Nil
    then show ?case by simp
  next
    case (Cons e es)
    from at [OF Cons.prems] have "I (final (trigger_at D R E N (Event ev) args e True v))" .
    with Cons show ?case by (cases "trigger_at D R E N (Event ev) args e True v") (auto split: option.split)
  qed
  have "I (final (andthen (trigger_each D R E N ty args es ev w) (\<lambda>_. Done None)))" for ty es ev
    using each [OF assms(4)] by (cases "trigger_each D R E N ty args es ev w") (metis andthen.simps final.simps)+
  with at assms(4) show ?thesis
    by (auto simp: trigger_def Let_def split: option.split prod.split)
qed

subsection \<open>Through the code of the page\<close>

lemma world_ok_page [simp]:
  "world_ok D (w\<lparr>inline := i\<rparr>) \<longleftrightarrow> world_ok D w"
  "world_ok D (w\<lparr>otherData := d\<rparr>) \<longleftrightarrow> world_ok D w"
  "world_ok D (w\<lparr>page := p\<rparr>) \<longleftrightarrow> world_ok D w"
  "world_ok D (w\<lparr>triggered := t\<rparr>) \<longleftrightarrow> world_ok D w"
  by (simp_all add: world_ok_def listening_def capturing_def has_type_def table_def)

lemma triggered_free_world_ok: "triggered_free (world_ok D)"
  by (simp add: triggered_free_def)

lemma world_ok_guids: "world_ok D w \<Longrightarrow> world_ok D (w\<lparr>guids := g\<rparr>)"
  by (rule world_ok_same) (simp_all add: table_def)

lemma world_ok_on:
  fixes w :: "('e, 'g func, 'p) event_world"
  assumes w: "world_ok D w"
  shows "world_ok D (final (on D es types sel data f one w))"
proof -
  have once: "world_ok D w'" if "make_once h w = (h', w')" for h h' w'
    using that w world_ok_guid by (fastforce simp: make_once_def Let_def split: prod.splits intro: world_ok_guids)
  have "world_ok D v \<Longrightarrow> world_ok D (final (each (\<lambda>e. add D e types h d s) es v))"
    for h d s and v :: "('e, 'g func, 'p) event_world"
    by (rule final_each [of "world_ok D"]) (rule world_ok_add)
  with w once show ?thesis
    by (auto simp: on_def Let_def split: option.split prod.split)
qed

lemma world_ok_off: "world_ok D w \<Longrightarrow> world_ok D (final (off n D R es types sel f w))"
proof -
  assume "world_ok D w"
  then have "world_ok D (final (each (\<lambda>e. remove n D R e types h s m) es w))" for h s m
    by (rule final_each [of "world_ok D", rotated]) (rule world_ok_remove)
  then show ?thesis by (simp add: off_def Let_def split: prod.split)
qed

lemma world_ok_exec:
  fixes s :: "('a, 'b func, 'c) scene"
  assumes E: "callee_keeps (world_ok D) E" and N: "methods_keep (world_ok D) N" and w: "world_ok D (snd s)"
  shows "world_ok D (snd (final (exec n D F R E N c s)))"
proof (cases c)
  case (Retrigger data e only)
  have "world_ok D (final (trigger D R E N (Event (fst s)) data e only (snd s)))"
    by (rule keeps_trigger [OF E triggered_free_world_ok N w])
  then show ?thesis
    unfolding Retrigger by (cases "trigger D R E N (Event (fst s)) data e only (snd s)") simp_all
next
  case (Fire e src original)
  have "world_ok D (snd (final (event_handle D E e [] (event_fix D F src original, snd s))))"
    by (rule keeps_event_handle [OF E]) (simp add: w)
  then show ?thesis
    using w by (simp add: Fire keeps_keep_event Let_def)
next
  case (FireCapture orig src original)
  have "world_ok D (final (simulate D R E N ty t ev True (snd s)))" for ty t ev
    using keeps_trigger_at [OF E triggered_free_world_ok N w, of D R "Event (simulated ty ev)" "[]" t False]
    by (cases "trigger_at D R E N (Event (simulated ty ev)) [] t False (snd s)") (simp_all add: simulate_def Let_def)
  then have "world_ok D (snd (final (on_world (\<lambda>w. simulate D R E N ty t ev True w) s)))"
    for ty t and ev :: "('a, 'b func) js_event"
    by (rule keeps_on_world)
  then show ?thesis
    unfolding FireCapture exec.simps Let_def
    by (cases "target (event_fix D F src original :: ('a, 'b func) js_event)") (simp_all add: w)
next
  case OffCurrent
  show ?thesis
    unfolding OffCurrent exec.simps
    by (rule keeps_on_world) (simp add: off_event_def w world_ok_off split: option.split)
qed (use w in \<open>auto intro!: keeps_on_world world_ok_add world_ok_remove world_ok_on world_ok_off
        keeps_trigger [OF E triggered_free_world_ok N]\<close>)

lemma world_ok_perform:
  assumes "\<And>c s. world_ok D (snd s) \<Longrightarrow> world_ok D (snd (final (X c s)))"
  shows "world_ok D (snd s) \<Longrightarrow> world_ok D (snd (final (perform X a s)))"
proof (induction a arbitrary: s)
  case (Perform c k)
  from assms [OF Perform.prems] have X: "world_ok D (snd (final (X c s)))" .
  show ?case
  proof (cases "X c s")
    case (Done u s')
    then have "world_ok D (snd s')" using X by simp
    then have "world_ok D (snd (final (perform X (k s') s')))" by (rule Perform.IH [OF rangeI])
    with Done show ?thesis by simp
  next
    case (Fail x s')
    with X show ?thesis by simp
  qed
qed simp_all

lemma world_ok_run_code:
  fixes s :: "('a, 'b func, 'c) scene"
  shows "world_ok D (snd s) \<Longrightarrow> world_ok D (snd (final (run_code n D F R B M a s)))"
proof (induction n arbitrary: a s)
  case 0
  then show ?case by simp
next
  case (Suc n)
  have E: "callee_keeps (world_ok D) (\<lambda>f this args. run_code n D F R B M (body_of B f this args))"
    using Suc.IH by (simp add: callee_keeps_def keeps_def)
  have N: "methods_keep (world_ok D)
      (\<lambda>e t. map_option (\<lambda>a w. without_event (run_code n D F R B M a (new_event t, w))) (M e t))"
    unfolding methods_keep_def
  proof (intro allI impI)
    fix e t m and w :: "('a, 'b func, 'c) event_world"
    assume m: "map_option (\<lambda>a w. without_event (run_code n D F R B M a (new_event t, w))) (M e t) = Some m"
      and w: "world_ok D w"
    from m obtain a where "m = (\<lambda>w. without_event (run_code n D F R B M a (new_event t, w)))" by auto
    with Suc.IH w show "world_ok D (final (m w))" by (simp add: keeps_without)
  qed
  show ?case
    unfolding run_code.simps
    by (rule world_ok_perform [OF _ Suc.prems]) (rule world_ok_exec [OF E N])
qed

interpretation event_worlds: preserved_invariant "page_does D F R B M" "world_ok D" for D F R B M
  by unfold_locales (auto elim!: page_doesE intro: world_ok_run_code)

text \<open>
  C7: Whatever the scripts of a page do, binding, unbinding and triggering in any order, also while
  events are being dispatched, and also where they raise: for every element the handlers with a
  selector come first and \<open>delegateCount\<close> is their number, no type is kept without handlers, the
  browser calls the element for exactly the types in its table that need it, and the listener
  that simulates \<open>focusin\<close> is there while an element wants it.
\<close>

theorem events_reachable_ok:
  assumes "(page_does D F R B M)\<^sup>*\<^sup>* (empty_world p) w"
  shows "(\<forall>e k l. map_of (table w e) k = Some l \<longrightarrow>
      handlers l \<noteq> [] \<and>
      handlers l = filter delegated (handlers l) @ filter (\<lambda>h. \<not> delegated h) (handlers l) \<and>
      delegateCount l = length (filter delegated (handlers l))) \<and>
    (\<forall>e k. setupHook (special_of D (Some k)) = NoSetup \<and> eventModel D e \<noteq> NoEvents \<longrightarrow>
      ((e, k) \<in> listeners w \<longleftrightarrow> map_of (table w e) k \<noteq> None)) \<and>
    (\<forall>e k orig. setupHook (special_of D (Some k)) = SetupCapture orig \<and> map_of (table w e) k \<noteq> None \<longrightarrow>
      orig \<in> captures w)"
proof -
  have ok: "world_ok D w"
    by (rule event_worlds.reachable [OF assms world_ok_empty])
  have lists: "handlers l \<noteq> [] \<and>
      handlers l = filter delegated (handlers l) @ filter (\<lambda>h. \<not> delegated h) (handlers l) \<and>
      delegateCount l = length (filter delegated (handlers l))"
    if "map_of (table w e) k = Some l" for e k l
    using table_ok_lookup [OF world_ok_table [OF ok] that] list_ok_split by blast
  have listen: "(e, k) \<in> listeners w \<longleftrightarrow> map_of (table w e) k \<noteq> None"
    if "setupHook (special_of D (Some k)) = NoSetup \<and> eventModel D e \<noteq> NoEvents" for e k
    using ok that by (simp add: world_ok_def listening_def has_type_table)
  have capture: "orig \<in> captures w"
    if k: "setupHook (special_of D (Some k)) = SetupCapture orig \<and> map_of (table w e) k \<noteq> None" for e k orig
  proof -
    have e: "e \<in> {e. has_type w k e}" using k by (simp add: has_type_table)
    have c: "orig \<in> captures w \<longleftrightarrow> attaches w k > 0" "finite {e. has_type w k e}"
      "int (card {e. has_type w k e}) \<le> attaches w k"
      using ok k by (simp_all add: world_ok_def capturing_def)
    from e c(2) have "card {e. has_type w k e} > 0" by (auto simp: card_gt_0_iff)
    with c show ?thesis by linarith
  qed
  show ?thesis
    using lists listen capture by blast
qed

definition one_frame :: "nat frames" where
  "one_frame = \<lparr>documentElement = \<lambda>_. None, body = \<lambda>_. None, theDocument = 0, timeNow = 0\<rparr>"

text \<open>A page whose functions note their number, and a script that binds some of them.\<close>

definition noting :: "nat \<Rightarrow> nat \<Rightarrow> nat func jsv list \<Rightarrow> (nat, nat, nat list) act" where
  "noting g this args = Perform (OnPage (\<lambda>p. p @ [g])) (\<lambda>_. Return Undef)"

definition binding :: "(nat, nat, nat list) act" where
  "binding =
     Perform (On [1, 2] ''click.shop mouseenter'' (Fn (PageFn 1)) Undef Undef False) (\<lambda>_.
     Perform (On [1] ''click'' (Str ''li'') Undef (Fn (PageFn 2)) False) (\<lambda>_.
     Perform (On [1] ''click'' (Fn (PageFn 1)) Undef Undef True) (\<lambda>_. Return Undef)))"

definition clicking :: "(nat, nat, nat list) act" where
  "clicking = Perform (Trigger (Name ''click'') [] (Some 2) False) (\<lambda>_. Return Undef)"

definition after_script :: "(nat, nat, nat list) act list \<Rightarrow> (nat, nat func, nat list) event_world" where
  "after_script as =
     foldl (\<lambda>w a. snd (final (run_code 9 (small_page True) one_frame no_regexps noting (\<lambda>_ _. None) a (new_event [], w))))
       (empty_world []) as"

lemma after_script_reachable:
  "(page_does (small_page True) one_frame no_regexps noting (\<lambda>_ _. None))\<^sup>*\<^sup>* (empty_world []) (after_script as)"
proof -
  let ?go = "\<lambda>w a. snd (final (run_code 9 (small_page True) one_frame no_regexps noting (\<lambda>_ _. None) a (new_event [], w)))"
  have "(page_does (small_page True) one_frame no_regexps noting (\<lambda>_ _. None))\<^sup>*\<^sup>* w (foldl ?go w as)" for w
  proof (induction "as" arbitrary: w)
    case Nil
    then show ?case by simp
  next
    case (Cons a "as")
    have "page_does (small_page True) one_frame no_regexps noting (\<lambda>_ _. None) w (?go w a)" by (rule script)
    then show ?case unfolding foldl_Cons by (rule converse_rtranclp_into_rtranclp [OF _ Cons.IH])
  qed
  then show ?thesis by (simp add: after_script_def)
qed

lemma events_reachable_ok_witness:
  "\<exists>l. map_of (table (after_script [binding]) 1) ''click'' = Some l \<and> handlers l \<noteq> [] \<and>
    delegateCount l = length (filter delegated (handlers l)) \<and>
    (1, ''click'') \<in> listeners (after_script [binding])"
proof -
  let ?w = "after_script [binding]"
  have "case map_of (table ?w 1) ''click'' of None \<Rightarrow> False | Some _ \<Rightarrow> True" by code_simp
  then obtain l where l: "map_of (table ?w 1) ''click'' = Some l" by (auto split: option.splits)
  have plain: "setupHook (special_of (small_page True) (Some ''click'')) = NoSetup \<and> eventModel (small_page True) 1 \<noteq> NoEvents"
    by code_simp
  note ok = events_reachable_ok [OF after_script_reachable [of "[binding]"]]
  have "(1, ''click'') \<in> listeners ?w"
    using conjunct1 [OF conjunct2 [OF ok]] plain l by simp
  with conjunct1 [OF ok] l show ?thesis by blast
qed

section \<open>What goes wrong\<close>

text \<open>
  The wrapper of \<open>one\<close> unbinds by the number it shares with the function it wraps, and so takes
  a permanent binding of the same function with it. A click on the item 2 calls 1 there, then on
  the list the delegate 2 and function 1 twice; the next one finds only the delegate on the list.
\<close>

lemma one_takes_others:
  "page (after_script [binding, clicking]) = [1, 2, 1, 1]"
  "page (after_script [binding, clicking, clicking]) = [1, 2, 1, 1, 1, 2]"
  by code_simp+

text \<open>
  Triggered at no element in particular, an event loses its namespaces: the event object made for
  the first call is triggered again at each element by its type alone.
\<close>

definition one_handler :: "(nat, nat, (nat \<times> nat) list) event_world" where
  "one_handler = final (add (small_page True) 1 ''click.menu'' (Plain 5) Undef None (empty_world []))"

lemma global_trigger_drops_namespaces:
  "page (final (trigger (small_page True) no_regexps (recorder (\<lambda>_. Undef)) (\<lambda>_ _. None) (Name ''click.shop'') [] (Some 1) True one_handler)) = []"
  "page (final (trigger (small_page True) no_regexps (recorder (\<lambda>_. Undef)) (\<lambda>_ _. None) (Name ''click.shop'') [] None False one_handler)) = [(1, 5)]"
  by code_simp+

text \<open>
  A method of an element that raises, as \<open>submit\<close> does for a form with a field of that name,
  leaves \<open>triggered\<close> set: from then on the handles of all elements ignore events of this type.
\<close>

lemma raising_method_blocks:
  assumes "N elem t = Some m" and "\<And>w. m w = Fail x w"
    and "ontype t = Some k" and "t \<noteq> ''click''" and "t \<noteq> ''focus''" and "t \<noteq> ''blur''"
    and "acceptData D elem" and "\<not> isWindow D elem" and "\<not> isDefaultPrevented ev"
  shows "\<exists>w'. default_action D N t elem (ev, w) = Fail x (ev, w') \<and>
    (\<forall>E e args ev'. e_type ev' = t \<longrightarrow> event_handle D E e args (ev', w') = Done Undef (ev', w'))"
  using assms by (simp add: default_action_def run_method_def event_handle_def Let_def)

end
