(* ===== verification/JQ_Tree.thy ===== *)
theory JQ_Tree
  imports JS_Prelude
begin

text \<open>
  The document as \<open>jquery-1.7.2.js\<close> walks through it: the lists of children, the parents, and from
  these the siblings, as every browser keeps them; and the three operations that change it. The loops
  over \<open>parentNode\<close>, \<open>nextSibling\<close> and \<open>previousSibling\<close> in other theories end because a document is a
  tree: \<open>visits\<close> relates the pointer a loop follows to the list of nodes it meets.
\<close>

section \<open>Documents\<close>

record document =
  childNodes :: "nat \<Rightarrow> nat list"
  parentNode :: "nat \<Rightarrow> nat option"
  nodeType :: "nat \<Rightarrow> nat"
  nodeName :: "nat \<Rightarrow> string"

definition is_elem :: "document \<Rightarrow> nat \<Rightarrow> bool" where
  "is_elem D n \<longleftrightarrow> nodeType D n = 1"

fun after :: "'a \<Rightarrow> 'a list \<Rightarrow> 'a list" where
  "after x [] = []"
| "after x (y # ys) = (if x = y then ys else after x ys)"

fun prior :: "'a \<Rightarrow> 'a list \<Rightarrow> 'a list" where
  "prior x [] = []"
| "prior x (y # ys) = (if x = y then [] else y # prior x ys)"

definition hd_opt :: "'a list \<Rightarrow> 'a option" where
  "hd_opt xs = (case xs of [] \<Rightarrow> None | x # _ \<Rightarrow> Some x)"

definition siblings_of :: "document \<Rightarrow> nat \<Rightarrow> nat list" where
  "siblings_of D n = (case parentNode D n of None \<Rightarrow> [] | Some p \<Rightarrow> childNodes D p)"

definition following :: "document \<Rightarrow> nat \<Rightarrow> nat list" where
  "following D n = after n (siblings_of D n)"

definition preceding :: "document \<Rightarrow> nat \<Rightarrow> nat list" where
  "preceding D n = prior n (siblings_of D n)"

definition nextSibling :: "document \<Rightarrow> nat \<Rightarrow> nat option" where
  "nextSibling D n = hd_opt (following D n)"

definition previousSibling :: "document \<Rightarrow> nat \<Rightarrow> nat option" where
  "previousSibling D n = hd_opt (rev (preceding D n))"

definition firstChild :: "document \<Rightarrow> nat \<Rightarrow> nat option" where
  "firstChild D n = hd_opt (childNodes D n)"

definition lastChild :: "document \<Rightarrow> nat \<Rightarrow> nat option" where
  "lastChild D n = hd_opt (rev (childNodes D n))"

definition element_kids :: "document \<Rightarrow> nat \<Rightarrow> nat list" where
  "element_kids D p = filter (is_elem D) (childNodes D p)"

text \<open>
  What a browser keeps true: parents and children agree, going up ends, and a document (type 9) is in no
  other node.
\<close>

definition parent_rel :: "document \<Rightarrow> (nat \<times> nat) set" where
  "parent_rel D = {(p, c). parentNode D c = Some p}"

definition tree_ok :: "document \<Rightarrow> bool" where
  "tree_ok D \<longleftrightarrow>
     (\<forall>p c. c \<in> set (childNodes D p) \<longleftrightarrow> parentNode D c = Some p) \<and>
     (\<forall>p. distinct (childNodes D p)) \<and> wf (parent_rel D) \<and>
     (\<forall>n. nodeType D n = 9 \<longrightarrow> parentNode D n = None)"

lemma tree_okD:
  assumes "tree_ok D"
  shows "c \<in> set (childNodes D p) \<longleftrightarrow> parentNode D c = Some p"
    and "distinct (childNodes D p)"
    and "wf (parent_rel D)"
    and "parentNode D n = Some p \<Longrightarrow> nodeType D n \<noteq> 9"
  using assms by (auto simp: tree_ok_def)

lemma parent_rel_iff [simp]: "(p, c) \<in> parent_rel D \<longleftrightarrow> parentNode D c = Some p"
  by (simp add: parent_rel_def)

section \<open>Positions in a list\<close>

lemma hd_opt_simps [simp]: "hd_opt [] = None" "hd_opt (x # xs) = Some x"
  by (simp_all add: hd_opt_def)

lemma hd_opt_None [simp]: "hd_opt xs = None \<longleftrightarrow> xs = []"
  by (cases xs) simp_all

lemma split_around: "x \<in> set xs \<Longrightarrow> prior x xs @ x # after x xs = xs"
  by (induction xs) auto

lemma prior_notin [simp]: "x \<notin> set (prior x xs)"
  by (induction xs) auto

lemma after_append: "x \<notin> set xs \<Longrightarrow> after x (xs @ x # ys) = ys"
  by (induction xs) auto

lemma prior_append: "x \<notin> set xs \<Longrightarrow> prior x (xs @ x # ys) = xs"
  by (induction xs) auto

lemma set_after: "set (after x xs) \<subseteq> set xs"
  by (induction xs) auto

lemma set_prior: "set (prior x xs) \<subseteq> set xs"
  by (induction xs) auto

lemma distinct_after [simp]: "distinct xs \<Longrightarrow> distinct (after x xs)"
  by (induction xs) auto

lemma after_notin: "distinct xs \<Longrightarrow> x \<notin> set (after x xs)"
  by (induction xs) auto

lemma after_head:
  assumes "distinct xs" and "after x xs = y # ys"
  shows "after y xs = ys"
proof -
  have "x \<in> set xs" using assms(2) by (induction xs) (auto split: if_splits)
  from split_around [OF this] assms(2) have xs: "xs = (prior x xs @ [x]) @ y # ys" by simp
  with assms(1) have "y \<notin> set (prior x xs @ [x])"
    by (metis distinct_append disjoint_iff list.set_intros(1))
  with xs show ?thesis using after_append by metis
qed

lemma prior_last:
  assumes "distinct xs" and "x \<in> set xs" and "prior x xs = ys @ [y]"
  shows "prior y xs = ys"
proof -
  from split_around [OF assms(2)] assms(3) have xs: "xs = ys @ y # x # after x xs" by simp
  with assms(1) have "y \<notin> set ys" by (metis distinct_append disjoint_iff list.set_intros(1))
  with xs show ?thesis using prior_append by metis
qed

lemma after_total: "distinct xs \<Longrightarrow> x \<in> set xs \<Longrightarrow> y \<in> set xs \<Longrightarrow> x = y \<or> y \<in> set (after x xs) \<or> x \<in> set (after y xs)"
  by (induction xs) auto

lemma after_prior: "distinct xs \<Longrightarrow> x \<in> set xs \<Longrightarrow> y \<in> set (after x xs) \<longleftrightarrow> y \<in> set xs \<and> x \<in> set (prior y xs)"
  by (induction xs) auto

lemma prior_trans: "distinct xs \<Longrightarrow> x \<in> set (prior y xs) \<Longrightarrow> q \<in> set (prior x xs) \<Longrightarrow> q \<in> set (prior y xs)"
  by (induction xs) (auto split: if_splits dest: subsetD [OF set_prior])

lemma after_trans: "distinct xs \<Longrightarrow> y \<in> set (after x xs) \<Longrightarrow> z \<in> set (after y xs) \<Longrightarrow> z \<in> set (after x xs)"
  by (induction xs) (auto split: if_splits dest: subsetD [OF set_after])

lemma those_total: "(\<And>x. x \<in> set xs \<Longrightarrow> f x \<noteq> None) \<Longrightarrow> \<exists>rs. those (map f xs) = Some rs"
  by (induction xs) (auto split: option.splits)

lemma those_all2: "those (map f xs) = Some ys \<Longrightarrow> list_all2 (\<lambda>x y. f x = Some y) xs ys"
  by (induction xs arbitrary: ys) (auto split: option.splits)

section \<open>Loops over a pointer\<close>

primrec visits :: "('a \<Rightarrow> 'a option) \<Rightarrow> 'a option \<Rightarrow> 'a list \<Rightarrow> bool" where
  "visits f cur [] \<longleftrightarrow> cur = None"
| "visits f cur (x # xs) \<longleftrightarrow> cur = Some x \<and> visits f (f x) xs"

lemma visits_unique: "visits f cur xs \<Longrightarrow> visits f cur ys \<Longrightarrow> xs = ys"
proof (induction xs arbitrary: cur ys)
  case Nil
  then show ?case by (cases ys) simp_all
next
  case (Cons x xs)
  then show ?case by (cases ys) auto
qed

lemma visits_parents_ex:
  assumes "tree_ok D"
  shows "\<exists>xs. visits (parentNode D) cur xs"
proof -
  have "\<exists>xs. visits (parentNode D) (Some n) xs" for n
  proof (induction n rule: wf_induct_rule [OF tree_okD(3) [OF assms]])
    case (1 n)
    show ?case
    proof (cases "parentNode D n")
      case None
      then have "visits (parentNode D) (Some n) [n]" by simp
      then show ?thesis by blast
    next
      case (Some p)
      then obtain xs where "visits (parentNode D) (Some p) xs" using "1" by auto
      with Some have "visits (parentNode D) (Some n) (n # xs)" by simp
      then show ?thesis by blast
    qed
  qed
  moreover have "visits (parentNode D) None []" by simp
  ultimately show ?thesis by (cases cur) blast+
qed

lemma siblings_ok:
  assumes "tree_ok D"
  shows "distinct (siblings_of D n)" and "m \<in> set (siblings_of D n) \<Longrightarrow> siblings_of D m = siblings_of D n"
    and "parentNode D n \<noteq> None \<Longrightarrow> n \<in> set (siblings_of D n)"
    and "m \<in> set (siblings_of D n) \<Longrightarrow> parentNode D m = parentNode D n"
  using assms by (auto simp: siblings_of_def tree_okD split: option.splits)

lemma following_step:
  assumes "tree_ok D" and "following D n = x # xs"
  shows "following D x = xs"
proof -
  have "x \<in> set (siblings_of D n)"
    using assms(2) set_after [of n "siblings_of D n"] by (auto simp: following_def)
  from siblings_ok(2) [OF assms(1) this] after_head [OF siblings_ok(1) [OF assms(1)] assms(2) [unfolded following_def]]
  show ?thesis by (simp add: following_def)
qed

lemma visits_next:
  assumes "tree_ok D"
  shows "visits (nextSibling D) (nextSibling D n) (following D n)"
proof (induction "following D n" arbitrary: n)
  case Nil
  then show ?case by (simp add: nextSibling_def flip: Nil)
next
  case (Cons x xs)
  from following_step [OF assms] Cons(2) have "following D x = xs" by metis
  with Cons(1) [of x] have "visits (nextSibling D) (nextSibling D x) xs" by simp
  then show ?case by (simp add: nextSibling_def flip: Cons(2))
qed

lemma preceding_step:
  assumes "tree_ok D" and "preceding D n = xs @ [x]"
  shows "preceding D x = xs"
proof -
  have x: "x \<in> set (siblings_of D n)"
    using assms(2) set_prior [of n "siblings_of D n"] by (auto simp: preceding_def)
  then have "parentNode D n \<noteq> None" by (cases "parentNode D n") (simp_all add: siblings_of_def)
  from siblings_ok(2) [OF assms(1) x]
    prior_last [OF siblings_ok(1) [OF assms(1)] siblings_ok(3) [OF assms(1) this] assms(2) [unfolded preceding_def]]
  show ?thesis by (simp add: preceding_def)
qed

lemma visits_previous:
  assumes "tree_ok D"
  shows "visits (previousSibling D) (previousSibling D n) (rev (preceding D n))"
proof (induction "preceding D n" arbitrary: n rule: rev_induct)
  case Nil
  then show ?case by (simp add: previousSibling_def flip: Nil)
next
  case (snoc x xs)
  from preceding_step [OF assms] snoc(2) have "preceding D x = xs" by metis
  with snoc(1) [of x] have "visits (previousSibling D) (previousSibling D x) (rev xs)" by simp
  then show ?case by (simp add: previousSibling_def flip: snoc(2))
qed

lemma visits_children:
  assumes "tree_ok D"
  shows "visits (nextSibling D) (firstChild D p) (childNodes D p)"
proof (cases "childNodes D p")
  case Nil
  then show ?thesis by (simp add: firstChild_def)
next
  case (Cons x xs)
  with tree_okD(1) [OF assms] have "parentNode D x = Some p" by (metis list.set_intros(1))
  with Cons have "following D x = xs" by (simp add: following_def siblings_of_def)
  with visits_next [OF assms, of x] Cons show ?thesis by (simp add: firstChild_def)
qed


lemma above_iff: "(q, x) \<in> (parent_rel D)\<^sup>+ \<longleftrightarrow> (\<exists>p. parentNode D x = Some p \<and> (q, p) \<in> (parent_rel D)\<^sup>*)"
proof
  assume "(q, x) \<in> (parent_rel D)\<^sup>+"
  then show "\<exists>p. parentNode D x = Some p \<and> (q, p) \<in> (parent_rel D)\<^sup>*"
    by (cases rule: tranclE) (auto dest: trancl_into_rtrancl)
next
  assume "\<exists>p. parentNode D x = Some p \<and> (q, p) \<in> (parent_rel D)\<^sup>*"
  then show "(q, x) \<in> (parent_rel D)\<^sup>+" by (auto intro: rtrancl_into_trancl1)
qed

lemma above_linear:
  assumes "(a, x) \<in> (parent_rel D)\<^sup>*" and "(b, x) \<in> (parent_rel D)\<^sup>*"
  shows "(a, b) \<in> (parent_rel D)\<^sup>* \<or> (b, a) \<in> (parent_rel D)\<^sup>*"
proof -
  have "single_valued ((parent_rel D)\<inverse>)" by (simp add: single_valued_def)
  with assms show ?thesis
    using single_valued_confluent [of "(parent_rel D)\<inverse>" x a b] by (auto simp: rtrancl_converse)
qed

lemma root_above:
  assumes "(r, x) \<in> (parent_rel D)\<^sup>*" and "(a, x) \<in> (parent_rel D)\<^sup>*" and "parentNode D r = None"
  shows "(r, a) \<in> (parent_rel D)\<^sup>*"
  using above_linear [OF assms(1,2)] assms(3) by (auto elim: rtranclE)

lemma visits_parents_set:
  assumes "visits (parentNode D) (parentNode D e) xs"
  shows "set xs = {p. (p, e) \<in> (parent_rel D)\<^sup>+}"
  using assms
proof (induction xs arbitrary: e)
  case Nil
  then have "(p, e) \<notin> (parent_rel D)\<^sup>+" for p by (auto elim: tranclE)
  then show ?case by simp
next
  case (Cons x xs)
  then have "parentNode D e = Some x" "set xs = {p. (p, x) \<in> (parent_rel D)\<^sup>+}" by auto
  then show ?case by (auto intro: trancl_into_trancl elim: tranclE)
qed

section \<open>A page\<close>

text \<open>
  A document with a list of two items, which hold an element each, and a text between them: 0 is the
  document, 1 the root element, 2 the list, 3 and 5 the items, 4 the text.
\<close>

definition sample :: document where
  "sample = \<lparr>
     childNodes = (\<lambda>n. if n = 0 then [1] else if n = 1 then [2] else if n = 2 then [3, 4, 5]
       else if n = 3 then [6] else if n = 5 then [7] else []),
     parentNode = map_of [(1, 0), (2, 1), (3, 2), (4, 2), (5, 2), (6, 3), (7, 5)],
     nodeType = (\<lambda>n. if n = 0 then 9 else if n = 4 then 3 else 1),
     nodeName = (\<lambda>n. if n = 0 then ''#document'' else if n = 4 then ''#text'' else if n = 1 then ''HTML'' else if n = 2 then ''UL'' else if n = 3 \<or> n = 5 then ''LI'' else ''B'')\<rparr>"

lemma sample_ok: "tree_ok sample"
proof -
  have "parent_rel sample \<subseteq> less_than" by (auto simp: sample_def split: if_splits)
  then have "wf (parent_rel sample)" by (rule wf_subset [OF wf_less_than])
  then show ?thesis by (auto simp: tree_ok_def sample_def split: if_splits)
qed

lemma sample_parents:
  "parentNode sample 0 = None" "parentNode sample 1 = Some 0" "parentNode sample 2 = Some 1" "parentNode sample 3 = Some 2"
  "parentNode sample 4 = Some 2" "parentNode sample 5 = Some 2" "parentNode sample 6 = Some 3" "parentNode sample 7 = Some 5"
  by (simp_all add: sample_def)

lemma sample_below:
  assumes "n \<le> 7"
  shows "(0, n) \<in> (parent_rel sample)\<^sup>*"
proof -
  have up: "(0, c) \<in> (parent_rel sample)\<^sup>*" if "(0, p) \<in> (parent_rel sample)\<^sup>*" "parentNode sample c = Some p" for c p
    using that by (simp add: rtrancl_into_rtrancl)
  note 2 = up [OF up [OF rtrancl_refl sample_parents(2)] sample_parents(3)]
  have "n \<in> {0, 1, 2, 3, 4, 5, 6, 7}" using assms by auto
  then show ?thesis
    using rtrancl_refl up [OF rtrancl_refl sample_parents(2)] 2 up [OF 2 sample_parents(4)] up [OF 2 sample_parents(5)]
      up [OF 2 sample_parents(6)] up [OF up [OF 2 sample_parents(4)] sample_parents(7)]
      up [OF up [OF 2 sample_parents(6)] sample_parents(8)] by blast
qed

end
