(* ===== verification/JQ_Order.thy ===== *)
theory JQ_Order
  imports JQ_Tree
begin

text \<open>
  \<open>jquery-1.7.2.js\<close>, lines 4114 to 4130 and 4914 to 4991: the order of nodes in the document, where
  the browser has no \<open>compareDocumentPosition\<close>, and \<open>uniqueSort\<close>. The comparison climbs to the place
  where the ways from the root part.
\<close>

section \<open>\<open>sortOrder\<close>\<close>

text \<open>The loop of \<open>siblingCheck\<close> over \<open>nextSibling\<close>.\<close>

partial_function (option) sibling_loop :: "document \<Rightarrow> nat option \<Rightarrow> nat option \<Rightarrow> int option" where
  "sibling_loop D b cur =
     (case cur of
        None \<Rightarrow> Some 1
      | Some c \<Rightarrow> if Some c = b then Some (- 1) else sibling_loop D b (nextSibling D c))"

text \<open>\<open>b\<close> is missing when an index points past the end of an array; then \<open>ret\<close> is never used.\<close>

definition siblingCheck :: "document \<Rightarrow> nat \<Rightarrow> nat option \<Rightarrow> int \<Rightarrow> int option" where
  "siblingCheck D a b ret = (if Some a = b then Some ret else sibling_loop D b (nextSibling D a))"

text \<open>The loops that put the parents in front of \<open>ap\<close> and \<open>bp\<close>.\<close>

partial_function (option) parents_above :: "document \<Rightarrow> nat option \<Rightarrow> nat list \<Rightarrow> nat list option" where
  "parents_above D cur ap =
     (case cur of None \<Rightarrow> Some ap | Some c \<Rightarrow> parents_above D (parentNode D c) (c # ap))"

text \<open>Walking down both lists, and what is compared when one of them ends.\<close>

fun walk_down :: "document \<Rightarrow> nat \<Rightarrow> nat \<Rightarrow> nat list \<Rightarrow> nat list \<Rightarrow> int option" where
  "walk_down D a b (x # ap) (y # bp) = (if x \<noteq> y then siblingCheck D x (Some y) 0 else walk_down D a b ap bp)"
| "walk_down D a b [] bp = siblingCheck D a (hd_opt bp) (- 1)"
| "walk_down D a b (x # ap) [] = siblingCheck D x (Some b) 1"

text \<open>
  \<open>index\<close> is the property \<open>sourceIndex\<close>, 0 where a browser has none. The flag of the result says that
  the nodes were the same, which \<open>sortOrder\<close> notes in \<open>hasDuplicate\<close>.
\<close>

definition sortOrder :: "document \<Rightarrow> (nat \<Rightarrow> nat) \<Rightarrow> nat \<Rightarrow> nat \<Rightarrow> (int \<times> bool) option" where
  "sortOrder D index a b =
     (if a = b then Some (0, True)
      else if index a \<noteq> 0 \<and> index b \<noteq> 0 then Some (int (index a) - int (index b), False)
      else map_option (\<lambda>i. (i, False))
        (if parentNode D a = parentNode D b then siblingCheck D a (Some b) 0
         else if parentNode D a = None then Some (- 1)
         else if parentNode D b = None then Some 1
         else Option.bind (parents_above D (parentNode D a) []) (\<lambda>ap.
           Option.bind (parents_above D (parentNode D b) []) (\<lambda>bp. walk_down D a b ap bp))))"

section \<open>\<open>uniqueSort\<close>\<close>

text \<open>
  The sort of the browser, here by insertion: any sort compares a node with its place among those
  sorted before. The flag collects what the comparisons note.
\<close>

fun insert_sorted :: "(nat \<Rightarrow> nat \<Rightarrow> (int \<times> bool) option) \<Rightarrow> nat \<Rightarrow> nat list \<Rightarrow> (nat list \<times> bool) option" where
  "insert_sorted cmp x [] = Some ([x], False)"
| "insert_sorted cmp x (y # ys) =
     Option.bind (cmp x y) (\<lambda>(i, same).
       if i \<le> 0 then Some (x # y # ys, same)
       else map_option (\<lambda>(zs, f). (y # zs, f \<or> same)) (insert_sorted cmp x ys))"

fun sort_nodes :: "(nat \<Rightarrow> nat \<Rightarrow> (int \<times> bool) option) \<Rightarrow> nat list \<Rightarrow> (nat list \<times> bool) option" where
  "sort_nodes cmp [] = Some ([], False)"
| "sort_nodes cmp (x # xs) =
     Option.bind (sort_nodes cmp xs) (\<lambda>(ys, f). map_option (\<lambda>(zs, g). (zs, f \<or> g)) (insert_sorted cmp x ys))"

text \<open>The loop that drops a node equal to the one before it.\<close>

fun drop_equal :: "nat list \<Rightarrow> nat list" where
  "drop_equal (x # y # ys) = (if x = y then drop_equal (x # ys) else x # drop_equal (y # ys))"
| "drop_equal xs = xs"

text \<open>
  \<open>base\<close> is \<open>baseHasDuplicate\<close>: whether the browser sorts without calling the function for a list
  of two equal numbers.
\<close>

definition uniqueSort :: "document \<Rightarrow> (nat \<Rightarrow> nat) \<Rightarrow> bool \<Rightarrow> nat list \<Rightarrow> nat list option" where
  "uniqueSort D index base xs =
     map_option (\<lambda>(ys, dup). if base \<or> dup then drop_equal ys else ys) (sort_nodes (sortOrder D index) xs)"

section \<open>The order of the document\<close>

text \<open>
  A node comes before another when it is above it, or when it is in, or under, an earlier sibling of a
  node that is the other one or above it.
\<close>

definition earlier :: "document \<Rightarrow> (nat \<times> nat) set" where
  "earlier D = {(x, y). y \<in> set (following D x)}"

definition precedes :: "document \<Rightarrow> nat \<Rightarrow> nat \<Rightarrow> bool" where
  "precedes D a b \<longleftrightarrow> (a, b) \<in> (parent_rel D)\<^sup>+ \<or>
     (\<exists>x y. (x, a) \<in> (parent_rel D)\<^sup>* \<and> (y, b) \<in> (parent_rel D)\<^sup>* \<and> (x, y) \<in> earlier D)"

text \<open>The way from the root to a node.\<close>

definition way_to :: "document \<Rightarrow> nat \<Rightarrow> nat list" where
  "way_to D n = rev (THE xs. visits (parentNode D) (Some n) xs)"

definition root_of_node :: "document \<Rightarrow> nat \<Rightarrow> nat" where
  "root_of_node D n = hd (way_to D n)"

lemma way_to:
  assumes "tree_ok D"
  shows "visits (parentNode D) (Some n) (rev (way_to D n))"
proof -
  obtain xs where xs: "visits (parentNode D) (Some n) xs" using visits_parents_ex [OF assms] by blast
  then have "visits (parentNode D) (Some n) (THE xs. visits (parentNode D) (Some n) xs)"
    by (rule theI) (rule visits_unique [OF _ xs])
  then show ?thesis by (simp add: way_to_def)
qed

lemma way_to_eqI: "tree_ok D \<Longrightarrow> visits (parentNode D) (Some n) xs \<Longrightarrow> way_to D n = rev xs"
  using way_to visits_unique by (metis rev_rev_ident)

lemma way_to_simps:
  assumes "tree_ok D"
  shows "way_to D n = (case parentNode D n of None \<Rightarrow> [] | Some p \<Rightarrow> way_to D p) @ [n]"
proof (cases "parentNode D n")
  case None
  then show ?thesis using way_to_eqI [OF assms, of n "[n]"] by simp
next
  case (Some p)
  with way_to [OF assms, of p] have "visits (parentNode D) (Some n) (n # rev (way_to D p))" by simp
  from way_to_eqI [OF assms this] Some show ?thesis by simp
qed


section \<open>The order is that of the ways from the root\<close>

lemma way_below:
  assumes "tree_ok D" and "(a, b) \<in> (parent_rel D)\<^sup>*"
  shows "\<exists>v. way_to D b = way_to D a @ v \<and> (a = b \<longleftrightarrow> v = [])"
  using assms(2)
proof (induction rule: rtrancl_induct)
  case base
  then show ?case by simp
next
  case (step y z)
  then obtain v where "way_to D y = way_to D a @ v" by blast
  with step(2) have z: "way_to D z = way_to D a @ v @ [z]" by (subst way_to_simps [OF assms(1)]) simp
  then have "a \<noteq> z" by auto
  with z show ?case by auto
qed

lemma way_split:
  assumes "tree_ok D" and "way_to D n = u @ z # v"
  shows "way_to D z = u @ [z] \<and> (z, n) \<in> (parent_rel D)\<^sup>*"
  using assms(2)
proof (induction v arbitrary: n rule: rev_induct)
  case Nil
  then show ?case by (metis append1_eq_conv rtrancl.rtrancl_refl way_to_simps [OF assms(1)])
next
  case (snoc m v)
  from snoc(2) way_to_simps [OF assms(1), of n]
  obtain p where p: "parentNode D n = Some p" "way_to D p = u @ z # v"
    by (cases "parentNode D n") (auto simp: append_eq_append_conv2)
  from snoc(1) [OF p(2)] p(1) show ?case by (auto intro: rtrancl_into_rtrancl)
qed

lemma earlier_iff: "(x, y) \<in> earlier D \<longleftrightarrow> y \<in> set (following D x)"
  by (simp add: earlier_def)

lemma earlier_siblings:
  assumes "tree_ok D" and "(x, y) \<in> earlier D"
  obtains p where "parentNode D x = Some p" and "parentNode D y = Some p"
proof -
  from assms(2) have "y \<in> set (siblings_of D x)"
    using set_after [of x "siblings_of D x"] by (auto simp: earlier_iff following_def)
  then show ?thesis using that tree_okD(1) [OF assms(1)]
    by (cases "parentNode D x") (auto simp: siblings_of_def)
qed

lemma way_child: "tree_ok D \<Longrightarrow> parentNode D x = Some p \<Longrightarrow> way_to D x = way_to D p @ [x]"
  by (subst way_to_simps) simp_all

lemma precedes_ways:
  assumes "tree_ok D"
  shows "precedes D a b \<longleftrightarrow> (way_to D a, way_to D b) \<in> lexord (earlier D)"
proof
  assume "precedes D a b"
  then consider "(a, b) \<in> (parent_rel D)\<^sup>+"
    | x y where "(x, a) \<in> (parent_rel D)\<^sup>*" "(y, b) \<in> (parent_rel D)\<^sup>*" "(x, y) \<in> earlier D"
    unfolding precedes_def by blast
  then show "(way_to D a, way_to D b) \<in> lexord (earlier D)"
  proof cases
    case 1
    then have "(a, b) \<in> (parent_rel D)\<^sup>*" "a \<noteq> b"
      using wf_acyclic [OF tree_okD(3) [OF assms]] by (auto simp: acyclic_def)
    with way_below [OF assms] obtain v where "way_to D b = way_to D a @ v" "v \<noteq> []" by metis
    then show ?thesis by (cases v) (auto simp: lexord_def)
  next
    case 2
    from earlier_siblings [OF assms 2(3)] obtain p where "parentNode D x = Some p" "parentNode D y = Some p" .
    then have "way_to D x = way_to D p @ [x]" "way_to D y = way_to D p @ [y]"
      by (simp_all add: way_child [OF assms])
    moreover obtain u v where "way_to D a = way_to D x @ u" "way_to D b = way_to D y @ v"
      using way_below [OF assms 2(1)] way_below [OF assms 2(2)] by metis
    ultimately have "way_to D a = way_to D p @ x # u" "way_to D b = way_to D p @ y # v" by simp_all
    with 2(3) show ?thesis unfolding lexord_def by blast
  qed
next
  assume "(way_to D a, way_to D b) \<in> lexord (earlier D)"
  then consider c v where "way_to D b = way_to D a @ c # v"
    | u x y v w where "(x, y) \<in> earlier D" "way_to D a = u @ x # v" "way_to D b = u @ y # w"
    unfolding lexord_def by blast
  then show "precedes D a b"
  proof cases
    case 1
    have "way_to D a = butlast (way_to D a) @ [a]" by (subst (1 2) way_to_simps [OF assms]) simp
    with 1 have "way_to D b = butlast (way_to D a) @ a # c # v" by (metis append.assoc append_Cons append_Nil)
    from way_split [OF assms this] have "(a, b) \<in> (parent_rel D)\<^sup>*" ..
    moreover have "a \<noteq> b" using 1 by auto
    ultimately show ?thesis by (auto simp: precedes_def dest: rtranclD)
  next
    case 2
    with way_split [OF assms] show ?thesis unfolding precedes_def by blast
  qed
qed

lemma earlier_order:
  assumes "tree_ok D"
  shows "(x, x) \<notin> earlier D" and "trans (earlier D)"
proof -
  show "(x, x) \<notin> earlier D"
    by (simp add: earlier_iff following_def after_notin siblings_ok(1) [OF assms])
  show "trans (earlier D)"
  proof (rule transI)
    fix x y z
    assume xy: "(x, y) \<in> earlier D" and yz: "(y, z) \<in> earlier D"
    from earlier_siblings [OF assms xy] have "siblings_of D y = siblings_of D x" by (metis siblings_of_def)
    with xy yz show "(x, z) \<in> earlier D"
      using after_trans [OF siblings_ok(1) [OF assms, of x]] by (simp add: earlier_iff following_def)
  qed
qed

lemma precedes_irrefl: "tree_ok D \<Longrightarrow> \<not> precedes D a a"
  by (simp add: precedes_ways lexord_irreflexive earlier_order)

lemma precedes_trans: "tree_ok D \<Longrightarrow> precedes D a b \<Longrightarrow> precedes D b c \<Longrightarrow> precedes D a c"
  by (simp add: precedes_ways) (blast intro: lexord_trans earlier_order)


lemma precedes_asym: "tree_ok D \<Longrightarrow> precedes D a b \<Longrightarrow> \<not> precedes D b a"
  using precedes_trans precedes_irrefl by blast

lemma split_paths:
  assumes "xs \<noteq> ys"
  shows "(\<exists>c v. xs = ys @ c # v) \<or> (\<exists>c v. ys = xs @ c # v) \<or>
    (\<exists>u x y v w. x \<noteq> y \<and> xs = u @ x # v \<and> ys = u @ y # w)"
  using assms
proof (induction xs ys rule: list_induct2')
  case (4 x xs y ys)
  show ?case
  proof (cases "x = y")
    case True
    with 4 consider c v where "xs = ys @ c # v" | c v where "ys = xs @ c # v"
      | u a b v w where "a \<noteq> b" "xs = u @ a # v" "ys = u @ b # w" by blast
    then show ?thesis
    proof cases
      case 3
      then have "x # xs = (x # u) @ a # v" "y # ys = (x # u) @ b # w" using True by simp_all
      with 3(1) show ?thesis by blast
    qed (use True in auto)
  qed (metis append_Nil)
qed auto

lemma precedes_total:
  assumes D: "tree_ok D" and r: "(r, a) \<in> (parent_rel D)\<^sup>*" "(r, b) \<in> (parent_rel D)\<^sup>*" and "a \<noteq> b"
  shows "precedes D a b \<or> precedes D b a"
proof -
  have "way_to D a \<noteq> way_to D b" using \<open>a \<noteq> b\<close> way_to_simps [OF D] by (metis append1_eq_conv)
  from split_paths [OF this] consider c v where "way_to D a = way_to D b @ c # v"
    | c v where "way_to D b = way_to D a @ c # v"
    | u x y v w where "x \<noteq> y" "way_to D a = u @ x # v" "way_to D b = u @ y # w" by blast
  then show ?thesis
  proof cases
    case 3
    obtain v1 v2 where "way_to D a = way_to D r @ v1" "way_to D b = way_to D r @ v2"
      using way_below [OF D r(1)] way_below [OF D r(2)] by blast
    moreover have "way_to D r \<noteq> []" by (subst way_to_simps [OF D]) simp
    ultimately have "hd (way_to D a) = hd (way_to D b)" by simp
    with 3 have "u \<noteq> []" by auto
    then obtain u' p where u: "u = u' @ [p]" by (metis rev_exhaust)
    have up: "parentNode D z = Some p" if "way_to D z = u @ [z]" for z
      using that way_to_simps [OF D, of z] way_to_simps [OF D, of "the (parentNode D z)"] u
      by (cases "parentNode D z") auto
    then have "parentNode D x = Some p" "parentNode D y = Some p"
      using way_split [OF D 3(2)] way_split [OF D 3(3)] by blast+
    then have "x \<in> set (childNodes D p)" "y \<in> set (childNodes D p)" by (simp_all add: tree_okD(1) [OF D])
    with after_total [OF tree_okD(2) [OF D]] \<open>x \<noteq> y\<close> have "(x, y) \<in> earlier D \<or> (y, x) \<in> earlier D"
      by (auto simp: earlier_iff following_def siblings_of_def \<open>parentNode D x = Some p\<close> \<open>parentNode D y = Some p\<close>)
    with 3 show ?thesis by (simp add: precedes_ways [OF D] lexord_def) blast
  qed (simp_all add: precedes_ways [OF D] lexord_def)
qed

section \<open>The comparison finds this order\<close>

lemma sibling_loop: "visits (nextSibling D) cur xs \<Longrightarrow> sibling_loop D (Some b) cur = Some (if b \<in> set xs then - 1 else 1)"
  by (induction xs arbitrary: cur) (subst sibling_loop.simps, simp)+

lemma siblingCheck:
  "tree_ok D \<Longrightarrow> siblingCheck D a (Some b) ret = Some (if a = b then ret else if (a, b) \<in> earlier D then - 1 else 1)"
  by (simp add: siblingCheck_def sibling_loop [OF visits_next] earlier_iff)

lemma parents_above: "visits (parentNode D) cur xs \<Longrightarrow> parents_above D cur ap = Some (rev xs @ ap)"
  by (induction xs arbitrary: cur ap) (subst parents_above.simps, simp)+

lemma walk_down:
  assumes "tree_ok D" and "ap \<noteq> bp"
  shows "walk_down D a b ap bp = Some (if (ap @ [a], bp @ [b]) \<in> lexord (earlier D) then - 1 else 1)"
  using assms(2)
proof (induction ap bp rule: list_induct2')
  case (2 x ap)
  then show ?case by (auto simp: siblingCheck [OF assms(1)] earlier_order(1) [OF assms(1)] lexord_def Cons_eq_append_conv)
next
  case (3 y bp)
  show ?case by (cases bp) (auto simp: siblingCheck [OF assms(1)])
next
  case (4 x ap y bp)
  then show ?case by (auto simp: siblingCheck [OF assms(1)] earlier_order(1) [OF assms(1)])
qed simp

lemma sortOrder_precedes:
  assumes D: "tree_ok D" and r: "(r, a) \<in> (parent_rel D)\<^sup>*" "(r, b) \<in> (parent_rel D)\<^sup>*"
    and index: "\<And>a b. index a \<noteq> 0 \<Longrightarrow> index b \<noteq> 0 \<Longrightarrow> a \<noteq> b \<Longrightarrow> index a < index b \<longleftrightarrow> precedes D a b"
    and ne: "a \<noteq> b"
  shows "\<exists>i. sortOrder D index a b = Some (i, False) \<and> (i \<le> 0 \<longleftrightarrow> precedes D a b)"
proof -
  obtain v1 v2 where v: "way_to D a = way_to D r @ v1" "way_to D b = way_to D r @ v2"
    using way_below [OF D r(1)] way_below [OF D r(2)] by blast
  have nonempty: "way_to D n \<noteq> []" for n by (subst way_to_simps [OF D]) simp
  have hd_eq: "hd (way_to D a) = hd (way_to D b)" using v nonempty [of r] by simp
  show ?thesis
  proof (cases "index a \<noteq> 0 \<and> index b \<noteq> 0")
    case True
    then have "index a < index b \<longleftrightarrow> precedes D a b" "index b < index a \<longleftrightarrow> precedes D b a"
      using index ne by simp_all
    moreover from precedes_total [OF D r ne] precedes_asym [OF D] have "precedes D a b \<longleftrightarrow> \<not> precedes D b a" by blast
    ultimately have "int (index a) - int (index b) \<le> 0 \<longleftrightarrow> precedes D a b" by linarith
    with True ne show ?thesis by (simp add: sortOrder_def)
  next
    case False
    let ?less = "(way_to D a, way_to D b) \<in> lexord (earlier D)"
    let ?i = "if ?less then - 1 else 1 :: int"
    have "sortOrder D index a b = Some (?i, False)"
    proof (cases "parentNode D a = parentNode D b")
      case True
      then have "parentNode D a \<noteq> None"
        using hd_eq ne way_to_simps [OF D, of a] way_to_simps [OF D, of b] by (cases "parentNode D b") simp_all
      with True obtain p where "way_to D a = way_to D p @ [a]" "way_to D b = way_to D p @ [b]"
        using way_child [OF D] by (metis not_None_eq)
      then have "?less \<longleftrightarrow> (a, b) \<in> earlier D"
        by (simp add: lexord_same_pref_iff earlier_order(1) [OF D])
      with True False ne show ?thesis by (auto simp: sortOrder_def siblingCheck [OF D])
    next
      case parents: False
      show ?thesis
      proof (cases "parentNode D a = None \<or> parentNode D b = None")
        case True
        with parents consider "way_to D a = [a]" "parentNode D a = None" | "way_to D b = [b]" "parentNode D b = None" "parentNode D a \<noteq> None"
          using way_to_simps [OF D, of a] way_to_simps [OF D, of b] by auto
        then show ?thesis
        proof cases
          case 1
          then obtain u c where "way_to D b = a # u" using hd_eq nonempty [of b] by (cases "way_to D b") auto
          moreover from this have "u \<noteq> []" using ne way_to_simps [OF D, of b] by auto
          ultimately have ?less using 1 by (cases u) simp_all
          with 1 parents False ne show ?thesis by (auto simp: sortOrder_def)
        next
          case 2
          then obtain u where "way_to D a = b # u" using hd_eq nonempty [of a] by (cases "way_to D a") auto
          with 2 have "\<not> ?less" by (simp add: earlier_order(1) [OF D])
          with 2 parents False ne show ?thesis by (auto simp: sortOrder_def)
        qed
      next
        case above: False
        then obtain p q where pq: "parentNode D a = Some p" "parentNode D b = Some q" by auto
        have "way_to D p \<noteq> way_to D q"
          using pq parents way_to_simps [OF D, of p] way_to_simps [OF D, of q] by (metis append1_eq_conv)
        from walk_down [OF D this] way_child [OF D pq(1)] way_child [OF D pq(2)]
          parents_above [OF way_to [OF D, of p]] parents_above [OF way_to [OF D, of q]]
        show ?thesis using parents False ne pq by (auto simp: sortOrder_def)
      qed
    qed
    then show ?thesis by (simp add: precedes_ways [OF D])
  qed
qed


section \<open>Sorting\<close>

text \<open>What a comparison has to do for the sort to find an order.\<close>

definition compares :: "(nat \<Rightarrow> nat \<Rightarrow> bool) \<Rightarrow> nat set \<Rightarrow> (nat \<Rightarrow> nat \<Rightarrow> (int \<times> bool) option) \<Rightarrow> bool" where
  "compares R A cmp \<longleftrightarrow>
     (\<forall>a\<in>A. \<forall>b\<in>A. if a = b then cmp a b = Some (0, True)
        else \<exists>i. cmp a b = Some (i, False) \<and> (i \<le> 0 \<longleftrightarrow> R a b) \<and> (R a b \<or> R b a))"

abbreviation weakly :: "(nat \<Rightarrow> nat \<Rightarrow> bool) \<Rightarrow> nat \<Rightarrow> nat \<Rightarrow> bool" where
  "weakly R \<equiv> \<lambda>a b. R a b \<or> a = b"

lemma comparesD:
  assumes "compares R A cmp" and "a \<in> A" and "b \<in> A" and "a \<noteq> b"
  obtains i where "cmp a b = Some (i, False)" and "i \<le> 0 \<longleftrightarrow> R a b" and "R a b \<or> R b a"
  using assms unfolding compares_def by metis

lemma insert_sorted:
  assumes cmp: "compares R A cmp" and R: "transp R" "asymp R" and "x \<in> A" and "set ys \<subseteq> A" and "sorted_wrt (weakly R) ys"
  shows "\<exists>zs. insert_sorted cmp x ys = Some (zs, x \<in> set ys) \<and> set zs = insert x (set ys) \<and>
    sorted_wrt (weakly R) zs \<and> length zs = Suc (length ys)"
  using assms(5,6)
proof (induction ys)
  case (Cons y ys)
  then have y: "y \<in> A" "\<forall>z\<in>set ys. (R y z \<or> y = z)" by auto
  show ?case
  proof (cases "x = y")
    case True
    with cmp y(1) have "cmp x y = Some (0, True)" by (simp add: compares_def)
    with True Cons.prems show ?thesis by simp
  next
    case False
    from comparesD [OF cmp \<open>x \<in> A\<close> y(1) False]
    obtain i where i: "cmp x y = Some (i, False)" "i \<le> 0 \<longleftrightarrow> R x y" "R x y \<or> R y x" .
    show ?thesis
    proof (cases "R x y")
      case True
      with y(2) R have "\<forall>z\<in>set ys. R x z" by (auto dest: transpD)
      moreover from this R(2) have "x \<notin> set ys" by (auto dest: asympD)
      ultimately show ?thesis using True False i Cons.prems by auto
    next
      case less: False
      then have "R y x" using i(3) by simp
      moreover from Cons obtain zs where "insert_sorted cmp x ys = Some (zs, x \<in> set ys)"
        "set zs = insert x (set ys)" "sorted_wrt (weakly R) zs" "length zs = Suc (length ys)" by auto
      ultimately show ?thesis using less False i Cons.prems by auto
    qed
  qed
qed simp

lemma sort_nodes:
  assumes "compares R A cmp" and "transp R" "asymp R" and "set xs \<subseteq> A"
  shows "\<exists>ys. sort_nodes cmp xs = Some (ys, \<not> distinct xs) \<and> set ys = set xs \<and> sorted_wrt (weakly R) ys \<and> length ys = length xs"
  using assms(4)
proof (induction xs)
  case (Cons x xs)
  then obtain ys where ys: "sort_nodes cmp xs = Some (ys, \<not> distinct xs)" "set ys = set xs"
    "sorted_wrt (weakly R) ys" "length ys = length xs" by auto
  with Cons.prems have "x \<in> A" "set ys \<subseteq> A" by auto
  from insert_sorted [OF assms(1-3) this ys(3)] ys show ?case by auto
qed simp

lemma drop_equal:
  assumes "transp R" "asymp R" and "sorted_wrt (weakly R) xs"
  shows "sorted_wrt R (drop_equal xs) \<and> set (drop_equal xs) = set xs"
  using assms(3)
proof (induction xs rule: drop_equal.induct)
  case (1 x y ys)
  show ?case
  proof (cases "x = y")
    case True
    with 1 show ?thesis by simp
  next
    case False
    with 1 have "R x y" "\<forall>z\<in>set ys. (R y z \<or> y = z)" by auto
    then have "\<forall>z\<in>set (y # ys). R x z" using assms(1) by (auto dest: transpD)
    with 1 False show ?thesis by simp
  qed
qed auto

lemma sorted_strict: "asymp R \<Longrightarrow> sorted_wrt (weakly R) xs \<Longrightarrow> distinct xs \<Longrightarrow> sorted_wrt R xs"
  by (induction xs) auto

lemma sorted_distinct: "asymp R \<Longrightarrow> sorted_wrt R xs \<Longrightarrow> distinct xs"
  by (induction xs) (auto dest: asympD)

text \<open>
  C14: \<open>uniqueSort\<close> returns the nodes it is given in the order of the document and each once, although it
  looks for equal neighbours only when the comparison function has seen two equal nodes: inserting a
  node meets its equal.
\<close>

theorem uniqueSort_document_order:
  assumes D: "tree_ok D" and r: "\<forall>x\<in>set xs. (r, x) \<in> (parent_rel D)\<^sup>*"
    and index: "\<forall>a b. index a \<noteq> 0 \<and> index b \<noteq> 0 \<and> a \<noteq> b \<longrightarrow> (index a < index b \<longleftrightarrow> precedes D a b)"
  shows "\<exists>ys. uniqueSort D index base xs = Some ys \<and> set ys = set xs \<and> distinct ys \<and> sorted_wrt (precedes D) ys"
proof -
  have R: "transp (precedes D)" "asymp (precedes D)"
    by (blast intro: transpI precedes_trans [OF D], blast intro: asympI dest: precedes_asym [OF D])
  have "compares (precedes D) (set xs) (sortOrder D index)"
    unfolding compares_def
  proof (intro ballI)
    fix a b assume ab: "a \<in> set xs" "b \<in> set xs"
    with r have below: "(r, a) \<in> (parent_rel D)\<^sup>*" "(r, b) \<in> (parent_rel D)\<^sup>*" by auto
    show "if a = b then sortOrder D index a b = Some (0, True)
      else \<exists>i. sortOrder D index a b = Some (i, False) \<and> (i \<le> 0 \<longleftrightarrow> precedes D a b) \<and> (precedes D a b \<or> precedes D b a)"
    proof (cases "a = b")
      case False
      from index have "index a \<noteq> 0 \<Longrightarrow> index b \<noteq> 0 \<Longrightarrow> a \<noteq> b \<Longrightarrow> index a < index b \<longleftrightarrow> precedes D a b" for a b by blast
      from sortOrder_precedes [OF D below this False] precedes_total [OF D below False] False
      show ?thesis by simp
    qed (simp add: sortOrder_def)
  qed
  from sort_nodes [OF this R order.refl] obtain ys where ys: "sort_nodes (sortOrder D index) xs = Some (ys, \<not> distinct xs)"
    "set ys = set xs" "sorted_wrt (weakly (precedes D)) ys" "length ys = length xs" by blast
  show ?thesis
  proof (cases "base \<or> \<not> distinct xs")
    case True
    with ys drop_equal [OF R ys(3)] sorted_distinct [OF R(2)] show ?thesis by (auto simp: uniqueSort_def)
  next
    case False
    with ys have "distinct ys" by (metis card_distinct distinct_card)
    with False ys sorted_strict [OF R(2) ys(3)] show ?thesis by (simp add: uniqueSort_def)
  qed
qed


theorem uniqueSort_document_order_witness:
  "\<exists>ys. uniqueSort sample (\<lambda>_. 0) False [7, 3, 5, 3, 2] = Some ys \<and> set ys = set [7, 3, 5, 3, 2] \<and> distinct ys \<and>
    sorted_wrt (precedes sample) ys"
  by (rule uniqueSort_document_order [where r = 0]) (simp_all add: sample_ok sample_below)

end
