(* ===== verification/JQ_Traverse.thy ===== *)
theory JQ_Traverse
  imports JQ_Order JQ_Sets
begin

text \<open>
  \<open>jquery-1.7.2.js\<close>, lines 5396 to 5713: the methods that go from a set of elements to another one. The
  selector engine and what it asks the browser are the record \<open>engine\<close>. A loop over pointers may run
  for ever, so it returns an option; in a tree it does return.
\<close>

section \<open>Loops\<close>

text \<open>
  \<open>jQuery.dir\<close>, \<open>nth\<close> and \<open>sibling\<close>; \<open>step\<close> is the pointer to follow, and \<open>until\<close> tells the elements
  that match the third argument of \<open>dir\<close>.
\<close>

partial_function (option) dir ::
  "document \<Rightarrow> (nat \<Rightarrow> nat option) \<Rightarrow> (nat \<Rightarrow> bool) option \<Rightarrow> nat option \<Rightarrow> nat list \<Rightarrow> nat list option" where
  "dir D step until cur matched =
     (case cur of
        None \<Rightarrow> Some matched
      | Some c \<Rightarrow>
          if nodeType D c \<noteq> 9 \<and> (case until of None \<Rightarrow> True | Some p \<Rightarrow> nodeType D c \<noteq> 1 \<or> \<not> p c)
          then dir D step until (step c) (if nodeType D c = 1 then matched @ [c] else matched)
          else Some matched)"

partial_function (option) nth_node ::
  "document \<Rightarrow> (nat \<Rightarrow> nat option) \<Rightarrow> nat \<Rightarrow> nat option \<Rightarrow> nat \<Rightarrow> nat option option" where
  "nth_node D step result cur num =
     (case cur of
        None \<Rightarrow> Some None
      | Some c \<Rightarrow>
          (let num' = (if nodeType D c = 1 then Suc num else num)
           in if nodeType D c = 1 \<and> num' = result then Some (Some c)
              else nth_node D step result (step c) num'))"

partial_function (option) sibling :: "document \<Rightarrow> nat option \<Rightarrow> nat option \<Rightarrow> nat list \<Rightarrow> nat list option" where
  "sibling D n elem r =
     (case n of
        None \<Rightarrow> Some r
      | Some m \<Rightarrow> sibling D (nextSibling D m) elem (if nodeType D m = 1 \<and> n \<noteq> elem then r @ [m] else r))"

section \<open>Selectors\<close>

text \<open>
  What the engine answers: the elements of a list that match a selector, whether one element does,
  the array of results after a selector has been looked for in a context, whether a node is in another; and \<open>sourceIndex\<close> with
  \<open>baseHasDuplicate\<close> for \<open>uniqueSort\<close>. \<open>frame_document\<close> is the document in an \<open>iframe\<close>.
\<close>

record engine =
  e_matches :: "string \<Rightarrow> nat list \<Rightarrow> nat list"
  e_matchesSelector :: "nat \<Rightarrow> string \<Rightarrow> bool"
  e_find :: "string \<Rightarrow> nat \<Rightarrow> nat list \<Rightarrow> nat list"
  e_contains :: "nat \<Rightarrow> nat \<Rightarrow> bool"
  e_index :: "nat \<Rightarrow> nat"
  e_base :: bool
  e_frame :: "nat \<Rightarrow> nat"

definition filter_nodes :: "engine \<Rightarrow> string \<Rightarrow> nat list \<Rightarrow> bool \<Rightarrow> nat list" where
  "filter_nodes S expr xs negated =
     (let expr = (if negated then '':not('' @ expr @ '')'' else expr)
      in if length xs = 1 then if e_matchesSelector S (hd xs) expr then [hd xs] else []
         else e_matches S expr xs)"

text \<open>
  The expression for positions, \<open>POS\<close>: the name of a position after a colon, not followed by a dash. The
  number in parentheses, which is optional, does not change what is found.
\<close>

definition position_names :: "string list" where
  "position_names = [''nth'', ''eq'', ''gt'', ''lt'', ''first'', ''last'', ''even'', ''odd'']"

definition position_at :: "string \<Rightarrow> bool" where
  "position_at t \<longleftrightarrow>
     list_ex (\<lambda>name. let k = length name
       in take k t = name \<and> (length t = k \<or> t ! k \<noteq> CHR ''-'')) position_names"

fun has_position :: "string \<Rightarrow> bool" where
  "has_position [] = False"
| "has_position (c # t) = (c = CHR '':'' \<and> position_at t \<or> has_position t)"

text \<open>\<open>isSimple\<close>: one character, and none of \<open>:\<close>, \<open>#\<close>, \<open>[\<close>, the dot and the comma after it.\<close>

definition is_line_end :: "char \<Rightarrow> bool" where
  "is_line_end c \<longleftrightarrow> c = CHR 0x0A \<or> c = CHR 0x0D"

definition isSimple :: "string \<Rightarrow> bool" where
  "isSimple t = (case t of [] \<Rightarrow> False | c # u \<Rightarrow> \<not> is_line_end c \<and> list_all (\<lambda>x. x \<notin> set '':#[.,'') u)"

text \<open>The argument of \<open>filter\<close> and \<open>not\<close>. A function gets the element and its index.\<close>

datatype qualifier = ByFunction "nat \<Rightarrow> nat \<Rightarrow> bool" | ByNode nat | BySelector string | BySet "nat list"

definition winnow :: "engine \<Rightarrow> document \<Rightarrow> nat list \<Rightarrow> qualifier \<Rightarrow> bool \<Rightarrow> nat list" where
  "winnow S D xs q keep =
     (let members = (\<lambda>ys. grep (\<lambda>x i. (inArray x (map Some ys) 0 \<ge> 0) = keep) False xs)
      in case q of
           ByFunction f \<Rightarrow> grep (\<lambda>x i. f x i = keep) False xs
         | ByNode n \<Rightarrow> grep (\<lambda>x i. (x = n) = keep) False xs
         | BySet ys \<Rightarrow> members ys
         | BySelector t \<Rightarrow>
             if t = [] then members []
             else let filtered = grep (\<lambda>x i. nodeType D x = 1) False xs
               in if isSimple t then filter_nodes S t filtered (\<not> keep)
                  else members (filter_nodes S t filtered False))"

type_synonym nodes = "(nat, nat) jset"

definition fn_filter :: "engine \<Rightarrow> document \<Rightarrow> qualifier \<Rightarrow> string \<Rightarrow> nodes \<Rightarrow> nodes" where
  "fn_filter S D q text s = pushStack (winnow S D (elems s) q True) ''filter'' text s"

definition fn_not :: "engine \<Rightarrow> document \<Rightarrow> qualifier \<Rightarrow> string \<Rightarrow> nodes \<Rightarrow> nodes" where
  "fn_not S D q text s = pushStack (winnow S D (elems s) q False) ''not'' text s"

text \<open>\<open>document\<close> is the node in which selectors without a context are looked for.\<close>

definition jq_select :: "engine \<Rightarrow> nat \<Rightarrow> string \<Rightarrow> nat option \<Rightarrow> nat list" where
  "jq_select S doc t ctx = e_find S t (case ctx of None \<Rightarrow> doc | Some c \<Rightarrow> c) []"

definition fn_is :: "engine \<Rightarrow> document \<Rightarrow> nat \<Rightarrow> string \<Rightarrow> nodes \<Rightarrow> bool" where
  "fn_is S D doc t s \<longleftrightarrow>
     t \<noteq> [] \<and>
     (if has_position t
      then elems s \<noteq> [] \<and> inArray (hd (elems s)) (map Some (jq_select S doc t (origin s))) 0 \<ge> 0
      else filter_nodes S t (elems s) False \<noteq> [])"

text \<open>\<open>source\<close> is the text of the function that \<open>has\<close> and \<open>find\<close> hand to \<open>filter\<close>.\<close>

definition fn_has :: "engine \<Rightarrow> document \<Rightarrow> string \<Rightarrow> nat list \<Rightarrow> nodes \<Rightarrow> nodes" where
  "fn_has S D source targets s =
     fn_filter S D (ByFunction (\<lambda>x i. list_ex (e_contains S x) targets)) source s"

section \<open>\<open>find\<close>\<close>

text \<open>
  The loop of \<open>find\<close>; \<open>first\<close> says that no context has been searched. After a later context, what stands
  behind the old end of the results is compared with what stands before it.
\<close>

fun find_in :: "engine \<Rightarrow> string \<Rightarrow> bool \<Rightarrow> nat list \<Rightarrow> nat list \<Rightarrow> nat list" where
  "find_in S t first [] ret = ret"
| "find_in S t first (x # xs) ret =
     (let all = e_find S t x ret; old = take (length ret) all
      in find_in S t False xs
           (if first then all else old @ filter (\<lambda>n. n \<notin> set old) (drop (length ret) all)))"

definition fn_find :: "engine \<Rightarrow> string \<Rightarrow> nodes \<Rightarrow> nodes" where
  "fn_find S t s = pushStack (find_in S t True (elems s) []) ''find'' t s"

text \<open>\<open>find\<close> with elements, here already the set \<open>t\<close>, instead of a selector.\<close>

definition fn_find_nodes :: "engine \<Rightarrow> document \<Rightarrow> string \<Rightarrow> nodes \<Rightarrow> nodes \<Rightarrow> nodes" where
  "fn_find_nodes S D source t s =
     fn_filter S D (ByFunction (\<lambda>x i. list_ex (\<lambda>y. e_contains S y x) (elems s))) source t"

section \<open>The methods over pointers\<close>

datatype way =
    Parent | Parents | ParentsUntil | Next | Prev | NextAll | PrevAll | NextUntil | PrevUntil
  | Siblings | Children | Contents

fun way_name :: "way \<Rightarrow> string" where
  "way_name Parent = ''parent''"
| "way_name Parents = ''parents''"
| "way_name ParentsUntil = ''parentsUntil''"
| "way_name Next = ''next''"
| "way_name Prev = ''prev''"
| "way_name NextAll = ''nextAll''"
| "way_name PrevAll = ''prevAll''"
| "way_name NextUntil = ''nextUntil''"
| "way_name PrevUntil = ''prevUntil''"
| "way_name Siblings = ''siblings''"
| "way_name Children = ''children''"
| "way_name Contents = ''contents''"

text \<open>\<open>runtil\<close>, \<open>guaranteedUnique\<close> and \<open>rparentsprev\<close>.\<close>

definition is_until :: "way \<Rightarrow> bool" where
  "is_until m \<longleftrightarrow> m \<in> {ParentsUntil, NextUntil, PrevUntil}"

definition guaranteedUnique :: "way \<Rightarrow> bool" where
  "guaranteedUnique m \<longleftrightarrow> m \<in> {Children, Contents, Next, Prev}"

definition rparentsprev :: "way \<Rightarrow> bool" where
  "rparentsprev m \<longleftrightarrow> m \<in> {Parents, ParentsUntil, PrevUntil, PrevAll}"

definition until_test :: "engine \<Rightarrow> document \<Rightarrow> nat \<Rightarrow> string option \<Rightarrow> (nat \<Rightarrow> bool) option" where
  "until_test S D doc u = map_option (\<lambda>t c. fn_is S D doc t (JSet [c] None [] (Some c))) u"

fun go :: "engine \<Rightarrow> document \<Rightarrow> nat \<Rightarrow> way \<Rightarrow> string option \<Rightarrow> nat \<Rightarrow> nat mapped option" where
  "go S D doc Parent u e =
     Some (case parentNode D e of
             None \<Rightarrow> NoResult | Some p \<Rightarrow> if nodeType D p \<noteq> 11 then OneResult p else NoResult)"
| "go S D doc Parents u e = map_option ManyResults (dir D (parentNode D) None (parentNode D e) [])"
| "go S D doc ParentsUntil u e =
     map_option ManyResults (dir D (parentNode D) (until_test S D doc u) (parentNode D e) [])"
| "go S D doc Next u e =
     map_option (case_option NoResult OneResult) (nth_node D (nextSibling D) 2 (Some e) 0)"
| "go S D doc Prev u e =
     map_option (case_option NoResult OneResult) (nth_node D (previousSibling D) 2 (Some e) 0)"
| "go S D doc NextAll u e = map_option ManyResults (dir D (nextSibling D) None (nextSibling D e) [])"
| "go S D doc PrevAll u e = map_option ManyResults (dir D (previousSibling D) None (previousSibling D e) [])"
| "go S D doc NextUntil u e =
     map_option ManyResults (dir D (nextSibling D) (until_test S D doc u) (nextSibling D e) [])"
| "go S D doc PrevUntil u e =
     map_option ManyResults (dir D (previousSibling D) (until_test S D doc u) (previousSibling D e) [])"
| "go S D doc Siblings u e =
     map_option ManyResults (sibling D (Option.bind (parentNode D e) (firstChild D)) (Some e) [])"
| "go S D doc Children u e = map_option ManyResults (sibling D (firstChild D e) None [])"
| "go S D doc Contents u e =
     Some (if lower (nodeName D e) = ''iframe'' then OneResult (e_frame S e) else ManyResults (childNodes D e))"

text \<open>The arguments joined for the selector of the new set.\<close>

definition joined :: "string option \<Rightarrow> string option \<Rightarrow> string" where
  "joined u v =
     (case v of
        Some t \<Rightarrow> case_option [] id u @ '','' @ t
      | None \<Rightarrow> case_option [] id u)"

definition go_all :: "engine \<Rightarrow> document \<Rightarrow> nat \<Rightarrow> way \<Rightarrow> string option \<Rightarrow> string option \<Rightarrow> nat list \<Rightarrow> nat list option" where
  "go_all S D doc m u sel xs =
     Option.bind (those (map (go S D doc m u) xs)) (\<lambda>rs.
       let
         ret = flatten rs;
         selector = (if is_until m then sel else u);
         ret = (case selector of None \<Rightarrow> ret | Some t \<Rightarrow> if t \<noteq> [] then filter_nodes S t ret False else ret);
         multi = (case selector of None \<Rightarrow> False | Some t \<Rightarrow> CHR '','' \<in> set t)
       in map_option (\<lambda>ret. if (1 < length xs \<or> multi) \<and> rparentsprev m then rev ret else ret)
            (if 1 < length xs \<and> \<not> guaranteedUnique m then uniqueSort D (e_index S) (e_base S) ret else Some ret))"

definition fn_go :: "engine \<Rightarrow> document \<Rightarrow> nat \<Rightarrow> way \<Rightarrow> string option \<Rightarrow> string option \<Rightarrow> nodes \<Rightarrow> nodes option" where
  "fn_go S D doc m u sel s =
     map_option (\<lambda>ret. pushStack ret (way_name m) (joined u sel) s) (go_all S D doc m u sel (elems s))"

section \<open>\<open>index\<close>, \<open>closest\<close> and \<open>add\<close>\<close>

definition fn_index :: "engine \<Rightarrow> document \<Rightarrow> nat \<Rightarrow> nodes \<Rightarrow> int option" where
  "fn_index S D doc s =
     (case elems s of
        [] \<Rightarrow> Some (- 1)
      | x # _ \<Rightarrow>
          if parentNode D x = None then Some (- 1)
          else map_option (\<lambda>t. int (length (elems t))) (fn_go S D doc PrevAll None None s))"

definition fn_index_in :: "engine \<Rightarrow> nat \<Rightarrow> string \<Rightarrow> nodes \<Rightarrow> int" where
  "fn_index_in S doc t s =
     (case elems s of [] \<Rightarrow> - 1 | x # _ \<Rightarrow> inArray x (map Some (jq_select S doc t None)) 0)"

definition fn_index_of :: "nat \<Rightarrow> nodes \<Rightarrow> int" where
  "fn_index_of n s = inArray n (map Some (elems s)) 0"

text \<open>A document has no \<open>ownerDocument\<close>.\<close>

partial_function (option) closest_loop ::
  "document \<Rightarrow> nat option \<Rightarrow> (nat \<Rightarrow> bool) \<Rightarrow> nat \<Rightarrow> nat option option" where
  "closest_loop D ctx test cur =
     (if test cur then Some (Some cur)
      else case parentNode D cur of
        None \<Rightarrow> Some None
      | Some p \<Rightarrow>
          if nodeType D p = 9 \<or> Some p = ctx \<or> nodeType D p = 11 then Some None
          else closest_loop D ctx test p)"

definition closest_test :: "engine \<Rightarrow> nat \<Rightarrow> string \<Rightarrow> nat option \<Rightarrow> nat \<Rightarrow> bool" where
  "closest_test S doc t ctx =
     (if has_position t then (\<lambda>n. inArray n (map Some (jq_select S doc t ctx)) 0 > - 1)
      else (\<lambda>n. e_matchesSelector S n t))"

definition fn_closest :: "engine \<Rightarrow> document \<Rightarrow> nat \<Rightarrow> string \<Rightarrow> nat option \<Rightarrow> nodes \<Rightarrow> nodes option" where
  "fn_closest S D doc t ctx s =
     (let test = closest_test S doc t (case ctx of None \<Rightarrow> origin s | c \<Rightarrow> c)
      in Option.bind (those (map (closest_loop D ctx test) (elems s))) (\<lambda>rs.
           let ret = List.map_filter id rs
           in map_option (\<lambda>ret. pushStack ret ''closest'' t s)
                (if 1 < length ret then uniqueSort D (e_index S) (e_base S) ret else Some ret)))"

text \<open>\<open>closest\<close> with an array of selectors: every match on the way up, with its level.\<close>

partial_function (option) closest_levels ::
  "engine \<Rightarrow> document \<Rightarrow> nat \<Rightarrow> string list \<Rightarrow> nat option \<Rightarrow> nat option \<Rightarrow> nat \<Rightarrow> (string \<times> nat \<times> nat) list \<Rightarrow>
     (string \<times> nat \<times> nat) list option" where
  "closest_levels S D doc sels ctx cur level ret =
     (case cur of
        None \<Rightarrow> Some ret
      | Some c \<Rightarrow>
          if nodeType D c = 9 \<or> cur = ctx then Some ret
          else closest_levels S D doc sels ctx (parentNode D c) (Suc level)
            (ret @ map (\<lambda>t. (t, c, level)) (filter (\<lambda>t. fn_is S D doc t (JSet [c] None [] (Some c))) sels)))"

definition fn_closest_levels ::
  "engine \<Rightarrow> document \<Rightarrow> nat \<Rightarrow> string list \<Rightarrow> nat option \<Rightarrow> nodes \<Rightarrow> (string \<times> nat \<times> nat) list option" where
  "fn_closest_levels S D doc sels ctx s = closest_levels S D doc sels ctx (hd_opt (elems s)) 1 []"

definition isDisconnected :: "document \<Rightarrow> nat option \<Rightarrow> bool" where
  "isDisconnected D n =
     (case Option.bind n (parentNode D) of None \<Rightarrow> True | Some p \<Rightarrow> nodeType D p = 11)"

definition fn_add :: "engine \<Rightarrow> document \<Rightarrow> nat list \<Rightarrow> nodes \<Rightarrow> nodes option" where
  "fn_add S D ys s =
     (let all = merge_sized (elems s) ys
      in map_option (\<lambda>ret. pushStack ret [] [] s)
           (if isDisconnected D (hd_opt ys) \<or> isDisconnected D (hd_opt all) then Some all
            else uniqueSort D (e_index S) (e_base S) all))"

definition fn_andSelf :: "engine \<Rightarrow> document \<Rightarrow> nodes \<Rightarrow> nodes option" where
  "fn_andSelf S D s = fn_add S D (case prevObject s of None \<Rightarrow> [] | Some p \<Rightarrow> elems p) s"


section \<open>What the loops return\<close>

lemma dir_visits:
  assumes "visits step cur xs"
  shows "dir D step until cur r = Some (r @ filter (is_elem D)
    (takeWhile (\<lambda>c. nodeType D c \<noteq> 9 \<and> (case until of None \<Rightarrow> True | Some p \<Rightarrow> nodeType D c \<noteq> 1 \<or> \<not> p c)) xs))"
  using assms by (induction xs arbitrary: cur r) (subst dir.simps, simp add: is_elem_def)+

lemma sibling_visits:
  assumes "visits (nextSibling D) cur xs"
  shows "sibling D cur e r = Some (r @ filter (\<lambda>m. is_elem D m \<and> Some m \<noteq> e) xs)"
  using assms by (induction xs arbitrary: cur r) (subst sibling.simps, auto simp: is_elem_def)+

lemma nth_visits:
  assumes "visits step cur xs" and "num < result"
  shows "nth_node D step result cur num = Some (hd_opt (drop (result - Suc num) (filter (is_elem D) xs)))"
  using assms
proof (induction xs arbitrary: cur num)
  case (Cons x xs)
  then show ?case
    by (subst nth_node.simps) (auto simp: is_elem_def [abs_def] Let_def Suc_diff_Suc drop_Cons' not_less_eq)
qed (subst nth_node.simps, simp)


lemma sibling_parts:
  assumes D: "tree_ok D" and p: "parentNode D e = Some p"
  shows "childNodes D p = preceding D e @ e # following D e"
  using split_around [of e "childNodes D p"] p tree_okD(1) [OF D]
  by (simp add: preceding_def following_def siblings_of_def)

lemma no_document:
  assumes D: "tree_ok D" and p: "parentNode D e = Some p"
  shows "takeWhile (\<lambda>c. nodeType D c \<noteq> 9) (following D e) = following D e"
    and "takeWhile (\<lambda>c. nodeType D c \<noteq> 9) (rev (preceding D e)) = rev (preceding D e)"
proof -
  have "nodeType D c \<noteq> 9" if "c \<in> set (childNodes D p)" for c
    using that tree_okD(1,4) [OF D] by simp
  then show "takeWhile (\<lambda>c. nodeType D c \<noteq> 9) (following D e) = following D e"
    "takeWhile (\<lambda>c. nodeType D c \<noteq> 9) (rev (preceding D e)) = rev (preceding D e)"
    unfolding takeWhile_eq_all_conv by (simp_all add: sibling_parts [OF D p])
qed

lemma go_one:
  "go_all S D doc m None None [e] = map_option (\<lambda>r. flatten [r]) (go S D doc m None e)"
  by (cases "go S D doc m None e") (simp_all add: go_all_def)

text \<open>
  C24: Walking the siblings of an element: what \<open>prevAll\<close> returns, read backwards, the element, and what
  \<open>nextAll\<close> returns are the children of its parent; \<open>siblings\<close> is both without the element, \<open>prev\<close> and
  \<open>next\<close> are the neighbours, and \<open>index\<close> is the number of elements in front.
\<close>

theorem sibling_methods:
  assumes D: "tree_ok D" and p: "parentNode D e = Some p" and e: "is_elem D e"
  shows "\<exists>front behind.
    go_all S D doc Children None None [p] = Some (front @ e # behind) \<and>
    go_all S D doc PrevAll None None [e] = Some (rev front) \<and>
    go_all S D doc NextAll None None [e] = Some behind \<and>
    go_all S D doc Siblings None None [e] = Some (front @ behind) \<and>
    go_all S D doc Prev None None [e] = Some (take 1 (rev front)) \<and>
    go_all S D doc Next None None [e] = Some (take 1 behind) \<and>
    fn_index S D doc (JSet [e] None [] None) = Some (int (length front))"
proof (intro exI conjI)
  let ?front = "filter (is_elem D) (preceding D e)" and ?behind = "filter (is_elem D) (following D e)"
  note parts = sibling_parts [OF D p]
  have e': "nodeType D e = 1" "e \<notin> set (preceding D e)" "e \<notin> set (following D e)"
    using e siblings_ok(1) [OF D, of e]
    by (simp_all add: is_elem_def preceding_def following_def after_notin)
  show "go_all S D doc Children None None [p] = Some (?front @ e # ?behind)"
    using e by (simp add: go_one sibling_visits [OF visits_children [OF D]] parts)
  show prev: "go_all S D doc PrevAll None None [e] = Some (rev ?front)"
    by (simp add: go_one dir_visits [OF visits_previous [OF D]] no_document [OF D p] rev_filter)
  show "go_all S D doc NextAll None None [e] = Some ?behind"
    by (simp add: go_one dir_visits [OF visits_next [OF D]] no_document [OF D p])
  show "go_all S D doc Siblings None None [e] = Some (?front @ ?behind)"
    using e' by (auto simp: go_one p sibling_visits [OF visits_children [OF D]] parts intro!: arg_cong2 [where f = append] filter_cong)
  have "visits (previousSibling D) (Some e) (e # rev (preceding D e))"
    and "visits (nextSibling D) (Some e) (e # following D e)"
    using visits_previous [OF D] visits_next [OF D] by simp_all
  from this [THEN nth_visits, of 0 2 D] e
  show "go_all S D doc Prev None None [e] = Some (take 1 (rev ?front))"
    "go_all S D doc Next None None [e] = Some (take 1 ?behind)"
    by (simp_all add: go_one numeral_2_eq_2 hd_opt_def rev_filter take_Suc split: list.splits)
  show "fn_index S D doc (JSet [e] None [] None) = Some (int (length ?front))"
    using prev by (simp add: fn_index_def fn_go_def p pushStack_def)
qed


lemma parents_stop:
  assumes "tree_ok D" and "visits (parentNode D) cur xs"
  shows "filter (is_elem D) (takeWhile (\<lambda>c. nodeType D c \<noteq> 9) xs) = filter (is_elem D) xs"
  using assms(2)
proof (induction xs arbitrary: cur)
  case (Cons x xs)
  then show ?case
    using tree_okD(4) [OF assms(1), of x] by (cases xs) (auto simp: is_elem_def)
qed simp

lemma parents_of:
  assumes D: "tree_ok D"
  shows "\<exists>xs. go S D doc Parents u e = Some (ManyResults xs) \<and> set xs = {p. (p, e) \<in> (parent_rel D)\<^sup>+ \<and> is_elem D p}"
proof -
  obtain xs where xs: "visits (parentNode D) (parentNode D e) xs" using visits_parents_ex [OF D] by blast
  from dir_visits [OF this, of D None "[]"] parents_stop [OF D this] visits_parents_set [OF this]
  show ?thesis by auto
qed

lemma set_flatten_many: "those (map f xs) = Some rs \<Longrightarrow> (\<And>x. x \<in> set xs \<Longrightarrow> \<exists>ys. f x = Some (ManyResults ys) \<and> set ys = g x) \<Longrightarrow>
  set (flatten rs) = (\<Union>x\<in>set xs. g x)"
proof (induction xs arbitrary: rs)
  case (Cons x xs)
  from Cons.prems(2) [of x] obtain ys where "f x = Some (ManyResults ys)" "set ys = g x" by auto
  with Cons show ?case by (auto split: option.splits)
qed simp

text \<open>
  \<open>parents\<close> of several elements: every element above one of them, once, and the deeper before the
  higher, in the reverse order of the document.
\<close>

theorem parents_of_several:
  assumes D: "tree_ok D" and r: "\<forall>x\<in>set xs. (r, x) \<in> (parent_rel D)\<^sup>*" and root: "parentNode D r = None"
    and index: "\<forall>a b. e_index S a \<noteq> 0 \<and> e_index S b \<noteq> 0 \<and> a \<noteq> b \<longrightarrow> (e_index S a < e_index S b \<longleftrightarrow> precedes D a b)"
    and "1 < length xs"
  shows "\<exists>ys. go_all S D doc Parents None None xs = Some ys \<and> distinct ys \<and>
    set ys = {p. is_elem D p \<and> (\<exists>x\<in>set xs. (p, x) \<in> (parent_rel D)\<^sup>+)} \<and> sorted_wrt (\<lambda>a b. precedes D b a) ys"
proof -
  note one = parents_of [OF D, of S doc None]
  have "go S D doc Parents None x \<noteq> None" for x using one [of x] by auto
  with those_total [of xs "go S D doc Parents None"]
  obtain rs where rs: "those (map (go S D doc Parents None) xs) = Some rs" by blast
  from set_flatten_many [OF rs one] have elems: "set (flatten rs) = {p. is_elem D p \<and> (\<exists>x\<in>set xs. (p, x) \<in> (parent_rel D)\<^sup>+)}"
    by auto
  have "(r, p) \<in> (parent_rel D)\<^sup>*" if "p \<in> set (flatten rs)" for p
  proof -
    from that elems obtain x where "x \<in> set xs" "(p, x) \<in> (parent_rel D)\<^sup>+" by auto
    then show ?thesis using r root root_above by (blast intro: trancl_into_rtrancl)
  qed
  then have "\<forall>p\<in>set (flatten rs). (r, p) \<in> (parent_rel D)\<^sup>*" by blast
  from uniqueSort_document_order [OF D this index, of "e_base S"] obtain ys where
    ys: "uniqueSort D (e_index S) (e_base S) (flatten rs) = Some ys" "set ys = set (flatten rs)" "distinct ys"
    "sorted_wrt (precedes D) ys" by blast
  then have "go_all S D doc Parents None None xs = Some (rev ys)"
    using rs \<open>1 < length xs\<close> by (simp add: go_all_def guaranteedUnique_def rparentsprev_def is_until_def)
  moreover have "sorted_wrt (\<lambda>a b. precedes D b a) (rev ys)" using ys(4) by (simp add: sorted_wrt_rev)
  moreover have "distinct (rev ys)" "set (rev ys) = set (flatten rs)" using ys by simp_all
  ultimately show ?thesis unfolding elems by blast
qed


text \<open>\<open>closest\<close> takes the first node that matches, starting with the element and going up.\<close>

lemma closest_first:
  assumes "visits (parentNode D) (parentNode D e) xs"
  shows "closest_loop D ctx test e =
    Some (List.find test (e # takeWhile (\<lambda>p. nodeType D p \<noteq> 9 \<and> Some p \<noteq> ctx \<and> nodeType D p \<noteq> 11) xs))"
  using assms by (induction xs arbitrary: e) (subst closest_loop.simps, auto)+

text \<open>
  \<open>find\<close> in several contexts finds each element once, if the engine does in each of them and puts
  what it finds behind the earlier results.
\<close>

lemma find_in_distinct:
  assumes "\<And>x ret. x \<in> set xs \<Longrightarrow> e_find S t x ret = ret @ found x" and "\<And>x. x \<in> set xs \<Longrightarrow> distinct (found x)"
    and "distinct ret" and "first \<longrightarrow> ret = []"
  shows "distinct (find_in S t first xs ret) \<and> set (find_in S t first xs ret) = set ret \<union> (\<Union>x\<in>set xs. set (found x))"
  using assms
proof (induction xs arbitrary: ret first)
  case (Cons x xs)
  let ?ret = "if first then ret @ found x else ret @ filter (\<lambda>n. n \<notin> set ret) (found x)"
  have "distinct ?ret" "set ?ret = set ret \<union> set (found x)" using Cons.prems(2-4) by auto
  with Cons.IH [of ?ret False] Cons.prems(1,2) show ?case by (auto simp: Let_def)
qed simp

text \<open>
  \<open>nth\<close> counts the node it starts from only if that is an element. For a text, \<open>next\<close> therefore returns
  the second element after it.
\<close>

lemma next_of_text_skips_one:
  assumes "tree_ok D" and "\<not> is_elem D e"
  shows "go_all S D doc Next None None [e] = Some (take 1 (drop 1 (filter (is_elem D) (following D e))))"
proof -
  have "visits (nextSibling D) (Some e) (e # following D e)" using visits_next [OF assms(1)] by simp
  from nth_visits [OF this, of 0 2 D] assms(2) show ?thesis
    by (simp add: go_one hd_opt_def take_Suc numeral_2_eq_2 split: list.splits)
qed

text \<open>
  \<open>index\<close> without an argument asks \<open>prevAll\<close> of the whole set: for the two items of a list it is 1, the
  number of nodes in front of either, although the first item is in front of all.
\<close>

lemma visits_sample:
  "visits (previousSibling sample) (previousSibling sample 3) []"
  "visits (previousSibling sample) (previousSibling sample 5) [4, 3]"
  by (simp_all add: previousSibling_def preceding_def siblings_of_def sample_def)

lemma index_of_several:
  "fn_index S sample 0 (JSet [3, 5] None [] None) = Some 1" "fn_index S sample 0 (JSet [3] None [] None) = Some 0"
proof -
  have "dir sample (previousSibling sample) None (previousSibling sample 3) [] = Some []"
    "dir sample (previousSibling sample) None (previousSibling sample 5) [] = Some [3]"
    by (simp_all only: dir_visits [OF visits_sample(1)] dir_visits [OF visits_sample(2)])
      (simp_all add: is_elem_def sample_def)
  then show "fn_index S sample 0 (JSet [3, 5] None [] None) = Some 1" "fn_index S sample 0 (JSet [3] None [] None) = Some 0"
    by (simp_all add: fn_index_def fn_go_def go_all_def sample_parents guaranteedUnique_def rparentsprev_def is_until_def
      uniqueSort_def pushStack_def)
qed

text \<open>
  \<open>not\<close> with a simple selector drops the nodes that are no elements, with any other selector it keeps
  them.
\<close>

lemma grep_filter: "grep (\<lambda>x i. P x) False xs = filter P xs"
proof -
  have "map fst (filter (\<lambda>(x, i). P x) (zip xs [n..<n + length xs])) = filter P xs" for n
    by (induction xs arbitrary: n) (simp, simp add: upt_conv_Cons del: upt_Suc flip: add_Suc)
  from this [of 0] show ?thesis by (simp add: grep_def)
qed

lemma not_of_text:
  assumes engine: "\<And>t ys. set (e_matches S t ys) \<subseteq> set ys" and n: "n \<in> set xs" "\<not> is_elem D n" and "t \<noteq> []"
  shows "n \<in> set (winnow S D xs (BySelector t) False) \<longleftrightarrow> \<not> isSimple t"
proof -
  let ?elems = "filter (\<lambda>x. nodeType D x = 1) xs"
  have "set (filter_nodes S u ys b) \<subseteq> set ys" for u b ys
    using engine [of _ ys] by (cases ys) (auto simp: filter_nodes_def Let_def)
  then have sub: "set (filter_nodes S u ?elems b) \<subseteq> set ?elems" for u b by blast
  then have notin: "n \<notin> set (filter_nodes S u ?elems b)" for u b using n(2) by (auto simp: is_elem_def)
  have absent: "in_from n i (map Some ys) = - 1" if "n \<notin> set ys" for i and ys :: "nat list"
    using that by (induction ys arbitrary: i) auto
  show ?thesis using n(1) notin absent [OF notin] \<open>t \<noteq> []\<close>
    by (simp add: winnow_def Let_def grep_filter inArray_def)
qed

text \<open>The second item of the sample, its neighbours, and the elements above the two items.\<close>

definition no_engine :: engine where
  "no_engine = \<lparr>e_matches = (\<lambda>_ ys. ys), e_matchesSelector = (\<lambda>_ _. True), e_find = (\<lambda>_ _ ret. ret),
     e_contains = (\<lambda>_ _. False), e_index = (\<lambda>_. 0), e_base = False, e_frame = id\<rparr>"

theorem sibling_methods_witness:
  "\<exists>front behind.
    go_all no_engine sample 0 Children None None [2] = Some (front @ 5 # behind) \<and>
    go_all no_engine sample 0 PrevAll None None [5] = Some (rev front) \<and>
    go_all no_engine sample 0 NextAll None None [5] = Some behind \<and>
    go_all no_engine sample 0 Siblings None None [5] = Some (front @ behind) \<and>
    go_all no_engine sample 0 Prev None None [5] = Some (take 1 (rev front)) \<and>
    go_all no_engine sample 0 Next None None [5] = Some (take 1 behind) \<and>
    fn_index no_engine sample 0 (JSet [5] None [] None) = Some (int (length front))"
  by (rule sibling_methods [OF sample_ok sample_parents(6)]) (simp add: is_elem_def sample_def)

theorem parents_of_several_witness:
  "\<exists>ys. go_all no_engine sample 0 Parents None None [3, 7] = Some ys \<and> distinct ys \<and>
    set ys = {p. is_elem sample p \<and> (\<exists>x\<in>set [3, 7]. (p, x) \<in> (parent_rel sample)\<^sup>+)} \<and>
    sorted_wrt (\<lambda>a b. precedes sample b a) ys"
  by (rule parents_of_several [OF sample_ok, where r = 0]) (simp_all add: sample_below sample_parents no_engine_def)

end
