(* ===== verification/JQ_Sizzle.thy ===== *)
theory JQ_Sizzle
  imports JQ_Tree
begin

text \<open>
  \<open>jquery-1.7.2.js\<close>, lines 4046 to 4106, 4339 to 4425 and 5260 to 5340: the part of the selector engine
  that follows the combinators of a selector from right to left. Every element that matches the last
  simple selector starts in \<open>checkSet\<close>; a combinator replaces it with the node that matches the next
  simple selector, or marks it as failed. Whether one element matches a simple selector is a parameter.
\<close>

section \<open>Entries and parts\<close>

text \<open>What an entry of \<open>checkSet\<close> can be; \<open>null\<close> stands for \<open>undefined\<close> too.\<close>

datatype check = CFalse | CTrue | CNull | CNode nat

text \<open>A part is a simple selector, or the context, when the selector starts with a combinator.\<close>

datatype part = PText string | PNode nat

text \<open>\<open>rNonWord\<close>: a part of word characters is the name of an element.\<close>

definition is_tag :: "string \<Rightarrow> bool" where
  "is_tag t = list_all is_word t"

text \<open>
  \<open>Sizzle.filter( part, checkSet, true )\<close>: the loop ends at the first entry that is \<open>null\<close>.
\<close>

fun filter_inplace :: "(nat \<Rightarrow> bool) \<Rightarrow> check list \<Rightarrow> check list" where
  "filter_inplace test [] = []"
| "filter_inplace test (CNull # cs) = CNull # cs"
| "filter_inplace test (CNode e # cs) = (if test e then CNode e else CFalse) # filter_inplace test cs"
| "filter_inplace test (c # cs) = c # filter_inplace test cs"

section \<open>The combinators \<open>+\<close> and \<open>>\<close>\<close>

partial_function (option) prev_element :: "document \<Rightarrow> nat option \<Rightarrow> nat option option" where
  "prev_element D cur =
     (case cur of
        None \<Rightarrow> Some None
      | Some c \<Rightarrow> if nodeType D c \<noteq> 1 then prev_element D (previousSibling D c) else Some (Some c))"

definition adjacent_one :: "document \<Rightarrow> part \<Rightarrow> nat option \<Rightarrow> check" where
  "adjacent_one D part p =
     (case part of
        PText t \<Rightarrow>
          (case p of
             None \<Rightarrow> CFalse
           | Some q \<Rightarrow> if is_tag t \<and> lower (nodeName D q) \<noteq> lower t then CFalse else CNode q)
      | PNode n \<Rightarrow> if p = Some n then CTrue else CFalse)"

fun adjacent_entry :: "document \<Rightarrow> part \<Rightarrow> check \<Rightarrow> check option" where
  "adjacent_entry D part (CNode e) = map_option (adjacent_one D part) (prev_element D (previousSibling D e))"
| "adjacent_entry D part CTrue = Some CFalse"
| "adjacent_entry D part c = Some c"

definition rel_adjacent :: "document \<Rightarrow> (string \<Rightarrow> nat \<Rightarrow> bool) \<Rightarrow> part \<Rightarrow> check list \<Rightarrow> check list option" where
  "rel_adjacent D test part cs =
     map_option (case part of PText t \<Rightarrow> if is_tag t then id else filter_inplace (test t) | PNode n \<Rightarrow> id)
       (those (map (adjacent_entry D part) cs))"

text \<open>An element without a parent has no parent to read a name from.\<close>

fun child_entry :: "document \<Rightarrow> part \<Rightarrow> check \<Rightarrow> check throws" where
  "child_entry D (PText t) (CNode e) =
     (case parentNode D e of
        None \<Rightarrow> if is_tag t then Inl TypeError else Inr CNull
      | Some p \<Rightarrow> Inr (if is_tag t \<and> lower (nodeName D p) \<noteq> lower t then CFalse else CNode p))"
| "child_entry D (PText t) CTrue = (if is_tag t then Inl TypeError else Inr CNull)"
| "child_entry D (PNode n) (CNode e) = Inr (if parentNode D e = Some n then CTrue else CFalse)"
| "child_entry D (PNode n) CTrue = Inr CFalse"
| "child_entry D part c = Inr c"

fun all_throws :: "'a throws list \<Rightarrow> 'a list throws" where
  "all_throws [] = Inr []"
| "all_throws (m # ms) = bindE m (\<lambda>x. bindE (all_throws ms) (\<lambda>xs. Inr (x # xs)))"

definition rel_child :: "document \<Rightarrow> (string \<Rightarrow> nat \<Rightarrow> bool) \<Rightarrow> part \<Rightarrow> check list \<Rightarrow> check list throws" where
  "rel_child D test part cs =
     bindE (all_throws (map (child_entry D part) cs)) (\<lambda>cs.
       Inr (case part of PText t \<Rightarrow> if is_tag t then cs else filter_inplace (test t) cs | PNode n \<Rightarrow> cs))"

section \<open>The combinators that search: \<open>dirCheck\<close> and \<open>dirNodeCheck\<close>\<close>

text \<open>
  The properties \<open>expando\<close> and \<open>sizset\<close> of the nodes: the search a node was last visited in, and the
  entry it was visited for. A search that meets a node of an earlier entry takes over its result.
\<close>

type_synonym marks = "nat \<Rightarrow> (nat \<times> nat) option"

text \<open>What a node is to the search: \<open>dirNodeCheck\<close> for names, \<open>dirCheck\<close> for the other parts.\<close>

definition hit :: "document \<Rightarrow> (string \<Rightarrow> nat \<Rightarrow> bool) \<Rightarrow> part \<Rightarrow> nat \<Rightarrow> check option" where
  "hit D test part e =
     (case part of
        PText t \<Rightarrow>
          if is_tag t then (if lower (nodeName D e) = lower t then Some (CNode e) else None)
          else if nodeType D e = 1 \<and> test t e then Some (CNode e) else None
      | PNode n \<Rightarrow> if nodeType D e = 1 \<and> e = n then Some CTrue else None)"

definition marked :: "marks \<Rightarrow> nat \<Rightarrow> nat \<Rightarrow> nat option" where
  "marked m name e = (case m e of None \<Rightarrow> None | Some (n, k) \<Rightarrow> if n = name then Some k else None)"

partial_function (option) search ::
  "document \<Rightarrow> (nat \<Rightarrow> nat option) \<Rightarrow> bool \<Rightarrow> (nat \<Rightarrow> check option) \<Rightarrow> nat \<Rightarrow> nat \<Rightarrow> check list \<Rightarrow> marks \<Rightarrow>
     nat option \<Rightarrow> (check \<times> marks) option" where
  "search D step isXML hits name i cs m cur =
     (case cur of
        None \<Rightarrow> Some (CFalse, m)
      | Some e \<Rightarrow>
          (case marked m name e of
             Some k \<Rightarrow> Some (cs ! k, m)
           | None \<Rightarrow>
               (let m' = (if nodeType D e = 1 \<and> \<not> isXML then m(e \<mapsto> (name, i)) else m)
                in case hits e of
                     Some c \<Rightarrow> Some (c, m')
                   | None \<Rightarrow> search D step isXML hits name i cs m' (step e))))"

text \<open>The loop over the entries; those before the current one hold their results already.\<close>

fun search_entries ::
  "document \<Rightarrow> (nat \<Rightarrow> nat option) \<Rightarrow> bool \<Rightarrow> (nat \<Rightarrow> check option) \<Rightarrow> nat \<Rightarrow> check list \<Rightarrow> check list \<Rightarrow> marks \<Rightarrow>
     (check list \<times> marks) option" where
  "search_entries D step isXML hits name before [] m = Some (before, m)"
| "search_entries D step isXML hits name before (CNode e # cs) m =
     Option.bind (search D step isXML hits name (length before) (before @ CNode e # cs) m (step e))
       (\<lambda>(c, m'). search_entries D step isXML hits name (before @ [c]) cs m')"
| "search_entries D step isXML hits name before (CTrue # cs) m =
     search_entries D step isXML hits name (before @ [CFalse]) cs m"
| "search_entries D step isXML hits name before (c # cs) m =
     search_entries D step isXML hits name (before @ [c]) cs m"

section \<open>From right to left\<close>

datatype comb = Adjacent | Child | Descendant | Sibling

definition comb_of :: "string \<Rightarrow> comb option" where
  "comb_of t = map_of [(''+'', Adjacent), (''>'', Child), ([], Descendant), (''~'', Sibling)] t"

text \<open>
  The parts that are left, the last first: a combinator with the part before it, or the context at
  the start of the selector; two simple selectors in a row are a descendant.
\<close>

fun steps_of :: "nat \<Rightarrow> string list \<Rightarrow> (comb \<times> part) list" where
  "steps_of ctx [] = []"
| "steps_of ctx [t] = (case comb_of t of None \<Rightarrow> [(Descendant, PText t)] | Some k \<Rightarrow> [(k, PNode ctx)])"
| "steps_of ctx (t # u # ts) =
     (case comb_of t of
        None \<Rightarrow> (Descendant, PText t) # steps_of ctx (u # ts)
      | Some k \<Rightarrow> (k, PText u) # steps_of ctx ts)"

text \<open>The marks on the nodes and the counter \<open>done\<close> that names the searches.\<close>

type_synonym engine_state = "check list \<times> marks \<times> nat"

definition relate ::
  "document \<Rightarrow> (string \<Rightarrow> nat \<Rightarrow> bool) \<Rightarrow> bool \<Rightarrow> comb \<Rightarrow> part \<Rightarrow> engine_state \<Rightarrow> engine_state throws option" where
  "relate D test isXML k part st =
     (case st of (cs, m, n) \<Rightarrow>
        (case k of
           Adjacent \<Rightarrow> map_option (\<lambda>cs'. Inr (cs', m, n)) (rel_adjacent D test part cs)
         | Child \<Rightarrow> Some (bindE (rel_child D test part cs) (\<lambda>cs'. Inr (cs', m, n)))
         | Descendant \<Rightarrow>
             map_option (\<lambda>(cs', m'). Inr (cs', m', Suc n))
               (search_entries D (parentNode D) isXML (hit D test part) n [] cs m)
         | Sibling \<Rightarrow>
             map_option (\<lambda>(cs', m'). Inr (cs', m', Suc n))
               (search_entries D (previousSibling D) isXML (hit D test part) n [] cs m)))"

fun run_steps ::
  "document \<Rightarrow> (string \<Rightarrow> nat \<Rightarrow> bool) \<Rightarrow> bool \<Rightarrow> (comb \<times> part) list \<Rightarrow> engine_state \<Rightarrow> engine_state throws option" where
  "run_steps D test isXML [] st = Some (Inr st)"
| "run_steps D test isXML ((k, part) # steps) st =
     Option.bind (relate D test isXML k part st) (\<lambda>r.
       case r of Inl e \<Rightarrow> Some (Inl e) | Inr st' \<Rightarrow> run_steps D test isXML steps st')"

text \<open>The elements of the set whose entry survived; the loop ends at an entry that is \<open>null\<close>.\<close>

fun collect :: "document \<Rightarrow> (nat \<Rightarrow> nat \<Rightarrow> bool) \<Rightarrow> nat \<Rightarrow> nat list \<Rightarrow> check list \<Rightarrow> nat list" where
  "collect D contains ctx (e # es) (CNode q # cs) =
     (if nodeType D q = 1 \<and> (nodeType D ctx = 1 \<longrightarrow> contains ctx q) then e # collect D contains ctx es cs
      else collect D contains ctx es cs)"
| "collect D contains ctx (e # es) (CTrue # cs) =
     (if nodeType D ctx = 1 then e # collect D contains ctx es cs else collect D contains ctx es cs)"
| "collect D contains ctx (e # es) (CFalse # cs) = collect D contains ctx es cs"
| "collect D contains ctx es cs = []"

text \<open>Lines 4046 to 4106: \<open>parts\<close> in the order of the selector, without the last, which \<open>set\<close> matches.\<close>

definition select_up ::
  "document \<Rightarrow> (string \<Rightarrow> nat \<Rightarrow> bool) \<Rightarrow> (nat \<Rightarrow> nat \<Rightarrow> bool) \<Rightarrow> bool \<Rightarrow> nat \<Rightarrow> string list \<Rightarrow> nat list \<Rightarrow> marks \<times> nat \<Rightarrow>
     (nat list \<times> marks \<times> nat) throws option" where
  "select_up D test contains isXML ctx parts es mn =
     (if parts = [] then Some (Inr (es, mn))
      else map_option (\<lambda>r. bindE r (\<lambda>(cs, mn'). Inr (collect D contains ctx es cs, mn')))
        (run_steps D test isXML (steps_of ctx (rev parts)) (map CNode es, mn)))"

section \<open>Searching with marks finds the nearest match\<close>

definition walk :: "(nat \<Rightarrow> nat option) \<Rightarrow> nat \<Rightarrow> nat list" where
  "walk step e = (THE xs. visits step (step e) xs)"

definition nearest :: "(nat \<Rightarrow> check option) \<Rightarrow> nat list \<Rightarrow> check" where
  "nearest hits xs = (case List.find (\<lambda>e. hits e \<noteq> None) xs of None \<Rightarrow> CFalse | Some e \<Rightarrow> the (hits e))"

lemma visits_walk:
  assumes "\<exists>xs. visits step (step e) xs"
  shows "visits step (step e) (walk step e)"
proof -
  obtain xs where xs: "visits step (step e) xs" using assms by blast
  then show ?thesis unfolding walk_def by (rule theI) (rule visits_unique [OF _ xs])
qed

lemma walk_eqI: "visits step (step e) xs \<Longrightarrow> walk step e = xs"
  unfolding walk_def by (rule the_equality) (simp_all add: visits_unique)

lemma visits_distinct: "visits step cur xs \<Longrightarrow> distinct xs"
proof (induction xs arbitrary: cur)
  case (Cons x xs)
  have "x \<notin> set xs"
  proof
    assume "x \<in> set xs"
    then obtain ys zs where "xs = ys @ x # zs" by (auto simp: in_set_conv_decomp)
    moreover have "visits step (Some x) (x # zs)" if "visits step c (ys @ x # zs)" for c
      using that by (induction ys arbitrary: c) auto
    ultimately have "visits step (Some x) (x # zs)" using Cons.prems by auto
    with Cons.prems have "x # xs = x # zs" by (metis visits.simps(2) visits_unique)
    with \<open>xs = ys @ x # zs\<close> show False by simp
  qed
  with Cons show ?case by auto
qed simp


lemma marked_upd: "marked (m(e \<mapsto> (name, i))) name x = (if x = e then Some i else marked m name x)"
  by (simp add: marked_def)

text \<open>
  \<open>ref\<close> is the result for every node. A search may meet its own marks behind it only, and those of
  earlier entries hold results.
\<close>

lemma search_ref:
  assumes ref: "\<And>e. ref e = (case hits e of Some c \<Rightarrow> c | None \<Rightarrow> case_option CFalse ref (step e))"
    and "visits step cur xs" and "distinct xs"
    and "\<And>e k. marked m name e = Some k \<Longrightarrow> k < i \<and> cs ! k = ref e \<or> k = i \<and> e \<notin> set xs"
  shows "\<exists>m'. search D step isXML hits name i cs m cur = Some (case_option CFalse ref cur, m') \<and>
    (\<forall>e k. marked m' name e = Some k \<longrightarrow> marked m name e = Some k \<or> k = i \<and> ref e = case_option CFalse ref cur) \<and>
    (\<forall>e. m' e = m e \<or> (\<exists>k. m' e = Some (name, k)))"
  using assms(2-)
proof (induction xs arbitrary: cur m)
  case Nil
  then show ?case by (subst search.simps) simp
next
  case (Cons x xs)
  then have cur: "cur = Some x" and xs: "visits step (step x) xs" "distinct xs" "x \<notin> set xs" by auto
  show ?case
  proof (cases "marked m name x")
    case (Some k)
    with Cons.prems(3) [OF Some] have "cs ! k = ref x" by simp
    with Some cur show ?thesis by (subst search.simps) simp
  next
    case None
    define m1 where "m1 = (if nodeType D x = 1 \<and> \<not> isXML then m(x \<mapsto> (name, i)) else m)"
    have m1: "marked m1 name e = Some k \<Longrightarrow> marked m name e = Some k \<or> e = x \<and> k = i" for e k
      by (auto simp: m1_def marked_upd split: if_splits)
    have names: "m1 e = m e \<or> (\<exists>k. m1 e = Some (name, k))" for e by (simp add: m1_def)
    show ?thesis
    proof (cases "hits x")
      case hit: (Some c)
      then have "ref x = c" by (subst ref) simp
      then have "\<forall>e k. marked m1 name e = Some k \<longrightarrow> marked m name e = Some k \<or> k = i \<and> ref e = c" using m1 by blast
      moreover have "search D step isXML hits name i cs m cur = Some (c, m1)"
        using None hit cur by (subst search.simps) (simp add: m1_def)
      ultimately show ?thesis using names \<open>ref x = c\<close> unfolding cur by (intro exI [of _ m1]) simp
    next
      case miss: None
      then have x: "ref x = case_option CFalse ref (step x)" by (subst ref) simp
      have "search D step isXML hits name i cs m cur = search D step isXML hits name i cs m1 (step x)"
        using None miss cur by (subst search.simps) (simp add: m1_def)
      moreover have "k < i \<and> cs ! k = ref e \<or> k = i \<and> e \<notin> set xs" if "marked m1 name e = Some k" for e k
        using m1 [OF that] Cons.prems(3) [of e k] xs(3) by auto
      from Cons.IH [OF xs(1,2) this] obtain m' where
        m': "search D step isXML hits name i cs m1 (step x) = Some (case_option CFalse ref (step x), m')"
        "\<forall>e k. marked m' name e = Some k \<longrightarrow> marked m1 name e = Some k \<or> k = i \<and> ref e = case_option CFalse ref (step x)"
        "\<forall>e. m' e = m1 e \<or> (\<exists>k. m' e = Some (name, k))" by blast
      have "marked m name e = Some k \<or> k = i \<and> ref e = ref x" if "marked m' name e = Some k" for e k
        using m'(2) [rule_format, OF that] m1 [of e k] x by metis
      moreover have "m' e = m e \<or> (\<exists>k. m' e = Some (name, k))" for e using spec [OF m'(3), of e] names [of e] by metis
      ultimately show ?thesis using m'(1) x unfolding cur by (intro exI [of _ m']) simp
    qed
  qed
qed

definition entry_result :: "(nat \<Rightarrow> check option) \<Rightarrow> (nat \<Rightarrow> nat option) \<Rightarrow> check \<Rightarrow> check" where
  "entry_result hits step c =
     (case c of CNode e \<Rightarrow> nearest hits (walk step e) | CTrue \<Rightarrow> CFalse | _ \<Rightarrow> c)"

lemma search_entries_ref:
  assumes ref: "\<And>e. ref e = (case hits e of Some c \<Rightarrow> c | None \<Rightarrow> case_option CFalse ref (step e))"
    and ends: "\<And>e. \<exists>xs. visits step (step e) xs"
    and "\<And>e k. marked m name e = Some k \<Longrightarrow> k < length before \<and> before ! k = ref e"
  shows "\<exists>m'. search_entries D step isXML hits name before cs m =
    Some (before @ map (\<lambda>c. case c of CNode e \<Rightarrow> case_option CFalse ref (step e) | CTrue \<Rightarrow> CFalse | _ \<Rightarrow> c) cs, m') \<and>
    (\<forall>e. m' e = m e \<or> (\<exists>k. m' e = Some (name, k)))"
  using assms(3)
proof (induction cs arbitrary: before m)
  case Nil
  then show ?case by simp
next
  case (Cons c cs)
  have kept: "k < length (before @ [d]) \<and> (before @ [d]) ! k = ref e" if "marked m name e = Some k" for d e k
    using Cons.prems [OF that] by (simp add: nth_append)
  show ?case
  proof (cases c)
    case (CNode e)
    let ?r = "case_option CFalse ref (step e)"
    obtain xs where xs: "visits step (step e) xs" using ends by blast
    have "k < length before \<and> (before @ CNode e # cs) ! k = ref e' \<or> k = length before \<and> e' \<notin> set xs"
      if "marked m name e' = Some k" for e' k
      using Cons.prems [OF that] by (simp add: nth_append)
    from search_ref [OF ref xs visits_distinct [OF xs] this] obtain m' where
      m': "search D step isXML hits name (length before) (before @ CNode e # cs) m (step e) = Some (?r, m')"
      "\<forall>e k. marked m' name e = Some k \<longrightarrow> marked m name e = Some k \<or> k = length before \<and> ref e = ?r"
      "\<forall>e. m' e = m e \<or> (\<exists>k. m' e = Some (name, k))" by blast
    have "k < length (before @ [?r]) \<and> (before @ [?r]) ! k = ref e'" if "marked m' name e' = Some k" for e' k
      using m'(2) that kept by (metis length_append_singleton lessI nth_append_length)
    from Cons.IH [OF this] obtain m2 where "search_entries D step isXML hits name (before @ [?r]) cs m' = Some ((before @ [?r]) @
        map (\<lambda>c. case c of CNode e \<Rightarrow> case_option CFalse ref (step e) | CTrue \<Rightarrow> CFalse | _ \<Rightarrow> c) cs, m2)"
      "\<forall>e. m2 e = m' e \<or> (\<exists>k. m2 e = Some (name, k))" by blast
    moreover from this(2) m'(3) have "\<forall>e. m2 e = m e \<or> (\<exists>k. m2 e = Some (name, k))" by metis
    ultimately show ?thesis using m'(1) CNode by simp
  qed (use Cons.IH [OF kept] in simp_all)
qed

text \<open>
  C22: The searches for ancestors and for earlier siblings mark the nodes they pass and take over results of
  earlier entries; what they find is what a search without marks finds, the nearest node that matches.
\<close>

theorem marks_change_nothing:
  assumes D: "tree_ok D" and fresh: "\<And>e. marked m name e = None" and "step = parentNode D \<or> step = previousSibling D"
  shows "\<exists>m'. search_entries D step isXML hits name [] cs m = Some (map (entry_result hits step) cs, m') \<and>
    (\<forall>e. m' e = m e \<or> (\<exists>k. m' e = Some (name, k)))"
proof -
  have ends: "\<exists>xs. visits step (step e) xs" for e
    using assms(3) visits_parents_ex [OF D] visits_previous [OF D] by blast
  define ref where "ref e = nearest hits (e # walk step e)" for e
  have tail: "nearest hits (walk step e) = case_option CFalse ref (step e)" for e
  proof (cases "walk step e")
    case Nil
    with visits_walk [OF ends, of e] show ?thesis by (simp add: nearest_def)
  next
    case (Cons x xs)
    with visits_walk [OF ends, of e] have "step e = Some x" "visits step (step x) xs" by simp_all
    with Cons walk_eqI [of step x xs] show ?thesis by (simp add: ref_def)
  qed
  have "ref e = (case hits e of Some c \<Rightarrow> c | None \<Rightarrow> case_option CFalse ref (step e))" for e
    unfolding tail [symmetric] by (simp add: ref_def nearest_def split: option.splits)
  from search_entries_ref [OF this ends, of m name "[]" D isXML cs] fresh
  obtain m' where "search_entries D step isXML hits name [] cs m =
    Some (map (\<lambda>c. case c of CNode e \<Rightarrow> case_option CFalse ref (step e) | CTrue \<Rightarrow> CFalse | _ \<Rightarrow> c) cs, m')"
    "\<forall>e. m' e = m e \<or> (\<exists>k. m' e = Some (name, k))" by auto
  moreover have "entry_result hits step = (\<lambda>c. case c of CNode e \<Rightarrow> case_option CFalse ref (step e) | CTrue \<Rightarrow> CFalse | _ \<Rightarrow> c)"
    by (rule ext) (simp add: entry_result_def tail split: check.splits)
  ultimately show ?thesis by simp
qed


section \<open>What is found matches\<close>

text \<open>
  The meaning of a selector. \<open>fits\<close> is a part at one node, \<open>reach\<close> a combinator between two nodes, and
  \<open>via\<close> a way along the combinators; an element matches when there is such a way.
\<close>

fun fits :: "document \<Rightarrow> (string \<Rightarrow> nat \<Rightarrow> bool) \<Rightarrow> part \<Rightarrow> nat \<Rightarrow> bool" where
  "fits D test (PText t) q \<longleftrightarrow> is_elem D q \<and> (if is_tag t then lower (nodeName D q) = lower t else test t q)"
| "fits D test (PNode n) q \<longleftrightarrow> q = n"

fun reach :: "document \<Rightarrow> comb \<Rightarrow> nat \<Rightarrow> nat \<Rightarrow> bool" where
  "reach D Descendant e q \<longleftrightarrow> (q, e) \<in> (parent_rel D)\<^sup>+"
| "reach D Child e q \<longleftrightarrow> parentNode D e = Some q"
| "reach D Sibling e q \<longleftrightarrow> q \<in> set (preceding D e)"
| "reach D Adjacent e q \<longleftrightarrow> hd_opt (filter (is_elem D) (rev (preceding D e))) = Some q"

fun via :: "document \<Rightarrow> (string \<Rightarrow> nat \<Rightarrow> bool) \<Rightarrow> (comb \<times> part) list \<Rightarrow> nat \<Rightarrow> nat \<Rightarrow> bool" where
  "via D test [] e q \<longleftrightarrow> e = q"
| "via D test ((k, part) # ss) e q \<longleftrightarrow> (\<exists>x. reach D k e x \<and> fits D test part x \<and> via D test ss x q)"

lemma via_snoc: "via D test (ss @ [(k, part)]) e q \<longleftrightarrow> (\<exists>x. via D test ss e x \<and> reach D k x q \<and> fits D test part q)"
proof (induction ss arbitrary: e)
  case (Cons s ss)
  then show ?case by (cases s) (simp, blast)
qed auto

definition css :: "document \<Rightarrow> (string \<Rightarrow> nat \<Rightarrow> bool) \<Rightarrow> (comb \<times> part) list \<Rightarrow> nat \<Rightarrow> bool" where
  "css D test ss e \<longleftrightarrow> (\<exists>q. via D test ss e q)"

text \<open>A relation between the elements and the entries up to the first \<open>null\<close>.\<close>

fun live :: "(nat \<Rightarrow> check \<Rightarrow> bool) \<Rightarrow> nat list \<Rightarrow> check list \<Rightarrow> bool" where
  "live R (e # es) (c # cs) \<longleftrightarrow> c = CNull \<or> R e c \<and> live R es cs"
| "live R es cs \<longleftrightarrow> True"

lemma live_step:
  assumes "live R es cs" and "list_all2 S cs cs'"
    and "\<And>e c c'. R e c \<Longrightarrow> c \<noteq> CNull \<Longrightarrow> S c c' \<Longrightarrow> c' \<noteq> CNull \<Longrightarrow> R' e c'"
    and "\<And>c'. S CNull c' \<Longrightarrow> c' = CNull"
  shows "live R' es cs'"
  using assms(1,2)
proof (induction es arbitrary: cs cs')
  case (Cons e es)
  show ?case
  proof (cases cs)
    case (Cons c cs1)
    with Cons.prems obtain c' cs1' where cs': "cs' = c' # cs1'" "S c c'" "list_all2 S cs1 cs1'" by (auto simp: list_all2_Cons1)
    with Cons Cons.IH [of cs1 cs1'] Cons.prems(1) assms(3) [of e c c'] assms(4) [of c'] show ?thesis by (cases "c = CNull") auto
  qed (use Cons.prems in simp)
qed simp

lemma live_filter:
  assumes "live R es cs" and "\<And>e q. R e (CNode q) \<Longrightarrow> test q \<Longrightarrow> R' e (CNode q)"
    and "\<And>e. R' e CFalse" and "\<And>e. R e CTrue \<Longrightarrow> R' e CTrue"
  shows "live R' es (filter_inplace test cs)"
  using assms(1)
proof (induction es arbitrary: cs)
  case (Cons e es)
  show ?case
  proof (cases cs)
    case (Cons c cs')
    with Cons.IH [of cs'] Cons.prems assms(2-) show ?thesis by (cases c) auto
  qed simp
qed simp


text \<open>The entry of an element after some steps.\<close>

definition reached :: "document \<Rightarrow> (string \<Rightarrow> nat \<Rightarrow> bool) \<Rightarrow> (comb \<times> part) list \<Rightarrow> nat \<Rightarrow> check \<Rightarrow> bool" where
  "reached D test ss e c \<longleftrightarrow>
     (case c of CNode q \<Rightarrow> via D test ss e q | CTrue \<Rightarrow> css D test ss e | _ \<Rightarrow> True)"

text \<open>The same after one more combinator, before the test of the part.\<close>

definition crossed :: "document \<Rightarrow> (string \<Rightarrow> nat \<Rightarrow> bool) \<Rightarrow> (comb \<times> part) list \<Rightarrow> comb \<Rightarrow> part \<Rightarrow> nat \<Rightarrow> check \<Rightarrow> bool" where
  "crossed D test ss k part e c \<longleftrightarrow>
     (case c of
        CNode q \<Rightarrow> \<exists>x t. via D test ss e x \<and> reach D k x q \<and> part = PText t \<and> (is_tag t \<longrightarrow> fits D test part q)
      | CTrue \<Rightarrow> css D test (ss @ [(k, part)]) e
      | _ \<Rightarrow> True)"

text \<open>
  What the theorem asks of a page: simple selectors match elements only, and the names of other nodes,
  as \<open>#text\<close>, are no names of elements.
\<close>

definition names_ok :: "document \<Rightarrow> (string \<Rightarrow> nat \<Rightarrow> bool) \<Rightarrow> bool" where
  "names_ok D test \<longleftrightarrow>
     (\<forall>t n. test t n \<longrightarrow> is_elem D n) \<and> (\<forall>n. \<not> is_elem D n \<longrightarrow> \<not> is_tag (lower (nodeName D n)))"

lemma is_tag_lower: "is_tag t \<Longrightarrow> is_tag (lower t)"
proof -
  have "is_word (to_lower c)" if "is_word c" for c
  proof (cases "is_upper c")
    case True
    then have "(of_char (to_lower c) :: nat) = of_char c + 32" by (simp add: to_lower_def is_upper_def)
    with True show ?thesis by (simp add: is_word_def is_upper_def Let_def)
  qed (use that in \<open>simp add: to_lower_def\<close>)
  then show "is_tag t \<Longrightarrow> is_tag (lower t)" by (simp add: is_tag_def lower_def list_all_iff)
qed

lemma named_fits: "names_ok D test \<Longrightarrow> is_tag t \<Longrightarrow> lower (nodeName D q) = lower t \<Longrightarrow> fits D test (PText t) q"
  using is_tag_lower by (auto simp: names_ok_def)

lemma filter_reached:
  assumes "names_ok D test" and "live (crossed D test ss k part) es cs"
  shows "live (reached D test (ss @ [(k, part)])) es
    (case part of PText t \<Rightarrow> if is_tag t then cs else filter_inplace (test t) cs | PNode n \<Rightarrow> cs)"
proof -
  have same: "live (reached D test (ss @ [(k, part)])) es cs" if "case part of PText t \<Rightarrow> is_tag t | PNode n \<Rightarrow> True"
    by (rule live_step [OF assms(2) list.rel_refl, of "(=)"])
      (use that in \<open>auto simp: crossed_def reached_def via_snoc split: check.splits part.splits\<close>)
  have filtered: "live (reached D test (ss @ [(k, part)])) es (filter_inplace (test t) cs)" if "part = PText t" "\<not> is_tag t" for t
    by (rule live_filter [OF assms(2)])
      (use that assms(1) in \<open>auto simp: crossed_def reached_def via_snoc names_ok_def\<close>)
  show ?thesis using same filtered by (auto split: part.splits)
qed


lemma prev_element: "visits (previousSibling D) cur xs \<Longrightarrow> prev_element D cur = Some (hd_opt (filter (is_elem D) xs))"
  by (induction xs arbitrary: cur) (subst prev_element.simps, simp add: is_elem_def [abs_def])+

lemma hd_opt_filter: "hd_opt (filter P xs) = Some q \<Longrightarrow> P q"
  by (induction xs) (auto split: if_splits)

lemma adjacent_reached:
  assumes D: "tree_ok D" and names: "names_ok D test" and live: "live (reached D test ss) es cs"
  shows "\<exists>cs'. rel_adjacent D test part cs = Some cs' \<and> live (reached D test (ss @ [(Adjacent, part)])) es cs'"
proof -
  note prev = prev_element [OF visits_previous [OF D]]
  have "adjacent_entry D part c \<noteq> None" for c by (cases c) (simp_all add: prev)
  with those_total [of cs "adjacent_entry D part"] obtain cs1 where cs1: "those (map (adjacent_entry D part) cs) = Some cs1" by blast
  have entry: "crossed D test ss Adjacent part e c'"
    if "reached D test ss e c" "adjacent_entry D part c = Some c'" for e c c'
  proof (cases c)
    case (CNode x)
    define p where "p = hd_opt (filter (is_elem D) (rev (preceding D x)))"
    from CNode that(2) have c': "c' = adjacent_one D part p" by (simp add: prev p_def)
    from CNode that(1) have x: "via D test ss e x" by (simp add: reached_def)
    have p: "reach D Adjacent x q \<and> is_elem D q" if "p = Some q" for q
      using that hd_opt_filter [of "is_elem D" "rev (preceding D x)" q] by (simp add: p_def)
    show ?thesis
    proof (cases part)
      case (PText t)
      with c' x p show ?thesis
        by (cases p) (auto simp: crossed_def adjacent_one_def simp del: reach.simps)
    next
      case (PNode n)
      moreover have "via D test (ss @ [(Adjacent, PNode n)]) e n" if "p = Some n"
        using x p [OF that] unfolding via_snoc by auto
      ultimately show ?thesis using c' by (auto simp: crossed_def adjacent_one_def css_def)
    qed
  qed (use that in \<open>auto simp: crossed_def\<close>)
  have "live (crossed D test ss Adjacent part) es cs1"
  proof (rule live_step [OF live those_all2 [OF cs1]])
    fix e c c' assume "reached D test ss e c" "adjacent_entry D part c = Some c'"
    then show "crossed D test ss Adjacent part e c'" by (rule entry)
  qed simp
  from filter_reached [OF names this] cs1 show ?thesis
    by (auto simp: rel_adjacent_def split: part.splits)
qed

lemma all_throws_all2: "all_throws (map f cs) = Inr cs' \<Longrightarrow> list_all2 (\<lambda>c c'. f c = Inr c') cs cs'"
  by (induction cs arbitrary: cs') (auto simp: bindE_eq_Inr)

lemma child_reached:
  assumes names: "names_ok D test" and live: "live (reached D test ss) es cs" and "rel_child D test part cs = Inr cs'"
  shows "live (reached D test (ss @ [(Child, part)])) es cs'"
proof -
  from assms(3) obtain cs1 where cs1: "all_throws (map (child_entry D part) cs) = Inr cs1"
    "cs' = (case part of PText t \<Rightarrow> if is_tag t then cs1 else filter_inplace (test t) cs1 | PNode n \<Rightarrow> cs1)"
    by (auto simp: rel_child_def bindE_eq_Inr)
  have entry: "crossed D test ss Child part e c'" if "reached D test ss e c" "child_entry D part c = Inr c'" for e c c'
  proof (cases c)
    case (CNode x)
    with that(1) have "via D test ss e x" by (simp add: reached_def)
    with CNode that(2) named_fits [OF names] show ?thesis
      by (cases part) (auto simp: crossed_def css_def via_snoc simp del: fits.simps split: option.splits if_splits
        intro: fits.simps(2) [THEN iffD2])
  qed (use that in \<open>cases part; auto simp: crossed_def split: if_splits\<close>)+
  have "live (crossed D test ss Child part) es cs1"
  proof (rule live_step [OF live all_throws_all2 [OF cs1(1)]])
    fix e c c' assume "reached D test ss e c" "child_entry D part c = Inr c'"
    then show "crossed D test ss Child part e c'" by (rule entry)
  qed (cases part; simp)
  from filter_reached [OF names this] cs1(2) show ?thesis by simp
qed

lemma nearest_hit:
  assumes "nearest hits xs = c" and "c \<noteq> CFalse"
  shows "\<exists>q\<in>set xs. hits q = Some c"
proof -
  from assms obtain q where "List.find (\<lambda>e. hits e \<noteq> None) xs = Some q" "c = the (hits q)"
    by (auto simp: nearest_def split: option.splits)
  then show ?thesis by (auto simp: find_Some_iff)
qed

lemma hit_fits: "names_ok D test \<Longrightarrow> hit D test part q = Some c \<Longrightarrow> fits D test part q \<and> (c = CNode q \<or> c = CTrue)"
  using named_fits by (auto simp: hit_def is_elem_def split: part.splits if_splits)

lemma search_reached:
  assumes D: "tree_ok D" and names: "names_ok D test" and live: "live (reached D test ss) es cs"
    and k: "k = Descendant \<and> step = parentNode D \<or> k = Sibling \<and> step = previousSibling D"
    and fresh: "\<And>e. marked m n e = None"
  shows "\<exists>cs' m'. search_entries D step isXML (hit D test part) n [] cs m = Some (cs', m') \<and>
    live (reached D test (ss @ [(k, part)])) es cs' \<and> (\<forall>e. m' e = m e \<or> (\<exists>i. m' e = Some (n, i)))"
proof -
  let ?f = "entry_result (hit D test part) step"
  from k have "step = parentNode D \<or> step = previousSibling D" by auto
  from marks_change_nothing [OF D fresh this, of isXML "hit D test part" cs]
  obtain m' where m': "search_entries D step isXML (hit D test part) n [] cs m = Some (map ?f cs, m')"
    "\<forall>e. m' e = m e \<or> (\<exists>i. m' e = Some (n, i))" by blast
  have walked: "reach D k x q" if "q \<in> set (walk step x)" for x q
  proof -
    obtain xs where xs: "visits (parentNode D) (parentNode D x) xs" using visits_parents_ex [OF D] by blast
    from k that walk_eqI [OF this] visits_parents_set [OF this] walk_eqI [OF visits_previous [OF D]] show ?thesis by auto
  qed
  have entry: "reached D test (ss @ [(k, part)]) e (?f c)" if "reached D test ss e c" for e c
  proof (cases c)
    case (CNode x)
    show ?thesis
    proof (cases "?f c = CFalse")
      case False
      with nearest_hit [of "hit D test part" "walk step x" "?f c"] CNode
      obtain q where "q \<in> set (walk step x)" "hit D test part q = Some (?f c)" by (auto simp: entry_result_def)
      with walked hit_fits [OF names] have "reach D k x q" "fits D test part q" "?f c = CNode q \<or> ?f c = CTrue" by blast+
      moreover from this CNode that have "via D test (ss @ [(k, part)]) e q" by (auto simp: reached_def via_snoc)
      ultimately show ?thesis by (auto simp: reached_def css_def)
    qed (simp add: reached_def)
  qed (simp_all add: entry_result_def reached_def)
  have "live (reached D test (ss @ [(k, part)])) es (map ?f cs)"
  proof (rule live_step [OF live, of "\<lambda>c c'. c' = ?f c"])
    show "list_all2 (\<lambda>c c'. c' = ?f c) cs (map ?f cs)" by (simp add: list.rel_map list.rel_refl)
    fix e c c' assume "reached D test ss e c" "c' = ?f c"
    with entry show "reached D test (ss @ [(k, part)]) e c'" by simp
  qed (simp add: entry_result_def)
  with m' show ?thesis by blast
qed


text \<open>No node has a mark of a search to come.\<close>

definition fresh_marks :: "marks \<Rightarrow> nat \<Rightarrow> bool" where
  "fresh_marks m n \<longleftrightarrow> (\<forall>e k i. m e = Some (k, i) \<longrightarrow> k < n)"

lemma fresh_unmarked: "fresh_marks m n \<Longrightarrow> marked m n e = None"
  by (auto simp: fresh_marks_def marked_def split: option.splits)

lemma later_marks:
  assumes "fresh_marks m n" and "\<forall>e. m' e = m e \<or> (\<exists>i. m' e = Some (n, i))"
  shows "fresh_marks m' (Suc n)"
  unfolding fresh_marks_def
proof (intro allI impI)
  fix e k i assume "m' e = Some (k, i)"
  with spec [OF assms(2), of e] have "m e = Some (k, i) \<or> k = n" by auto
  with assms(1) show "k < Suc n" unfolding fresh_marks_def by (metis less_Suc_eq)
qed

lemma relate_reached:
  assumes D: "tree_ok D" and names: "names_ok D test" and live: "live (reached D test ss) es cs" and fresh: "fresh_marks m n"
  shows "\<exists>r. relate D test isXML k part (cs, m, n) = Some r \<and>
    (\<forall>cs' m' n'. r = Inr (cs', m', n') \<longrightarrow> live (reached D test (ss @ [(k, part)])) es cs' \<and> fresh_marks m' n')"
proof -
  note unmarked = fresh_unmarked [OF fresh] and later = later_marks [OF fresh]
  show ?thesis
  proof (cases k)
    case Adjacent
    with adjacent_reached [OF D names live, of part] fresh show ?thesis by (auto simp: relate_def)
  next
    case Child
    with child_reached [OF names live, of part] fresh show ?thesis by (auto simp: relate_def bindE_eq_Inr)
  next
    case Descendant
    with search_reached [OF D names live, of k "parentNode D" m n isXML part] unmarked later show ?thesis
      by (auto simp: relate_def)
  next
    case Sibling
    with search_reached [OF D names live, of k "previousSibling D" m n isXML part] unmarked later show ?thesis
      by (auto simp: relate_def)
  qed
qed

lemma run_steps_reached:
  assumes D: "tree_ok D" and names: "names_ok D test" and "live (reached D test before) es cs" and "fresh_marks m n"
  shows "\<exists>r. run_steps D test isXML ss (cs, m, n) = Some r \<and>
    (\<forall>cs' m' n'. r = Inr (cs', m', n') \<longrightarrow> live (reached D test (before @ ss)) es cs')"
  using assms(3,4)
proof (induction ss arbitrary: before cs m n)
  case (Cons s ss)
  obtain k part where s: "s = (k, part)" by (cases s)
  from relate_reached [OF D names Cons.prems, of isXML k part] obtain r where
    r: "relate D test isXML k part (cs, m, n) = Some r"
    "\<forall>cs' m' n'. r = Inr (cs', m', n') \<longrightarrow> live (reached D test (before @ [(k, part)])) es cs' \<and> fresh_marks m' n'" by blast
  show ?case
  proof (cases r)
    case (Inr st)
    obtain cs' m' n' where st: "st = (cs', m', n')" by (cases st)
    with r(2) Inr have "live (reached D test (before @ [(k, part)])) es cs'" "fresh_marks m' n'" by blast+
    from Cons.IH [OF this] r(1) Inr st s show ?thesis by simp
  qed (use r(1) s in simp)
qed simp

lemma collect_live:
  assumes "live R es cs" and "e \<in> set (collect D contains ctx es cs)"
  shows "\<exists>c. R e c \<and> (c = CTrue \<or> (\<exists>q. c = CNode q)) \<and> e \<in> set es"
  using assms by (induction D contains ctx es cs rule: collect.induct) (auto split: if_splits)



section \<open>When nothing that matches is missed\<close>

text \<open>
  Each combinator keeps one node for an element, the nearest that fits. That loses nothing when the
  combinator left of a descendant is a descendant too, and none left of \<open>~\<close> is \<open>+\<close>.
\<close>

fun exact :: "(comb \<times> part) list \<Rightarrow> bool" where
  "exact [] \<longleftrightarrow> True"
| "exact ((k, PText t) # ss) \<longleftrightarrow>
     (case ss of
        [] \<Rightarrow> True
      | (k', _) # _ \<Rightarrow> (k = Descendant \<longrightarrow> k' = Descendant) \<and> (k = Sibling \<longrightarrow> k' \<noteq> Adjacent)) \<and> exact ss"
| "exact ((k, PNode n) # ss) \<longleftrightarrow> False"

lemma css_Nil [simp]: "css D test [] e"
  by (simp add: css_def)

lemma css_Cons: "css D test ((k, part) # ss) e \<longleftrightarrow> (\<exists>x. reach D k e x \<and> fits D test part x \<and> css D test ss x)"
  by (auto simp: css_def)

text \<open>An element of the document with the root \<open>r\<close>.\<close>

definition inside :: "document \<Rightarrow> nat \<Rightarrow> nat \<Rightarrow> bool" where
  "inside D r q \<longleftrightarrow> is_elem D q \<and> (r, q) \<in> (parent_rel D)\<^sup>+"

definition tracks :: "document \<Rightarrow> (string \<Rightarrow> nat \<Rightarrow> bool) \<Rightarrow> nat \<Rightarrow> (nat \<Rightarrow> bool) \<Rightarrow> (comb \<times> part) list \<Rightarrow> nat \<Rightarrow> check \<Rightarrow> bool" where
  "tracks D test r P ss e c \<longleftrightarrow>
     c = CFalse \<and> \<not> P e \<or> (\<exists>q. c = CNode q \<and> inside D r q \<and> (P e \<longleftrightarrow> css D test ss q))"

fun keep_if :: "(nat \<Rightarrow> bool) \<Rightarrow> check \<Rightarrow> check" where
  "keep_if test (CNode q) = (if test q then CNode q else CFalse)"
| "keep_if test c = c"

lemma filter_inplace_map: "CNull \<notin> set cs \<Longrightarrow> filter_inplace test cs = map (keep_if test) cs"
proof (induction cs)
  case (Cons c cs)
  then show ?case by (cases c) auto
qed simp

lemma inside_parent:
  assumes "nodeType D r = 9" and "inside D r q"
  obtains p where "parentNode D q = Some p" and "is_elem D p \<Longrightarrow> inside D r p"
proof -
  from assms(2) obtain p where "parentNode D q = Some p" "p = r \<or> (r, p) \<in> (parent_rel D)\<^sup>+"
    by (auto simp: inside_def elim: tranclE)
  with that assms(1) show ?thesis by (auto simp: inside_def is_elem_def)
qed

lemma inside_sibling:
  assumes D: "tree_ok D" and "inside D r q" and "is_elem D x" and "x \<in> set (preceding D q)"
  shows "inside D r x"
proof -
  from assms(4) have "x \<in> set (siblings_of D q)" using set_prior [of q "siblings_of D q"] by (auto simp: preceding_def)
  then have "parentNode D x = parentNode D q" by (rule siblings_ok(4) [OF D])
  with assms(2,3) show ?thesis by (simp add: inside_def above_iff)
qed

text \<open>One entry: what becomes of \<open>q\<close> decides whether the rest of the selector can be met.\<close>

definition advances :: "document \<Rightarrow> (string \<Rightarrow> nat \<Rightarrow> bool) \<Rightarrow> nat \<Rightarrow> (comb \<times> part) list \<Rightarrow> nat \<Rightarrow> check \<Rightarrow> bool" where
  "advances D test r ss q c \<longleftrightarrow>
     c = CFalse \<and> \<not> css D test ss q \<or>
     (\<exists>x. c = CNode x \<and> inside D r x \<and> (css D test ss q \<longleftrightarrow> css D test (tl ss) x))"

lemma tracks_map:
  assumes "list_all2 (tracks D test r P ss) es cs" and "f CFalse = CFalse"
    and "\<And>q. inside D r q \<Longrightarrow> advances D test r ss q (f (CNode q))"
  shows "list_all2 (tracks D test r P (tl ss)) es (map f cs)"
  unfolding list.rel_map
  by (rule list_all2_mono [OF assms(1)]) (use assms(2,3) in \<open>fastforce simp: tracks_def advances_def\<close>)

lemma no_null: "list_all2 (tracks D test r P ss) es cs \<Longrightarrow> CNull \<notin> set cs"
  by (induction es cs rule: list_all2_induct) (auto simp: tracks_def)

text \<open>The next combinator reaches from the nearest node what it reaches from one behind it.\<close>

lemma css_nearer:
  assumes D: "tree_ok D" and "css D test ss x" and "case ss of [] \<Rightarrow> True | (k', _) # _ \<Rightarrow> k' = Descendant" and "(x, y) \<in> (parent_rel D)\<^sup>*"
  shows "css D test ss y"
proof (cases ss)
  case (Cons s ss')
  with assms(3) obtain part where "ss = (Descendant, part) # ss'" by (cases s) auto
  with assms(2,4) show ?thesis by (auto simp: css_Cons intro: trancl_rtrancl_trancl)
qed simp

lemma css_later:
  assumes D: "tree_ok D" and "css D test ss x" and "case ss of [] \<Rightarrow> True | (k', _) # _ \<Rightarrow> k' \<noteq> Adjacent"
    and y: "x = y \<or> x \<in> set (preceding D y)"
  shows "css D test ss y"
proof (cases "x = y \<or> ss = []")
  case False
  then obtain k part ss' where ss: "ss = (k, part) # ss'" by (cases ss) auto
  from False y have x: "x \<in> set (siblings_of D y)" "x \<in> set (preceding D y)"
    using set_prior [of y "siblings_of D y"] by (auto simp: preceding_def)
  then have same: "parentNode D x = parentNode D y" "siblings_of D x = siblings_of D y"
    using siblings_ok(2,4) [OF D x(1)] by simp_all
  then have up: "(q, x) \<in> (parent_rel D)\<^sup>+ \<Longrightarrow> (q, y) \<in> (parent_rel D)\<^sup>+" for q
    by (simp add: above_iff)
  have "q \<in> set (preceding D y)" if "q \<in> set (preceding D x)" for q
    using that x(2) siblings_ok(1) [OF D, of y] prior_trans unfolding preceding_def same by metis
  with assms(2,3) same up show ?thesis unfolding ss by (cases k) (auto simp: css_Cons)
qed (use assms(2) in auto)


lemma those_map_Some: "(\<And>x. x \<in> set xs \<Longrightarrow> f x = Some (g x)) \<Longrightarrow> those (map f xs) = Some (map g xs)"
  by (induction xs) auto

lemma all_throws_Inr: "(\<And>x. x \<in> set xs \<Longrightarrow> f x = Inr (g x)) \<Longrightarrow> all_throws (map f xs) = Inr (map g xs)"
  by (induction xs) auto

lemma tracks_entry: "list_all2 (tracks D test r P ss) es cs \<Longrightarrow> c \<in> set cs \<Longrightarrow> c = CFalse \<or> (\<exists>q. c = CNode q \<and> inside D r q)"
  by (induction es cs rule: list_all2_induct) (auto simp: tracks_def)

text \<open>A step that maps the entries and then tests the parts that are no names.\<close>

lemma filter_tracks:
  assumes names: "names_ok D test" and "list_all2 (tracks D test r P ((k, PText t) # ss)) es cs"
    and h: "h CFalse = CFalse" "\<And>q. inside D r q \<Longrightarrow> h (CNode q) = CFalse \<and> \<not> css D test ((k, PText t) # ss) q \<or>
      (\<exists>x. h (CNode q) = CNode x \<and> (is_elem D x \<longrightarrow> inside D r x) \<and> (is_tag t \<longrightarrow> lower (nodeName D x) = lower t) \<and>
        (css D test ((k, PText t) # ss) q \<longleftrightarrow> fits D test (PText t) x \<and> css D test ss x))"
  shows "list_all2 (tracks D test r P ss) es (if is_tag t then map h cs else filter_inplace (test t) (map h cs))"
proof -
  let ?f = "if is_tag t then h else keep_if (test t) \<circ> h"
  have "h c \<noteq> CNull" if "c \<in> set cs" for c
    using tracks_entry [OF assms(2) that] h by fastforce
  then have "CNull \<notin> set (map h cs)" unfolding set_map by (metis imageE)
  then have "(if is_tag t then map h cs else filter_inplace (test t) (map h cs)) = map ?f cs"
    by (simp add: filter_inplace_map)
  moreover have "advances D test r ((k, PText t) # ss) q (?f (CNode q))" if q: "inside D r q" for q
    using h(2) [OF q]
  proof (elim disjE exE conjE)
    fix x assume x: "h (CNode q) = CNode x" "is_elem D x \<longrightarrow> inside D r x" "is_tag t \<longrightarrow> lower (nodeName D x) = lower t"
      "css D test ((k, PText t) # ss) q \<longleftrightarrow> fits D test (PText t) x \<and> css D test ss x"
    have "fits D test (PText t) x \<longleftrightarrow> (if is_tag t then True else test t x)" "fits D test (PText t) x \<Longrightarrow> inside D r x"
      using named_fits [OF names _ x(3) [rule_format]] names x(2) by (auto simp: names_ok_def)
    with x(1,4) show ?thesis by (auto simp: advances_def simp del: fits.simps)
  qed (simp add: advances_def)
  ultimately show ?thesis using tracks_map [OF assms(2), of ?f] h(1) by simp
qed

lemma hd_opt_filter_mem: "hd_opt (filter P xs) = Some x \<Longrightarrow> x \<in> set xs \<and> P x"
  by (induction xs) (auto split: if_splits)

lemma adjacent_exact:
  assumes D: "tree_ok D" and names: "names_ok D test" and "list_all2 (tracks D test r P ((Adjacent, PText t) # ss)) es cs"
  shows "\<exists>cs'. rel_adjacent D test (PText t) cs = Some cs' \<and> list_all2 (tracks D test r P ss) es cs'"
proof -
  define p where "p q = hd_opt (filter (is_elem D) (rev (preceding D q)))" for q
  define h where "h c = (case c of CNode q \<Rightarrow> adjacent_one D (PText t) (p q) | CTrue \<Rightarrow> CFalse | _ \<Rightarrow> c)" for c
  have entries: "adjacent_entry D (PText t) c = Some (h c)" for c
    by (cases c) (simp_all add: h_def p_def prev_element [OF visits_previous [OF D]])
  have "h (CNode q) = CFalse \<and> \<not> css D test ((Adjacent, PText t) # ss) q \<or>
      (\<exists>x. h (CNode q) = CNode x \<and> (is_elem D x \<longrightarrow> inside D r x) \<and> (is_tag t \<longrightarrow> lower (nodeName D x) = lower t) \<and>
        (css D test ((Adjacent, PText t) # ss) q \<longleftrightarrow> fits D test (PText t) x \<and> css D test ss x))" if q: "inside D r q" for q
  proof (cases "p q")
    case None
    then show ?thesis by (simp add: h_def adjacent_one_def css_Cons p_def)
  next
    case (Some x)
    then have "x \<in> set (preceding D q)" "is_elem D x"
      using hd_opt_filter_mem [of "is_elem D" "rev (preceding D q)" x] by (auto simp: p_def)
    with inside_sibling [OF D q] have "inside D r x" by blast
    moreover have "css D test ((Adjacent, PText t) # ss) q \<longleftrightarrow> fits D test (PText t) x \<and> css D test ss x"
      using Some by (simp add: css_Cons p_def del: fits.simps)
    ultimately show ?thesis using Some by (auto simp: h_def adjacent_one_def)
  qed
  from filter_tracks [OF names assms(3) _ this] have "list_all2 (tracks D test r P ss) es
    (if is_tag t then map h cs else filter_inplace (test t) (map h cs))" by (simp add: h_def)
  moreover have "those (map (adjacent_entry D (PText t)) cs) = Some (map h cs)" by (rule those_map_Some) (rule entries)
  ultimately show ?thesis by (cases "is_tag t") (simp_all add: rel_adjacent_def)
qed

lemma child_exact:
  assumes names: "names_ok D test" and r: "nodeType D r = 9" and "list_all2 (tracks D test r P ((Child, PText t) # ss)) es cs"
  shows "\<exists>cs'. rel_child D test (PText t) cs = Inr cs' \<and> list_all2 (tracks D test r P ss) es cs'"
proof -
  define h where "h c = (case c of
      CNode q \<Rightarrow> (let p = the (parentNode D q) in if is_tag t \<and> lower (nodeName D p) \<noteq> lower t then CFalse else CNode p)
    | _ \<Rightarrow> c)" for c
  have "child_entry D (PText t) c = Inr (h c)" if "c \<in> set cs" for c
    using tracks_entry [OF assms(3) that]
  proof (elim disjE exE conjE)
    fix q assume c: "c = CNode q" "inside D r q"
    from inside_parent [OF r c(2)] obtain p where "parentNode D q = Some p" by blast
    with c(1) show ?thesis by (simp add: h_def Let_def)
  qed (simp add: h_def)
  then have "all_throws (map (child_entry D (PText t)) cs) = Inr (map h cs)" by (rule all_throws_Inr)
  moreover have "h (CNode q) = CFalse \<and> \<not> css D test ((Child, PText t) # ss) q \<or>
      (\<exists>x. h (CNode q) = CNode x \<and> (is_elem D x \<longrightarrow> inside D r x) \<and> (is_tag t \<longrightarrow> lower (nodeName D x) = lower t) \<and>
        (css D test ((Child, PText t) # ss) q \<longleftrightarrow> fits D test (PText t) x \<and> css D test ss x))" if q: "inside D r q" for q
  proof -
    from inside_parent [OF r q] obtain p where "parentNode D q = Some p" "is_elem D p \<Longrightarrow> inside D r p" by blast
    then show ?thesis by (auto simp: h_def Let_def css_Cons)
  qed
  from filter_tracks [OF names assms(3) _ this] have "list_all2 (tracks D test r P ss) es
    (if is_tag t then map h cs else filter_inplace (test t) (map h cs))" by (simp add: h_def)
  ultimately show ?thesis by (simp add: rel_child_def)
qed


lemma hit_text: "names_ok D test \<Longrightarrow> hit D test (PText t) q = (if fits D test (PText t) q then Some (CNode q) else None)"
  using named_fits [of D test t q] by (auto simp: hit_def is_elem_def)

lemma nearest_Cons: "nearest hits (x # xs) = (case hits x of None \<Rightarrow> nearest hits xs | Some c \<Rightarrow> c)"
  by (simp add: nearest_def split: option.splits)

lemma nearest_text:
  assumes "names_ok D test" and "nearest (hit D test (PText t)) xs = c"
  shows "c = CFalse \<and> (\<forall>x\<in>set xs. \<not> fits D test (PText t) x) \<or>
    (\<exists>us x vs. c = CNode x \<and> xs = us @ x # vs \<and> fits D test (PText t) x \<and> (\<forall>u\<in>set us. \<not> fits D test (PText t) u))"
  using assms(2)
proof (induction xs)
  case (Cons x xs)
  show ?case
  proof (cases "fits D test (PText t) x")
    case True
    with Cons.prems have "c = CNode x" by (simp add: nearest_Cons hit_text [OF assms(1), of t x] del: fits.simps)
    with True have "c = CNode x \<and> x # xs = [] @ x # xs \<and> fits D test (PText t) x \<and> (\<forall>u\<in>set []. \<not> fits D test (PText t) u)" by simp
    then show ?thesis by blast
  next
    case False
    with Cons.prems have "nearest (hit D test (PText t)) xs = c" by (simp add: nearest_Cons hit_text [OF assms(1), of t x] del: fits.simps)
    from Cons.IH [OF this] False show ?thesis by (metis append_Cons set_ConsD)
  qed
qed (simp add: nearest_def)

text \<open>The nodes a search passes, and what lies behind one of them.\<close>

lemma walked_nodes:
  assumes D: "tree_ok D" and k: "k = Descendant \<and> step = parentNode D \<or> k = Sibling \<and> step = previousSibling D"
  shows "q \<in> set (walk step x) \<longleftrightarrow> reach D k x q"
    and "walk step x = us @ y # vs \<Longrightarrow> q \<in> set vs \<Longrightarrow>
      (k = Descendant \<longrightarrow> (q, y) \<in> (parent_rel D)\<^sup>*) \<and> (k = Sibling \<longrightarrow> q \<in> set (preceding D y))"
proof -
  have visits: "visits step (step x) (walk step x)" for x
    using k visits_walk visits_parents_ex [OF D] visits_previous [OF D] by metis
  have nodes: "q \<in> set (walk step x) \<longleftrightarrow> reach D k x q" for x
    using k visits [of x] visits_parents_set walk_eqI [of "previousSibling D", OF visits_previous [OF D]] by auto
  then show "q \<in> set (walk step x) \<longleftrightarrow> reach D k x q" .
  assume split: "walk step x = us @ y # vs" and "q \<in> set vs"
  have "visits step (step y) vs"
    using visits [of x] unfolding split by (induction us arbitrary: x) auto
  then have "walk step y = vs" by (rule walk_eqI)
  with nodes [of y] \<open>q \<in> set vs\<close> k
  show "(k = Descendant \<longrightarrow> (q, y) \<in> (parent_rel D)\<^sup>*) \<and> (k = Sibling \<longrightarrow> q \<in> set (preceding D y))"
    by (auto dest: trancl_into_rtrancl)
qed


lemma search_exact:
  assumes D: "tree_ok D" and names: "names_ok D test" and r: "nodeType D r = 9"
    and tracks: "list_all2 (tracks D test r P ((k, PText t) # ss)) es cs" and exact: "exact ((k, PText t) # ss)"
    and k: "k = Descendant \<and> step = parentNode D \<or> k = Sibling \<and> step = previousSibling D"
  shows "list_all2 (tracks D test r P ss) es (map (entry_result (hit D test (PText t)) step) cs)"
proof -
  have "advances D test r ((k, PText t) # ss) q (entry_result (hit D test (PText t)) step (CNode q))" if q: "inside D r q" for q
    using nearest_text [OF names refl, of t "walk step q"]
  proof (elim disjE exE conjE)
    assume "nearest (hit D test (PText t)) (walk step q) = CFalse" "\<forall>x\<in>set (walk step q). \<not> fits D test (PText t) x"
    then show ?thesis using walked_nodes(1) [OF D k] by (auto simp: advances_def entry_result_def css_Cons simp del: fits.simps)
  next
    fix us y vs
    assume y: "nearest (hit D test (PText t)) (walk step q) = CNode y" "walk step q = us @ y # vs" "fits D test (PText t) y"
      and us: "\<forall>u\<in>set us. \<not> fits D test (PText t) u"
    have reached: "reach D k q y" using y(2) walked_nodes(1) [OF D k, of y q] by simp
    have elem: "is_elem D y" using y(3) by simp
    have "inside D r y"
    proof (cases "k = Sibling")
      case True
      with reached inside_sibling [OF D q elem] show ?thesis by simp
    next
      case False
      with k reached have above: "(y, q) \<in> (parent_rel D)\<^sup>+" by auto
      from r have "parentNode D r = None" using tree_okD(4) [OF D, of r] by (cases "parentNode D r") auto
      with root_above [OF trancl_into_rtrancl trancl_into_rtrancl, of r q D y] q above
      have "(r, y) \<in> (parent_rel D)\<^sup>*" by (simp add: inside_def)
      moreover have "r \<noteq> y" using r elem by (auto simp: is_elem_def)
      ultimately show ?thesis using elem by (auto simp: inside_def dest: rtranclD)
    qed
    moreover have "css D test ss y" if x: "reach D k q x" "fits D test (PText t) x" "css D test ss x" for x
    proof -
      from x(1) y(2) walked_nodes(1) [OF D k, of x q] us x(2) have "x = y \<or> x \<in> set vs" by auto
      then have "x = y \<or> (k = Descendant \<longrightarrow> (x, y) \<in> (parent_rel D)\<^sup>*) \<and> (k = Sibling \<longrightarrow> x \<in> set (preceding D y))"
        using walked_nodes(2) [OF D k y(2)] by blast
      with k exact css_nearer [OF D x(3)] css_later [OF D x(3), of y] x(3) show ?thesis
        by (cases ss) auto
    qed
    with reached y(3) have "css D test ((k, PText t) # ss) q \<longleftrightarrow> css D test ss y"
      unfolding css_Cons by blast
    ultimately show ?thesis using y(1) by (simp add: advances_def entry_result_def)
  qed
  from tracks_map [OF tracks _ this] show ?thesis by (simp add: entry_result_def [of _ _ CFalse])
qed


lemma relate_exact:
  assumes D: "tree_ok D" and names: "names_ok D test" and r: "nodeType D r = 9" and fresh: "fresh_marks m n"
    and tracks: "list_all2 (tracks D test r P ((k, PText t) # ss)) es cs" and exact: "exact ((k, PText t) # ss)"
  shows "\<exists>cs' m' n'. relate D test isXML k (PText t) (cs, m, n) = Some (Inr (cs', m', n')) \<and>
    list_all2 (tracks D test r P ss) es cs' \<and> fresh_marks m' n'"
proof -
  note marks = marks_change_nothing [OF D fresh_unmarked [OF fresh], of _ isXML "hit D test (PText t)" cs]
  show ?thesis
  proof (cases k)
    case Adjacent
    with adjacent_exact [OF D names] tracks fresh show ?thesis by (fastforce simp: relate_def)
  next
    case Child
    with child_exact [OF names r] tracks fresh show ?thesis by (fastforce simp: relate_def)
  next
    case Descendant
    with marks [of "parentNode D"] later_marks [OF fresh] search_exact [OF D names r tracks exact, of "parentNode D"]
    show ?thesis by (auto simp: relate_def)
  next
    case Sibling
    with marks [of "previousSibling D"] later_marks [OF fresh] search_exact [OF D names r tracks exact, of "previousSibling D"]
    show ?thesis by (auto simp: relate_def)
  qed
qed

lemma run_steps_exact:
  assumes D: "tree_ok D" and names: "names_ok D test" and r: "nodeType D r = 9"
    and "fresh_marks m n" and "list_all2 (tracks D test r P ss) es cs" and "exact ss"
  shows "\<exists>cs' m' n'. run_steps D test isXML ss (cs, m, n) = Some (Inr (cs', m', n')) \<and> list_all2 (tracks D test r P []) es cs'"
  using assms(4-)
proof (induction ss arbitrary: cs m n)
  case (Cons s ss)
  obtain k part where s: "s = (k, part)" by (cases s)
  with Cons.prems(3) obtain t where part: "part = PText t" by (cases part) auto
  from relate_exact [OF D names r Cons.prems(1) Cons.prems(2,3) [unfolded s part], of isXML] obtain cs' m' n' where
    step: "relate D test isXML k (PText t) (cs, m, n) = Some (Inr (cs', m', n'))" "list_all2 (tracks D test r P ss) es cs'" "fresh_marks m' n'"
    by blast
  have "exact ss" using Cons.prems(3) unfolding s part by simp
  from Cons.IH [OF step(3,2) this] step(1) show ?case by (simp add: s part)
qed auto

lemma collect_exact:
  assumes "list_all2 (tracks D test r P []) es cs" and "nodeType D ctx \<noteq> 1"
  shows "collect D contains ctx es cs = filter P es"
  using assms(1)
proof (induction es cs rule: list_all2_induct)
  case (Cons e es c cs)
  then show ?case using assms(2) by (auto simp: tracks_def inside_def is_elem_def)
qed simp



section \<open>Where matches are missed\<close>

text \<open>
  A document 0 with nested elements: \<open>div\<close> 1, \<open>p\<close> 2, \<open>section\<close> 3, \<open>p\<close> 4 and \<open>span\<close> 5. The span matches
  \<open>div > p span\<close> because of the outer \<open>p\<close>; the search keeps the inner one, whose parent is no \<open>div\<close>.
\<close>

definition nested :: document where
  "nested = \<lparr>
     childNodes = (\<lambda>n. if n < 5 then [Suc n] else []),
     parentNode = (\<lambda>n. if n = 0 \<or> 5 < n then None else Some (n - 1)),
     nodeType = (\<lambda>n. if n = 0 then 9 else 1),
     nodeName = (\<lambda>n. if n = 0 then ''#document'' else if n = 1 then ''DIV'' else if n = 2 \<or> n = 4 then ''P''
       else if n = 3 then ''SECTION'' else ''SPAN'')\<rparr>"

declare search.simps [code]
declare prev_element.simps [code]

lemma descendant_then_child_misses:
  "map_option (map_sum id fst) (select_up nested (\<lambda>_ _. False) (\<lambda>_ _. True) False 0 [''div'', ''>'', ''p''] [5] (\<lambda>_. None, 0)) =
     Some (Inr []) \<and>
   css nested (\<lambda>_ _. False) (steps_of 0 (rev [''div'', ''>'', ''p''])) 5"
proof
  show "map_option (map_sum id fst) (select_up nested (\<lambda>_ _. False) (\<lambda>_ _. True) False 0 [''div'', ''>'', ''p''] [5]
    (\<lambda>_. None, 0)) = Some (Inr [])" by code_simp
  have "(2, 3) \<in> parent_rel nested" "(3, 4) \<in> parent_rel nested" "(4, 5) \<in> parent_rel nested" by (simp_all add: nested_def)
  then have "(2, 5) \<in> (parent_rel nested)\<^sup>+" by (meson trancl.simps)
  moreover have "is_tag ''p''" "is_tag ''div''" "lower ''P'' = lower ''p''" "lower ''DIV'' = lower ''div''" by code_simp+
  ultimately have "reach nested Descendant 5 2" "fits nested (\<lambda>_ _. False) (PText ''p'') 2" "reach nested Child 2 1"
    "fits nested (\<lambda>_ _. False) (PText ''div'') 1"
    by (simp_all add: nested_def is_elem_def)
  then show "css nested (\<lambda>_ _. False) (steps_of 0 (rev [''div'', ''>'', ''p''])) 5"
    by (simp add: comb_of_def css_Cons del: reach.simps fits.simps) blast
qed

text \<open>
  \<open>>\<close> reads the name of the parent without asking for one: an element outside any other raises a
  \<open>TypeError\<close> when the parent is asked for by name. With any other part its entry becomes \<open>null\<close>, at which
  the loops end, so that all elements after it are lost.
\<close>

lemma child_of_detached_raises:
  assumes "parentNode D e = None" and "is_tag t"
  shows "select_up D test contains isXML ctx [t, ''>''] (e # es) mn = Some (Inl TypeError)"
  using assms by (cases mn) (simp add: select_up_def comb_of_def relate_def rel_child_def)

lemma child_of_detached_ends_loop:
  assumes "parentNode D e = None" and "\<not> is_tag t" and "\<forall>x\<in>set es. parentNode D x \<noteq> None"
  shows "select_up D test contains isXML ctx [t, ''>''] (e # es) mn = Some (Inr ([], mn))"
proof -
  have "\<exists>cs. all_throws (map (child_entry D (PText t)) (map CNode es)) = Inr cs"
    using assms(3) by (induction es) (auto simp: bindE_eq_Inr)
  with assms(1,2) show ?thesis by (cases mn) (auto simp: select_up_def comb_of_def relate_def rel_child_def)
qed

text \<open>\<open>ul b\<close> and \<open>ul > li\<close> in the sample.\<close>

lemma sample_names: "names_ok sample (\<lambda>_ _. False)"
  by (auto simp: names_ok_def sample_def is_elem_def is_tag_def lower_def to_lower_def is_upper_def is_word_def is_digit_def)

theorem marks_change_nothing_witness:
  "\<exists>m'. search_entries sample (parentNode sample) False (hit sample (\<lambda>_ _. False) (PText ''ul'')) 0 []
      [CNode 6, CNode 7] (\<lambda>_. None) =
    Some (map (entry_result (hit sample (\<lambda>_ _. False) (PText ''ul'')) (parentNode sample)) [CNode 6, CNode 7], m') \<and>
    (\<forall>e. m' e = (\<lambda>_. None) e \<or> (\<exists>k. m' e = Some (0, k)))"
  by (rule marks_change_nothing [OF sample_ok]) (simp_all add: marked_def)



end
