(* ===== verification/JQ_Sizzle_Tests.thy ===== *)
theory JQ_Sizzle_Tests
  imports JQ_Tree "HOL-Library.Signed_Division" "HOL-Library.Sublist"
begin

text \<open>
  \<open>jquery-1.7.2.js\<close>, lines 4491 to 4533, 4654 to 4685, 4714 to 4778, 4793 to 4836: the tests of the
  selector engine for positions among siblings, which number the children of a node once and keep the
  numbers, for positions in the set, and for the values of attributes.
\<close>

section \<open>The formula of \<open>:nth-child\<close>\<close>

text \<open>\<open>match[2].replace(/^\+|\s*/g, '')\<close>\<close>

definition strip_formula :: "string \<Rightarrow> string" where
  "strip_formula t =
     filter (\<lambda>c. \<not> is_ws c) (case t of [] \<Rightarrow> [] | c # u \<Rightarrow> if c = CHR ''+'' then u else t)"

text \<open>\<open>u - 0\<close> for a text of digits with a sign; \<open>None\<close> is \<open>NaN\<close>.\<close>

definition number_of :: "string \<Rightarrow> int option" where
  "number_of u =
     (case u of
        [] \<Rightarrow> Some 0
      | c # ds \<Rightarrow>
          if c = CHR ''-'' \<or> c = CHR ''+''
          then if ds = [] then None
               else Some (if c = CHR ''-'' then - int (read_dec 0 ds) else int (read_dec 0 ds))
          else Some (int (read_dec 0 u)))"

definition expand_formula :: "string \<Rightarrow> string" where
  "expand_formula t =
     (if t = ''even'' then ''2n'' else if t = ''odd'' then ''2n+1''
      else if list_all is_digit t then ''0n+'' @ t else t)"

definition take_sign :: "string \<Rightarrow> string \<Rightarrow> string \<times> string" where
  "take_sign signs t = (case t of c # u \<Rightarrow> if c \<in> set signs then ([c], u) else ([], t) | [] \<Rightarrow> ([], []))"

definition take_digits :: "string \<Rightarrow> string \<times> string" where
  "take_digits t = (takeWhile is_digit t, dropWhile is_digit t)"

text \<open>The two numbers of \<open>an+b\<close>; the second is \<open>NaN\<close> when there is no \<open>n\<close>.\<close>

definition parse_nth :: "string \<Rightarrow> int \<times> int option" where
  "parse_nth text =
     (let
        (sign, t) = take_sign ''-'' (expand_formula (strip_formula text));
        (digits, t) = take_digits t;
        first = the (number_of (sign @ (if digits = [] then ''1'' else digits)))
      in case t of
           [] \<Rightarrow> (first, None)
         | c # u \<Rightarrow>
             if c = CHR ''n''
             then let (sign', u) = take_sign ''+-'' u; (digits', u) = take_digits u
               in (first, number_of (sign' @ digits'))
             else (first, None))"

section \<open>\<open>CHILD\<close>\<close>

text \<open>
  The numbers kept on the nodes: \<open>mark\<close> is the property \<open>expando\<close> of a parent, the name of the test that
  numbered its children last, and \<open>nodeIndex\<close> the number of a node.
\<close>

record numbering =
  mark :: "nat \<Rightarrow> nat option"
  nodeIndex :: "nat \<Rightarrow> nat option"

partial_function (option) count_children ::
  "document \<Rightarrow> nat option \<Rightarrow> nat \<Rightarrow> (nat \<Rightarrow> nat option) \<Rightarrow> (nat \<Rightarrow> nat option) option" where
  "count_children D cur count index =
     (case cur of
        None \<Rightarrow> Some index
      | Some c \<Rightarrow>
          if nodeType D c = 1 then count_children D (nextSibling D c) (Suc count) (index(c \<mapsto> Suc count))
          else count_children D (nextSibling D c) count index)"

definition number_children :: "document \<Rightarrow> nat \<Rightarrow> nat \<Rightarrow> numbering \<Rightarrow> numbering option" where
  "number_children D name e st =
     (case parentNode D e of
        None \<Rightarrow> Some st
      | Some p \<Rightarrow>
          if mark st p \<noteq> Some name \<or> nodeIndex st e = None
          then map_option (\<lambda>index. \<lparr>mark = (mark st)(p \<mapsto> name), nodeIndex = index\<rparr>)
                 (count_children D (firstChild D p) 0 (nodeIndex st))
          else Some st)"

definition child_nth :: "document \<Rightarrow> int \<Rightarrow> int option \<Rightarrow> nat \<Rightarrow> nat \<Rightarrow> numbering \<Rightarrow> (bool \<times> numbering) option" where
  "child_nth D first offset name e st =
     (if first = 1 \<and> offset = Some 0 then Some (True, st)
      else map_option (\<lambda>st.
        (case (nodeIndex st e, offset) of
           (Some i, Some b) \<Rightarrow>
             (let diff = int i - b
              in if first = 0 then diff = 0 else diff smod first = 0 \<and> 0 \<le> diff sdiv first)
         | _ \<Rightarrow> False, st)) (number_children D name e st))"

text \<open>The loops for \<open>first\<close>, \<open>last\<close> and \<open>only\<close>.\<close>

partial_function (option) element_beyond :: "document \<Rightarrow> (nat \<Rightarrow> nat option) \<Rightarrow> nat option \<Rightarrow> bool option" where
  "element_beyond D step cur =
     (case cur of
        None \<Rightarrow> Some False
      | Some c \<Rightarrow> if nodeType D c = 1 then Some True else element_beyond D step (step c))"

definition child_last :: "document \<Rightarrow> nat \<Rightarrow> bool option" where
  "child_last D e = map_option Not (element_beyond D (nextSibling D) (nextSibling D e))"

definition child_first :: "document \<Rightarrow> nat \<Rightarrow> bool option" where
  "child_first D e = map_option Not (element_beyond D (previousSibling D) (previousSibling D e))"

definition child_only :: "document \<Rightarrow> nat \<Rightarrow> bool option" where
  "child_only D e = Option.bind (child_first D e) (\<lambda>b. if b then child_last D e else Some False)"

section \<open>\<open>POS\<close>\<close>

text \<open>\<open>arg\<close> is \<open>match[3] - 0\<close>, \<open>NaN\<close> when there are no parentheses.\<close>

definition set_filter :: "string \<Rightarrow> nat \<Rightarrow> int option \<Rightarrow> nat \<Rightarrow> bool option" where
  "set_filter name i arg len =
     (let compare = (\<lambda>f. case arg of None \<Rightarrow> False | Some n \<Rightarrow> f (int i) n)
      in map_of
           [(''first'', i = 0), (''last'', int i = int len - 1), (''even'', i mod 2 = 0), (''odd'', i mod 2 = 1),
            (''lt'', compare (<)), (''gt'', compare (>)), (''nth'', compare (=)), (''eq'', compare (=))] name)"

section \<open>\<open>ATTR\<close>\<close>

text \<open>\<open>s.indexOf(p) >= 0\<close>\<close>

fun occurs :: "string \<Rightarrow> string \<Rightarrow> bool" where
  "occurs p s = (take (length p) s = p \<or> (case s of [] \<Rightarrow> False | _ # t \<Rightarrow> occurs p t))"

declare occurs.simps [simp del]

definition attr_check :: "string option \<Rightarrow> string \<Rightarrow> string" where
  "attr_check type t =
     (let t = filter (\<lambda>c. c \<noteq> CHR 0x5C) t in if type = Some ''~='' then '' '' @ t @ '' '' else t)"

text \<open>
  \<open>value\<close> is what \<open>jQuery.attr\<close> returns and \<open>type\<close> the operator, if there is one.
\<close>

definition attr_matches :: "'f env \<Rightarrow> 'f jsv \<Rightarrow> string option \<Rightarrow> string \<Rightarrow> bool" where
  "attr_matches E result type check =
     (let v = to_str E result; n = length check
      in if is_nullish result then type = Some ''!=''
         else case type of
           None \<Rightarrow> True
         | Some op \<Rightarrow>
             if op = ''='' then v = check
             else if op = ''*='' then occurs check v
             else if op = ''~='' then occurs check ('' '' @ v @ '' '')
             else if check = [] then v \<noteq> [] \<and> result \<noteq> Bool False
             else if op = ''!='' then v \<noteq> check
             else if op = ''^='' then take n v = check
             else if op = ''$='' then n \<le> length v \<and> drop (length v - n) v = check
             else if op = ''|='' then v = check \<or> take (n + 1) v = check @ ''-''
             else False)"


section \<open>The formula is read back\<close>

definition show_nth :: "int \<Rightarrow> int \<Rightarrow> string" where
  "show_nth a b = dec_int a @ ''n'' @ (if b < 0 then [] else ''+'') @ dec_int b"

lemma digit_not: "is_digit c \<Longrightarrow> c \<noteq> CHR ''-'' \<and> c \<noteq> CHR ''+'' \<and> c \<noteq> CHR ''n'' \<and> \<not> is_ws c"
  by (auto simp: is_digit_def is_ws_def)

lemma dec_nat_Cons: "\<exists>c cs. dec_nat n = c # cs \<and> is_digit c \<and> list_all is_digit cs"
  using dec_nat_digits [of n] by (cases "dec_nat n") (auto simp: list_all_iff)

lemma number_of_digits: "number_of (dec_nat n) = Some (int n)" "number_of (CHR ''-'' # dec_nat n) = Some (- int n)"
  "number_of (CHR ''+'' # dec_nat n) = Some (int n)"
proof -
  obtain c cs where c: "dec_nat n = c # cs" "is_digit c" using dec_nat_Cons by blast
  have "read_dec 0 (c # cs) = n" using read_dec_dec_nat [of n] unfolding c(1) .
  then show "number_of (dec_nat n) = Some (int n)" "number_of (CHR ''-'' # dec_nat n) = Some (- int n)"
    "number_of (CHR ''+'' # dec_nat n) = Some (int n)"
    using digit_not [OF c(2)] by (simp_all add: number_of_def c(1))
qed

lemma take_digits_dec: "u = [] \<or> \<not> is_digit (hd u) \<Longrightarrow> take_digits (dec_nat n @ u) = (dec_nat n, u)"
proof -
  assume "u = [] \<or> \<not> is_digit (hd u)"
  then have "takeWhile is_digit u = []" "dropWhile is_digit u = u" by (cases u; simp)+
  with dec_nat_digits [of n] show ?thesis
    by (simp add: take_digits_def takeWhile_append2 dropWhile_append2)
qed

lemma strip_dec: "filter (\<lambda>c. \<not> is_ws c) (dec_nat n) = dec_nat n"
  using dec_nat_digits [of n] digit_not by (auto simp: filter_id_conv)

lemma ws_facts: "\<not> is_ws (CHR ''-'')" "\<not> is_ws (CHR ''+'')" "\<not> is_ws (CHR ''n'')"
  "\<not> is_digit (CHR ''-'')" "\<not> is_digit (CHR ''+'')" "\<not> is_digit (CHR ''n'')"
  by (simp_all add: is_ws_def is_digit_def)

lemma strip_show: "strip_formula (show_nth a b) = show_nth a b"
proof -
  obtain c cs where c: "dec_nat (nat a) = c # cs" "is_digit c" using dec_nat_Cons by blast
  have "filter (\<lambda>c. \<not> is_ws c) (show_nth a b) = show_nth a b"
    by (simp add: show_nth_def dec_int_def strip_dec ws_facts)
  moreover have "hd (show_nth a b) \<noteq> CHR ''+''" "show_nth a b \<noteq> []"
    using c digit_not by (auto simp: show_nth_def dec_int_def)
  ultimately show ?thesis by (cases "show_nth a b") (simp_all add: strip_formula_def)
qed

lemma expand_show: "expand_formula (show_nth a b) = show_nth a b"
proof -
  have "CHR ''n'' \<in> set (show_nth a b)" by (simp add: show_nth_def)
  then have "\<not> list_all is_digit (show_nth a b)" using ws_facts(6) by (auto simp: list_all_iff)
  moreover have "show_nth a b \<noteq> ''even''" "show_nth a b \<noteq> ''odd''"
    using dec_nat_Cons [of "nat a"] by (auto simp: show_nth_def dec_int_def is_digit_def)
  ultimately show ?thesis by (simp add: expand_formula_def)
qed

text \<open>The formula \<open>an+b\<close> written with any two numbers is read as these numbers.\<close>

theorem parse_show_nth: "parse_nth (show_nth a b) = (a, Some b)"
proof -
  let ?rest = "(if b < 0 then [] else ''+'') @ dec_int b"
  obtain c cs where c: "dec_nat (nat a) = c # cs" "is_digit c" using dec_nat_Cons by blast
  have a: "take_sign ''-'' (show_nth a b) = (if a < 0 then ''-'' else [], dec_nat (nat \<bar>a\<bar>) @ CHR ''n'' # ?rest)"
    using c digit_not [OF c(2)] by (simp add: take_sign_def show_nth_def dec_int_def)
  have digits: "take_digits (dec_nat (nat \<bar>a\<bar>) @ CHR ''n'' # ?rest) = (dec_nat (nat \<bar>a\<bar>), CHR ''n'' # ?rest)"
    by (rule take_digits_dec) (simp add: ws_facts)
  have b: "take_sign ''+-'' ?rest = (if b < 0 then ''-'' else ''+'', dec_nat (nat \<bar>b\<bar>))"
    by (simp add: take_sign_def dec_int_def)
  have "take_digits (dec_nat (nat \<bar>b\<bar>)) = (dec_nat (nat \<bar>b\<bar>), [])" using take_digits_dec [of "[]"] by simp
  with a digits b show ?thesis
    by (simp add: parse_nth_def strip_show expand_show number_of_digits)
qed


section \<open>Positions among the children\<close>

definition numbers_ok :: "document \<Rightarrow> nat \<Rightarrow> numbering \<Rightarrow> bool" where
  "numbers_ok D name st \<longleftrightarrow>
     (\<forall>p. mark st p = Some name \<longrightarrow>
        (\<forall>i < length (element_kids D p). nodeIndex st (element_kids D p ! i) = Some (Suc i)))"

lemma count_children_visits:
  assumes "visits (nextSibling D) cur xs" and "distinct xs"
  shows "\<exists>index'. count_children D cur n index = Some index' \<and>
    (\<forall>i < length (filter (is_elem D) xs). index' (filter (is_elem D) xs ! i) = Some (Suc (n + i))) \<and>
    (\<forall>x. x \<notin> set (filter (is_elem D) xs) \<longrightarrow> index' x = index x)"
  using assms
proof (induction xs arbitrary: cur n index)
  case Nil
  then show ?case by (subst count_children.simps) simp
next
  case (Cons x xs)
  then have cur: "cur = Some x" "visits (nextSibling D) (nextSibling D x) xs" "distinct xs" "x \<notin> set xs" by auto
  show ?case
  proof (cases "is_elem D x")
    case True
    from Cons.IH [OF cur(2,3), of "Suc n" "index(x \<mapsto> Suc n)"] obtain index' where
      index': "count_children D (nextSibling D x) (Suc n) (index(x \<mapsto> Suc n)) = Some index'"
      "\<forall>i < length (filter (is_elem D) xs). index' (filter (is_elem D) xs ! i) = Some (Suc (Suc n + i))"
      "\<forall>y. y \<notin> set (filter (is_elem D) xs) \<longrightarrow> index' y = (index(x \<mapsto> Suc n)) y" by blast
    have "count_children D cur n index = Some index'"
      using index'(1) True cur(1) by (subst count_children.simps) (simp add: is_elem_def)
    moreover have "index' x = Some (Suc n)" using index'(3) cur(4) by simp
    then have "index' (filter (is_elem D) (x # xs) ! i) = Some (Suc (n + i))" if "i < length (filter (is_elem D) (x # xs))" for i
      using that index'(2) True by (cases i) simp_all
    moreover have "index' y = index y" if "y \<notin> set (filter (is_elem D) (x # xs))" for y
      using that index'(3) True by auto
    ultimately show ?thesis by blast
  next
    case False
    with Cons.IH [OF cur(2,3), of n index] cur(1) show ?thesis
      by (subst count_children.simps) (simp add: is_elem_def [abs_def])
  qed
qed

lemma number_children_ok:
  assumes D: "tree_ok D" and p: "parentNode D e = Some p" and e: "is_elem D e" and ok: "numbers_ok D name st"
  shows "\<exists>st' i. number_children D name e st = Some st' \<and> numbers_ok D name st' \<and> i < length (element_kids D p) \<and>
    element_kids D p ! i = e \<and> nodeIndex st' e = Some (Suc i)"
proof -
  let ?kids = "element_kids D p"
  have "e \<in> set ?kids" using p e tree_okD(1) [OF D] by (simp add: element_kids_def)
  then obtain i where i: "i < length ?kids" "?kids ! i = e" by (auto simp: in_set_conv_nth)
  show ?thesis
  proof (cases "mark st p \<noteq> Some name \<or> nodeIndex st e = None")
    case True
    from count_children_visits [OF visits_children [OF D] tree_okD(2) [OF D], of p 0 "nodeIndex st"] obtain index' where
      index': "count_children D (firstChild D p) 0 (nodeIndex st) = Some index'"
      "\<forall>i < length ?kids. index' (?kids ! i) = Some (Suc i)" "\<forall>x. x \<notin> set ?kids \<longrightarrow> index' x = nodeIndex st x"
      unfolding element_kids_def by auto
    let ?st = "\<lparr>mark = (mark st)(p \<mapsto> name), nodeIndex = index'\<rparr>"
    have "nodeIndex ?st (element_kids D q ! j) = Some (Suc j)" if "mark ?st q = Some name" "j < length (element_kids D q)" for q j
    proof (cases "q = p")
      case False
      from that(2) have "element_kids D q ! j \<in> set (childNodes D q)" using nth_mem by (fastforce simp: element_kids_def)
      with False have "element_kids D q ! j \<notin> set ?kids" by (simp add: element_kids_def tree_okD(1) [OF D])
      with index'(3) that False ok show ?thesis by (simp add: numbers_ok_def)
    qed (use index'(2) that in simp)
    then have "numbers_ok D name ?st" by (simp add: numbers_ok_def)
    with True index' i p show ?thesis by (auto simp: number_children_def)
  next
    case False
    with ok i p show ?thesis by (auto simp: number_children_def numbers_ok_def)
  qed
qed

lemma signed_multiple:
  fixes a d :: int
  assumes "a \<noteq> 0"
  shows "d smod a = 0 \<and> 0 \<le> d sdiv a \<longleftrightarrow> (\<exists>k::nat. d = a * int k)"
proof
  assume d: "d smod a = 0 \<and> 0 \<le> d sdiv a"
  then have "d = a * int (nat (d sdiv a))" using mult_sdiv_smod_eq [of a d] by simp
  then show "\<exists>k::nat. d = a * int k" by blast
next
  assume "\<exists>k::nat. d = a * int k"
  then obtain k where k: "d = a * int k" by blast
  then have "d sdiv a = int k"
    using assms by (simp add: signed_divide_int_def abs_mult sgn_mult)
  with k show "d smod a = 0 \<and> 0 \<le> d sdiv a" using mult_sdiv_smod_eq [of a d] by simp
qed

text \<open>
  C23: \<open>:nth-child(an+b)\<close> is true of an element just when its position among the elements of its parent is
  \<open>a * k + b\<close> for a natural number \<open>k\<close>, also when the children have been numbered for an earlier element;
  and the numbers stay right.
\<close>

theorem nth_child_position:
  assumes D: "tree_ok D" and p: "parentNode D e = Some p" and e: "is_elem D e" and ok: "numbers_ok D name st"
  shows "\<exists>st' i. i < length (element_kids D p) \<and> element_kids D p ! i = e \<and>
    child_nth D a (Some b) name e st = Some (\<exists>k::nat. int (Suc i) = a * int k + b, st') \<and> numbers_ok D name st'"
proof -
  from number_children_ok [OF assms] obtain st' i where st': "number_children D name e st = Some st'" "numbers_ok D name st'"
    "i < length (element_kids D p)" "element_kids D p ! i = e" "nodeIndex st' e = Some (Suc i)" by blast
  show ?thesis
  proof (cases "a = 1 \<and> b = 0")
    case True
    then have "\<exists>k::nat. int (Suc i) = a * int k + b" by (intro exI [of _ "Suc i"]) simp
    with True st'(3,4) ok show ?thesis unfolding child_nth_def by auto
  next
    case False
    have "(if a = 0 then int (Suc i) - b = 0 else (int (Suc i) - b) smod a = 0 \<and> 0 \<le> (int (Suc i) - b) sdiv a) \<longleftrightarrow>
        (\<exists>k::nat. int (Suc i) = a * int k + b)"
    proof (cases "a = 0")
      case False
      then have "(int (Suc i) - b) smod a = 0 \<and> 0 \<le> (int (Suc i) - b) sdiv a \<longleftrightarrow> (\<exists>k::nat. int (Suc i) - b = a * int k)"
        by (rule signed_multiple)
      also have "\<dots> \<longleftrightarrow> (\<exists>k::nat. int (Suc i) = a * int k + b)" by (simp add: algebra_simps)
      finally show ?thesis using False by simp
    qed auto
    with False st' show ?thesis by (auto simp: child_nth_def Let_def)
  qed
qed


lemma element_beyond: "visits step cur xs \<Longrightarrow> element_beyond D step cur = Some (\<exists>x\<in>set xs. is_elem D x)"
  by (induction xs arbitrary: cur) (subst element_beyond.simps, auto simp: is_elem_def)+

lemma child_ends:
  assumes "tree_ok D"
  shows "child_first D e = Some (\<forall>x\<in>set (preceding D e). \<not> is_elem D x)"
    and "child_last D e = Some (\<forall>x\<in>set (following D e). \<not> is_elem D x)"
    and "child_only D e = Some (\<forall>x\<in>set (preceding D e) \<union> set (following D e). \<not> is_elem D x)"
  using element_beyond [OF visits_previous [OF assms]] element_beyond [OF visits_next [OF assms]]
  by (auto simp: child_first_def child_last_def child_only_def)

section \<open>Values of attributes\<close>

lemma occurs_sublist: "occurs p s \<longleftrightarrow> sublist p s"
proof (induction s)
  case Nil
  then show ?case by (subst occurs.simps) auto
next
  case (Cons c s)
  have "take (length p) (c # s) = p \<longleftrightarrow> prefix p (c # s)"
    by (metis append_eq_conv_conj append_take_drop_id prefix_def)
  with Cons show ?case by (subst occurs.simps) (simp add: sublist_Cons_right)
qed

text \<open>A word between blanks.\<close>

lemma split_at_parts: "x \<notin> set u \<Longrightarrow> split_at x u = [u]" "x \<notin> set u \<Longrightarrow> split_at x (u @ x # r) = u # split_at x r"
  by (induction u) auto

lemma framed_start: "x \<notin> set u \<Longrightarrow> x \<notin> set w \<Longrightarrow> prefix (w @ [x]) (u @ x # r) \<longleftrightarrow> w = u"
proof (induction w arbitrary: u)
  case Nil
  then show ?case by (cases u) auto
next
  case (Cons c w)
  then show ?case by (cases u) auto
qed

lemma framed_skip: "x \<notin> set u \<Longrightarrow> sublist (x # w) (u @ x # r) \<longleftrightarrow> sublist (x # w) (x # r)"
  by (induction u) (auto simp: sublist_Cons_right)

lemma framed_part:
  assumes "x \<notin> set u" and "x \<notin> set w"
  shows "sublist (x # w @ [x]) (x # u @ x # r) \<longleftrightarrow> w = u \<or> sublist (x # w @ [x]) (x # r)"
  using framed_start [OF assms, of r] framed_skip [OF assms(1), of "w @ [x]" r]
  by (simp add: sublist_Cons_right [of _ x "u @ x # r"])

lemma framed_word:
  assumes "x \<notin> set w"
  shows "sublist (x # w @ [x]) (x # v @ [x]) \<longleftrightarrow> w \<in> set (split_at x v)"
proof (induction "length v" arbitrary: v rule: less_induct)
  case less
  show ?case
  proof (cases "x \<in> set v")
    case True
    then obtain u r where v: "v = u @ x # r" "x \<notin> set u" by (meson split_list_first)
    with framed_part [OF v(2) assms, of "r @ [x]"] less [of r] show ?thesis by (simp add: split_at_parts)
  next
    case False
    with framed_part [OF False assms, of "[]"] show ?thesis
      by (auto simp: split_at_parts dest: sublist_length_le)
  qed
qed

text \<open>
  The operators on attributes mean what the selectors of style sheets mean by them, for a text that is not
  empty; words are separated by blanks only.
\<close>

theorem attribute_operators:
  assumes v: "\<not> is_nullish result" "to_str E result = v" and c: "c \<noteq> []" "CHR 0x5C \<notin> set c" "CHR '' '' \<notin> set c"
  shows "attr_matches E result (Some op) (attr_check (Some op) c) \<longleftrightarrow>
    (op = ''='' \<and> v = c \<or> op = ''!='' \<and> v \<noteq> c \<or> op = ''*='' \<and> sublist c v \<or> op = ''^='' \<and> prefix c v \<or>
     op = ''$='' \<and> suffix c v \<or> op = ''~='' \<and> c \<in> set (split_at CHR '' '' v) \<or>
     op = ''|='' \<and> (v = c \<or> prefix (c @ ''-'') v))"
proof -
  have check: "attr_check (Some op) c = (if op = ''~='' then '' '' @ c @ '' '' else c)"
    using c(2) by (auto simp: attr_check_def filter_id_conv Let_def)
  have start: "take (length p) v = p \<longleftrightarrow> prefix p v" for p
    by (metis append_eq_conv_conj prefix_def take_is_prefix)
  have tail: "length c \<le> length v \<and> drop (length v - length c) v = c \<longleftrightarrow> suffix c v"
    by (metis suffix_length_le suffix_take suffix_drop append_eq_conv_conj suffix_def diff_diff_cancel append_take_drop_id)
  have word: "occurs ('' '' @ c @ '' '') ('' '' @ v @ '' '') \<longleftrightarrow> c \<in> set (split_at CHR '' '' v)"
    using framed_word [OF c(3)] by (simp add: occurs_sublist)
  have dash: "take (length c + 1) v = c @ ''-'' \<longleftrightarrow> prefix (c @ ''-'') v" using start [of "c @ ''-''"] by simp
  show ?thesis
    using v c(1) start tail dash word unfolding check
    by (auto simp: attr_matches_def Let_def occurs_sublist)
qed


text \<open>
  With an empty text every operator but \<open>=\<close>, \<open>*=\<close> and \<open>~=\<close> only asks for a value that is not empty, \<open>!=\<close> and
  operators the engine does not know included.
\<close>

lemma empty_text_matches:
  assumes "\<not> is_nullish result" and "result \<noteq> Bool False" and "op \<notin> {''='', ''*='', ''~=''}"
  shows "attr_matches E result (Some op) (attr_check (Some op) []) \<longleftrightarrow> to_str E result \<noteq> []"
  using assms by (simp add: attr_matches_def attr_check_def Let_def)

text \<open>The second item of the sample under \<open>2n\<close>, and a language attribute.\<close>

theorem nth_child_position_witness:
  "\<exists>st' i. i < length (element_kids sample 2) \<and> element_kids sample 2 ! i = 5 \<and>
    child_nth sample 2 (Some 0) 7 5 \<lparr>mark = (\<lambda>_. None), nodeIndex = (\<lambda>_. None)\<rparr> =
      Some (\<exists>k::nat. int (Suc i) = 2 * int k + 0, st') \<and> numbers_ok sample 7 st'"
  by (rule nth_child_position [OF sample_ok sample_parents(6)]) (simp_all add: is_elem_def sample_def numbers_ok_def)

definition silent_env :: "nat env" where
  "silent_env = \<lparr>inherited = (\<lambda>_ _. None), call0 = (\<lambda>_ v. v), obj_str = (\<lambda>_. [])\<rparr>"

theorem attribute_operators_witness:
  "attr_matches silent_env (Str ''en-GB'') (Some ''|='') (attr_check (Some ''|='') ''en'') \<longleftrightarrow>
    (''|='' = ''='' \<and> ''en-GB'' = ''en'' \<or> ''|='' = ''!='' \<and> ''en-GB'' \<noteq> ''en'' \<or> ''|='' = ''*='' \<and> sublist ''en'' ''en-GB'' \<or>
     ''|='' = ''^='' \<and> prefix ''en'' ''en-GB'' \<or> ''|='' = ''$='' \<and> suffix ''en'' ''en-GB'' \<or>
     ''|='' = ''~='' \<and> ''en'' \<in> set (split_at CHR '' '' ''en-GB'') \<or> ''|='' = ''|='' \<and> (''en-GB'' = ''en'' \<or> prefix (''en'' @ ''-'') ''en-GB''))"
  by (rule attribute_operators) simp_all

end
