(* ===== verification/JQ_Param.thy ===== *)
theory JQ_Param
  imports JQ_Val
begin

text \<open>
  \<open>jquery-1.7.2.js\<close>, lines 7202 to 7225 and 7734 to 7799: \<open>jQuery.param\<close> with \<open>buildParams\<close>, and the
  methods \<open>serialize\<close> and \<open>serializeArray\<close> of forms. The reader of the produced text, \<open>parse_query\<close>,
  is the form-urlencoded parser a server applies.
\<close>

section \<open>\<open>encodeURIComponent\<close>\<close>

definition unreserved :: "char \<Rightarrow> bool" where
  "unreserved c \<longleftrightarrow> (is_word c \<or> c \<in> set ''-.!~*()'' \<or> c = CHR 0x27)"

definition hex_digit :: "nat \<Rightarrow> char" where
  "hex_digit d = char_of (if d < 10 then 48 + d else 55 + d)"

definition escape_byte :: "nat \<Rightarrow> string" where
  "escape_byte b = [CHR ''%'', hex_digit (b div 16), hex_digit (b mod 16)]"

text \<open>The bytes of UTF-8 for a code unit below 256.\<close>

definition utf8 :: "char \<Rightarrow> nat list" where
  "utf8 c = (let n = of_char c in if n < 128 then [n] else [192 + n div 64, 128 + n mod 64])"

definition encode_char :: "char \<Rightarrow> string" where
  "encode_char c = (if unreserved c then [c] else concat (map escape_byte (utf8 c)))"

definition encodeURIComponent :: "string \<Rightarrow> string" where
  "encodeURIComponent s = concat (map encode_char s)"

section \<open>\<open>param\<close>\<close>

text \<open>\<open>add\<close>: the text pushed for a key and a value; a function as value is called.\<close>

definition param_value :: "'f env \<Rightarrow> 'f jsv \<Rightarrow> string" where
  "param_value E v = to_str E (case v of Fn f \<Rightarrow> call0 E f Undef | _ \<Rightarrow> v)"

definition add :: "'f env \<Rightarrow> string \<Rightarrow> 'f jsv \<Rightarrow> string" where
  "add E key v = encodeURIComponent key @ ''='' @ encodeURIComponent (param_value E v)"

text \<open>\<open>rbracket\<close>\<close>

definition ends_in_brackets :: "string \<Rightarrow> bool" where
  "ends_in_brackets s \<longleftrightarrow> 2 \<le> length s \<and> drop (length s - 2) s = ''[]''"

text \<open>\<open>buildParams\<close>: the calls of \<open>add\<close> it makes, in order.\<close>

fun buildParams :: "bool \<Rightarrow> string \<Rightarrow> 'f jsv \<Rightarrow> (string \<times> 'f jsv) list"
  and array_params :: "bool \<Rightarrow> string \<Rightarrow> nat \<Rightarrow> 'f jsv list \<Rightarrow> (string \<times> 'f jsv) list"
  and object_params :: "string \<Rightarrow> (string \<times> 'f jsv) list \<Rightarrow> (string \<times> 'f jsv) list" where
  "buildParams traditional prefix (Arr vs) = array_params traditional prefix 0 vs"
| "buildParams traditional prefix (Obj ps) =
     (if traditional then [(prefix, Obj ps)] else object_params prefix ps)"
| "buildParams traditional prefix v = [(prefix, v)]"
| "array_params traditional prefix i [] = []"
| "array_params traditional prefix i (v # vs) =
     (if traditional \<or> ends_in_brackets prefix then [(prefix, v)]
      else buildParams traditional
        (prefix @ ''['' @ (if typeof v = TObject then dec_nat i else []) @ '']'') v) @
     array_params traditional prefix (Suc i) vs"
| "object_params prefix [] = []"
| "object_params prefix ((name, v) # ps) =
     buildParams False (prefix @ ''['' @ name @ '']'') v @ object_params prefix ps"

text \<open>\<open>s.join("&").replace(r20, "+")\<close>\<close>

fun plus_blanks :: "string \<Rightarrow> string" where
  "plus_blanks (a # b # c # s) =
     (if [a, b, c] = ''%20'' then CHR ''+'' # plus_blanks s else a # plus_blanks (b # c # s))"
| "plus_blanks s = s"

definition serialization :: "'f env \<Rightarrow> (string \<times> 'f jsv) list \<Rightarrow> string" where
  "serialization E kvs = plus_blanks (join ''&'' (map (\<lambda>(k, v). add E k v) kvs))"

text \<open>
  The entries of a form: \<open>this\<close> is the element, or the window in its place for \<open>undefined\<close> and
  \<open>null\<close>.
\<close>

definition form_entry :: "'f env \<Rightarrow> 'f jsv \<Rightarrow> 'f jsv \<Rightarrow> (string \<times> 'f jsv) throws" where
  "form_entry E win v =
     (let this = if is_nullish v then win else v
      in bindE (get_prop E this ''name'') (\<lambda>k.
           bindE (get_prop E this ''value'') (\<lambda>x. Inr (to_str E k, x))))"

fun form_entries :: "'f env \<Rightarrow> 'f jsv \<Rightarrow> 'f jsv list \<Rightarrow> (string \<times> 'f jsv) list throws" where
  "form_entries E win [] = Inr []"
| "form_entries E win (v # vs) =
     bindE (form_entry E win v) (\<lambda>e. bindE (form_entries E win vs) (\<lambda>es. Inr (e # es)))"

text \<open>The properties \<open>for in\<close> visits.\<close>

fun visited :: "'f jsv \<Rightarrow> (string \<times> 'f jsv) list" where
  "visited (Obj ps) = ps"
| "visited (Str s) = map (\<lambda>i. (dec_nat i, Str [s ! i])) [0..<length s]"
| "visited _ = []"

definition param_calls ::
  "'f env \<Rightarrow> 'f jsv \<Rightarrow> bool \<Rightarrow> 'f jsv \<Rightarrow> bool option \<Rightarrow> (string \<times> 'f jsv) list throws" where
  "param_calls E win settings a traditional =
     (let old = (case traditional of None \<Rightarrow> settings | Some t \<Rightarrow> t)
      in case a of
           Arr vs \<Rightarrow> form_entries E win vs
         | _ \<Rightarrow> if is_nullish a then Inl TypeError
                else Inr (concat (map (\<lambda>(prefix, v). buildParams old prefix v) (visited a))))"

definition param ::
  "'f env \<Rightarrow> 'f jsv \<Rightarrow> bool \<Rightarrow> 'f jsv \<Rightarrow> bool option \<Rightarrow> string throws" where
  "param E win settings a traditional =
     bindE (param_calls E win settings a traditional) (\<lambda>kvs. Inr (serialization E kvs))"

section \<open>\<open>serializeArray\<close>\<close>

record 'f form_el =
  e_name :: string
  e_disabled :: bool
  e_checked :: bool
  e_node :: string
  e_type :: string
  e_control :: "'f control"

datatype 'f form_node = Form "'f form_el list" | Alone "'f form_el"

fun form_controls :: "'f form_node \<Rightarrow> 'f form_el list" where
  "form_controls (Form es) = es"
| "form_controls (Alone e) = [e]"

definition input_types :: "string list" where
  "input_types = [''color'', ''date'', ''datetime'', ''datetime-local'', ''email'', ''hidden'',
     ''month'', ''number'', ''password'', ''range'', ''search'', ''tel'', ''text'', ''time'', ''url'', ''week'']"

definition starts_with :: "string \<Rightarrow> string \<Rightarrow> bool" where
  "starts_with p s \<longleftrightarrow> take (length p) s = p"

definition successful :: "'f form_el \<Rightarrow> bool" where
  "successful e \<longleftrightarrow> e_name e \<noteq> [] \<and> \<not> e_disabled e \<and>
     (e_checked e \<or> starts_with ''select'' (lower (e_node e)) \<or>
      starts_with ''textarea'' (lower (e_node e)) \<or> lower (e_type e) \<in> set input_types)"

text \<open>\<open>val.replace(rCRLF, "\r\n")\<close>\<close>

fun crlf :: "string \<Rightarrow> string" where
  "crlf [] = []"
| "crlf (c # s) =
     (if c = CHR 0x0A then CHR 0x0D # CHR 0x0A # crlf s
      else if c = CHR 0x0D \<and> s \<noteq> [] \<and> hd s = CHR 0x0A then CHR 0x0D # CHR 0x0A # crlf (tl s)
      else c # crlf s)"

fun text_entry :: "string \<Rightarrow> 'f jsv \<Rightarrow> (string \<times> string) throws" where
  "text_entry name (Str s) = Inr (name, crlf s)"
| "text_entry name _ = Inl TypeError"

fun text_entries :: "string \<Rightarrow> 'f jsv list \<Rightarrow> (string \<times> string) list throws" where
  "text_entries name [] = Inr []"
| "text_entries name (v # vs) =
     bindE (text_entry name v) (\<lambda>e. bindE (text_entries name vs) (\<lambda>es. Inr (e # es)))"

definition control_entries :: "'f form_host \<Rightarrow> 'f form_el \<Rightarrow> (string \<times> string) list throws" where
  "control_entries H e =
     (let v = val_get H [e_control e]
      in if is_nullish v then Inr []
         else case v of
           Arr vs \<Rightarrow> text_entries (e_name e) vs
         | _ \<Rightarrow> bindE (text_entry (e_name e) v) (\<lambda>x. Inr [x]))"

fun all_entries :: "'f form_host \<Rightarrow> 'f form_el list \<Rightarrow> (string \<times> string) list throws" where
  "all_entries H [] = Inr []"
| "all_entries H (e # es) =
     bindE (control_entries H e) (\<lambda>x. bindE (all_entries H es) (\<lambda>y. Inr (x @ y)))"

definition serializeArray :: "'f form_host \<Rightarrow> 'f form_node list \<Rightarrow> (string \<times> string) list throws" where
  "serializeArray H ns = all_entries H (filter successful (concat (map form_controls ns)))"

definition entry_object :: "string \<times> string \<Rightarrow> 'f jsv" where
  "entry_object e = Obj [(''name'', Str (fst e)), (''value'', Str (snd e))]"

definition serialize ::
  "'f env \<Rightarrow> 'f jsv \<Rightarrow> bool \<Rightarrow> 'f form_host \<Rightarrow> 'f form_node list \<Rightarrow> string throws" where
  "serialize E win settings H ns =
     bindE (serializeArray H ns) (\<lambda>es. param E win settings (Arr (map entry_object es)) None)"

section \<open>The reader\<close>

definition hex_value :: "char \<Rightarrow> nat option" where
  "hex_value c =
     (let n = of_char c in
      if 48 \<le> n \<and> n \<le> 57 then Some (n - 48)
      else if 65 \<le> n \<and> n \<le> 70 then Some (n - 55)
      else if 97 \<le> n \<and> n \<le> 102 then Some (n - 87)
      else None)"

text \<open>From the text to bytes, and from bytes of UTF-8 to code units below 256.\<close>

fun percent_decode :: "string \<Rightarrow> nat list" where
  "percent_decode [] = []"
| "percent_decode (c # s) =
     (if c = CHR ''+'' then 32 # percent_decode s
      else case (c = CHR ''%'', s) of
        (True, h # l # t) \<Rightarrow>
          (case (hex_value h, hex_value l) of
             (Some a, Some b) \<Rightarrow> (16 * a + b) # percent_decode t
           | _ \<Rightarrow> of_char c # percent_decode s)
      | _ \<Rightarrow> of_char c # percent_decode s)"

fun utf8_decode :: "nat list \<Rightarrow> string" where
  "utf8_decode [] = []"
| "utf8_decode [b] = [char_of b]"
| "utf8_decode (b # c # bs) =
     (if b < 128 then char_of b # utf8_decode (c # bs)
      else char_of (64 * (b - 192) + (c - 128)) # utf8_decode bs)"

definition form_decode :: "string \<Rightarrow> string" where
  "form_decode s = utf8_decode (percent_decode s)"

definition parse_pair :: "string \<Rightarrow> string \<times> string" where
  "parse_pair s =
     (let k = takeWhile (\<lambda>c. c \<noteq> CHR ''='') s
      in (form_decode k, form_decode (drop (Suc (length k)) s)))"

definition parse_query :: "string \<Rightarrow> (string \<times> string) list" where
  "parse_query s = map parse_pair (filter (\<lambda>p. p \<noteq> []) (split_at CHR ''&'' s))"

section \<open>Reading back\<close>

definition form_char :: "char \<Rightarrow> string" where
  "form_char c = (if c = CHR '' '' then ''+'' else encode_char c)"

definition form_encode :: "string \<Rightarrow> string" where
  "form_encode s = concat (map form_char s)"

lemma form_encode_simps [simp]:
  "form_encode [] = []"
  "form_encode (c # s) = form_char c @ form_encode s"
  by (simp_all add: form_encode_def)

lemma hex_digit_less: "d < 16 \<Longrightarrow> (of_char (hex_digit d) :: nat) = (if d < 10 then 48 + d else 55 + d)"
  by (simp add: hex_digit_def)

lemma hex_value_hex_digit [simp]: "d < 16 \<Longrightarrow> hex_value (hex_digit d) = Some d"
  by (simp add: hex_value_def hex_digit_less Let_def)

lemma hex_digit_is_word: "d < 16 \<Longrightarrow> is_word (hex_digit d)"
  by (simp add: is_word_def is_digit_def hex_digit_less Let_def)

lemma not_word_chars [simp]: "\<not> is_word CHR ''%''" "\<not> is_word CHR ''&''" "\<not> is_word CHR ''=''"
  "\<not> is_word CHR ''+''" "\<not> is_word CHR '' ''"
  by (simp_all add: is_word_def is_digit_def)

lemma not_unreserved [simp]: "\<not> unreserved CHR ''%''" "\<not> unreserved CHR ''&''" "\<not> unreserved CHR ''=''"
  "\<not> unreserved CHR ''+''" "\<not> unreserved CHR '' ''"
  by (simp_all add: unreserved_def)

lemma hex_digit_plain:
  assumes "d < 16"
  shows "hex_digit d \<notin> {CHR ''%'', CHR ''&'', CHR ''='', CHR ''+''}"
  using hex_digit_is_word [OF assms] by auto

lemma utf8_bytes: "b \<in> set (utf8 c) \<Longrightarrow> b < 256"
  using nat_of_char_less_256 [of c] less_mult_imp_div_less [of "of_char c" 4 64]
  by (auto simp: utf8_def Let_def split: if_splits)

lemma form_char_plain: "x \<in> set (form_char c) \<Longrightarrow> x \<noteq> CHR ''&'' \<and> x \<noteq> CHR ''=''"
proof -
  assume "x \<in> set (form_char c)"
  then consider "x = CHR ''+''" | "unreserved x" | b where "b < 256" "x \<in> set (escape_byte b)"
    using utf8_bytes [of _ c] by (auto simp: form_char_def encode_char_def split: if_splits)
  then show ?thesis
  proof cases
    case (3 b)
    then have "b div 16 < 16" "b mod 16 < 16" by auto
    with 3 hex_digit_plain show ?thesis by (auto simp: escape_byte_def)
  qed auto
qed

lemma form_encode_plain: "CHR ''&'' \<notin> set (form_encode s)" "CHR ''='' \<notin> set (form_encode s)"
  using form_char_plain by (auto simp: form_encode_def)

subsection \<open>Blanks\<close>

lemma plus_blanks_skip: "c \<noteq> CHR ''%'' \<Longrightarrow> plus_blanks (c # t) = c # plus_blanks t"
  by (cases t rule: plus_blanks.cases) auto

lemma hex_digit_eq: "a < 16 \<Longrightarrow> b < 16 \<Longrightarrow> hex_digit a = hex_digit b \<longleftrightarrow> a = b"
  by (metis hex_value_hex_digit option.inject)

lemma plus_blanks_escape:
  assumes "b < 256"
  shows "plus_blanks (escape_byte b @ t) = (if b = 32 then ''+'' else escape_byte b) @ plus_blanks t"
proof -
  have d: "hex_digit 2 = CHR ''2''" "hex_digit 0 = CHR ''0''" by code_simp+
  have "b div 16 = 2 \<and> b mod 16 = 0 \<longleftrightarrow> b = 32"
    using div_mult_mod_eq [of b 16] by auto
  then have "hex_digit (b div 16) = CHR ''2'' \<and> hex_digit (b mod 16) = CHR ''0'' \<longleftrightarrow> b = 32"
    using assms hex_digit_eq [of "b div 16" 2] hex_digit_eq [of "b mod 16" 0] by (simp add: d)
  moreover have "hex_digit (b div 16) \<noteq> CHR ''%''" "hex_digit (b mod 16) \<noteq> CHR ''%''"
    using hex_digit_plain [of "b div 16"] hex_digit_plain [of "b mod 16"] assms by auto
  ultimately show ?thesis by (auto simp: escape_byte_def plus_blanks_skip)
qed

lemma char_is_blank: "of_char c = (32 :: nat) \<longleftrightarrow> c = CHR '' ''"
proof
  have b: "char_of (32 :: nat) = CHR '' ''" by code_simp
  assume "of_char c = (32 :: nat)"
  then show "c = CHR '' ''" using char_of_char [of c, where 'a = nat] b by metis
qed simp

lemma plus_blanks_char: "plus_blanks (encode_char c @ t) = form_char c @ plus_blanks t"
proof (cases "unreserved c")
  case True
  then have "c \<noteq> CHR ''%''" "c \<noteq> CHR '' ''" by auto
  with True show ?thesis by (simp add: encode_char_def form_char_def plus_blanks_skip)
next
  case False
  have b: "plus_blanks (concat (map escape_byte bs) @ t) =
      concat (map (\<lambda>b. if b = 32 then ''+'' else escape_byte b) bs) @ plus_blanks t"
    if "\<forall>b \<in> set bs. b < 256" for bs
    using that by (induction bs) (simp_all add: plus_blanks_escape)
  have n: "(of_char c :: nat) < 256" by simp
  show ?thesis
    using False n b [of "utf8 c"] utf8_bytes [of _ c]
    by (auto simp: encode_char_def form_char_def utf8_def Let_def char_is_blank)
qed

lemma plus_blanks_encode:
  "plus_blanks (encodeURIComponent s @ t) = form_encode s @ plus_blanks t"
  by (induction s) (simp_all add: encodeURIComponent_def plus_blanks_char)

lemma plus_blanks_join:
  "plus_blanks (join ''&'' (map (\<lambda>(k, v). add E k v) kvs)) =
     join ''&'' (map (\<lambda>(k, v). form_encode k @ ''='' @ form_encode (param_value E v)) kvs)"
proof (induction kvs rule: induct_list012)
  case (2 kv)
  show ?case
    using plus_blanks_encode [of _ "[]"]
    by (auto simp: add_def plus_blanks_encode plus_blanks_skip split: prod.splits)
next
  case (3 x y kvs)
  then show ?case
    by (auto simp: add_def plus_blanks_encode plus_blanks_skip split: prod.splits)
qed simp

subsection \<open>Decoding\<close>

lemma unreserved_ascii: "unreserved c \<Longrightarrow> (of_char c :: nat) < 128"
  by (auto simp: unreserved_def is_word_def is_digit_def Let_def)

lemma percent_decode_escape:
  "b < 256 \<Longrightarrow> percent_decode (escape_byte b @ t) = b # percent_decode t"
  using div_mult_mod_eq [of b 16] by (simp add: escape_byte_def mult.commute)

lemma percent_decode_char: "percent_decode (form_char c @ t) = utf8 c @ percent_decode t"
proof -
  have bs: "percent_decode (concat (map escape_byte bs) @ t) = bs @ percent_decode t"
    if "\<forall>b \<in> set bs. b < 256" for bs
    using that by (induction bs) (simp_all add: percent_decode_escape)
  consider "c = CHR '' ''" | "unreserved c" | "c \<noteq> CHR '' ''" "\<not> unreserved c" by blast
  then show ?thesis
  proof cases
    case 2
    then have "c \<noteq> CHR ''%''" "c \<noteq> CHR ''+''" "c \<noteq> CHR '' ''" by auto
    with 2 show ?thesis
      using unreserved_ascii [of c] by (simp add: form_char_def encode_char_def utf8_def)
  next
    case 3
    then show ?thesis using bs [of "utf8 c"] utf8_bytes [of _ c] by (simp add: form_char_def encode_char_def)
  qed (simp add: form_char_def utf8_def)
qed

lemma utf8_decode_char: "utf8_decode (utf8 c @ t) = c # utf8_decode t"
proof (cases "(of_char c :: nat) < 128")
  case True
  then show ?thesis by (cases t) (simp_all add: utf8_def)
next
  case False
  then show ?thesis using div_mult_mod_eq [of "of_char c" "64 :: nat"]
    by (simp add: utf8_def Let_def mult.commute)
qed

lemma form_decode_encode [simp]: "form_decode (form_encode s) = s"
  by (induction s) (simp_all add: form_decode_def percent_decode_char utf8_decode_char)

lemma split_at_append: "c \<notin> set xs \<Longrightarrow> split_at c (xs @ c # ys) = xs # split_at c ys"
  by (induction xs) auto

lemma split_at_join:
  "ps \<noteq> [] \<Longrightarrow> \<forall>p \<in> set ps. c \<notin> set p \<Longrightarrow> split_at c (join [c] ps) = ps"
  by (induction ps rule: induct_list012) (simp_all add: split_at_no_sep split_at_append)

lemma parse_pair_encode [simp]: "parse_pair (form_encode k @ CHR ''='' # form_encode v) = (k, v)"
proof -
  have "takeWhile (\<lambda>c. c \<noteq> CHR ''='') (form_encode k @ CHR ''='' # form_encode v) = form_encode k"
    using form_encode_plain(2) [of k] by (subst takeWhile_append2) auto
  then show ?thesis by (simp add: parse_pair_def)
qed

lemma parse_serialization:
  "parse_query (serialization E kvs) = map (\<lambda>(k, v). (k, param_value E v)) kvs"
proof (cases "kvs = []")
  case True
  then show ?thesis by (simp add: serialization_def parse_query_def)
next
  case False
  let ?f = "\<lambda>(k, v). form_encode k @ ''='' @ form_encode (param_value E v)"
  have "split_at CHR ''&'' (join ''&'' (map ?f kvs)) = map ?f kvs"
    using False form_encode_plain by (intro split_at_join) auto
  moreover have "filter (\<lambda>p. p \<noteq> []) (map ?f kvs) = map ?f kvs"
    by (rule filter_True) auto
  ultimately have "parse_query (serialization E kvs) = map parse_pair (map ?f kvs)"
    unfolding serialization_def plus_blanks_join parse_query_def by simp
  then show ?thesis by (simp add: case_prod_beta comp_def)
qed

lemma array_params_scalars:
  assumes "traditional \<or> (\<forall>x \<in> set vs. typeof x \<noteq> TObject)"
  shows "array_params traditional p i vs =
    map (\<lambda>x. (if traditional \<or> ends_in_brackets p then p else p @ ''[]'', x)) vs"
  using assms
proof (induction vs arbitrary: i)
  case (Cons v vs)
  moreover have "buildParams traditional k v = [(k, v)]" if "typeof v \<noteq> TObject" for k
    using that by (cases v) auto
  ultimately show ?case by auto
qed simp

text \<open>Values without nesting: no object, and no array with an object, an array or \<open>null\<close> in it.\<close>

fun flat :: "'f jsv \<Rightarrow> bool" where
  "flat (Arr vs) = list_all (\<lambda>x. typeof x \<noteq> TObject) vs"
| "flat (Obj ps) = False"
| "flat v = True"

text \<open>What a reader of the query is told of a property.\<close>

fun told :: "'f env \<Rightarrow> bool \<Rightarrow> string \<Rightarrow> 'f jsv \<Rightarrow> (string \<times> string) list" where
  "told E traditional k (Arr vs) =
     map (\<lambda>x. (if traditional \<or> ends_in_brackets k then k else k @ ''[]'', param_value E x)) vs"
| "told E traditional k v = [(k, param_value E v)]"

lemma buildParams_told:
  assumes "traditional \<or> flat v"
  shows "map (\<lambda>(k, v). (k, param_value E v)) (buildParams traditional k v) = told E traditional k v"
  using assms by (cases v) (auto simp: array_params_scalars list_all_iff)


definition plain_env :: "nat env" where
  "plain_env = \<lparr>inherited = (\<lambda>_ _. None), call0 = (\<lambda>_ _. Undef), obj_str = (\<lambda>_. ''[object Object]'')\<rparr>"


text \<open>
  The comment in \<open>buildParams\<close> says that items which are not scalar (an array or an object) get a
  numeric index. The code asks for \<open>typeof\<close>, which is \<open>"object"\<close> for \<open>null\<close> too.
\<close>

lemma null_item_is_indexed:
  "buildParams False ''a'' (Arr [Str ''x'', Null, Num n]) =
     [(''a[]'', Str ''x''), (''a[1]'', Null), (''a[]'', Num n)]"
proof -
  have d: "dec_nat (Suc 0) = ''1''" by (subst dec_nat.simps) code_simp
  show ?thesis by (simp add: ends_in_brackets_def d)
qed

section \<open>Forms\<close>

lemma hd_crlf: "crlf s \<noteq> [] \<Longrightarrow> hd (crlf s) \<noteq> CHR 0x0A"
  by (cases s) auto

lemma crlf_idem: "crlf (crlf s) = crlf s"
  by (induction s rule: crlf.induct) (auto simp: hd_crlf)

lemma form_entries_objects:
  "form_entries E win (map entry_object es) = Inr (map (\<lambda>(k, v). (k, Str v)) es)"
  by (induction es) (auto simp: form_entry_def entry_object_def split: prod.splits)

text \<open>
  What a server reads from a serialized set of forms is the list of names and values that
  \<open>serializeArray\<close> collects, in the order of the controls; serializing fails exactly when
  collecting does.
\<close>

theorem serialize_roundtrip:
  "serializeArray H ns =
     (case serialize E win settings H ns of Inl e \<Rightarrow> Inl e | Inr q \<Rightarrow> Inr (parse_query q))"
proof (cases "serializeArray H ns")
  case (Inr es)
  then have "serialize E win settings H ns = Inr (serialization E (map (\<lambda>(k, v). (k, Str v)) es))"
    by (simp add: serialize_def param_def param_calls_def form_entries_objects)
  then show ?thesis
    using Inr by (simp add: parse_serialization param_value_def case_prod_beta comp_def)
qed (simp add: serialize_def)

end
