(* ===== verification/JQ_Ajax_Types.thy ===== *)
theory JQ_Ajax_Types
  imports JS_Prelude
begin

text \<open>
  \<open>jquery-1.7.2.js\<close>, lines 7034 to 7107 and 7819 to 7966: the data types of a request. The tables of
  prefilters and transports and their inspection, the choice of a response for the expected type,
  and the conversion of the response along the chain of types. Prefilters, transport factories
  and converters are functions of the page, given by what they answer.
\<close>

section \<open>Tables of prefilters and transports\<close>

text \<open>
  A table holds a list of functions for each data type. A plain object inherits functions under
  some names; \<open>inh\<close> gives their number of parameters.
\<close>

type_synonym 'p table = "(string \<times> 'p list) list"

definition add_function ::
  "(string \<Rightarrow> nat option) \<Rightarrow> 'p \<Rightarrow> string \<Rightarrow> 'p table \<Rightarrow> 'p table throws" where
  "add_function inh f dt S =
     (let placeBefore = (dt \<noteq> [] \<and> hd dt = CHR ''+'');
          k = (if placeBefore then (if tl dt \<noteq> [] then tl dt else ''*'') else dt);
          put = (\<lambda>l. if placeBefore then f # l else l @ [f])
      in case map_of S k of
           Some l \<Rightarrow> Inr (AList.update k (put l) S)
         | None \<Rightarrow> if inh k \<noteq> None then Inl TypeError else Inr (AList.update k (put []) S))"

fun add_functions ::
  "(string \<Rightarrow> nat option) \<Rightarrow> 'p \<Rightarrow> string list \<Rightarrow> 'p table \<Rightarrow> 'p table throws" where
  "add_functions inh f [] S = Inr S"
| "add_functions inh f (dt # dts) S = bindE (add_function inh f dt S) (add_functions inh f dts)"

text \<open>The expression is optional, and \<open>func\<close> may be something else than a function.\<close>

definition addToPrefiltersOrTransports ::
  "(string \<Rightarrow> nat option) \<Rightarrow> string option \<Rightarrow> 'p option \<Rightarrow> 'p table \<Rightarrow> 'p table throws" where
  "addToPrefiltersOrTransports inh dataTypeExpression func S =
     (case func of
        None \<Rightarrow> Inr S
      | Some f \<Rightarrow>
          let e = (case dataTypeExpression of None \<Rightarrow> ''*'' | Some e \<Rightarrow> e)
          in add_functions inh f (split_ws (lower e)) S)"

section \<open>Inspection\<close>

text \<open>What a function answers: another data type, an object (a transport), or nothing.\<close>

datatype 't answer = Redirect string | Selected 't | Nothing

record 'x options =
  dataTypes :: "string list"
  others :: 'x

type_synonym ('p, 't, 'x) calls = "'p \<Rightarrow> 'x options \<Rightarrow> ('t answer \<times> 'x options) throws"

text \<open>A result is absent when the fuel has run out.\<close>

type_synonym ('t, 'x) inspection = "('t option \<times> string list \<times> 'x options) throws option"

definition and_then :: "'a throws option \<Rightarrow> ('a \<Rightarrow> 'b throws option) \<Rightarrow> 'b throws option" where
  "and_then m k = (case m of None \<Rightarrow> None | Some (Inl e) \<Rightarrow> Some (Inl e) | Some (Inr a) \<Rightarrow> k a)"

definition functions_of :: "(string \<Rightarrow> nat option) \<Rightarrow> 'p table \<Rightarrow> string \<Rightarrow> 'p list throws" where
  "functions_of inh S dt =
     (case map_of S dt of
        Some l \<Rightarrow> Inr l
      | None \<Rightarrow> (case inh dt of Some (Suc n) \<Rightarrow> Inl TypeError | _ \<Rightarrow> Inr []))"

definition seen :: "(string \<Rightarrow> nat option) \<Rightarrow> string list \<Rightarrow> string \<Rightarrow> bool" where
  "seen inh inspected k \<longleftrightarrow> k \<in> set inspected \<or> inh k \<noteq> None"

fun inspect :: "(string \<Rightarrow> nat option) \<Rightarrow> 'p table \<Rightarrow> bool \<Rightarrow> ('p, 't, 'x) calls \<Rightarrow> nat \<Rightarrow>
    string \<Rightarrow> string list \<Rightarrow> 'x options \<Rightarrow> ('t, 'x) inspection"
  and inspect_list :: "(string \<Rightarrow> nat option) \<Rightarrow> 'p table \<Rightarrow> bool \<Rightarrow> ('p, 't, 'x) calls \<Rightarrow> nat \<Rightarrow>
    'p list \<Rightarrow> 't option \<Rightarrow> string list \<Rightarrow> 'x options \<Rightarrow> ('t, 'x) inspection" where
  "inspect inh S executeOnly call 0 dt inspected opts = None"
| "inspect inh S executeOnly call (Suc n) dt inspected opts =
     and_then (Some (functions_of inh S dt)) (\<lambda>fs.
     and_then (inspect_list inh S executeOnly call n fs None (dt # inspected) opts)
       (\<lambda>(selection, inspected, opts).
          if (executeOnly \<or> selection = None) \<and> \<not> seen inh inspected ''*''
          then inspect inh S executeOnly call n ''*'' inspected opts
          else Some (Inr (selection, inspected, opts))))"
| "inspect_list inh S executeOnly call n [] selection inspected opts =
     Some (Inr (selection, inspected, opts))"
| "inspect_list inh S executeOnly call n (f # fs) selection inspected opts =
     (if executeOnly \<or> selection = None then
        and_then (Some (call f opts)) (\<lambda>(answer, opts).
          case answer of
            Redirect k \<Rightarrow>
              if \<not> executeOnly \<or> seen inh inspected k
              then inspect_list inh S executeOnly call n fs None inspected opts
              else and_then
                (inspect inh S executeOnly call n k inspected (opts\<lparr>dataTypes := k # dataTypes opts\<rparr>))
                (\<lambda>(selection, inspected, opts).
                  inspect_list inh S executeOnly call n fs selection inspected opts)
          | Selected t \<Rightarrow> inspect_list inh S executeOnly call n fs (Some t) inspected opts
          | Nothing \<Rightarrow> inspect_list inh S executeOnly call n fs None inspected opts)
      else Some (Inr (selection, inspected, opts)))"

definition inspection_fuel :: "'p table \<Rightarrow> nat" where
  "inspection_fuel S = 2 * length S + 4"

definition inspectPrefiltersOrTransports ::
  "(string \<Rightarrow> nat option) \<Rightarrow> 'p table \<Rightarrow> bool \<Rightarrow> ('p, 't, 'x) calls \<Rightarrow> 'x options \<Rightarrow>
   ('t, 'x) inspection" where
  "inspectPrefiltersOrTransports inh S executeOnly call opts =
     inspect inh S executeOnly call (inspection_fuel S)
       (case dataTypes opts of dt # _ \<Rightarrow> dt | [] \<Rightarrow> ''undefined'') [] opts"

section \<open>Choosing a response\<close>

text \<open>A converter: \<open>true\<close> for an equivalence, a function, or something false.\<close>

datatype 'c conv = CTrue | CFalse | CFun 'c

fun is_converter :: "'c conv option \<Rightarrow> bool" where
  "is_converter None = False"
| "is_converter (Some CFalse) = False"
| "is_converter (Some _) = True"

type_synonym 'c converters = "(string \<times> 'c conv) list"

fun first_content :: "(string \<times> (string \<Rightarrow> bool) option) list \<Rightarrow> string \<Rightarrow> string option" where
  "first_content [] ct = None"
| "first_content ((ty, test) # cs) ct =
     (case test of
        Some t \<Rightarrow> if t ct then Some ty else first_content cs ct
      | None \<Rightarrow> first_content cs ct)"

text \<open>The type of a response that can be converted, and the first type (ignored when it is empty).\<close>

fun search_type ::
  "'c converters \<Rightarrow> string \<Rightarrow> string list \<Rightarrow> string \<Rightarrow> string" where
  "search_type convs dt [] firstDataType = firstDataType"
| "search_type convs dt (ty # tys) firstDataType =
     (if dt = [] \<or> is_converter (map_of convs (ty @ '' '' @ dt))
      then (if ty \<noteq> [] then ty else firstDataType)
      else search_type convs dt tys (if firstDataType = [] then ty else firstDataType))"

text \<open>
  \<open>ct\<close> is \<open>s.mimeType || jqXHR.getResponseHeader("content-type")\<close>. The result is the response, the
  fields to set on the \<open>jqXHR\<close> and the data types of the request afterwards.
\<close>

definition response_types ::
  "(string \<times> (string \<Rightarrow> bool) option) list \<Rightarrow> string option \<Rightarrow> string list \<Rightarrow> string list" where
  "response_types contents ct dts =
     (let rest = dropWhile (\<lambda>t. t = ''*'') dts
      in case (if dts \<noteq> [] \<and> hd dts = ''*'' then ct else None) of
           None \<Rightarrow> rest
         | Some c \<Rightarrow>
             if c = [] then rest
             else (case first_content contents c of Some ty \<Rightarrow> ty # rest | None \<Rightarrow> rest))"

definition final_type :: "(string \<Rightarrow> bool) \<Rightarrow> 'c converters \<Rightarrow> string list \<Rightarrow> string list \<Rightarrow> string" where
  "final_type inh convs tys dts =
     (let dt = (case dts of t # _ \<Rightarrow> t | [] \<Rightarrow> ''undefined'')
      in if dt \<in> set tys \<or> inh dt then (if dts = [] then [] else dt)
         else search_type convs (if dts = [] then [] else dt) tys [])"

definition ajaxHandleResponses ::
  "(string \<Rightarrow> bool) \<Rightarrow> (string \<times> (string \<Rightarrow> bool) option) list \<Rightarrow> (string \<times> string) list \<Rightarrow>
   'c converters \<Rightarrow> string option \<Rightarrow> string list \<Rightarrow> (string \<times> 'r) list \<Rightarrow>
   'r slot \<times> (string \<times> 'r slot) list \<times> string list" where
  "ajaxHandleResponses inh contents responseFields convs ct dts responses =
     (let fields = concat (map (\<lambda>(ty, field).
            case dict_get inh (map_of responses) ty of Absent \<Rightarrow> [] | r \<Rightarrow> [(field, r)]) responseFields);
          dts = response_types contents ct dts;
          final = final_type inh convs (map fst responses) dts
      in if final = [] then (Absent, fields, dts)
         else (dict_get inh (map_of responses) final, fields,
               if dts \<noteq> [] \<and> hd dts = final then dts else final # dts))"

section \<open>Conversion\<close>

definition lower_keys :: "'c converters \<Rightarrow> 'c converters" where
  "lower_keys convs = fold (\<lambda>(k, c). AList.update (lower k) c) convs []"

text \<open>The search for two converters: the value under the key found, and the second one.\<close>

fun two_steps :: "'c converters \<Rightarrow> string \<Rightarrow> string \<Rightarrow> string list \<Rightarrow> ('c conv option \<times> 'c conv) option" where
  "two_steps convs prev current [] = None"
| "two_steps convs prev current (conv1 # ks) =
     (let tmp = split_at CHR '' '' conv1;
          middle = (case tmp of _ # m # _ \<Rightarrow> m | _ \<Rightarrow> ''undefined'')
      in if hd tmp = prev \<or> hd tmp = ''*'' then
           (case map_of convs (middle @ '' '' @ current) of
              Some c \<Rightarrow> if c \<noteq> CFalse then Some (map_of convs conv1, c)
                        else two_steps convs prev current ks
            | None \<Rightarrow> two_steps convs prev current ks)
         else two_steps convs prev current ks)"

definition call_conv :: "('c \<Rightarrow> 'v \<Rightarrow> 'v throws) \<Rightarrow> 'c conv option \<Rightarrow> 'v \<Rightarrow> 'v throws" where
  "call_conv run c v = (case c of Some (CFun f) \<Rightarrow> run f v | _ \<Rightarrow> Inl TypeError)"

definition direct :: "'c converters \<Rightarrow> string \<Rightarrow> string \<Rightarrow> 'c conv option" where
  "direct convs prev current =
     (if is_converter (map_of convs (prev @ '' '' @ current)) then map_of convs (prev @ '' '' @ current)
      else map_of convs (''* '' @ current))"

definition convert_step ::
  "('c \<Rightarrow> 'v \<Rightarrow> 'v throws) \<Rightarrow> 'c converters \<Rightarrow> string \<Rightarrow> string \<Rightarrow> 'v \<Rightarrow> 'v throws" where
  "convert_step run convs prev current v =
     (let conv = direct convs prev current
      in if is_converter conv then (if conv = Some CTrue then Inr v else call_conv run conv v)
         else case two_steps convs prev current (map fst convs) of
                None \<Rightarrow> Inl (ErrorMsg (''No conversion from '' @ prev @ '' to '' @ current))
              | Some (c1, c2) \<Rightarrow>
                  if c1 = Some CTrue then (if c2 = CTrue then Inr v else call_conv run (Some c2) v)
                  else if c2 = CTrue then call_conv run c1 v
                  else bindE (call_conv run c1 v) (call_conv run (Some c2)))"

fun convert_chain ::
  "('c \<Rightarrow> 'v \<Rightarrow> 'v throws) \<Rightarrow> 'c converters \<Rightarrow> string \<Rightarrow> string list \<Rightarrow> 'v \<Rightarrow> 'v throws" where
  "convert_chain run convs prev [] v = Inr v"
| "convert_chain run convs prev (current # dts) v =
     (if current = ''*'' then convert_chain run convs prev dts v
      else if prev \<noteq> ''*'' \<and> prev \<noteq> current
      then bindE (convert_step run convs prev current v) (convert_chain run convs current dts)
      else convert_chain run convs current dts v)"

definition ajaxConvert ::
  "('c \<Rightarrow> 'v \<Rightarrow> 'v throws) \<Rightarrow> ('v \<Rightarrow> 'v throws) option \<Rightarrow> 'c converters \<Rightarrow> string list \<Rightarrow> 'v \<Rightarrow> 'v throws" where
  "ajaxConvert run dataFilter convs dts response =
     bindE (case dataFilter of None \<Rightarrow> Inr response | Some f \<Rightarrow> f response) (\<lambda>v.
       case dts of [] \<Rightarrow> Inr v | t # ts \<Rightarrow> convert_chain run (lower_keys convs) t ts v)"

section \<open>Inspection ends\<close>

lemma and_then_simps [simp]:
  "and_then None k = None" "and_then (Some (Inl e)) k = Some (Inl e)" "and_then (Some (Inr a)) k = k a"
  by (simp_all add: and_then_def)

lemma and_then_Some_Inr: "and_then m k = Some (Inr b) \<longleftrightarrow> (\<exists>a. m = Some (Inr a) \<and> k a = Some (Inr b))"
  by (auto simp: and_then_def split: option.splits sum.splits)

lemma and_then_None: "and_then m k = None \<longleftrightarrow> m = None \<or> (\<exists>a. m = Some (Inr a) \<and> k a = None)"
  by (auto simp: and_then_def split: option.splits sum.splits)

text \<open>The types that have been inspected are only added to, and none twice.\<close>

lemma inspected_grow:
  "inspect inh S ex call n dt ins opts = Some (Inr (r, ins', opts')) \<Longrightarrow> dt \<notin> set ins \<Longrightarrow> distinct ins \<Longrightarrow>
     set (dt # ins) \<subseteq> set ins' \<and> distinct ins'"
  "inspect_list inh S ex call n fs sel ins opts = Some (Inr (r, ins', opts')) \<Longrightarrow> distinct ins \<Longrightarrow>
     set ins \<subseteq> set ins' \<and> distinct ins'"
proof (induction inh S ex call n dt ins opts and inh S ex call n fs sel ins opts
    arbitrary: r ins' opts' and r ins' opts' rule: inspect_inspect_list.induct)
  case (2 inh S ex call n dt ins opts)
  then obtain fs sel ins1 opts1 where fs: "functions_of inh S dt = Inr fs"
    and l: "inspect_list inh S ex call n fs None (dt # ins) opts = Some (Inr (sel, ins1, opts1))"
    by (auto simp: and_then_Some_Inr)
  have 1: "set (dt # ins) \<subseteq> set ins1" "distinct ins1"
    using "2.IH"(1) [OF l] "2.prems" by auto
  show ?case
  proof (cases "(ex \<or> sel = None) \<and> \<not> seen inh ins1 ''*''")
    case True
    then have "''*'' \<notin> set ins1" by (simp add: seen_def)
    moreover have "inspect inh S ex call n ''*'' ins1 opts1 = Some (Inr (r, ins', opts'))"
      using "2.prems" fs l True by simp
    ultimately have "set (''*'' # ins1) \<subseteq> set ins' \<and> distinct ins'"
      using "2.IH"(2) [OF True] 1(2) by blast
    then show ?thesis using 1(1) by auto
  next
    case False
    then show ?thesis using "2.prems" fs l 1 by auto
  qed
next
  case (4 inh S ex call n f fs sel ins opts)
  show ?case
  proof (cases "ex \<or> sel = None")
    case on: True
    obtain a opts1 where c: "call f opts = Inr (a, opts1)"
      using "4.prems"(1) on by (cases "call f opts") auto
    show ?thesis
    proof (cases "\<exists>k. a = Redirect k \<and> ex \<and> \<not> seen inh ins k")
      case True
      then obtain k where k: "a = Redirect k" "\<not> (\<not> ex \<or> seen inh ins k)" by blast
      then have "k \<notin> set ins" by (simp add: seen_def)
      moreover obtain sel2 ins2 opts2 where
        i: "inspect inh S ex call n k ins (opts1\<lparr>dataTypes := k # dataTypes opts1\<rparr>) =
              Some (Inr (sel2, ins2, opts2))"
        and l: "inspect_list inh S ex call n fs sel2 ins2 opts2 = Some (Inr (r, ins', opts'))"
        using "4.prems"(1) on c k by (auto simp: and_then_Some_Inr)
      ultimately show ?thesis
        using "4.IH"(2) [OF on k i] "4.IH"(3) [OF on k l] "4.prems"(2)
        by (simp only: list.set insert_subset) blast
    next
      case False
      then show ?thesis
        using "4.prems" "4.IH"(1) [OF on] "4.IH"(4) [OF on] "4.IH"(5) [OF on] on c
        by (auto split: answer.splits if_splits)
    qed
  qed (use "4.prems" in auto)
qed auto

definition keys_of :: "'p table \<Rightarrow> string set" where
  "keys_of S = insert ''*'' (fst ` set S)"

text \<open>A bound for the depth of the inspections that can still follow.\<close>

definition todo :: "'p table \<Rightarrow> string \<Rightarrow> string list \<Rightarrow> nat" where
  "todo S dt ins = 2 * card (keys_of S - set (dt # ins)) + (if dt \<in> keys_of S then 1 else 0)"

lemma todo_less:
  assumes "set (dt # ins) \<subseteq> set ins'" "k \<notin> set ins'" "k \<in> keys_of S \<or> dt \<in> keys_of S"
  shows "todo S k ins' < todo S dt ins"
proof -
  have fin: "finite (keys_of S)" by (simp add: keys_of_def)
  show ?thesis
  proof (cases "k \<in> keys_of S")
    case True
    then have "keys_of S - set (k # ins') \<subset> keys_of S - set (dt # ins)"
      using assms by auto
    then have "card (keys_of S - set (k # ins')) < card (keys_of S - set (dt # ins))"
      by (intro psubset_card_mono) (simp_all add: fin)
    then show ?thesis using True by (simp add: todo_def)
  next
    case False
    then have "card (keys_of S - set (k # ins')) \<le> card (keys_of S - set (dt # ins))"
      using assms by (intro card_mono) (auto simp: fin)
    then show ?thesis using False assms(3) by (simp add: todo_def)
  qed
qed

lemma functions_of_other: "functions_of inh S dt = Inr fs \<Longrightarrow> fs \<noteq> [] \<Longrightarrow> dt \<in> keys_of S"
  by (auto simp: functions_of_def keys_of_def split: option.splits nat.splits dest: map_of_SomeD
      intro: rev_image_eqI)

lemma inspect_list_ends:
  assumes sub: "\<And>k ins' opts. k \<notin> set ins' \<Longrightarrow> set ins \<subseteq> set ins' \<Longrightarrow> distinct ins' \<Longrightarrow>
      inspect inh S ex call n k ins' opts \<noteq> None"
    and "distinct ins"
  shows "inspect_list inh S ex call n fs sel ins opts \<noteq> None"
  using assms
proof (induction fs arbitrary: sel ins opts)
  case (Cons f fs)
  have rec: "inspect_list inh S ex call n fs sel' ins' opts' \<noteq> None"
    if "set ins \<subseteq> set ins'" "distinct ins'" for sel' ins' opts'
    using that Cons.prems(1) by (intro Cons.IH) auto
  have red: "and_then (inspect inh S ex call n k ins opts')
      (\<lambda>(s, i, o'). inspect_list inh S ex call n fs s i o') \<noteq> None"
    if "\<not> seen inh ins k" for k opts'
  proof -
    have "k \<notin> set ins" using that by (simp add: seen_def)
    moreover have "inspect_list inh S ex call n fs s i o' \<noteq> None"
      if "inspect inh S ex call n k ins opts' = Some (Inr (s, i, o'))" for s i o'
      using inspected_grow(1) [OF that \<open>k \<notin> set ins\<close> Cons.prems(2)] by (intro rec) auto
    ultimately show ?thesis
      using Cons.prems(1) [of k ins opts'] Cons.prems(2) by (auto simp: and_then_None)
  qed
  show ?case
    using red rec [OF subset_refl Cons.prems(2)]
    by (cases "call f opts") (auto split: answer.splits)
qed simp

lemma inspect_ends:
  assumes "dt \<notin> set ins" "distinct ins" "todo S dt ins < n"
  shows "inspect inh S ex call n dt ins opts \<noteq> None"
  using assms
proof (induction n arbitrary: dt ins opts)
  case (Suc n)
  show ?case
  proof (cases "functions_of inh S dt")
    case (Inr fs)
    have sub: "inspect inh S ex call n k ins' opts' \<noteq> None"
      if "k \<notin> set ins'" "set (dt # ins) \<subseteq> set ins'" "distinct ins'" "k \<in> keys_of S \<or> dt \<in> keys_of S"
      for k ins' opts'
      using that todo_less [of dt ins ins' k S] Suc.prems(3) by (intro Suc.IH) auto
    have l: "inspect_list inh S ex call n fs None (dt # ins) opts \<noteq> None"
    proof (cases fs)
      case (Cons f gs)
      then have "dt \<in> keys_of S" using functions_of_other [OF Inr] by simp
      then show ?thesis using Suc.prems sub by (intro inspect_list_ends) auto
    qed simp
    have star: "inspect inh S ex call n ''*'' ins' opts' \<noteq> None"
      if "inspect_list inh S ex call n fs None (dt # ins) opts = Some (Inr (r, ins', opts'))"
        "\<not> seen inh ins' ''*''" for r ins' opts'
      using that inspected_grow(2) [OF that(1)] Suc.prems
      by (intro sub) (auto simp: seen_def keys_of_def)
    show ?thesis using l star by (auto simp: Inr and_then_None)
  qed simp
qed simp

text \<open>
  C28: The inspection of prefilters and of transports always comes to an end, to whatever data types
  the functions of the page redirect it, and although each type that is reached goes on to the
  functions registered for all types.
\<close>

theorem inspection_ends:
  "inspectPrefiltersOrTransports inh S executeOnly call opts \<noteq> None"
proof -
  have c: "card (keys_of S - {dt}) \<le> Suc (length S)" for dt
  proof -
    have "card (keys_of S - {dt}) \<le> card (keys_of S)" by (rule card_Diff1_le)
    also have "\<dots> \<le> Suc (card (fst ` set S))" by (simp add: keys_of_def card_insert_if)
    also have "\<dots> \<le> Suc (length S)"
      using card_image_le [of "set S" fst] card_length [of S] by simp
    finally show ?thesis .
  qed
  have "todo S dt [] < inspection_fuel S" for dt
  proof -
    have "todo S dt [] \<le> 2 * card (keys_of S - {dt}) + 1" by (simp add: todo_def)
    then show ?thesis unfolding inspection_fuel_def using c [of dt] by linarith
  qed
  then show ?thesis
    unfolding inspectPrefiltersOrTransports_def by (intro inspect_ends) auto
qed

section \<open>The settings jQuery comes with\<close>

datatype builtin = ToString | ParseJSON | ParseXML | GlobalEval

definition default_converters :: "builtin converters" where
  "default_converters =
     [(''* text'', CFun ToString), (''text html'', CTrue), (''text json'', CFun ParseJSON),
      (''text xml'', CFun ParseXML), (''text script'', CFun GlobalEval)]"

fun contains_text :: "string \<Rightarrow> string \<Rightarrow> bool" where
  "contains_text p [] = (p = [])"
| "contains_text p (c # s) = (take (length p) (c # s) = p \<or> contains_text p s)"

definition default_contents :: "(string \<times> (string \<Rightarrow> bool) option) list" where
  "default_contents =
     [(''xml'', Some (contains_text ''xml'')), (''html'', Some (contains_text ''html'')),
      (''json'', Some (contains_text ''json'')),
      (''script'', Some (\<lambda>t. contains_text ''javascript'' t \<or> contains_text ''ecmascript'' t))]"

definition default_fields :: "(string \<times> string) list" where
  "default_fields = [(''xml'', ''responseXML''), (''text'', ''responseText'')]"

section \<open>Which chains convert\<close>

text \<open>The type in the middle, for a key of the table of converters.\<close>

definition middle_of :: "string \<Rightarrow> string" where
  "middle_of k = (case split_at CHR '' '' k of _ # m # _ \<Rightarrow> m | _ \<Rightarrow> ''undefined'')"

definition convertible :: "'c converters \<Rightarrow> string \<Rightarrow> string \<Rightarrow> bool" where
  "convertible convs a b \<longleftrightarrow> is_converter (direct convs a b) \<or>
     (\<exists>k \<in> fst ` set convs. hd (split_at CHR '' '' k) \<in> {a, ''*''} \<and>
        is_converter (map_of convs (middle_of k @ '' '' @ b)))"

lemma two_steps_None:
  "two_steps convs prev current ks = None \<longleftrightarrow>
     (\<forall>k \<in> set ks. hd (split_at CHR '' '' k) \<in> {prev, ''*''} \<longrightarrow>
        \<not> is_converter (map_of convs (middle_of k @ '' '' @ current)))"
proof (induction ks)
  case (Cons k ks)
  let ?c = "map_of convs (middle_of k @ '' '' @ current)"
  have "is_converter ?c \<longleftrightarrow> (\<exists>c. ?c = Some c \<and> c \<noteq> CFalse)"
    by (cases ?c rule: is_converter.cases) auto
  with Cons show ?case
    by (auto simp: middle_of_def [symmetric] Let_def split: option.splits)
qed simp

lemma two_steps_Some:
  "two_steps convs prev current ks = Some (c1, c2) \<Longrightarrow>
     \<exists>k \<in> set ks. \<exists>j. c1 = map_of convs k \<and> map_of convs j = Some c2 \<and> c2 \<noteq> CFalse"
proof (induction ks)
  case (Cons k ks)
  let ?c = "map_of convs (middle_of k @ '' '' @ current)"
  have "two_steps convs prev current ks = Some (c1, c2) \<or>
      c1 = map_of convs k \<and> ?c = Some c2 \<and> c2 \<noteq> CFalse"
    using Cons.prems
    by (auto simp: middle_of_def [symmetric] Let_def split: if_splits option.splits)
  then show ?case using Cons.IH by auto
qed simp

lemma map_of_value: "map_of convs k = Some c \<Longrightarrow> c \<in> snd ` set convs"
  by (metis map_of_SomeD image_eqI snd_conv)

definition total :: "('c \<Rightarrow> 'v \<Rightarrow> 'v throws) \<Rightarrow> bool" where
  "total run \<longleftrightarrow> (\<forall>c v. \<exists>w. run c v = Inr w)"

lemma call_conv_total: "total run \<Longrightarrow> c \<noteq> CFalse \<Longrightarrow> c \<noteq> CTrue \<Longrightarrow> \<exists>w. call_conv run (Some c) v = Inr w"
  by (cases c) (auto simp: call_conv_def total_def)

lemma direct_in: "direct convs a b = Some c \<Longrightarrow> c \<in> snd ` set convs"
  by (auto simp: direct_def map_of_value split: if_splits)

lemma convert_step_total_iff:
  assumes "total run" "CFalse \<notin> snd ` set convs"
  shows "(\<exists>w. convert_step run convs a b v = Inr w) \<longleftrightarrow> convertible convs a b"
proof (cases "is_converter (direct convs a b)")
  case True
  then obtain c where c: "direct convs a b = Some c" "c \<noteq> CFalse"
    by (cases "direct convs a b" rule: is_converter.cases) auto
  then show ?thesis
    using True call_conv_total [OF assms(1) c(2), of v] by (auto simp: convert_step_def convertible_def)
next
  case False
  let ?t = "two_steps convs a b (map fst convs)"
  show ?thesis
  proof (cases ?t)
    case None
    then have "\<not> convertible convs a b"
      using False two_steps_None [of convs a b "map fst convs"] unfolding convertible_def by auto
    then show ?thesis using None False by (simp add: convert_step_def)
  next
    case (Some p)
    obtain c1 c2 where p: "p = (c1, c2)" by (cases p)
    obtain c where c: "c1 = Some c" "c \<noteq> CFalse" "c2 \<noteq> CFalse"
    proof -
      obtain k j where k: "k \<in> set (map fst convs)" "c1 = map_of convs k"
        and j: "map_of convs j = Some c2" "c2 \<noteq> CFalse"
        using two_steps_Some Some p by metis
      from k obtain c where c: "map_of convs k = Some c" by (cases "map_of convs k") (auto simp: map_of_eq_None_iff)
      then have "c \<noteq> CFalse" using assms(2) map_of_value by metis
      then show ?thesis using that [of c] k(2) j(2) c by simp
    qed
    have "convertible convs a b"
      using Some two_steps_None [of convs a b "map fst convs"] by (auto simp: convertible_def)
    moreover obtain w where "c \<noteq> CTrue \<longrightarrow> call_conv run (Some c) v = Inr w"
      using call_conv_total [OF assms(1) c(2), of v] by blast
    moreover have "\<exists>x. c2 \<noteq> CTrue \<longrightarrow> call_conv run (Some c2) u = Inr x" for u
      using call_conv_total [OF assms(1) c(3), of u] by blast
    ultimately show ?thesis
      using False Some p c by (auto simp: convert_step_def)
  qed
qed

lemma convert_chain_total_iff:
  assumes "total run" "CFalse \<notin> snd ` set convs"
  shows "prev \<noteq> ''*'' \<Longrightarrow> (\<exists>w. convert_chain run convs prev dts v = Inr w) \<longleftrightarrow>
    successively (\<lambda>a b. a = b \<or> convertible convs a b) (prev # filter (\<lambda>t. t \<noteq> ''*'') dts)"
proof (induction dts arbitrary: prev v)
  case (Cons t dts)
  consider "t = ''*''" | "t \<noteq> ''*''" "t = prev" | "t \<noteq> ''*''" "t \<noteq> prev" by blast
  then show ?case
  proof cases
    case 3
    have "(\<exists>w. convert_chain run convs prev (t # dts) v = Inr w) \<longleftrightarrow>
        (\<exists>u. convert_step run convs prev t v = Inr u) \<and>
        successively (\<lambda>a b. a = b \<or> convertible convs a b) (t # filter (\<lambda>t. t \<noteq> ''*'') dts)"
      using 3 Cons by (auto simp: bindE_eq_Inr)
    then show ?thesis using 3 convert_step_total_iff [OF assms, of prev t v] by simp
  qed (use Cons in auto)
qed simp

lemma values_lower_keys: "snd ` set (lower_keys convs) \<subseteq> snd ` set convs"
proof -
  have upd: "snd ` set (AList.update k c cs) \<subseteq> insert c (snd ` set cs)" for k and c :: "'a conv" and cs
    by (induction cs) auto
  have "snd ` set (fold (\<lambda>(k, c). AList.update (lower k) c) convs acc) \<subseteq> snd ` set acc \<union> snd ` set convs" for acc
  proof (induction convs arbitrary: acc)
    case (Cons p convs)
    obtain k c where p: "p = (k, c)" by (cases p)
    then show ?case using Cons [of "AList.update (lower k) c acc"] upd [of "lower k" c acc] by auto
  qed simp
  from this [of "[]"] show ?thesis by (simp add: lower_keys_def)
qed


definition tag_run :: "builtin \<Rightarrow> string \<Rightarrow> string throws" where
  "tag_run c v = Inr ((case c of ToString \<Rightarrow> ''S'' | ParseJSON \<Rightarrow> ''J'' | ParseXML \<Rightarrow> ''X'' | GlobalEval \<Rightarrow> ''G'') @ v)"


text \<open>
  With the settings jQuery comes with, a text response is delivered as the expected type: as it
  is for \<open>html\<close>, parsed for \<open>json\<close> and \<open>xml\<close>, and evaluated for \<open>script\<close>. The type is the one that
  was asked for, or, when none was, the one that the content type names.
\<close>

theorem text_is_delivered_as:
  assumes "d \<in> {''html'', ''json'', ''xml'', ''script''}"
    and "dts = [d] \<or> (dts = [''*''] \<and> ct = Some c \<and> c \<noteq> [] \<and> first_content default_contents c = Some d)"
  shows "\<exists>dts'. ajaxHandleResponses (\<lambda>_. False) default_contents default_fields default_converters
           ct dts [(''text'', v)] = (Own v, [(''responseText'', Own v)], dts') \<and>
         ajaxConvert run None default_converters dts' v =
           (if d = ''html'' then Inr v
            else run (if d = ''json'' then ParseJSON else if d = ''xml'' then ParseXML else GlobalEval) v)"
proof -
  have "response_types default_contents ct dts = [d]"
    using assms by (auto simp: response_types_def)
  then have h: "ajaxHandleResponses (\<lambda>_. False) default_contents default_fields default_converters
      ct dts [(''text'', v)] = (Own v, [(''responseText'', Own v)], [''text'', d])"
    using assms(1)
    by (auto simp: ajaxHandleResponses_def final_type_def default_fields_def default_converters_def dict_get_def)
  have l: "lower_keys default_converters = default_converters" by code_simp
  note direct_text = convert_step_def direct_def default_converters_def call_conv_def
  have "convert_step run default_converters ''text'' ''html'' v = Inr v"
    "convert_step run default_converters ''text'' ''json'' v = run ParseJSON v"
    "convert_step run default_converters ''text'' ''xml'' v = run ParseXML v"
    "convert_step run default_converters ''text'' ''script'' v = run GlobalEval v"
    by (simp_all add: direct_text)
  moreover have "bindE m (convert_chain run default_converters d []) = m" for m
    by (cases m) simp_all
  ultimately show ?thesis using assms(1) h by (auto simp: ajaxConvert_def l)
qed

lemma text_is_delivered_as_witness:
  "\<exists>dts'. ajaxHandleResponses (\<lambda>_. False) default_contents default_fields default_converters
      (Some ''application/json'') [''*''] [(''text'', ''1'')] = (Own ''1'', [(''responseText'', Own ''1'')], dts') \<and>
    ajaxConvert tag_run None default_converters dts' ''1'' = Inr ''J1''"
proof -
  have "first_content default_contents ''application/json'' = Some ''json''" by code_simp
  then show ?thesis
    using text_is_delivered_as [where d = "''json''" and dts = "[''*'']" and ct = "Some ''application/json''"
        and c = "''application/json''" and run = tag_run and v = "''1''"]
    by (simp add: tag_run_def)
qed

end
