(* ===== verification/JQ_Ajax_Transports.thy ===== *)
theory JQ_Ajax_Transports
  imports JQ_Ajax_Types
begin

text \<open>
  \<open>jquery-1.7.2.js\<close>, lines 7237 to 7260 and 7971 to 8353: the short forms of \<open>ajax\<close>, the prefilters for
  scripts and for JSONP with the functions they install in the window, and the callback of the
  transport on \<open>XMLHttpRequest\<close>, whose object is the browser's and given by its readings.
\<close>

section \<open>Short forms\<close>

text \<open>The arguments of \<open>get\<close> and \<open>post\<close>: the data may be left out in front of the callback.\<close>

datatype ('d, 'c) argument = Missing | Data 'd | Callback 'c | TypeName string

definition shift_arguments ::
  "('d, 'c) argument \<Rightarrow> ('d, 'c) argument \<Rightarrow> ('d, 'c) argument \<Rightarrow>
   ('d, 'c) argument \<times> ('d, 'c) argument \<times> ('d, 'c) argument" where
  "shift_arguments data callback ty =
     (case data of
        Callback f \<Rightarrow> (Missing, data, if ty = Missing \<or> ty = TypeName [] then callback else ty)
      | _ \<Rightarrow> (data, callback, ty))"

section \<open>Scripts\<close>

text \<open>The settings the prefilters read and change.\<close>

record req_settings =
  r_url :: string
  r_data :: "string option"
  r_type :: string
  r_contentType :: string
  r_dataTypes :: "string list"
  r_cache :: "bool option"
  r_crossDomain :: bool
  r_global :: bool
  r_jsonp :: "string option"
  r_jsonpCallback :: "string option"

definition script_prefilter :: "req_settings \<Rightarrow> req_settings" where
  "script_prefilter s =
     (let s = (if r_cache s = None then s\<lparr>r_cache := Some False\<rparr> else s)
      in if r_crossDomain s then s\<lparr>r_type := ''GET'', r_global := False\<rparr> else s)"

section \<open>JSONP\<close>

text \<open>\<open>jsre\<close> and the replacement of its first match by the name of the callback.\<close>

fun js_match :: "string \<Rightarrow> bool" where
  "js_match (a # b # s) =
     (a = CHR ''='' \<and> b = CHR ''?'' \<and> (s = [] \<or> hd s = CHR ''&'') \<or>
      a = CHR ''?'' \<and> b = CHR ''?'' \<or> js_match (b # s))"
| "js_match s = False"

fun js_replace :: "string \<Rightarrow> string \<Rightarrow> string" where
  "js_replace cb (a # b # s) =
     (if a = CHR ''='' \<and> b = CHR ''?'' \<and> (s = [] \<or> hd s = CHR ''&'') then a # cb @ s
      else if a = CHR ''?'' \<and> b = CHR ''?'' then cb @ s
      else a # js_replace cb (b # s))"
| "js_replace cb s = s"

definition form_type :: "string \<Rightarrow> bool" where
  "form_type t \<longleftrightarrow> take 33 t = ''application/x-www-form-urlencoded''"

definition inspect_data :: "req_settings \<Rightarrow> bool" where
  "inspect_data s \<longleftrightarrow> r_data s \<noteq> None \<and> form_type (r_contentType s)"

definition is_jsonp :: "req_settings \<Rightarrow> bool" where
  "is_jsonp s \<longleftrightarrow> (r_dataTypes s \<noteq> [] \<and> hd (r_dataTypes s) = ''jsonp'') \<or>
     r_jsonp s \<noteq> None \<and> (js_match (r_url s) \<or>
       inspect_data s \<and> (case r_data s of Some d \<Rightarrow> js_match d | None \<Rightarrow> False))"

text \<open>Where the name of the callback goes: \<open>r_jsonp\<close> is \<open>None\<close> when the setting is \<open>false\<close>.\<close>

definition jsonp_address :: "string \<Rightarrow> req_settings \<Rightarrow> string \<times> string option" where
  "jsonp_address cb s =
     (case r_jsonp s of
        None \<Rightarrow> (r_url s, r_data s)
      | Some p \<Rightarrow>
          let url = js_replace cb (r_url s)
          in if r_url s \<noteq> url then (url, r_data s)
             else let data = (if inspect_data s then map_option (js_replace cb) (r_data s) else r_data s)
               in if r_data s \<noteq> data then (url, data)
                  else (url @ (if CHR ''?'' \<in> set url then ''&'' else ''?'') @ p @ ''='' @ cb, data))"

text \<open>
  What a global name of the window holds: nothing, the function a request installed, or another
  value of the page, which is a function or not.
\<close>

datatype slot_value = Unset | Installed nat | Page bool

record 'v jsonp_request =
  j_name :: string
  j_previous :: slot_value
  j_container :: "'v option"

record 'v jsonp_world =
  window :: "string \<Rightarrow> slot_value"
  jsonps :: "'v jsonp_request list"
  page_calls :: "(string \<times> 'v) list"
  jsc :: nat

definition is_function_value :: "slot_value \<Rightarrow> bool" where
  "is_function_value v = (case v of Unset \<Rightarrow> False | Installed _ \<Rightarrow> True | Page f \<Rightarrow> f)"

text \<open>The name that is generated when the settings give none.\<close>

definition jsonpCallback :: "string \<Rightarrow> 'v jsonp_world \<Rightarrow> string \<times> 'v jsonp_world" where
  "jsonpCallback expando w = (expando @ ''_'' @ dec_nat (jsc w), w\<lparr>jsc := Suc (jsc w)\<rparr>)"

definition install :: "string \<Rightarrow> 'v jsonp_world \<Rightarrow> 'v jsonp_world" where
  "install name w =
     w\<lparr>jsonps := jsonps w @ [\<lparr>j_name = name, j_previous = window w name, j_container = None\<rparr>],
       window := (window w)(name := Installed (length (jsonps w)))\<rparr>"

text \<open>The prefilter, when it applies: the settings, the type it redirects to, and the window.\<close>

definition jsonp_prefilter ::
  "string \<Rightarrow> req_settings \<Rightarrow> 'v jsonp_world \<Rightarrow> (req_settings \<times> string answer) \<times> 'v jsonp_world" where
  "jsonp_prefilter expando s w =
     (if is_jsonp s then
        let
          (cb, w) = (case r_jsonpCallback s of Some n \<Rightarrow> (n, w) | None \<Rightarrow> jsonpCallback expando w);
          (url, data) = jsonp_address cb s
        in ((s\<lparr>r_jsonpCallback := Some cb, r_url := url, r_data := data,
               r_dataTypes := ''json'' # tl (r_dataTypes s)\<rparr>, Redirect ''script''),
            install cb w)
      else ((s, Nothing), w))"

text \<open>Calling the function a global name holds, as the script of a response does.\<close>

definition call_window :: "string \<Rightarrow> 'v \<Rightarrow> 'v jsonp_world \<Rightarrow> 'v jsonp_world" where
  "call_window name v w =
     (case window w name of
        Installed i \<Rightarrow> w\<lparr>jsonps := (jsonps w)[i := (jsonps w ! i)\<lparr>j_container := Some v\<rparr>]\<rparr>
      | Page True \<Rightarrow> w\<lparr>page_calls := page_calls w @ [(name, v)]\<rparr>
      | _ \<Rightarrow> w)"

text \<open>The clean-up when the request is over.\<close>

definition clean_up :: "nat \<Rightarrow> 'v jsonp_world \<Rightarrow> 'v jsonp_world" where
  "clean_up i w =
     (let q = jsonps w ! i; w = w\<lparr>window := (window w)(j_name q := j_previous q)\<rparr>
      in case j_container q of
           Some v \<Rightarrow> if is_function_value (j_previous q) then call_window (j_name q) v w else w
         | None \<Rightarrow> w)"

text \<open>The converter from script to JSON.\<close>

definition script_json :: "nat \<Rightarrow> 'v jsonp_world \<Rightarrow> 'v throws" where
  "script_json i w =
     (let q = jsonps w ! i
      in case j_container q of
           None \<Rightarrow> Inl (ErrorMsg (j_name q @ '' was not called''))
         | Some v \<Rightarrow> Inr v)"

section \<open>The transport on \<open>XMLHttpRequest\<close>\<close>

text \<open>
  What the object says when it is read; a reading that raises an exception is \<open>None\<close>. An XML
  document counts if it has an element.
\<close>

record xhr =
  x_readyState :: nat
  x_status :: "int option"
  x_headers :: string
  x_xml :: bool
  x_text :: "string option"
  x_statusText :: "string option"

datatype response = Xml | Text string

record completion =
  c_status :: int
  c_statusText :: string
  c_responses :: "(string \<times> response) list"
  c_headers :: string

definition response_list :: "xhr \<Rightarrow> (string \<times> response) list" where
  "response_list x = (if x_xml x then [(''xml'', Xml)] else []) @
     (case x_text x of Some t \<Rightarrow> [(''text'', Text t)] | None \<Rightarrow> [])"

text \<open>A local request has no status; old Internet Explorer reports 1223 for 204.\<close>

definition filter_status :: "bool \<Rightarrow> bool \<Rightarrow> string option \<Rightarrow> int \<Rightarrow> int" where
  "filter_status isLocal crossDomain t st =
     (if st = 0 \<and> isLocal \<and> \<not> crossDomain then (case t of Some (c # cs) \<Rightarrow> 200 | _ \<Rightarrow> 404)
      else if st = 1223 then 204 else st)"

text \<open>
  The callback: whether it may still run afterwards, whether it aborts the object, and what it
  completes the request with. \<open>live\<close> says that the variable still holds the callback.
\<close>

definition xhr_callback ::
  "bool \<Rightarrow> bool \<Rightarrow> bool \<Rightarrow> bool \<Rightarrow> xhr \<Rightarrow> bool \<times> bool \<times> completion option" where
  "xhr_callback isLocal crossDomain live isAbort x =
     (if live \<and> (isAbort \<or> x_readyState x = 4) then
        if isAbort then (False, x_readyState x \<noteq> 4, None)
        else (False, False, Some (case x_status x of
          None \<Rightarrow> \<lparr>c_status = -1, c_statusText = ''exception'', c_responses = [], c_headers = []\<rparr>
        | Some st \<Rightarrow>
            \<lparr>c_status = filter_status isLocal crossDomain (x_text x) st,
             c_statusText = (case x_statusText x of Some t \<Rightarrow> t | None \<Rightarrow> []),
             c_responses = response_list x, c_headers = x_headers x\<rparr>))
      else (live, False, None))"

text \<open>All calls of the callback for one request, with what is passed on to \<open>done\<close>.\<close>

fun xhr_calls :: "bool \<Rightarrow> bool \<Rightarrow> bool \<Rightarrow> (bool \<times> xhr) list \<Rightarrow> completion list" where
  "xhr_calls isLocal crossDomain live [] = []"
| "xhr_calls isLocal crossDomain live ((isAbort, x) # cs) =
     (let (live, _, c) = xhr_callback isLocal crossDomain live isAbort x
      in (case c of Some k \<Rightarrow> [k] | None \<Rightarrow> []) @ xhr_calls isLocal crossDomain live cs)"

section \<open>Properties of the callback\<close>

lemma xhr_calls_dead: "xhr_calls l d False cs = []"
  by (induction cs) (auto simp: xhr_callback_def)

text \<open>The request is completed at most once, and never after an abort.\<close>

lemma xhr_completes_once: "length (xhr_calls l d live cs) \<le> 1"
  by (induction cs arbitrary: live) (auto simp: xhr_callback_def xhr_calls_dead split: if_splits)

lemma xhr_silent_after_abort: "xhr_calls l d live ((True, x) # cs) = []"
  by (cases live) (auto simp: xhr_callback_def xhr_calls_dead)

section \<open>Concurrent JSONP requests\<close>

text \<open>
  Requests with generated names in any order: one starts, the script of a running one calls its
  name, one is over. The second component holds the requests that are running.
\<close>

inductive jsonp_step :: "string \<Rightarrow> 'v jsonp_world \<times> nat set \<Rightarrow> 'v jsonp_world \<times> nat set \<Rightarrow> bool"
  for expando where
  start: "jsonpCallback expando w = (cb, w') \<Longrightarrow>
    jsonp_step expando (w, live) (install cb w', insert (length (jsonps w)) live)"
| response: "i \<in> live \<Longrightarrow> jsonp_step expando (w, live) (call_window (j_name (jsonps w ! i)) v w, live)"
| over: "i \<in> live \<Longrightarrow> jsonp_step expando (w, live) (clean_up i w, live - {i})"

definition jsonp_ok :: "string \<Rightarrow> 'v jsonp_world \<times> nat set \<Rightarrow> bool" where
  "jsonp_ok expando c \<longleftrightarrow> (let (w, live) = c in
     (\<forall>i < length (jsonps w). j_previous (jsonps w ! i) = Unset \<and>
        (\<exists>k < jsc w. j_name (jsonps w ! i) = expando @ ''_'' @ dec_nat k)) \<and>
     distinct (map j_name (jsonps w)) \<and>
     (\<forall>i \<in> live. i < length (jsonps w) \<and> window w (j_name (jsonps w ! i)) = Installed i) \<and>
     (\<forall>k. jsc w \<le> k \<longrightarrow> window w (expando @ ''_'' @ dec_nat k) = Unset))"

lemma call_window_own:
  assumes "window w (j_name (jsonps w ! i)) = Installed i"
  shows "call_window (j_name (jsonps w ! i)) v w =
    w\<lparr>jsonps := (jsonps w)[i := (jsonps w ! i)\<lparr>j_container := Some v\<rparr>]\<rparr>"
  using assms by (simp add: call_window_def)

lemma map_update_same: "f y = f (xs ! i) \<Longrightarrow> map f (xs[i := y]) = map f xs"
  by (cases "i < length xs") (simp_all add: map_update list_update_same_conv list_update_beyond)

lemma nth_update_field: "i < length xs \<Longrightarrow> f y = f (xs ! i) \<Longrightarrow> f (xs[i := y] ! j) = f (xs ! j)"
  by (cases "i = j") simp_all

lemma jsonp_start_ok:
  assumes ok: "jsonp_ok expando (w, live)" and cb: "jsonpCallback expando w = (cb, w')"
  shows "jsonp_ok expando (install cb w', insert (length (jsonps w)) live)"
proof -
  have c: "cb = expando @ ''_'' @ dec_nat (jsc w)" and w': "w' = w\<lparr>jsc := Suc (jsc w)\<rparr>"
    using cb by (auto simp: jsonpCallback_def)
  have names: "\<forall>i < length (jsonps w). \<exists>k < jsc w. j_name (jsonps w ! i) = expando @ ''_'' @ dec_nat k"
    and free: "window w cb = Unset"
    using ok by (auto simp: jsonp_ok_def c)
  have fresh: "\<forall>i < length (jsonps w). j_name (jsonps w ! i) \<noteq> cb"
    using names by (auto simp: c)
  then have "cb \<notin> set (map j_name (jsonps w))" by (auto simp: in_set_conv_nth)
  then show ?thesis
    using ok fresh free by (auto simp: jsonp_ok_def install_def w' nth_append less_Suc_eq c)
qed

lemma jsonp_response_ok:
  assumes ok: "jsonp_ok expando (w, live)" and i: "i \<in> live"
  shows "jsonp_ok expando (call_window (j_name (jsonps w ! i)) v w, live)"
proof -
  have w: "window w (j_name (jsonps w ! i)) = Installed i" and l: "i < length (jsonps w)"
    using ok i by (auto simp: jsonp_ok_def)
  let ?q = "(jsonps w ! i)\<lparr>j_container := Some v\<rparr>"
  have "map j_name ((jsonps w)[i := ?q]) = map j_name (jsonps w)"
    by (rule map_update_same) simp
  moreover have "j_name ((jsonps w)[i := ?q] ! j) = j_name (jsonps w ! j)"
    "j_previous ((jsonps w)[i := ?q] ! j) = j_previous (jsonps w ! j)" for j
    using l by (simp_all add: nth_update_field)
  ultimately show ?thesis
    using ok unfolding call_window_own [OF w] by (simp add: jsonp_ok_def)
qed

lemma jsonp_over_ok:
  assumes ok: "jsonp_ok expando (w, live)" and i: "i \<in> live"
  shows "jsonp_ok expando (clean_up i w, live - {i})"
proof -
  have l: "i < length (jsonps w)" and p: "j_previous (jsonps w ! i) = Unset"
    and d: "distinct (map j_name (jsonps w))"
    using ok i by (auto simp: jsonp_ok_def)
  have other: "j_name (jsonps w ! j) \<noteq> j_name (jsonps w ! i)" if "j < length (jsonps w)" "j \<noteq> i" for j
    using d that l by (simp add: distinct_conv_nth)
  have "clean_up i w = w\<lparr>window := (window w)(j_name (jsonps w ! i) := Unset)\<rparr>"
    by (simp add: clean_up_def Let_def p is_function_value_def split: option.splits)
  then show ?thesis using ok other by (auto simp: jsonp_ok_def)
qed

interpretation jsonp_run: preserved_invariant "jsonp_step expando" "jsonp_ok expando"
proof
  fix c d assume "jsonp_step expando c d" "jsonp_ok expando c"
  then show "jsonp_ok expando d"
    by (cases rule: jsonp_step.cases) (auto intro: jsonp_start_ok jsonp_response_ok jsonp_over_ok)
qed

definition jsonp_start :: "string \<Rightarrow> 'v jsonp_world \<Rightarrow> bool" where
  "jsonp_start expando w \<longleftrightarrow> jsonps w = [] \<and> (\<forall>k. window w (expando @ ''_'' @ dec_nat k) = Unset)"

text \<open>
  C29: JSONP requests with generated names do not disturb each other, in whatever order they start,
  are answered and are over: the response of a running request reaches its own converter and no
  other one.
\<close>

theorem jsonp_responses_apart:
  assumes "jsonp_start expando w0" and "(jsonp_step expando)\<^sup>*\<^sup>* (w0, {}) (w, live)" and "i \<in> live"
  shows "script_json i (call_window (j_name (jsonps w ! i)) v w) = Inr v \<and>
    (\<forall>j. j \<noteq> i \<longrightarrow> script_json j (call_window (j_name (jsonps w ! i)) v w) = script_json j w)"
proof -
  have "jsonp_ok expando (w0, {})" using assms(1) by (simp add: jsonp_ok_def jsonp_start_def)
  with assms(2) have "jsonp_ok expando (w, live)" by (rule jsonp_run.reachable)
  then have w: "window w (j_name (jsonps w ! i)) = Installed i" and l: "i < length (jsonps w)"
    using assms(3) by (auto simp: jsonp_ok_def)
  show ?thesis
    unfolding call_window_own [OF w] using l by (simp add: script_json_def)
qed

definition empty_window :: "nat jsonp_world" where
  "empty_window = \<lparr>window = (\<lambda>_. Unset), jsonps = [], page_calls = [], jsc = 7\<rparr>"

lemma jsonp_responses_apart_witness:
  "\<exists>w. (jsonp_step ''jQ'')\<^sup>*\<^sup>* (empty_window, {}) (w, {0, Suc 0}) \<and>
     script_json 1 (call_window (j_name (jsonps w ! 1)) 5 w) = Inr 5 \<and>
     script_json 0 (call_window (j_name (jsonps w ! 1)) 5 w) = Inl (ErrorMsg ''jQ_7 was not called'')"
proof -
  let ?e = empty_window
  have s: "jsonp_start ''jQ'' ?e" by (simp add: jsonp_start_def empty_window_def)
  obtain a u where a: "jsonpCallback ''jQ'' ?e = (a, u)" by fastforce
  obtain b x where b: "jsonpCallback ''jQ'' (install a u) = (b, x)" by fastforce
  have au: "a = ''jQ_'' @ dec_nat 7" "u = ?e\<lparr>jsc := 8\<rparr>"
    using a by (auto simp: jsonpCallback_def empty_window_def)
  have x: "x = (install a u)\<lparr>jsc := 9\<rparr>"
    using b by (auto simp: jsonpCallback_def install_def au)
  have seven: "dec_nat 7 = ''7''" by (subst dec_nat.simps) code_simp
  let ?w = "install b x"
  have "(jsonp_step ''jQ'')\<^sup>*\<^sup>* (?e, {}) (install a u, {0})"
    using jsonp_step.start [OF a, of "{}"] by (simp add: empty_window_def)
  moreover have "jsonp_step ''jQ'' (install a u, {0}) (?w, {0, Suc 0})"
    using jsonp_step.start [OF b, of "{0}"] by (simp add: install_def au empty_window_def insert_commute)
  ultimately have r: "(jsonp_step ''jQ'')\<^sup>*\<^sup>* (?e, {}) (?w, {0, Suc 0})"
    by (rule rtranclp.rtrancl_into_rtrancl)
  have "script_json 0 ?w = Inl (ErrorMsg ''jQ_7 was not called'')"
    by (simp add: script_json_def install_def x au empty_window_def seven)
  with r jsonp_responses_apart [OF s r, of 1 5] show ?thesis by auto
qed

text \<open>
  Two requests with one name of the page: when the first is over it takes the name away, so the
  response of the second reaches nobody.
\<close>

lemma shared_name_loses_response:
  "script_json 1 (call_window ''cb'' v (clean_up 0 (install ''cb'' (install ''cb'' empty_window)))) =
     Inl (ErrorMsg ''cb was not called'')"
  by (simp add: install_def empty_window_def clean_up_def call_window_def script_json_def Let_def)

end
