(* ===== verification/JQ_Headers.thy ===== *)
theory JQ_Headers
  imports JS_Prelude
begin

text \<open>
  \<open>jquery-1.7.2.js\<close>, lines 7402 to 7431: the headers of a \<open>jqXHR\<close>. Request headers are collected
  under the spelling a name had when it was first used; the text of the response headers is cut
  into a table the first time one is asked for.
\<close>

section \<open>Request headers\<close>

record 'v req_headers =
  requestHeadersNames :: "(string \<times> string) list"
  requestHeaders :: "(string \<times> 'v) list"

definition no_headers :: "'v req_headers" where
  "no_headers = \<lparr>requestHeadersNames = [], requestHeaders = []\<rparr>"

text \<open>\<open>requestHeadersNames[ lname ] || name\<close>: what the table inherits counts too.\<close>

definition spelling :: "'f env \<Rightarrow> (string \<times> string) list \<Rightarrow> string \<Rightarrow> string" where
  "spelling E names name =
     (case map_of names (lower name) of
        Some n \<Rightarrow> if n \<noteq> [] then n else name
      | None \<Rightarrow> let v = inherit E PObject (lower name) in if truthy v then to_str E v else name)"

definition setRequestHeader ::
  "'f env \<Rightarrow> nat \<Rightarrow> string \<Rightarrow> 'v \<Rightarrow> 'v req_headers \<Rightarrow> 'v req_headers" where
  "setRequestHeader E state name v h =
     (if state = 0 then
        let n = spelling E (requestHeadersNames h) name
        in \<lparr>requestHeadersNames = AList.update (lower name) n (requestHeadersNames h),
            requestHeaders = AList.update n v (requestHeaders h)\<rparr>
      else h)"

section \<open>Response headers\<close>

definition is_newline :: "char \<Rightarrow> bool" where
  "is_newline c \<longleftrightarrow> c = CHR 0x0A \<or> c = CHR 0x0D"

fun text_lines :: "string \<Rightarrow> string list" where
  "text_lines [] = [[]]"
| "text_lines (c # s) =
     (if is_newline c then [] # text_lines s
      else case text_lines s of [] \<Rightarrow> [[c]] | l # ls \<Rightarrow> (c # l) # ls)"

text \<open>One match of \<open>rheaders\<close>: the name up to the first colon, and the rest without leading blanks.\<close>

definition header_line :: "string \<Rightarrow> (string \<times> string) list" where
  "header_line l =
     (if CHR '':'' \<in> set l then
        [(takeWhile (\<lambda>c. c \<noteq> CHR '':'') l,
          dropWhile (\<lambda>c. c = CHR '' '' \<or> c = CHR 0x09) (tl (dropWhile (\<lambda>c. c \<noteq> CHR '':'') l)))]
      else [])"

definition rheaders_matches :: "string \<Rightarrow> (string \<times> string) list" where
  "rheaders_matches s = concat (map header_line (text_lines s))"

text \<open>The loop that fills \<open>responseHeaders\<close>: a later header replaces an earlier one.\<close>

definition header_table :: "string \<Rightarrow> string \<rightharpoonup> string" where
  "header_table s = fold (\<lambda>(k, v) t. t(lower k \<mapsto> v)) (rheaders_matches s) Map.empty"

text \<open>\<open>null\<close> is \<open>None\<close>; an inherited name finds what the table inherits.\<close>

definition getResponseHeader ::
  "(string \<Rightarrow> bool) \<Rightarrow> nat \<Rightarrow> string \<Rightarrow> string \<Rightarrow> string slot option" where
  "getResponseHeader inh state responseHeadersString key =
     (if state = 2 then
        case dict_get inh (header_table responseHeadersString) (lower key) of
          Absent \<Rightarrow> None
        | found \<Rightarrow> Some found
      else None)"

definition getAllResponseHeaders :: "nat \<Rightarrow> string \<Rightarrow> string option" where
  "getAllResponseHeaders state responseHeadersString = (if state = 2 then Some responseHeadersString else None)"

section \<open>Request headers: one per name, the last value\<close>

definition headers_ok :: "'v req_headers \<Rightarrow> bool" where
  "headers_ok h \<longleftrightarrow>
     (\<forall>l n. map_of (requestHeadersNames h) l = Some n \<longrightarrow> lower n = l) \<and>
     (\<forall>(n, v) \<in> set (requestHeaders h). map_of (requestHeadersNames h) (lower n) = Some n) \<and>
     distinct (map (lower \<circ> fst) (requestHeaders h))"

text \<open>The abstract headers: a value for each name in lower case.\<close>

definition header_map :: "'v req_headers \<Rightarrow> string \<rightharpoonup> 'v" where
  "header_map h = map_of (map (\<lambda>(n, v). (lower n, v)) (requestHeaders h))"

lemma headers_ok_empty [simp]: "headers_ok no_headers" "header_map no_headers = Map.empty"
  by (simp_all add: headers_ok_def header_map_def no_headers_def)

lemma lower_Nil [simp]: "lower s = [] \<longleftrightarrow> s = []" "lower [] = []"
  by (simp_all add: lower_def)

definition not_inherited :: "'f env \<Rightarrow> string \<Rightarrow> bool" where
  "not_inherited E name \<longleftrightarrow> \<not> truthy (inherit E PObject (lower name))"

lemma spelling_lower:
  assumes "headers_ok h" "not_inherited E name"
  shows "lower (spelling E (requestHeadersNames h) name) = lower name"
  using assms
  by (auto simp: spelling_def headers_ok_def not_inherited_def Let_def split: option.splits)

lemma lower_keys_update:
  "map_of (map (\<lambda>(n, v). (lower n, v)) (AList.update n v hs)) =
     (map_of (map (\<lambda>(n, v). (lower n, v)) hs))(lower n \<mapsto> v)"
  if "\<forall>(m, x) \<in> set hs. lower m = lower n \<longrightarrow> m = n" "distinct (map (lower \<circ> fst) hs)"
  using that
proof (induction hs)
  case (Cons p hs)
  obtain m x where p: "p = (m, x)" by (cases p)
  show ?case
  proof (cases "m = n")
    case False
    with Cons.prems p have "lower m \<noteq> lower n" by auto
    with Cons p False show ?thesis by (auto simp: fun_upd_twist)
  qed (simp add: p fun_eq_iff)
qed simp

lemma same_spelling:
  assumes "headers_ok h" "(m, x) \<in> set (requestHeaders h)" "lower m = lower name"
  shows "spelling E (requestHeadersNames h) name = m"
proof -
  have "\<forall>(n, v) \<in> set (requestHeaders h). map_of (requestHeadersNames h) (lower n) = Some n"
    using assms(1) unfolding headers_ok_def by blast
  from bspec [OF this assms(2)] have m: "map_of (requestHeadersNames h) (lower name) = Some m"
    by (simp add: assms(3))
  show ?thesis
  proof (cases "m = []")
    case True
    then have "name = []" using assms(3) by (metis lower_Nil)
    with m True show ?thesis by (simp add: spelling_def)
  qed (simp add: spelling_def m)
qed

lemma set_AList_update: "(m, x) \<in> set (AList.update k v hs) \<Longrightarrow> (m, x) = (k, v) \<or> (m, x) \<in> set hs"
  by (induction hs) (auto split: if_splits)

lemma setRequestHeader_refines:
  assumes ok: "headers_ok h" and ni: "not_inherited E name"
  shows "headers_ok (setRequestHeader E 0 name v h)"
    and "header_map (setRequestHeader E 0 name v h) = (header_map h)(lower name \<mapsto> v)"
proof -
  define n where "n = spelling E (requestHeadersNames h) name"
  let ?hs = "requestHeaders h" and ?h = "setRequestHeader E 0 name v h"
  have l: "lower n = lower name" unfolding n_def by (rule spelling_lower [OF ok ni])
  have one: "\<forall>(m, x) \<in> set ?hs. lower m = lower n \<longrightarrow> m = n"
    using same_spelling [OF ok, where E = E] l unfolding n_def by fastforce
  have names: "requestHeadersNames ?h = AList.update (lower name) n (requestHeadersNames h)"
    and hs: "requestHeaders ?h = AList.update n v ?hs"
    by (simp_all add: setRequestHeader_def Let_def n_def)
  have d: "distinct (map (lower \<circ> fst) ?hs)" using ok by (simp add: headers_ok_def)
  have "map (lower \<circ> fst) (AList.update n v ?hs) =
      map (lower \<circ> fst) ?hs @ (if n \<in> fst ` set ?hs then [] else [lower n])"
    using arg_cong [OF AList.update_keys, of "map lower" n v ?hs] by auto
  moreover have "n \<notin> fst ` set ?hs \<Longrightarrow> lower n \<notin> set (map (lower \<circ> fst) ?hs)"
    using one by force
  ultimately have d': "distinct (map (lower \<circ> fst) (AList.update n v ?hs))" using d by simp
  have "map_of (requestHeadersNames ?h) (lower m) = Some m" if "(m, x) \<in> set (requestHeaders ?h)" for m x
    using set_AList_update [OF that [unfolded hs]] ok one l
    by (auto simp: names update_conv' headers_ok_def)
  moreover have "lower m = k" if "map_of (requestHeadersNames ?h) k = Some m" for k m
    using that ok l by (auto simp: names update_conv' headers_ok_def split: if_splits)
  ultimately show "headers_ok ?h"
    using d' unfolding headers_ok_def hs by blast
  show "header_map ?h = (header_map h)(lower name \<mapsto> v)"
    unfolding header_map_def hs lower_keys_update [OF one d] l ..
qed

definition set_headers :: "'f env \<Rightarrow> (string \<times> 'v) list \<Rightarrow> 'v req_headers" where
  "set_headers E hs = fold (\<lambda>(n, v). setRequestHeader E 0 n v) hs no_headers"

text \<open>
  Request headers behave as a map on names without case: after any sequence of calls of
  \<open>setRequestHeader\<close> before the request is sent, there is at most one header for a name in any
  spelling, and its value is the one set last. Names that every object inherits, such as
  \<open>constructor\<close>, are excluded.
\<close>

theorem request_headers_last_wins:
  assumes "list_all (\<lambda>(n, v). not_inherited E n) hs"
  shows "distinct (map (lower \<circ> fst) (requestHeaders (set_headers E hs))) \<and>
    map_of (map (\<lambda>(n, v). (lower n, v)) (requestHeaders (set_headers E hs))) =
    map_of (rev (map (\<lambda>(n, v). (lower n, v)) hs))"
proof -
  have "headers_ok (set_headers E hs) \<and>
      header_map (set_headers E hs) = map_of (rev (map (\<lambda>(n, v). (lower n, v)) hs))"
    using assms
  proof (induction hs rule: rev_induct)
    case (snoc p hs)
    obtain n v where p: "p = (n, v)" by (cases p)
    then show ?case
      using snoc setRequestHeader_refines [of "set_headers E hs" E n v]
      by (simp add: set_headers_def)
  qed (simp add: set_headers_def)
  then show ?thesis by (simp add: headers_ok_def header_map_def)
qed

lemma headers_frozen: "state \<noteq> 0 \<Longrightarrow> setRequestHeader E state name v h = h"
  by (simp add: setRequestHeader_def)

definition bare_env :: "nat env" where
  "bare_env = \<lparr>inherited = (\<lambda>_ _. None), call0 = (\<lambda>_ _. Undef), obj_str = (\<lambda>_. [])\<rparr>"

lemma request_headers_last_wins_witness:
  "distinct (map (lower \<circ> fst) (requestHeaders (set_headers bare_env
     [(''Accept'', 1 :: nat), (''X-a'', 2), (''ACCEPT'', 3)]))) \<and>
   map_of (map (\<lambda>(n, v). (lower n, v)) (requestHeaders (set_headers bare_env
     [(''Accept'', 1 :: nat), (''X-a'', 2), (''ACCEPT'', 3)]))) =
   map_of (rev (map (\<lambda>(n, v). (lower n, v)) [(''Accept'', 1), (''X-a'', 2), (''ACCEPT'', 3)]))"
  by (rule request_headers_last_wins) (simp add: not_inherited_def inherit_def bare_env_def)

text \<open>The spelling of the first call is the one that is sent.\<close>

lemma first_spelling_is_sent:
  "requestHeaders (set_headers bare_env [(''Accept'', 1 :: nat), (''ACCEPT'', 3)]) = [(''Accept'', 3)]"
  by code_simp

section \<open>Response headers: what was sent is read\<close>

definition header_text :: "(string \<times> string) list \<Rightarrow> string" where
  "header_text hs = concat (map (\<lambda>(n, v). n @ '': '' @ v @ [CHR 0x0D, CHR 0x0A]) hs)"

definition plain_header :: "string \<times> string \<Rightarrow> bool" where
  "plain_header h \<longleftrightarrow>
     list_all (\<lambda>c. c \<noteq> CHR '':'' \<and> \<not> is_newline c) (fst h) \<and>
     list_all (\<lambda>c. \<not> is_newline c) (snd h) \<and>
     (case snd h of [] \<Rightarrow> True | c # _ \<Rightarrow> c \<noteq> CHR '' '' \<and> c \<noteq> CHR 0x09)"

lemma text_lines_append:
  "list_all (\<lambda>c. \<not> is_newline c) l \<Longrightarrow> is_newline c \<Longrightarrow> text_lines (l @ c # s) = l # text_lines s"
  by (induction l) auto

lemma header_line_plain:
  assumes "plain_header (n, v)"
  shows "header_line (n @ CHR '':'' # CHR '' '' # v) = [(n, v)]"
proof -
  have "takeWhile (\<lambda>c. c \<noteq> CHR '':'') (n @ CHR '':'' # CHR '' '' # v) = n"
    and "dropWhile (\<lambda>c. c \<noteq> CHR '':'') (n @ CHR '':'' # CHR '' '' # v) = CHR '':'' # CHR '' '' # v"
    using assms by (auto simp: plain_header_def list_all_iff takeWhile_tail)
  moreover have "dropWhile (\<lambda>c. c = CHR '' '' \<or> c = CHR 0x09) v = v"
    using assms by (cases v) (auto simp: plain_header_def)
  ultimately show ?thesis by (simp add: header_line_def)
qed

lemma rheaders_matches_text: "list_all plain_header hs \<Longrightarrow> rheaders_matches (header_text hs) = hs"
proof (induction hs)
  case Nil
  show ?case by (simp add: rheaders_matches_def header_text_def header_line_def)
next
  case (Cons h hs)
  obtain n v where h: "h = (n, v)" by (cases h)
  let ?l = "n @ CHR '':'' # CHR '' '' # v"
  have p: "plain_header (n, v)" using Cons.prems h by simp
  have c: "is_newline CHR 0x0D" "is_newline CHR 0x0A" "\<not> is_newline CHR '':''" "\<not> is_newline CHR '' ''"
    by (simp_all add: is_newline_def)
  have "list_all (\<lambda>c. \<not> is_newline c) ?l"
    using p c by (auto simp: plain_header_def list_all_iff)
  then have "text_lines (?l @ CHR 0x0D # CHR 0x0A # header_text hs) = ?l # [] # text_lines (header_text hs)"
    using c by (simp add: text_lines_append [where l = ?l, simplified])
  moreover have "header_text (h # hs) = ?l @ CHR 0x0D # CHR 0x0A # header_text hs"
    by (simp add: header_text_def h)
  moreover have "header_line [] = []" by (simp add: header_line_def)
  ultimately show ?case
    using Cons header_line_plain [OF p] by (simp add: rheaders_matches_def h)
qed

lemma fold_table:
  "fold (\<lambda>(k, v) t. t(lower k \<mapsto> v)) hs Map.empty = map_of (rev (map (\<lambda>(n, v). (lower n, v)) hs))"
  by (induction hs rule: rev_induct) auto

text \<open>
  The headers a server sends are what \<open>getResponseHeader\<close> returns, for a name in any spelling;
  of several headers with one name it returns the last. A name that was not sent yields \<open>null\<close>, or
  what every object inherits under that name.
\<close>

theorem response_headers_roundtrip:
  assumes "list_all plain_header hs"
  shows "getResponseHeader inh 2 (header_text hs) key =
    (case map_of (rev (map (\<lambda>(n, v). (lower n, v)) hs)) (lower key) of
       Some v \<Rightarrow> Some (Own v)
     | None \<Rightarrow> if inh (lower key) then Some Proto else None)"
  using assms
  by (simp add: getResponseHeader_def header_table_def rheaders_matches_text fold_table dict_get_def
      split: option.splits)

lemma response_headers_roundtrip_witness:
  "getResponseHeader (\<lambda>_. False) 2
     (header_text [(''Etag'', ''x: y''), (''Set-Cookie'', ''a''), (''set-cookie'', ''b'')]) ''SET-COOKIE'' =
   Some (Own ''b'')"
proof -
  have l: "lower ''SET-COOKIE'' = ''set-cookie''" "lower ''Etag'' = ''etag''"
    "lower ''Set-Cookie'' = ''set-cookie''" "lower ''set-cookie'' = ''set-cookie''"
    by code_simp+
  show ?thesis
    by (subst response_headers_roundtrip) (simp_all add: plain_header_def is_newline_def l)
qed

end
