(* ===== verification/JQ_Ajax_Url.thy ===== *)
theory JQ_Ajax_Url
  imports JS_Prelude
begin

text \<open>
  \<open>jquery-1.7.2.js\<close>, lines 6974 to 6986, 7586 to 7602 and 7628 to 7654: what \<open>jQuery.ajax\<close> does with
  the address of a request. The fragment is cut off, a missing protocol is added, the parts are
  compared with those of the page, and data and an anti-cache parameter are appended.
\<close>

section \<open>The address\<close>

text \<open>\<open>url.replace(rhash, "")\<close>: from the first \<open>#\<close> after which there is no line break.\<close>

fun cut_hash :: "string \<Rightarrow> string" where
  "cut_hash [] = []"
| "cut_hash (c # s) =
     (if c = CHR ''#'' \<and> list_all (\<lambda>d. d \<noteq> CHR 0x0A \<and> d \<noteq> CHR 0x0D) s then [] else c # cut_hash s)"

text \<open>
  The groups of \<open>rurl\<close>: the protocol with its colon, the host and the port. The last two are
  undefined when the text does not go on with two slashes, or with a colon and digits.
\<close>

record url_parts =
  u_protocol :: string
  u_host :: "string option"
  u_port :: "string option"

definition is_scheme_char :: "char \<Rightarrow> bool" where
  "is_scheme_char c \<longleftrightarrow> is_word c \<or> c \<in> set ''+.-''"

definition is_host_char :: "char \<Rightarrow> bool" where
  "is_host_char c \<longleftrightarrow> c \<notin> set ''/?#:''"

definition rurl_port :: "string \<Rightarrow> string option" where
  "rurl_port s =
     (case s of
        c # t \<Rightarrow> if c = CHR '':'' \<and> takeWhile is_digit t \<noteq> [] then Some (takeWhile is_digit t) else None
      | [] \<Rightarrow> None)"

definition rurl_exec :: "string \<Rightarrow> url_parts option" where
  "rurl_exec s =
     (let scheme = takeWhile is_scheme_char s; r = dropWhile is_scheme_char s
      in if scheme = [] \<or> r = [] \<or> hd r \<noteq> CHR '':'' then None
         else Some (if take 2 (tl r) = ''//'' then
             let a = drop 2 (tl r)
             in \<lparr>u_protocol = scheme @ '':'', u_host = Some (takeWhile is_host_char a),
                 u_port = rurl_port (dropWhile is_host_char a)\<rparr>
           else \<lparr>u_protocol = scheme @ '':'', u_host = None, u_port = None\<rparr>))"

text \<open>The parts of the address of the page; when it does not match, they are undefined.\<close>

definition add_protocol :: "url_parts option \<Rightarrow> string \<Rightarrow> string" where
  "add_protocol ajaxLocParts s =
     (if take 2 s = ''//'' then
        (case ajaxLocParts of Some p \<Rightarrow> u_protocol p | None \<Rightarrow> ''undefined'') @ ''//'' @ drop 2 s
      else s)"

definition request_url :: "url_parts option \<Rightarrow> string \<Rightarrow> string" where
  "request_url ajaxLocParts url = add_protocol ajaxLocParts (cut_hash url)"

text \<open>\<open>jQuery.trim( s.dataType || "*" ).toLowerCase().split( rspacesAjax )\<close>\<close>

definition request_types :: "string option \<Rightarrow> string list" where
  "request_types dataType =
     split_ws (lower (str_trim (case dataType of None \<Rightarrow> ''*'' | Some t \<Rightarrow> if t = [] then ''*'' else t)))"

section \<open>Cross-domain requests\<close>

text \<open>
  A port is the text of digits or the number of the default; two texts are compared as texts,
  a text and a number as numbers.
\<close>

datatype port = PortText string | PortNumber nat

fun port_differs :: "port \<Rightarrow> port \<Rightarrow> bool" where
  "port_differs (PortText a) (PortText b) = (a \<noteq> b)"
| "port_differs (PortText a) (PortNumber n) = (read_dec 0 a \<noteq> n)"
| "port_differs (PortNumber n) (PortText b) = (n \<noteq> read_dec 0 b)"
| "port_differs (PortNumber m) (PortNumber n) = (m \<noteq> n)"

definition default_port :: "string \<Rightarrow> nat" where
  "default_port protocol = (if protocol = ''http:'' then 80 else 443)"

definition port_of :: "url_parts option \<Rightarrow> port" where
  "port_of parts =
     (case parts of
        None \<Rightarrow> PortNumber 443
      | Some p \<Rightarrow> (case u_port p of Some t \<Rightarrow> PortText t | None \<Rightarrow> PortNumber (default_port (u_protocol p))))"

definition cross_domain :: "url_parts option \<Rightarrow> string \<Rightarrow> bool" where
  "cross_domain ajaxLocParts url =
     (case rurl_exec (lower url) of
        None \<Rightarrow> False
      | Some p \<Rightarrow>
          Some (u_protocol p) \<noteq> map_option u_protocol ajaxLocParts \<or>
          u_host p \<noteq> Option.bind ajaxLocParts u_host \<or>
          port_differs (port_of (Some p)) (port_of ajaxLocParts))"

definition location_parts :: "string \<Rightarrow> url_parts option" where
  "location_parts ajaxLocation = rurl_exec (lower ajaxLocation)"

section \<open>Requests without content\<close>

definition hasContent :: "string \<Rightarrow> bool" where
  "hasContent ty \<longleftrightarrow> ty \<noteq> ''GET'' \<and> ty \<noteq> ''HEAD''"

definition separator :: "string \<Rightarrow> string" where
  "separator url = (if CHR ''?'' \<in> set url then ''&'' else ''?'')"

definition append_data :: "string \<Rightarrow> string \<Rightarrow> string" where
  "append_data url data = url @ separator url @ data"

text \<open>\<open>url.replace(rts, "$1_=" + ts)\<close>: the first parameter called \<open>_\<close>.\<close>

fun replace_ts :: "string \<Rightarrow> string \<Rightarrow> string" where
  "replace_ts ts [] = []"
| "replace_ts ts (c # s) =
     (if (c = CHR ''?'' \<or> c = CHR ''&'') \<and> take 2 s = ''_=''
      then c # ''_='' @ ts @ dropWhile (\<lambda>d. d \<noteq> CHR ''&'') (drop 2 s)
      else c # replace_ts ts s)"

definition anti_cache :: "string \<Rightarrow> string \<Rightarrow> string" where
  "anti_cache ts url =
     (let ret = replace_ts ts url
      in ret @ (if ret = url then separator url @ ''_='' @ ts else []))"

section \<open>The comparison is right for ordinary addresses\<close>

record address =
  a_scheme :: string
  a_host :: string
  a_port :: "nat option"
  a_rest :: string

definition address_text :: "address \<Rightarrow> string" where
  "address_text a = a_scheme a @ ''://'' @ a_host a @
     (case a_port a of None \<Rightarrow> [] | Some n \<Rightarrow> CHR '':'' # dec_nat n) @ a_rest a"

text \<open>No user information in front of the host: neither a colon nor an at sign.\<close>

definition ordinary :: "address \<Rightarrow> bool" where
  "ordinary a \<longleftrightarrow> a_scheme a \<noteq> [] \<and> list_all is_scheme_char (a_scheme a) \<and>
     list_all (\<lambda>c. is_host_char c \<and> c \<noteq> CHR ''@'') (a_host a) \<and>
     (case a_rest a of [] \<Rightarrow> True | c # _ \<Rightarrow> c \<in> set ''/?#'')"

definition origin :: "address \<Rightarrow> string \<times> string \<times> nat" where
  "origin a = (lower (a_scheme a), lower (a_host a),
     case a_port a of Some n \<Rightarrow> n | None \<Rightarrow> if lower (a_scheme a) = ''http'' then 80 else 443)"

lemma to_lower_other: "\<not> is_upper c \<Longrightarrow> to_lower c = c"
  by (simp add: to_lower_def)

lemma to_lower_upper: "is_upper c \<Longrightarrow> (of_char (to_lower c) :: nat) = of_char c + 32"
  by (simp add: to_lower_def is_upper_def)

lemma is_word_lower [simp]: "is_word (to_lower c) = is_word c"
proof (cases "is_upper c")
  case True
  then have "is_word (to_lower c)" "is_word c"
    using to_lower_upper [OF True] by (auto simp: is_word_def is_upper_def Let_def)
  then show ?thesis by simp
qed (simp add: to_lower_other)

text \<open>Characters that are not letters stay what they are, and no letter becomes one of them.\<close>

lemma to_lower_sign:
  assumes "\<not> is_word d"
  shows "to_lower c = d \<longleftrightarrow> c = d"
proof (cases "is_upper c")
  case True
  then have "is_word c" by (auto simp: is_word_def is_upper_def Let_def)
  then show ?thesis using assms is_word_lower [of c] by metis
qed (simp add: to_lower_other)

lemma signs_not_word [simp]: "\<not> is_word CHR '':''" "\<not> is_word CHR ''/''" "\<not> is_word CHR ''?''"
  "\<not> is_word CHR ''#''" "\<not> is_word CHR ''+''" "\<not> is_word CHR ''.''" "\<not> is_word CHR ''-''" "\<not> is_word CHR ''@''"
  by (simp_all add: is_word_def is_digit_def)

lemma is_scheme_char_lower [simp]: "is_scheme_char (to_lower c) = is_scheme_char c"
  by (simp add: is_scheme_char_def to_lower_sign)

lemma is_host_char_lower [simp]: "is_host_char (to_lower c) = is_host_char c"
  by (simp add: is_host_char_def to_lower_sign)

lemma to_lower_digit: "is_digit c \<Longrightarrow> to_lower c = c"
  by (simp add: to_lower_def is_upper_def is_digit_def)

lemma lower_dec_nat [simp]: "lower (dec_nat n) = dec_nat n"
  using dec_nat_digits [of n] by (simp add: lower_def map_idI to_lower_digit)

lemma lower_append [simp]: "lower (s @ t) = lower s @ lower t"
  by (simp add: lower_def)

definition lower_address :: "address \<Rightarrow> address" where
  "lower_address a = a\<lparr>a_scheme := lower (a_scheme a), a_host := lower (a_host a), a_rest := lower (a_rest a)\<rparr>"

lemma lower_address_text: "lower (address_text a) = address_text (lower_address a)"
  by (auto simp: address_text_def lower_address_def lower_def [of "_ # _"] to_lower_sign
      to_lower_other is_upper_def lower_def [of "[]"] split: option.splits) 
     (simp_all add: lower_def [symmetric])

lemma ordinary_lower: "ordinary a \<Longrightarrow> ordinary (lower_address a)"
  by (auto simp: ordinary_def lower_address_def lower_def list_all_iff to_lower_sign split: list.splits)

lemma takeWhile_stop: "list_all P xs \<Longrightarrow> (ys = [] \<or> \<not> P (hd ys)) \<Longrightarrow> takeWhile P (xs @ ys) = xs"
  by (cases ys) (auto simp: list_all_iff takeWhile_tail)

lemma dropWhile_stop: "list_all P xs \<Longrightarrow> (ys = [] \<or> \<not> P (hd ys)) \<Longrightarrow> dropWhile P (xs @ ys) = ys"
  by (cases ys) (auto simp: list_all_iff)

lemma rurl_exec_address:
  assumes "ordinary a"
  shows "rurl_exec (address_text a) =
    Some \<lparr>u_protocol = a_scheme a @ '':'', u_host = Some (a_host a), u_port = map_option dec_nat (a_port a)\<rparr>"
proof -
  let ?tail = "(case a_port a of None \<Rightarrow> [] | Some n \<Rightarrow> CHR '':'' # dec_nat n) @ a_rest a"
  let ?r = "CHR '':'' # CHR ''/'' # CHR ''/'' # a_host a @ ?tail"
  have rest: "a_rest a = [] \<or> hd (a_rest a) \<in> set ''/?#''"
    using assms by (auto simp: ordinary_def split: list.splits)
  have host: "list_all is_host_char (a_host a)" "?tail = [] \<or> \<not> is_host_char (hd ?tail)"
    using assms rest by (auto simp: ordinary_def list_all_iff is_host_char_def split: option.splits)
  have port: "rurl_port ?tail = map_option dec_nat (a_port a)"
  proof (cases "a_port a")
    case None
    then show ?thesis using rest by (cases "a_rest a") (auto simp: rurl_port_def)
  next
    case (Some n)
    have "list_all is_digit (dec_nat n)" using dec_nat_digits by (simp add: list_all_iff)
    moreover have "a_rest a = [] \<or> \<not> is_digit (hd (a_rest a))"
      using rest by (auto simp: is_digit_def)
    ultimately have "takeWhile is_digit (dec_nat n @ a_rest a) = dec_nat n" by (rule takeWhile_stop)
    then show ?thesis by (simp add: rurl_port_def Some)
  qed
  have shape: "address_text a = a_scheme a @ ?r" by (simp add: address_text_def)
  have "list_all is_scheme_char (a_scheme a)" "?r = [] \<or> \<not> is_scheme_char (hd ?r)"
    using assms by (auto simp: ordinary_def is_scheme_char_def)
  then have "takeWhile is_scheme_char (address_text a) = a_scheme a"
    "dropWhile is_scheme_char (address_text a) = ?r"
    unfolding shape by (rule takeWhile_stop, rule dropWhile_stop)
  moreover have "takeWhile is_host_char (a_host a @ ?tail) = a_host a"
    "dropWhile is_host_char (a_host a @ ?tail) = ?tail"
    using host by (rule takeWhile_stop, rule dropWhile_stop)
  ultimately show ?thesis
    using assms port by (simp add: rurl_exec_def ordinary_def del: append_assoc)
qed

lemma port_of_address:
  "port_of (Some \<lparr>u_protocol = p, u_host = h, u_port = map_option dec_nat n\<rparr>) =
     (case n of Some k \<Rightarrow> PortText (dec_nat k) | None \<Rightarrow> PortNumber (default_port p))"
  by (simp add: port_of_def split: option.splits)



text \<open>
  With user information, \<open>rurl\<close> takes the user name for the host: the authority of an address ends at
  the first of \<open>/\<close>, \<open>?\<close> and \<open>#\<close>, and the host is what follows the last at sign in it.
\<close>

definition authority_host :: "string \<Rightarrow> string" where
  "authority_host url =
     (let auth = takeWhile (\<lambda>c. c \<notin> set ''/?#'') (drop 2 (dropWhile (\<lambda>c. c \<noteq> CHR ''/'') url))
      in takeWhile (\<lambda>c. c \<noteq> CHR '':'') (rev (takeWhile (\<lambda>c. c \<noteq> CHR ''@'') (rev auth))))"

lemma user_information_hides_host:
  "\<not> cross_domain (location_parts ''http://page.com/'') ''http://page.com:x@evil.org/''"
  "authority_host ''http://page.com:x@evil.org/'' = ''evil.org''"
  by code_simp+

section \<open>The anti-cache parameter\<close>

definition has_time :: "string \<Rightarrow> string \<Rightarrow> bool" where
  "has_time ts url \<longleftrightarrow> (\<exists>pre c post. url = pre @ c # ''_='' @ ts @ post \<and>
     c \<in> {CHR ''?'', CHR ''&''} \<and> (post = [] \<or> hd post = CHR ''&''))"

lemma has_timeI:
  "url = pre @ c # ''_='' @ ts @ post \<Longrightarrow> c \<in> {CHR ''?'', CHR ''&''} \<Longrightarrow>
     post = [] \<or> hd post = CHR ''&'' \<Longrightarrow> has_time ts url"
  unfolding has_time_def by blast

lemma has_time_append: "has_time ts url \<Longrightarrow> has_time ts (s @ url)"
proof -
  assume "has_time ts url"
  then obtain pre c post where eq: "url = pre @ c # ''_='' @ ts @ post"
    and c: "c \<in> {CHR ''?'', CHR ''&''}" and post: "post = [] \<or> hd post = CHR ''&''"
    unfolding has_time_def by (elim exE conjE)
  show ?thesis by (rule has_timeI [OF _ c post, where pre = "s @ pre"]) (simp only: eq append_assoc)
qed

lemma replace_ts_cases: "replace_ts ts url = url \<or> has_time ts (replace_ts ts url)"
proof (induction url)
  case (Cons c s)
  show ?case
  proof (cases "(c = CHR ''?'' \<or> c = CHR ''&'') \<and> take 2 s = ''_=''")
    case True
    let ?post = "dropWhile (\<lambda>d. d \<noteq> CHR ''&'') (drop 2 s)"
    have post: "?post = [] \<or> hd ?post = CHR ''&''"
      using hd_dropWhile [of "\<lambda>d. d \<noteq> CHR ''&''" "drop 2 s"] by auto
    have c: "c \<in> {CHR ''?'', CHR ''&''}" using True by simp
    have "replace_ts ts (c # s) = [] @ c # ''_='' @ ts @ ?post" using True by simp
    from has_timeI [OF this c post] show ?thesis ..
  next
    case False
    then have r: "replace_ts ts (c # s) = [c] @ replace_ts ts s" by auto
    show ?thesis unfolding r by (rule disjE [OF Cons]) (simp, rule disjI2, erule has_time_append)
  qed
qed simp

text \<open>However the address was, it now has a parameter \<open>_\<close> with the time.\<close>

lemma anti_cache_has_time: "has_time ts (anti_cache ts url)"
proof (cases "replace_ts ts url = url")
  case True
  have "anti_cache ts url = url @ (if CHR ''?'' \<in> set url then CHR ''&'' else CHR ''?'') # ''_='' @ ts @ []"
    using True by (simp add: anti_cache_def separator_def)
  then show ?thesis by (rule has_timeI) auto
next
  case False
  then show ?thesis using replace_ts_cases [of ts url] by (simp add: anti_cache_def)
qed

end
