(* ===== verification/JQ_Ajax.thy ===== *)
theory JQ_Ajax
  imports JQ_Headers JQ_Ajax_Url JQ_Deferred
begin

text \<open>
  \<open>jquery-1.7.2.js\<close>, lines 7351 to 7732: the life of a request. \<open>jQuery.ajax\<close> and the function \<open>done\<close>
  run as frames on a stack: at every place where they call code of the page (prefilters, handlers
  of the global events, \<open>beforeSend\<close>, transports, converters, callbacks) a frame for that code is
  pushed, and what it does is chosen freely from the calls open to it: it may start requests, set
  headers, change settings, abort, answer a request that has been sent, return or throw. The
  lists of callbacks are those of \<open>JQ_Callbacks\<close> and \<open>JQ_Deferred\<close>; here only what their theorems
  give is used, that a deferred settles once and that a list made for one firing fires once.
\<close>

section \<open>Requests\<close>

text \<open>
  The settings \<open>ajax\<close> itself reads. A \<open>contentType\<close> of \<open>false\<close> is \<open>None\<close>, \<open>s_cache\<close> says whether
  \<open>cache\<close> is \<open>false\<close>, and \<open>s_own_contentType\<close> whether the options of the call name a content type.
\<close>

record settings =
  s_url :: string
  s_type :: string
  s_dataType :: "string option"
  s_dataTypes :: "string list"
  s_data :: string
  s_contentType :: "string option"
  s_own_contentType :: bool
  s_no_cache :: bool
  s_global :: bool
  s_async :: bool
  s_timeout :: int
  s_crossDomain :: "bool option"
  s_ifModified :: bool
  s_hasContent :: bool
  s_mimeType :: string
  s_headers :: "(string \<times> string) list"
  s_accepts :: "(string \<times> string) list"
  s_beforeSend :: bool

text \<open>
  The variables of a call of \<open>ajax\<close> and the fields of its \<open>jqXHR\<close>. Of the transport only its
  presence matters. \<open>sent\<close> and \<open>timer_runs\<close> record what the surroundings hold: the callback handed
  to the transport, and the timer of the browser. \<open>counted\<close> is no variable of the code: it says
  that the request has been added to \<open>jQuery.active\<close> and not yet been subtracted.
\<close>

record request =
  conf :: settings
  xstate :: nat
  headers :: "string req_headers"
  responseHeadersString :: string
  transport :: bool
  timeoutTimer :: bool
  fireGlobals :: bool
  ifModifiedKey :: string
  statusCode :: bool
  deferred :: dstate
  completed :: bool
  readyState :: int
  status :: int
  statusText :: string
  sent :: bool
  timer_runs :: bool
  counted :: bool

text \<open>What can be observed from outside, in order.\<close>

datatype event =
    Trigger string nat
  | Settled nat dstate string
  | Completed nat string
  | Sent nat string "(string \<times> string) list"
  | TransportAbort nat string

record world =
  active :: int
  lastModified :: "string \<rightharpoonup> string"
  etag :: "string \<rightharpoonup> string"
  requests :: "request list"
  log :: "event list"

text \<open>What does not change: the prototypes, the parts of the page's address and the time.\<close>

record 'f page =
  p_env :: "'f env"
  p_loc :: "url_parts option"
  p_now :: string

section \<open>Preparing a request\<close>

definition is_lower :: "char \<Rightarrow> bool" where
  "is_lower c \<longleftrightarrow> 97 \<le> (of_char c :: nat) \<and> (of_char c :: nat) \<le> 122"

definition upper :: "string \<Rightarrow> string" where
  "upper t = map (\<lambda>c. if is_lower c then char_of ((of_char c :: nat) - 32) else c) t"

text \<open>The settings when the prefilters are called.\<close>

definition initial_settings :: "'f page \<Rightarrow> settings \<Rightarrow> settings" where
  "initial_settings P s =
     (let url = request_url (p_loc P) (s_url s)
      in s\<lparr>s_url := url, s_dataTypes := request_types (s_dataType s),
           s_crossDomain := (case s_crossDomain s of None \<Rightarrow> Some (cross_domain (p_loc P) url) | c \<Rightarrow> c)\<rparr>)"

definition new_request :: "'f page \<Rightarrow> settings \<Rightarrow> request" where
  "new_request P s =
     \<lparr>conf = initial_settings P s, xstate = 0, headers = no_headers, responseHeadersString = [],
      transport = False, timeoutTimer = False, fireGlobals = False, ifModifiedKey = [],
      statusCode = True, deferred = Pending, completed = False, readyState = 0, status = 0,
      statusText = [], sent = False, timer_runs = False, counted = False\<rparr>"

definition set_header :: "'f page \<Rightarrow> string \<Rightarrow> string \<Rightarrow> request \<Rightarrow> request" where
  "set_header P n v q = q\<lparr>headers := setRequestHeader (p_env P) (xstate q) n v (headers q)\<rparr>"

text \<open>\<open>d[k]\<close> as a header value; the empty text stands for every false value.\<close>

definition header_value :: "'f page \<Rightarrow> (string \<rightharpoonup> string) \<Rightarrow> string \<Rightarrow> string" where
  "header_value P d k =
     (case d k of
        Some v \<Rightarrow> v
      | None \<Rightarrow> let v = inherit (p_env P) PObject k in if truthy v then to_str (p_env P) v else [])"

definition change_settings :: "(settings \<Rightarrow> settings) \<Rightarrow> request \<Rightarrow> request" where
  "change_settings f q = q\<lparr>conf := f (conf q)\<rparr>"

definition data_in_url :: "'f page \<Rightarrow> request \<Rightarrow> request" where
  "data_in_url P q =
     (if s_hasContent (conf q) then q
      else let
        q = (if s_data (conf q) \<noteq> []
             then change_settings (\<lambda>s. s\<lparr>s_url := append_data (s_url s) (s_data s), s_data := []\<rparr>) q else q);
        q = q\<lparr>ifModifiedKey := s_url (conf q)\<rparr>
      in if s_no_cache (conf q)
         then change_settings (\<lambda>s. s\<lparr>s_url := anti_cache (p_now P) (s_url s)\<rparr>) q else q)"

definition content_header :: "'f page \<Rightarrow> request \<Rightarrow> request" where
  "content_header P q =
     (if s_data (conf q) \<noteq> [] \<and> s_hasContent (conf q) \<and> s_contentType (conf q) \<noteq> None \<or> s_own_contentType (conf q)
      then set_header P ''Content-Type'' (case s_contentType (conf q) of Some c \<Rightarrow> c | None \<Rightarrow> ''false'') q
      else q)"

definition modified_headers :: "'f page \<Rightarrow> world \<Rightarrow> request \<Rightarrow> request" where
  "modified_headers P w q =
     (if s_ifModified (conf q) then
        let
          q = q\<lparr>ifModifiedKey := (if ifModifiedKey q \<noteq> [] then ifModifiedKey q else s_url (conf q))\<rparr>;
          m = header_value P (lastModified w) (ifModifiedKey q);
          q = (if m \<noteq> [] then set_header P ''If-Modified-Since'' m q else q);
          t = header_value P (etag w) (ifModifiedKey q)
        in if t \<noteq> [] then set_header P ''If-None-Match'' t q else q
      else q)"

definition accept_value :: "'f page \<Rightarrow> settings \<Rightarrow> string" where
  "accept_value P s =
     (let accepts = header_value P (map_of (s_accepts s))
      in case s_dataTypes s of
           [] \<Rightarrow> accepts ''*''
         | t # _ \<Rightarrow>
             if t \<noteq> [] \<and> accepts t \<noteq> []
             then accepts t @ (if t \<noteq> ''*'' then '', '' @ ''*/*'' @ ''; q=0.01'' else [])
             else accepts ''*'')"

definition prepare :: "'f page \<Rightarrow> world \<Rightarrow> request \<Rightarrow> request" where
  "prepare P w q =
     (let q = modified_headers P w (content_header P (data_in_url P q));
          q = set_header P ''Accept'' (accept_value P (conf q)) q
      in fold (\<lambda>(n, v). set_header P n v) (s_headers (conf q)) q)"

section \<open>Frames\<close>

text \<open>
  Where a call of \<open>ajax\<close> stands. An \<open>Asked\<close> point waits for an answer of the page, a point that
  holds one has it.
\<close>

datatype point =
    Prefilters | Begin | Headers | BeforeSend | AskedBefore | BeforeAnswer bool
  | Install | Select | AskedTransport | TransportAnswer bool | SetTimer | Send | Sending

text \<open>The arguments of \<open>done\<close>; texts that are missing are empty.\<close>

record outcome =
  o_status :: int
  o_text :: string
  o_headers :: string

datatype finish =
    Enter | Converting | Settle bool string | Codes bool string | Announce bool string
  | Complete string | Global | Count

datatype frame =
    PageCode
  | AjaxCall nat point
  | DoneCall nat outcome finish
  | AbortCall nat string

type_synonym config = "world \<times> frame list"

definition req :: "world \<Rightarrow> nat \<Rightarrow> request" where
  "req w r = requests w ! r"

definition upd :: "nat \<Rightarrow> (request \<Rightarrow> request) \<Rightarrow> world \<Rightarrow> world" where
  "upd r f w = w\<lparr>requests := (requests w)[r := f (requests w ! r)]\<rparr>"

definition say :: "event \<Rightarrow> world \<Rightarrow> world" where
  "say e w = w\<lparr>log := log w @ [e]\<rparr>"

text \<open>Triggering a global event runs its handlers.\<close>

definition trigger :: "string \<Rightarrow> nat \<Rightarrow> world \<Rightarrow> frame list \<Rightarrow> config" where
  "trigger ev r w fs = (say (Trigger ev r) w, PageCode # fs)"

text \<open>\<open>jqXHR.abort( statusText )\<close>\<close>

definition call_done :: "nat \<Rightarrow> int \<Rightarrow> string \<Rightarrow> frame list \<Rightarrow> frame list" where
  "call_done r st t fs = DoneCall r \<lparr>o_status = st, o_text = t, o_headers = []\<rparr> Enter # fs"

definition call_abort :: "nat \<Rightarrow> string \<Rightarrow> world \<Rightarrow> frame list \<Rightarrow> config" where
  "call_abort r t w fs =
     (let t = (if t = [] then ''abort'' else t)
      in if transport (req w r) then (say (TransportAbort r t) w, PageCode # AbortCall r t # fs)
         else (w, call_done r 0 t fs))"

section \<open>\<open>ajax\<close>\<close>

definition begin_request :: "nat \<Rightarrow> world \<Rightarrow> frame list \<Rightarrow> config" where
  "begin_request r w fs =
     (if xstate (req w r) = 2 then (w, fs)
      else let
        g = s_global (conf (req w r));
        w = upd r (\<lambda>q. change_settings (\<lambda>s. s\<lparr>s_type := upper (s_type s),
              s_hasContent := hasContent (upper (s_type s))\<rparr>) (q\<lparr>fireGlobals := g\<rparr>)) w
      in if g then let
             n = active w;
             w = upd r (\<lambda>q. q\<lparr>counted := True\<rparr>) (w\<lparr>active := n + 1\<rparr>)
           in if n = 0 then trigger ''ajaxStart'' r w (AjaxCall r Headers # fs)
              else (w, AjaxCall r Headers # fs)
         else (w, AjaxCall r Headers # fs))"

definition take_transport :: "nat \<Rightarrow> bool \<Rightarrow> world \<Rightarrow> frame list \<Rightarrow> config" where
  "take_transport r given w fs =
     (let w = upd r (\<lambda>q. q\<lparr>transport := given\<rparr>) w
      in if \<not> given then (w, call_done r (-1) ''No Transport'' fs)
         else let w = upd r (\<lambda>q. q\<lparr>readyState := 1\<rparr>) w
           in if fireGlobals (req w r) then trigger ''ajaxSend'' r w (AjaxCall r SetTimer # fs)
              else (w, AjaxCall r SetTimer # fs))"

definition set_timer :: "request \<Rightarrow> request" where
  "set_timer q = (if s_async (conf q) \<and> 0 < s_timeout (conf q) then q\<lparr>timeoutTimer := True, timer_runs := True\<rparr> else q)"

text \<open>Sending without a transport raises a \<open>TypeError\<close>, which is caught at once.\<close>

definition send_request :: "nat \<Rightarrow> world \<Rightarrow> frame list \<Rightarrow> config" where
  "send_request r w fs =
     (let q = req w r; w = upd r (\<lambda>q. q\<lparr>xstate := 1\<rparr>) w
      in if transport q then
           (say (Sent r (s_url (conf q)) (requestHeaders (headers q))) (upd r (\<lambda>q. q\<lparr>sent := True\<rparr>) w),
            PageCode # AjaxCall r Sending # fs)
         else (w, call_done r (-1) ''TypeError'' fs))"

fun ajax_step :: "'f page \<Rightarrow> nat \<Rightarrow> point \<Rightarrow> world \<Rightarrow> frame list \<Rightarrow> config" where
  "ajax_step P r Prefilters w fs = (w, PageCode # AjaxCall r Begin # fs)"
| "ajax_step P r Begin w fs = begin_request r w fs"
| "ajax_step P r Headers w fs = (upd r (prepare P w) w, AjaxCall r BeforeSend # fs)"
| "ajax_step P r BeforeSend w fs =
     (w, if s_beforeSend (conf (req w r)) then PageCode # AjaxCall r AskedBefore # fs
         else AjaxCall r Install # fs)"
| "ajax_step P r AskedBefore w fs = (w, AjaxCall r (BeforeAnswer False) # fs)"
| "ajax_step P r (BeforeAnswer refused) w fs =
     (if refused \<or> xstate (req w r) = 2 then call_abort r [] w fs else (w, AjaxCall r Install # fs))"
| "ajax_step P r Install w fs =
     (w, if deferred (req w r) \<noteq> Pending \<or> completed (req w r) then PageCode # AjaxCall r Select # fs
         else AjaxCall r Select # fs)"
| "ajax_step P r Select w fs = (w, PageCode # AjaxCall r AskedTransport # fs)"
| "ajax_step P r AskedTransport w fs = (w, AjaxCall r (TransportAnswer False) # fs)"
| "ajax_step P r (TransportAnswer given) w fs = take_transport r given w fs"
| "ajax_step P r SetTimer w fs = (upd r set_timer w, AjaxCall r Send # fs)"
| "ajax_step P r Send w fs = send_request r w fs"
| "ajax_step P r Sending w fs = (w, fs)"

section \<open>\<open>done\<close>\<close>

definition is_ok :: "int \<Rightarrow> bool" where
  "is_ok st \<longleftrightarrow> 200 \<le> st \<and> st < 300 \<or> st = 304"

text \<open>The headers by which the next request can ask whether anything has changed.\<close>

definition response_header :: "'f page \<Rightarrow> request \<Rightarrow> string \<Rightarrow> string" where
  "response_header P q key =
     (if xstate q = 2 then header_value P (header_table (responseHeadersString q)) (lower key) else [])"

definition note_modified :: "'f page \<Rightarrow> nat \<Rightarrow> world \<Rightarrow> world" where
  "note_modified P r w =
     (let q = req w r
      in if s_ifModified (conf q) then
           let
             m = response_header P q ''Last-Modified''; t = response_header P q ''Etag'';
             w = (if m \<noteq> [] then w\<lparr>lastModified := (lastModified w)(ifModifiedKey q \<mapsto> m)\<rparr> else w)
           in if t \<noteq> [] then w\<lparr>etag := (etag w)(ifModifiedKey q \<mapsto> t)\<rparr> else w
         else w)"

text \<open>The variables \<open>done\<close> sets at its start; a timer that is known is stopped.\<close>

definition mark_done :: "outcome \<Rightarrow> request \<Rightarrow> request" where
  "mark_done f q = q\<lparr>xstate := 2, timer_runs := timer_runs q \<and> \<not> timeoutTimer q,
     transport := False, responseHeadersString := o_headers f,
     readyState := (if 0 < o_status f then 4 else 0)\<rparr>"

definition enter_done :: "'f page \<Rightarrow> nat \<Rightarrow> outcome \<Rightarrow> world \<Rightarrow> frame list \<Rightarrow> config" where
  "enter_done P r f w fs =
     (if xstate (req w r) = 2 then (w, fs)
      else let
        w = upd r (mark_done f) w
      in if is_ok (o_status f) then
           let w = note_modified P r w
           in if o_status f = 304 then (w, DoneCall r f (Settle True ''notmodified'') # fs)
              else (w, PageCode # DoneCall r f Converting # fs)
         else if o_text f = [] \<or> o_status f \<noteq> 0 then
           (w, DoneCall r (f\<lparr>o_status := max 0 (o_status f)\<rparr>) (Settle False ''error'') # fs)
         else (w, DoneCall r f (Settle False (o_text f)) # fs))"

fun done_step :: "'f page \<Rightarrow> nat \<Rightarrow> outcome \<Rightarrow> finish \<Rightarrow> world \<Rightarrow> frame list \<Rightarrow> config" where
  "done_step P r f Enter w fs = enter_done P r f w fs"
| "done_step P r f Converting w fs = (w, DoneCall r f (Settle True ''success'') # fs)"
| "done_step P r f (Settle isSuccess t) w fs =
     (let
        w = upd r (\<lambda>q. q\<lparr>status := o_status f, statusText := (if o_text f \<noteq> [] then o_text f else t)\<rparr>) w;
        d = (if isSuccess then Resolved else Rejected)
      in if deferred (req w r) = Pending
         then (say (Settled r d t) (upd r (\<lambda>q. q\<lparr>deferred := d\<rparr>) w), PageCode # DoneCall r f (Codes isSuccess t) # fs)
         else (w, DoneCall r f (Codes isSuccess t) # fs))"
| "done_step P r f (Codes isSuccess t) w fs =
     (w, if statusCode (req w r) then PageCode # DoneCall r f (Announce isSuccess t) # fs
         else DoneCall r f (Announce isSuccess t) # fs)"
| "done_step P r f (Announce isSuccess t) w fs =
     (let w = upd r (\<lambda>q. q\<lparr>statusCode := False\<rparr>) w
      in if fireGlobals (req w r)
         then trigger (if isSuccess then ''ajaxSuccess'' else ''ajaxError'') r w (DoneCall r f (Complete t) # fs)
         else (w, DoneCall r f (Complete t) # fs))"
| "done_step P r f (Complete t) w fs =
     (if \<not> completed (req w r)
      then (say (Completed r t) (upd r (\<lambda>q. q\<lparr>completed := True\<rparr>) w), PageCode # DoneCall r f Global # fs)
      else (w, DoneCall r f Global # fs))"
| "done_step P r f Global w fs =
     (if fireGlobals (req w r) then trigger ''ajaxComplete'' r w (DoneCall r f Count # fs) else (w, fs))"
| "done_step P r f Count w fs =
     (let w = upd r (\<lambda>q. q\<lparr>counted := False\<rparr>) (w\<lparr>active := active w - 1\<rparr>)
      in if active w = 0 then trigger ''ajaxStop'' r w fs else (w, fs))"

text \<open>A step of the library, when its code is on top of the stack.\<close>

fun tick :: "'f page \<Rightarrow> config \<Rightarrow> config" where
  "tick P (w, AjaxCall r p # fs) = ajax_step P r p w fs"
| "tick P (w, DoneCall r f d # fs) = done_step P r f d w fs"
| "tick P (w, AbortCall r t # fs) = (w, call_done r 0 t fs)"
| "tick P (w, fs) = (w, fs)"

section \<open>The page\<close>

text \<open>
  What code of the page, or the browser between two tasks, can do. \<open>Return b\<close> returns \<open>false\<close> from
  \<open>beforeSend\<close>, or a transport, when \<open>b\<close> holds.
\<close>

datatype choice =
    Return bool
  | Throw
  | NewRequest settings
  | Abort nat string
  | SetHeader nat string string
  | OverrideMimeType nat string
  | ChangeSettings nat settings
  | Answer nat outcome
  | Timeout nat

fun deliver :: "bool \<Rightarrow> frame list \<Rightarrow> frame list" where
  "deliver b (AjaxCall r AskedBefore # fs) = AjaxCall r (BeforeAnswer b) # fs"
| "deliver b (AjaxCall r AskedTransport # fs) = AjaxCall r (TransportAnswer b) # fs"
| "deliver b fs = fs"

text \<open>
  An exception ends calls up to a handler: code of the page, the \<open>try\<close> around the conversion, or the
  one around \<open>transport.send\<close>, which throws again when the request is done.
\<close>

fun unwind :: "world \<Rightarrow> frame list \<Rightarrow> frame list" where
  "unwind w [] = []"
| "unwind w (PageCode # fs) = PageCode # fs"
| "unwind w (AjaxCall r p # fs) =
     (if p = Sending \<and> xstate (req w r) < 2 then call_done r (-1) ''exception'' fs else unwind w fs)"
| "unwind w (DoneCall r f d # fs) =
     (if d = Converting then DoneCall r f (Settle False ''parsererror'') # fs else unwind w fs)"
| "unwind w (AbortCall r t # fs) = unwind w fs"

definition exists :: "world \<Rightarrow> nat \<Rightarrow> bool" where
  "exists w r \<longleftrightarrow> r < length (requests w)"

fun act :: "'f page \<Rightarrow> choice \<Rightarrow> config \<Rightarrow> config" where
  "act P (Return b) (w, fs) = (case fs of PageCode # gs \<Rightarrow> (w, deliver b gs) | _ \<Rightarrow> (w, fs))"
| "act P Throw (w, fs) = (case fs of PageCode # gs \<Rightarrow> (w, unwind w gs) | _ \<Rightarrow> (w, fs))"
| "act P (NewRequest s) (w, fs) =
     (w\<lparr>requests := requests w @ [new_request P s]\<rparr>, AjaxCall (length (requests w)) Prefilters # fs)"
| "act P (Abort r t) (w, fs) = (if exists w r then call_abort r t w fs else (w, fs))"
| "act P (SetHeader r n v) (w, fs) = (if exists w r then upd r (set_header P n v) w else w, fs)"
| "act P (OverrideMimeType r t) (w, fs) =
     (if exists w r \<and> xstate (req w r) = 0
      then upd r (change_settings (\<lambda>s. s\<lparr>s_mimeType := t\<rparr>)) w else w, fs)"
| "act P (ChangeSettings r s') (w, fs) =
     (if exists w r then upd r (change_settings (\<lambda>_. s')) w else w, fs)"
| "act P (Answer r f) (w, fs) =
     (w, if exists w r \<and> sent (req w r) then DoneCall r f Enter # fs else fs)"
| "act P (Timeout r) (w, fs) =
     (if exists w r \<and> timer_runs (req w r) \<and> fs = []
      then call_abort r ''timeout'' (upd r (\<lambda>q. q\<lparr>timer_runs := False\<rparr>) w) fs else (w, fs))"

fun page_runs :: "config \<Rightarrow> bool" where
  "page_runs (w, []) = True"
| "page_runs (w, PageCode # fs) = True"
| "page_runs (w, _) = False"

section \<open>Executions\<close>

text \<open>
  A step of an execution; \<open>ok\<close> restricts what the page does.
\<close>

inductive step :: "'f page \<Rightarrow> (config \<Rightarrow> choice \<Rightarrow> bool) \<Rightarrow> config \<Rightarrow> config \<Rightarrow> bool" for P ok where
  library: "\<not> page_runs c \<Longrightarrow> step P ok c (tick P c)"
| user: "page_runs c \<Longrightarrow> ok c a \<Longrightarrow> step P ok c (act P a c)"

definition initial :: config where
  "initial = (\<lparr>active = 0, lastModified = Map.empty, etag = Map.empty, requests = [], log = []\<rparr>, [])"

definition reachable :: "'f page \<Rightarrow> (config \<Rightarrow> choice \<Rightarrow> bool) \<Rightarrow> config \<Rightarrow> bool" where
  "reachable P ok c \<longleftrightarrow> (step P ok)\<^sup>*\<^sup>* initial c"

text \<open>
  A request is starting from the moment it is counted until its transport has been asked to send,
  except while \<open>beforeSend\<close> runs. The code checks for an early abort only after the prefilters and
  after \<open>beforeSend\<close>; a considerate page aborts no request that is starting.
\<close>

fun critical :: "point \<Rightarrow> bool" where
  "critical Prefilters = False"
| "critical Begin = False"
| "critical AskedBefore = False"
| "critical (BeforeAnswer _) = False"
| "critical Sending = False"
| "critical _ = True"

fun frame_starts :: "nat \<Rightarrow> frame \<Rightarrow> bool" where
  "frame_starts r (AjaxCall k p) = (k = r \<and> critical p)"
| "frame_starts r _ = False"

definition starting :: "nat \<Rightarrow> frame list \<Rightarrow> bool" where
  "starting r fs \<longleftrightarrow> list_ex (frame_starts r) fs"

fun considerate :: "config \<Rightarrow> choice \<Rightarrow> bool" where
  "considerate (w, fs) (Abort r t) = (\<not> starting r fs)"
| "considerate (w, fs) _ = True"

text \<open>Running a page that makes the given choices, with the steps of the library in between.\<close>

fun library_run :: "'f page \<Rightarrow> nat \<Rightarrow> config \<Rightarrow> config" where
  "library_run P 0 c = c"
| "library_run P (Suc n) c = (if page_runs c then c else library_run P n (tick P c))"

fun run :: "'f page \<Rightarrow> nat \<Rightarrow> choice list \<Rightarrow> config \<Rightarrow> config" where
  "run P n [] c = library_run P n c"
| "run P n (a # as) c = run P n as (act P a (library_run P n c))"

subsection \<open>Reading a changed world\<close>

lemma upd_simps [simp]:
  "requests (upd r f w) = (requests w)[r := f (requests w ! r)]"
  "log (upd r f w) = log w" "active (upd r f w) = active w"
  by (simp_all add: upd_def)

lemma say_simps [simp]:
  "requests (say e w) = requests w" "log (say e w) = log w @ [e]" "active (say e w) = active w"
  "req (say e w) r = req w r"
  by (simp_all add: say_def req_def)

lemma req_active [simp]: "req (w\<lparr>active := n\<rparr>) r = req w r"
  by (simp add: req_def)

lemma req_upd [simp]: "r < length (requests w) \<Longrightarrow> req (upd r f w) r = f (req w r)"
  by (simp add: req_def)

lemma note_modified_simps [simp]:
  "requests (note_modified P r w) = requests w" "log (note_modified P r w) = log w"
  "active (note_modified P r w) = active w" "req (note_modified P r w) k = req w k"
  by (simp_all add: note_modified_def Let_def req_def)

text \<open>Executions given by the choices of the page.\<close>

fun plays :: "'f page \<Rightarrow> (config \<Rightarrow> choice \<Rightarrow> bool) \<Rightarrow> nat \<Rightarrow> choice list \<Rightarrow> config \<Rightarrow> bool" where
  "plays P ok n [] c = True"
| "plays P ok n (a # as) c =
     (let d = library_run P n c in page_runs d \<and> ok d a \<and> plays P ok n as (act P a d))"

lemma reachable_library_run: "reachable P ok c \<Longrightarrow> reachable P ok (library_run P n c)"
proof (induction n arbitrary: c)
  case (Suc n)
  have "reachable P ok (tick P c)" if "\<not> page_runs c"
    using Suc.prems step.library [OF that] unfolding reachable_def by (rule rtranclp.rtrancl_into_rtrancl)
  then show ?case using Suc by simp
qed simp

lemma reachable_run: "reachable P ok c \<Longrightarrow> plays P ok n as c \<Longrightarrow> reachable P ok (run P n as c)"
proof (induction as arbitrary: c)
  case Nil
  then show ?case by (simp add: reachable_library_run)
next
  case (Cons a as)
  let ?d = "library_run P n c"
  have "reachable P ok ?d" "page_runs ?d" "ok ?d a"
    using Cons.prems(2) reachable_library_run [OF Cons.prems(1)] by (simp_all add: Let_def)
  then have "reachable P ok (act P a ?d)"
    using step.user unfolding reachable_def by (metis rtranclp.rtrancl_into_rtrancl)
  then show ?case using Cons by (simp add: Let_def)
qed

definition demo_page :: "nat page" where
  "demo_page = \<lparr>p_env = bare_env, p_loc = location_parts ''http://a.org/'', p_now = ''1''\<rparr>"

definition demo_settings :: settings where
  "demo_settings = \<lparr>s_url = ''/x'', s_type = ''GET'', s_dataType = None, s_dataTypes = [], s_data = [],
     s_contentType = None, s_own_contentType = False, s_no_cache = False, s_global = True, s_async = True,
     s_timeout = 0, s_crossDomain = None, s_ifModified = False, s_hasContent = False, s_mimeType = [],
     s_headers = [], s_accepts = [(''*'', ''*/*'')], s_beforeSend = False\<rparr>"

definition fine :: outcome where
  "fine = \<lparr>o_status = 200, o_text = ''OK'', o_headers = []\<rparr>"

text \<open>A request that is started, sent and answered, with nothing else happening.\<close>

definition undisturbed :: "nat \<Rightarrow> choice list" where
  "undisturbed r = [NewRequest demo_settings, Return True, Return True, Return True, Return True, Return True,
     Answer r fine] @ replicate 7 (Return True)"

end
