(* ===== verification/JQ_Ajax_Counter.thy ===== *)
theory JQ_Ajax_Counter
  imports JQ_Ajax
begin

text \<open>
  The counter \<open>jQuery.active\<close> and the global events of requests: an invariant of all executions in
  which the page aborts no request that is starting, and what happens when it does.
\<close>

section \<open>The frames of one request\<close>

fun about :: "nat \<Rightarrow> frame \<Rightarrow> bool" where
  "about r PageCode = False"
| "about r (AjaxCall k p) = (k = r)"
| "about r (DoneCall k f d) = (k = r)"
| "about r (AbortCall k t) = (k = r)"

definition own_frames :: "nat \<Rightarrow> frame list \<Rightarrow> frame list" where
  "own_frames r fs = filter (about r) fs"

lemma own_frames_simps [simp]:
  "own_frames r [] = []"
  "own_frames r (f # fs) = (if about r f then f # own_frames r fs else own_frames r fs)"
  by (simp_all add: own_frames_def)

text \<open>A call of \<open>ajax\<close> is below everything else of its request.\<close>

fun ajax_last :: "frame list \<Rightarrow> bool" where
  "ajax_last [] = True"
| "ajax_last (AjaxCall r p # gs) = (gs = [])"
| "ajax_last (f # gs) = ajax_last gs"

fun point_ok :: "request \<Rightarrow> nat \<Rightarrow> point \<Rightarrow> bool" where
  "point_ok q n Prefilters = (\<not> sent q \<and> \<not> fireGlobals q \<and> \<not> counted q)"
| "point_ok q n Begin = (\<not> sent q \<and> \<not> fireGlobals q \<and> \<not> counted q)"
| "point_ok q n Sending = True"
| "point_ok q n SetTimer = (\<not> sent q \<and> xstate q = 0 \<and> n = 1 \<and> transport q)"
| "point_ok q n Send = (\<not> sent q \<and> xstate q = 0 \<and> n = 1 \<and> transport q)"
| "point_ok q n p = (\<not> sent q \<and> (critical p \<longrightarrow> xstate q = 0 \<and> n = 1))"

text \<open>\<open>done\<close> past its first test, with what holds of the event \<open>ajaxComplete\<close>: \<open>m\<close> says it was triggered.\<close>

fun finish_ok :: "request \<Rightarrow> bool \<Rightarrow> finish \<Rightarrow> bool" where
  "finish_ok q m Enter = True"
| "finish_ok q m Count = (xstate q = 2 \<and> fireGlobals q \<and> counted q)"
| "finish_ok q m _ = (xstate q = 2 \<and> (fireGlobals q \<longrightarrow> counted q) \<and> \<not> m)"

fun frame_ok :: "request \<Rightarrow> nat \<Rightarrow> bool \<Rightarrow> frame \<Rightarrow> bool" where
  "frame_ok q n m PageCode = True"
| "frame_ok q n m (AjaxCall r p) = point_ok q n p"
| "frame_ok q n m (DoneCall r f d) = finish_ok q m d"
| "frame_ok q n m (AbortCall r t) = True"

fun past_test :: "frame \<Rightarrow> bool" where
  "past_test (DoneCall r f d) = (d \<noteq> Enter)"
| "past_test _ = False"

definition request_ok :: "request \<Rightarrow> nat \<Rightarrow> frame list \<Rightarrow> bool" where
  "request_ok q m gs \<longleftrightarrow>
     ajax_last gs \<and> list_all (frame_ok q (length gs) (0 < m)) gs \<and>
     length (filter past_test gs) \<le> 1 \<and>
     m \<le> 1 \<and> (xstate q < 2 \<longrightarrow> m = 0) \<and>
     xstate q \<le> 2 \<and> (xstate q = 1 \<longrightarrow> sent q) \<and>
     (xstate q < 2 \<and> fireGlobals q \<longrightarrow> counted q)"

definition count_of :: "event \<Rightarrow> world \<Rightarrow> nat" where
  "count_of e w = length (filter (\<lambda>x. x = e) (log w))"

text \<open>\<open>ajaxStart\<close> and \<open>ajaxStop\<close> in turn, as long as a request is counted in between.\<close>

fun in_turn :: "bool \<Rightarrow> event list \<Rightarrow> bool \<Rightarrow> bool" where
  "in_turn busy [] now = (busy = now)"
| "in_turn busy (Trigger ev r # es) now =
     (if ev = ''ajaxStart'' then \<not> busy \<and> in_turn True es now
      else if ev = ''ajaxStop'' then busy \<and> in_turn False es now
      else in_turn busy es now)"
| "in_turn busy (e # es) now = in_turn busy es now"

definition ajax_ok :: "config \<Rightarrow> bool" where
  "ajax_ok c \<longleftrightarrow> (let (w, fs) = c in
     (\<forall>r. own_frames r fs \<noteq> [] \<longrightarrow> r < length (requests w)) \<and>
     (\<forall>r < length (requests w). request_ok (req w r) (count_of (Trigger ''ajaxComplete'' r) w) (own_frames r fs)) \<and>
     (\<forall>r. length (requests w) \<le> r \<longrightarrow> count_of (Trigger ''ajaxComplete'' r) w = 0) \<and>
     active w = int (length (filter counted (requests w))) \<and>
     in_turn False (log w) (0 < active w))"

lemma ajax_ok_initial: "ajax_ok initial"
  by (simp add: ajax_ok_def initial_def count_of_def)

subsection \<open>What a step has to keep\<close>

lemma in_turn_append: "in_turn a (xs @ ys) c \<longleftrightarrow> (\<exists>b. in_turn a xs b \<and> in_turn b ys c)"
proof (induction xs arbitrary: a)
  case (Cons x xs)
  then show ?case by (cases x) auto
qed simp

lemma count_of_append: "log w' = log w @ es \<Longrightarrow> count_of e w' = count_of e w + length (filter (\<lambda>x. x = e) es)"
  by (simp add: count_of_def)

lemma count_update:
  "r < length xs \<Longrightarrow>
     int (length (filter P (xs[r := x]))) = int (length (filter P xs)) + of_bool (P x) - of_bool (P (xs ! r))"
proof (induction xs arbitrary: r)
  case (Cons y ys)
  then show ?case by (cases r) auto
qed simp

lemma ajax_ok_step:
  assumes ok: "ajax_ok (w, fs)" and r: "r < length (requests w)"
    and reqs: "requests w' = (requests w)[r := q']"
    and log: "log w' = log w @ es"
    and own: "\<And>k. k \<noteq> r \<Longrightarrow> own_frames k fs' = own_frames k fs"
    and es: "\<And>k. k \<noteq> r \<Longrightarrow> filter (\<lambda>x. x = Trigger ''ajaxComplete'' k) es = []"
    and q: "request_ok q' (count_of (Trigger ''ajaxComplete'' r) w +
        length (filter (\<lambda>x. x = Trigger ''ajaxComplete'' r) es)) (own_frames r fs')"
    and act: "active w' = active w + of_bool (counted q') - of_bool (counted (req w r))"
    and turn: "in_turn (0 < active w) es (0 < active w')"
  shows "ajax_ok (w', fs')"
proof -
  have old: "\<And>k. own_frames k fs \<noteq> [] \<Longrightarrow> k < length (requests w)"
    "\<And>k. k < length (requests w) \<Longrightarrow>
       request_ok (req w k) (count_of (Trigger ''ajaxComplete'' k) w) (own_frames k fs)"
    "\<And>k. length (requests w) \<le> k \<Longrightarrow> count_of (Trigger ''ajaxComplete'' k) w = 0"
    "active w = int (length (filter counted (requests w)))"
    "in_turn False (log w) (0 < active w)"
    using ok by (auto simp: ajax_ok_def)
  have "own_frames k fs' \<noteq> [] \<Longrightarrow> k < length (requests w)" for k
    using old(1) own r by (cases "k = r") auto
  moreover have "request_ok (req w' k) (count_of (Trigger ''ajaxComplete'' k) w') (own_frames k fs')"
    if "k < length (requests w)" for k
  proof (cases "k = r")
    case True
    then show ?thesis using q r by (simp add: req_def reqs count_of_append [OF log])
  next
    case False
    then show ?thesis using old(2) [OF that] own es by (simp add: req_def reqs count_of_append [OF log])
  qed
  moreover have "count_of (Trigger ''ajaxComplete'' k) w' = 0" if "length (requests w) \<le> k" for k
    using old(3) [OF that] es [of k] that r by (simp add: count_of_append [OF log])
  moreover have "active w' = int (length (filter counted (requests w')))"
    using act old(4) count_update [OF r, of counted q'] by (simp add: reqs req_def)
  moreover have "in_turn False (log w') (0 < active w')"
    using old(5) turn unfolding log in_turn_append by blast
  ultimately show ?thesis by (simp add: ajax_ok_def reqs)
qed

text \<open>Steps that say nothing and leave the counter alone.\<close>

lemma ajax_ok_silent:
  assumes "ajax_ok (w, fs)" "r < length (requests w)"
    and "requests w' = (requests w)[r := q']" "log w' = log w" "active w' = active w"
    and "\<And>k. k \<noteq> r \<Longrightarrow> own_frames k fs' = own_frames k fs"
    and "request_ok q' (count_of (Trigger ''ajaxComplete'' r) w) (own_frames r fs')"
    and "counted q' = counted (req w r)"
  shows "ajax_ok (w', fs')"
proof -
  have "in_turn (0 < active w) [] (0 < active w')" by (simp add: assms(5))
  then show ?thesis
    using assms(4,5,7,8)
    by (intro ajax_ok_step [OF assms(1,2,3) _ assms(6), of "[]"]) (simp_all del: in_turn.simps)
qed

lemma ajax_ok_frames:
  assumes "ajax_ok (w, fs)" "r < length (requests w)"
    and "\<And>k. k \<noteq> r \<Longrightarrow> own_frames k fs' = own_frames k fs"
    and "request_ok (req w r) (count_of (Trigger ''ajaxComplete'' r) w) (own_frames r fs')"
  shows "ajax_ok (w, fs')"
  by (rule ajax_ok_silent [OF assms(1,2) _ refl refl assms(3,4)]) (simp_all add: req_def)

lemma ajax_ok_own:
  assumes "ajax_ok (w, fs)" "\<And>k. own_frames k fs' = own_frames k fs"
  shows "ajax_ok (w, fs')"
  using assms(1) unfolding ajax_ok_def Let_def case_prod_conv assms(2) .

lemma ajax_ok_PageCode [simp]: "ajax_ok (w, PageCode # fs) = ajax_ok (w, fs)"
  by (simp add: ajax_ok_def)

lemma ajax_ok_request:
  assumes "ajax_ok (w, f # fs)" "about r f"
  shows "r < length (requests w)"
    and "request_ok (req w r) (count_of (Trigger ''ajaxComplete'' r) w) (f # own_frames r fs)"
proof -
  have eq: "own_frames r (f # fs) = f # own_frames r fs" using assms(2) by simp
  have "\<forall>r. own_frames r (f # fs) \<noteq> [] \<longrightarrow> r < length (requests w)"
    using assms(1) unfolding ajax_ok_def Let_def case_prod_conv by (rule conjunct1)
  from spec [OF this, of r] eq show r: "r < length (requests w)" by simp
  have "\<forall>r < length (requests w). request_ok (req w r) (count_of (Trigger ''ajaxComplete'' r) w) (own_frames r (f # fs))"
    using assms(1) unfolding ajax_ok_def Let_def case_prod_conv by (elim conjE)
  from this [rule_format, OF r] eq
  show "request_ok (req w r) (count_of (Trigger ''ajaxComplete'' r) w) (f # own_frames r fs)" by simp
qed

lemma ajax_ok_exists:
  "ajax_ok (w, fs) \<Longrightarrow> exists w r \<Longrightarrow>
     request_ok (req w r) (count_of (Trigger ''ajaxComplete'' r) w) (own_frames r fs)"
  by (simp add: ajax_ok_def exists_def)

text \<open>What is required of a request depends on five of its fields.\<close>

lemma frame_ok_cong:
  assumes "xstate q' = xstate q" "sent q' = sent q" "fireGlobals q' = fireGlobals q" "counted q' = counted q"
    "transport q' = transport q"
  shows "frame_ok q' = frame_ok q"
proof (intro ext)
  fix n m f
  show "frame_ok q' n m f = frame_ok q n m f"
  proof (cases f)
    case (AjaxCall r p)
    then show ?thesis using assms by (cases p) simp_all
  next
    case (DoneCall r g d)
    then show ?thesis using assms by (cases d) simp_all
  qed simp_all
qed

lemma request_ok_cong:
  assumes "xstate q' = xstate q" "sent q' = sent q" "fireGlobals q' = fireGlobals q" "counted q' = counted q"
    "transport q' = transport q"
  shows "request_ok q' = request_ok q"
  by (intro ext) (simp add: request_ok_def frame_ok_cong [OF assms] assms)

lemma frame_ok_calm:
  assumes "frame_ok q n b f" "2 \<le> n \<or> \<not> frame_starts r f" "about r f"
  shows "frame_ok q n' b f"
proof (cases f)
  case (AjaxCall k p)
  then show ?thesis using assms by (cases p) auto
next
  case (DoneCall k g d)
  then show ?thesis using assms by (cases d) auto
qed simp_all

lemma frame_ok_settle:
  assumes "frame_ok q n b f" "2 \<le> n" "\<not> past_test f"
    and "sent q' = sent q" "fireGlobals q' = fireGlobals q" "counted q' \<longrightarrow> counted q"
  shows "frame_ok q' n' b' f"
proof (cases f)
  case (AjaxCall k p)
  then show ?thesis using assms by (cases p) auto
next
  case (DoneCall k g d)
  then show ?thesis using assms by (cases d) auto
qed simp_all

lemma own_about: "f \<in> set (own_frames r fs) \<Longrightarrow> about r f"
  by (simp add: own_frames_def)

lemma frames_ok_calm:
  "list_all (frame_ok q n b) (own_frames r fs) \<Longrightarrow> 2 \<le> n \<or> \<not> starting r fs \<Longrightarrow>
     list_all (frame_ok q n' b) (own_frames r fs)"
  using frame_ok_calm [of q n b _ r n'] by (auto simp: list_all_iff list_ex_iff starting_def own_frames_def)

lemma frames_ok_settle:
  "list_all (frame_ok q n b) gs \<Longrightarrow> 2 \<le> n \<Longrightarrow> filter past_test gs = [] \<Longrightarrow>
     sent q' = sent q \<Longrightarrow> fireGlobals q' = fireGlobals q \<Longrightarrow> counted q' \<longrightarrow> counted q \<Longrightarrow>
     list_all (frame_ok q' n' b') gs"
  using frame_ok_settle [of q n b _ q' n' b'] by (auto simp: list_all_iff filter_empty_conv)

subsection \<open>The library keeps it\<close>

lemma own_call_done [simp]:
  "own_frames k (call_done r st t fs) =
     (if k = r then call_done r st t (own_frames r fs) else own_frames k fs)"
  by (auto simp: call_done_def)

lemma request_ok_single:
  "request_ok q m [AjaxCall r p] \<longleftrightarrow> point_ok q 1 p \<and> m \<le> 1 \<and> (xstate q < 2 \<longrightarrow> m = 0) \<and>
     xstate q \<le> 2 \<and> (xstate q = 1 \<longrightarrow> sent q) \<and> (xstate q < 2 \<and> fireGlobals q \<longrightarrow> counted q)"
  by (simp add: request_ok_def)

lemma request_ok_empty:
  "request_ok q m [] \<longleftrightarrow> m \<le> 1 \<and> (xstate q < 2 \<longrightarrow> m = 0) \<and>
     xstate q \<le> 2 \<and> (xstate q = 1 \<longrightarrow> sent q) \<and> (xstate q < 2 \<and> fireGlobals q \<longrightarrow> counted q)"
  by (simp add: request_ok_def)

lemma request_ok_done:
  "request_ok q m (call_done r st t []) \<longleftrightarrow> request_ok q m []"
  "request_ok q m [AbortCall r t] \<longleftrightarrow> request_ok q m []"
  by (simp_all add: request_ok_def call_done_def)

lemma ajax_alone:
  assumes "ajax_ok (w, AjaxCall r p # fs)"
  shows "own_frames r fs = []" and "r < length (requests w)"
    and "request_ok (req w r) (count_of (Trigger ''ajaxComplete'' r) w) [AjaxCall r p]"
proof -
  have q: "request_ok (req w r) (count_of (Trigger ''ajaxComplete'' r) w) (AjaxCall r p # own_frames r fs)"
    using ajax_ok_request(2) [OF assms, of r] by simp
  then show e: "own_frames r fs = []" by (simp add: request_ok_def)
  show "r < length (requests w)" using ajax_ok_request(1) [OF assms, of r] by simp
  from q e show "request_ok (req w r) (count_of (Trigger ''ajaxComplete'' r) w) [AjaxCall r p]" by simp
qed

text \<open>Steps that replace the frame on top and trigger none of the three events that are counted.\<close>

definition plain_event :: "event \<Rightarrow> bool" where
  "plain_event e \<longleftrightarrow>
     (case e of Trigger ev r \<Rightarrow> ev \<notin> {''ajaxStart'', ''ajaxStop'', ''ajaxComplete''} | _ \<Rightarrow> True)"

lemma frame_step:
  assumes ok: "ajax_ok (w, f # fs)" and f: "about r f"
    and w': "requests w' = (requests w)[r := q']" "log w' = log w @ es" "active w' = active w"
    and es: "list_all plain_event es"
    and own: "\<And>k. k \<noteq> r \<Longrightarrow> own_frames k fs' = own_frames k fs"
    and q: "request_ok (req w r) (count_of (Trigger ''ajaxComplete'' r) w) (f # own_frames r fs) \<Longrightarrow>
        request_ok q' (count_of (Trigger ''ajaxComplete'' r) w) (own_frames r fs') \<and> counted q' = counted (req w r)"
  shows "ajax_ok (w', fs')"
proof -
  note req = ajax_ok_request [OF ok f]
  have none: "filter (\<lambda>x. x = Trigger ''ajaxComplete'' k) es = []" for k
    using es by (auto simp: filter_empty_conv list_all_iff plain_event_def)
  have turn: "in_turn b es b" for b
    using es
  proof (induction es)
    case (Cons e es)
    then show ?case by (cases e) (auto simp: plain_event_def)
  qed simp
  have "own_frames k fs' = own_frames k (f # fs)" if "k \<noteq> r" for k
    using own [OF that] that f by (cases f) auto
  moreover have "request_ok q' (count_of (Trigger ''ajaxComplete'' r) w +
      length (filter (\<lambda>x. x = Trigger ''ajaxComplete'' r) es)) (own_frames r fs')"
    using q [OF req(2)] none by simp
  moreover have "active w' = active w + of_bool (counted q') - of_bool (counted (req w r))"
    using q [OF req(2)] w'(3) by simp
  moreover have "in_turn (0 < active w) es (0 < active w')" unfolding w'(3) by (rule turn)
  ultimately show ?thesis by (intro ajax_ok_step [OF ok req(1) w'(1,2) _ none])
qed

lemma ajax_frame_step:
  assumes ok: "ajax_ok (w, AjaxCall r p # fs)"
    and w': "requests w' = (requests w)[r := q']" "log w' = log w @ es" "active w' = active w"
    and es: "list_all plain_event es"
    and own: "\<And>k. k \<noteq> r \<Longrightarrow> own_frames k fs' = own_frames k fs"
    and q: "request_ok (req w r) (count_of (Trigger ''ajaxComplete'' r) w) [AjaxCall r p] \<Longrightarrow>
        request_ok q' (count_of (Trigger ''ajaxComplete'' r) w) (own_frames r fs') \<and> counted q' = counted (req w r)"
  shows "ajax_ok (w', fs')"
  by (rule frame_step [OF ok _ w' es own]) (use q ajax_alone(1) [OF ok] in simp_all)

lemma request_ok_waiting:
  assumes "request_ok q m gs" "\<not> list_ex (frame_starts r) gs" "\<forall>f \<in> set gs. about r f"
    and f: "f = AbortCall r t \<or> f = DoneCall r g Enter"
  shows "request_ok q m (f # gs)"
proof -
  have "list_all (frame_ok q (Suc (length gs)) (0 < m)) gs"
    using assms(1-3) frame_ok_calm [of q "length gs" "0 < m" _ r "Suc (length gs)"]
    by (auto simp: request_ok_def list_all_iff list_ex_iff)
  then show ?thesis using assms(1) f by (auto simp: request_ok_def)
qed

lemma own_not_starting: "\<not> starting r fs \<Longrightarrow> \<not> list_ex (frame_starts r) (own_frames r fs)"
  by (auto simp: starting_def list_ex_iff own_frames_def)

lemma call_abort_ok:
  assumes ok: "ajax_ok (w, gs)" and r: "r < length (requests w)"
    and own: "\<And>k. k \<noteq> r \<Longrightarrow> own_frames k fs = own_frames k gs"
    and q: "request_ok (req w r) (count_of (Trigger ''ajaxComplete'' r) w) (own_frames r fs)"
    and calm: "\<not> starting r fs"
  shows "ajax_ok (call_abort r t w fs)"
proof -
  have all: "\<forall>f \<in> set (own_frames r fs). about r f" by (simp add: own_frames_def)
  note new = request_ok_waiting [OF q own_not_starting [OF calm] all]
  show ?thesis
  proof (cases "transport (req w r)")
    case True
    let ?t = "if t = [] then ''abort'' else t"
    have "ajax_ok (say (TransportAbort r ?t) w, PageCode # AbortCall r ?t # fs)"
      by (rule ajax_ok_step [OF ok r, where q' = "req w r" and es = "[TransportAbort r ?t]"])
        (use own new in \<open>auto simp: req_def\<close>)
    with True show ?thesis by (simp add: call_abort_def Let_def)
  next
    case False
    have "ajax_ok (w, call_done r 0 (if t = [] then ''abort'' else t) fs)"
      by (rule ajax_ok_frames [OF ok r]) (use own new in \<open>auto simp: call_done_def\<close>)
    with False show ?thesis by (simp add: call_abort_def Let_def)
  qed
qed

lemma begin_request_ok:
  assumes ok: "ajax_ok (w, AjaxCall r Begin # fs)"
  shows "ajax_ok (begin_request r w fs)"
proof (cases "xstate (req w r) = 2")
  case True
  have "ajax_ok (w, fs)"
    by (rule ajax_frame_step [OF ok, where q' = "req w r" and es = "[]"])
      (use ajax_alone(1) [OF ok] in \<open>auto simp: req_def request_ok_single request_ok_empty\<close>)
  with True show ?thesis by (simp add: begin_request_def)
next
  case False
  note alone = ajax_alone [OF ok]
  let ?f = "\<lambda>q. change_settings (\<lambda>s. s\<lparr>s_type := upper (s_type s), s_hasContent := hasContent (upper (s_type s))\<rparr>)
    (q\<lparr>fireGlobals := s_global (conf (req w r))\<rparr>)"
  have f: "xstate (?f q) = xstate q" "sent (?f q) = sent q" "counted (?f q) = counted q"
    "fireGlobals (?f q) = s_global (conf (req w r))" for q
    by (simp_all add: change_settings_def)
  show ?thesis
  proof (cases "s_global (conf (req w r))")
    case g: True
    let ?q = "(?f (req w r))\<lparr>counted := True\<rparr>"
    let ?w = "upd r (\<lambda>q. q\<lparr>counted := True\<rparr>) ((upd r ?f w)\<lparr>active := active w + 1\<rparr>)"
    have q: "request_ok ?q (count_of (Trigger ''ajaxComplete'' r) w) [AjaxCall r Headers]"
      using alone(3) False f g by (auto simp: request_ok_single)
    have nc: "\<not> counted (req w r)" using alone(3) by (simp add: request_ok_single)
    have pos: "0 \<le> active w" using ok by (simp add: ajax_ok_def)
    note facts = nc pos q alone(1,2)
    have "ajax_ok (say (Trigger ''ajaxStart'' r) ?w, PageCode # AjaxCall r Headers # fs)" if "active w = 0"
      by (rule ajax_ok_step [OF ok alone(2), where q' = ?q and es = "[Trigger ''ajaxStart'' r]"])
        (use that facts in \<open>auto simp: req_def\<close>)
    moreover have "ajax_ok (?w, AjaxCall r Headers # fs)" if "active w \<noteq> 0"
      by (rule ajax_ok_step [OF ok alone(2), where q' = ?q and es = "[]"])
        (use that facts in \<open>auto simp: req_def\<close>)
    ultimately show ?thesis using False g by (simp add: begin_request_def trigger_def Let_def)
  next
    case g: False
    have "ajax_ok (upd r ?f w, AjaxCall r Headers # fs)"
      by (rule ajax_frame_step [OF ok, where q' = "?f (req w r)" and es = "[]"])
        (use alone False f g in \<open>auto simp: req_def request_ok_single\<close>)
    with False g show ?thesis by (simp add: begin_request_def Let_def)
  qed
qed

text \<open>Preparing a request changes none of the five fields.\<close>

definition same_phase :: "request \<Rightarrow> request \<Rightarrow> bool" where
  "same_phase q' q \<longleftrightarrow> xstate q' = xstate q \<and> sent q' = sent q \<and>
     fireGlobals q' = fireGlobals q \<and> counted q' = counted q \<and> transport q' = transport q"

lemma same_phase_refl [simp]: "same_phase q q"
  by (simp add: same_phase_def)

lemma same_phase_trans: "same_phase a b \<Longrightarrow> same_phase b c \<Longrightarrow> same_phase a c"
  by (simp add: same_phase_def)

lemma same_phase_set_header [simp]: "same_phase (set_header P n v q) q"
  by (simp add: same_phase_def set_header_def)

lemma same_phase_change_settings [simp]: "same_phase (change_settings f q) q"
  by (simp add: same_phase_def change_settings_def)

lemma same_phase_set_timer: "same_phase (set_timer q) q"
  by (simp add: same_phase_def set_timer_def)

lemma same_phase_headers: "same_phase (fold (\<lambda>(n, v). set_header P n v) hs q) q"
proof (induction hs arbitrary: q)
  case (Cons h hs)
  obtain n v where "h = (n, v)" by (cases h)
  then show ?case using same_phase_trans [OF Cons same_phase_set_header] by simp
qed simp

lemma same_phase_prepare: "same_phase (prepare P w q) q"
proof -
  have "same_phase (data_in_url P q) q"
    by (simp add: data_in_url_def Let_def same_phase_def change_settings_def)
  moreover have "same_phase (content_header P a) a" for a
    by (simp add: content_header_def)
  moreover have "same_phase (modified_headers P w a) a" for a
    by (simp add: modified_headers_def Let_def same_phase_def set_header_def)
  ultimately have "same_phase (modified_headers P w (content_header P (data_in_url P q))) q"
    by (blast intro: same_phase_trans)
  then show ?thesis
    unfolding prepare_def Let_def
    by (blast intro: same_phase_trans same_phase_headers same_phase_set_header)
qed

lemma request_ok_same: "same_phase q' q \<Longrightarrow> request_ok q' = request_ok q"
  by (rule request_ok_cong) (simp_all add: same_phase_def)

text \<open>Steps that only move the frame of \<open>ajax\<close>, for points that allow the same.\<close>

lemma ajax_move:
  assumes ok: "ajax_ok (w, AjaxCall r p # fs)" and same: "same_phase q' (req w r)"
    and w': "requests w' = (requests w)[r := q']" "log w' = log w" "active w' = active w"
    and fs': "fs' = AjaxCall r p' # fs \<or> fs' = PageCode # AjaxCall r p' # fs"
    and p: "point_ok (req w r) 1 p \<longrightarrow> xstate (req w r) \<le> 2 \<longrightarrow> (xstate (req w r) = 1 \<longrightarrow> sent (req w r)) \<longrightarrow>
        point_ok (req w r) 1 p'"
  shows "ajax_ok (w', fs')"
proof -
  note alone = ajax_alone [OF ok]
  have own: "own_frames r fs' = [AjaxCall r p']" "\<And>k. k \<noteq> r \<Longrightarrow> own_frames k fs' = own_frames k fs"
    using fs' alone(1) by auto
  have "request_ok (req w r) (count_of (Trigger ''ajaxComplete'' r) w) [AjaxCall r p']"
    using alone(3) p unfolding request_ok_single by simp
  then have "request_ok q' (count_of (Trigger ''ajaxComplete'' r) w) (own_frames r fs')"
    unfolding own(1) request_ok_same [OF same] .
  moreover have "counted q' = counted (req w r)" using same by (simp add: same_phase_def)
  ultimately show ?thesis
    by (intro ajax_frame_step [OF ok w'(1) _ w'(3) _ own(2), where es = "[]"]) (simp_all add: w'(2))
qed

lemma take_transport_ok:
  assumes ok: "ajax_ok (w, AjaxCall r (TransportAnswer b) # fs)"
  shows "ajax_ok (take_transport r b w fs)"
proof (cases b)
  case False
  note alone = ajax_alone [OF ok]
  have "ajax_ok (upd r (\<lambda>q. q\<lparr>transport := False\<rparr>) w, call_done r (-1) ''No Transport'' fs)"
    by (rule ajax_frame_step [OF ok, where q' = "(req w r)\<lparr>transport := False\<rparr>" and es = "[]"])
      (use alone in \<open>auto simp: req_def request_ok_done request_ok_single request_ok_empty\<close>)
  with False show ?thesis by (simp add: take_transport_def Let_def)
next
  case True
  note alone = ajax_alone [OF ok]
  let ?w = "upd r (\<lambda>q. q\<lparr>readyState := 1\<rparr>) (upd r (\<lambda>q. q\<lparr>transport := True\<rparr>) w)"
  let ?q = "(req w r)\<lparr>transport := True, readyState := 1\<rparr>"
  have "ajax_ok (?w, AjaxCall r SetTimer # fs)"
    by (rule ajax_frame_step [OF ok, where q' = ?q and es = "[]"])
      (use alone in \<open>auto simp: req_def request_ok_single\<close>)
  moreover have "ajax_ok (say (Trigger ''ajaxSend'' r) ?w, PageCode # AjaxCall r SetTimer # fs)"
    by (rule ajax_frame_step [OF ok, where q' = ?q and es = "[Trigger ''ajaxSend'' r]"])
      (use alone in \<open>auto simp: req_def request_ok_single plain_event_def\<close>)
  ultimately show ?thesis using True by (simp add: take_transport_def trigger_def Let_def)
qed

lemma send_request_ok:
  assumes ok: "ajax_ok (w, AjaxCall r Send # fs)"
  shows "ajax_ok (send_request r w fs)"
proof -
  note alone = ajax_alone [OF ok]
  let ?w = "upd r (\<lambda>q. q\<lparr>xstate := 1\<rparr>) w"
  let ?e = "Sent r (s_url (conf (req w r))) (requestHeaders (headers (req w r)))"
  have "ajax_ok (say ?e (upd r (\<lambda>q. q\<lparr>sent := True\<rparr>) ?w), PageCode # AjaxCall r Sending # fs)"
    by (rule ajax_frame_step [OF ok, where q' = "(req w r)\<lparr>xstate := 1, sent := True\<rparr>" and es = "[?e]"])
      (use alone in \<open>auto simp: req_def request_ok_single plain_event_def\<close>)
  moreover have "transport (req w r)" using alone(3) by (simp add: request_ok_single)
  ultimately show ?thesis by (simp add: send_request_def Let_def)
qed

lemma ajax_step_ok:
  assumes ok: "ajax_ok (w, AjaxCall r p # fs)"
  shows "ajax_ok (ajax_step P r p w fs)"
proof -
  note alone = ajax_alone [OF ok]
  have stay: "requests w = (requests w)[r := req w r]" by (simp add: req_def)
  show ?thesis
  proof (cases p)
    case Prefilters
    show ?thesis unfolding Prefilters ajax_step.simps
      by (rule ajax_move [OF ok _ stay, where p' = Begin]) (simp_all add: Prefilters)
  next
    case Begin
    then show ?thesis using begin_request_ok ok by simp
  next
    case Headers
    show ?thesis unfolding Headers ajax_step.simps
      by (rule ajax_move [OF ok same_phase_prepare [of P w], where p' = BeforeSend]) (simp_all add: Headers req_def)
  next
    case BeforeSend
    show ?thesis unfolding BeforeSend ajax_step.simps
      by (rule ajax_move [OF ok _ stay, where p' = "if s_beforeSend (conf (req w r)) then AskedBefore else Install"])
        (simp_all add: BeforeSend)
  next
    case AskedBefore
    show ?thesis unfolding AskedBefore ajax_step.simps
      by (rule ajax_move [OF ok _ stay, where p' = "BeforeAnswer False"]) (simp_all add: AskedBefore)
  next
    case (BeforeAnswer b)
    have "ajax_ok (call_abort r [] w fs)"
      using alone ok
      by (intro call_abort_ok [OF ok]) (auto simp: request_ok_single request_ok_empty starting_def BeforeAnswer
          own_frames_def filter_empty_conv list_ex_iff elim!: frame_starts.elims)
    moreover have "ajax_ok (w, AjaxCall r Install # fs)" if "xstate (req w r) \<noteq> 2"
      by (rule ajax_move [OF ok _ stay, where p' = Install]) (use that in \<open>auto simp: BeforeAnswer\<close>)
    ultimately show ?thesis by (simp add: BeforeAnswer)
  next
    case Install
    show ?thesis unfolding Install ajax_step.simps
      by (rule ajax_move [OF ok _ stay, where p' = Select]) (simp_all add: Install)
  next
    case Select
    show ?thesis unfolding Select ajax_step.simps
      by (rule ajax_move [OF ok _ stay, where p' = AskedTransport]) (simp_all add: Select)
  next
    case AskedTransport
    show ?thesis unfolding AskedTransport ajax_step.simps
      by (rule ajax_move [OF ok _ stay, where p' = "TransportAnswer False"]) (simp_all add: AskedTransport)
  next
    case (TransportAnswer b)
    then show ?thesis using take_transport_ok ok by simp
  next
    case SetTimer
    show ?thesis unfolding SetTimer ajax_step.simps
      by (rule ajax_move [OF ok same_phase_set_timer, where p' = Send]) (simp_all add: SetTimer req_def)
  next
    case Send
    then show ?thesis using send_request_ok ok by simp
  next
    case Sending
    show ?thesis unfolding Sending ajax_step.simps
      by (rule ajax_frame_step [OF ok stay, where es = "[]"])
        (use alone in \<open>auto simp: request_ok_single request_ok_empty\<close>)
  qed
qed

lemma frames_ok_pop:
  assumes "request_ok q m (f # own_frames r fs)" "\<forall>k p. f \<noteq> AjaxCall k p"
  shows "request_ok q m (own_frames r fs)"
proof (cases "own_frames r fs = []")
  case False
  then have "2 \<le> Suc (length (own_frames r fs))" by (simp add: Suc_le_eq)
  then have "list_all (frame_ok q (length (own_frames r fs)) (0 < m)) (own_frames r fs)"
    using assms(1) frames_ok_calm [of q "Suc (length (own_frames r fs))" "0 < m" r fs] by (simp add: request_ok_def)
  then show ?thesis using assms by (cases f) (auto simp: request_ok_def split: if_splits)
qed (use assms(1) in \<open>simp add: request_ok_def\<close>)

lemma no_past_test:
  "list_all (frame_ok q n b) gs \<Longrightarrow> xstate q \<noteq> 2 \<Longrightarrow> filter past_test gs = []"
proof (induction gs)
  case (Cons g gs)
  have "\<not> past_test g"
  proof (cases g)
    case (DoneCall r f d)
    then show ?thesis using Cons.prems by (cases d) auto
  qed simp_all
  then show ?case using Cons by simp
qed simp

text \<open>The frames below, after \<open>done\<close> has changed what only its own frames depend on.\<close>

lemma frames_ok_below:
  assumes "list_all (frame_ok q (Suc (length gs)) b) gs" "filter past_test gs = []"
    and "sent q' = sent q" "fireGlobals q' = fireGlobals q" "counted q' \<longrightarrow> counted q"
  shows "list_all (frame_ok q' n' b') gs"
proof (cases "gs = []")
  case False
  then have "2 \<le> Suc (length gs)" by (simp add: Suc_le_eq)
  from frames_ok_settle [OF assms(1) this assms(2-5)] show ?thesis .
qed simp

lemma done_view:
  assumes "request_ok q m (DoneCall r f d # gs)"
  shows "ajax_last gs" "finish_ok q (0 < m) d" "list_all (frame_ok q (Suc (length gs)) (0 < m)) gs"
    "d \<noteq> Enter \<or> xstate q \<noteq> 2 \<Longrightarrow> filter past_test gs = []"
    "m \<le> 1" "xstate q < 2 \<longrightarrow> m = 0" "xstate q \<le> 2" "xstate q = 1 \<longrightarrow> sent q"
    "xstate q < 2 \<and> fireGlobals q \<longrightarrow> counted q"
  using assms no_past_test [of q "Suc (length gs)" "0 < m" gs] by (auto simp: request_ok_def)

lemma done_move:
  assumes ok: "ajax_ok (w, DoneCall r f d # fs)" and d: "d \<noteq> Enter" "d' \<noteq> Enter"
    and same: "same_phase q' (req w r)"
    and w': "requests w' = (requests w)[r := q']" "log w' = log w @ es" "active w' = active w"
    and es: "list_all plain_event es"
    and fs': "fs' = DoneCall r f' d' # fs \<or> fs' = PageCode # DoneCall r f' d' # fs"
    and fin: "\<And>b. finish_ok (req w r) b d \<longrightarrow> finish_ok (req w r) b d'"
  shows "ajax_ok (w', fs')"
proof -
  have own: "own_frames r fs' = DoneCall r f' d' # own_frames r fs"
    "\<And>k. k \<noteq> r \<Longrightarrow> own_frames k fs' = own_frames k fs"
    using fs' by auto
  let ?m = "count_of (Trigger ''ajaxComplete'' r) w"
  have "request_ok (req w r) ?m (DoneCall r f d # own_frames r fs)"
    using ajax_ok_request(2) [OF ok, of r] by simp
  then have "request_ok (req w r) ?m (DoneCall r f' d' # own_frames r fs)"
    using d fin [of "0 < ?m"] by (simp add: request_ok_def)
  then have "request_ok q' ?m (own_frames r fs')"
    unfolding own(1) request_ok_same [OF same] .
  moreover have "counted q' = counted (req w r)" using same by (simp add: same_phase_def)
  ultimately show ?thesis
    by (intro frame_step [OF ok _ w' es own(2)]) simp_all
qed

lemma enter_done_ok:
  assumes ok: "ajax_ok (w, DoneCall r f Enter # fs)"
  shows "ajax_ok (enter_done P r f w fs)"
proof -
  let ?m = "count_of (Trigger ''ajaxComplete'' r) w" and ?gs = "own_frames r fs"
  have r: "r < length (requests w)" and q: "request_ok (req w r) ?m (DoneCall r f Enter # ?gs)"
    using ajax_ok_request [OF ok, of r] by simp_all
  show ?thesis
  proof (cases "xstate (req w r) = 2")
    case True
    have "ajax_ok (w, fs)"
      by (rule frame_step [OF ok, where r = r and q' = "req w r" and es = "[]"])
        (use frames_ok_pop [OF q] in \<open>auto simp: req_def\<close>)
    with True show ?thesis by (simp add: enter_done_def)
  next
    case False
    let ?h = "mark_done f"
    have h: "xstate (?h q) = 2" "sent (?h q) = sent q" "fireGlobals (?h q) = fireGlobals q"
      "counted (?h q) = counted q" for q
      by (simp_all add: mark_done_def)
    have "list_all (frame_ok (?h (req w r)) (Suc (length ?gs)) False) ?gs"
      by (rule frames_ok_below [OF done_view(3) [OF q] done_view(4) [OF q]]) (use False h in simp_all)
    then have new: "request_ok (?h (req w r)) ?m (DoneCall r f' d' # ?gs)"
      if "case d' of Converting \<Rightarrow> True | Settle b t \<Rightarrow> True | _ \<Rightarrow> False" for f' d'
      using done_view [OF q] that False h by (cases d') (auto simp: request_ok_def)
    have step: "ajax_ok (w', DoneCall r f' d' # fs)"
      if "requests w' = requests (upd r ?h w)" "log w' = log w" "active w' = active w"
        "case d' of Converting \<Rightarrow> True | Settle b t \<Rightarrow> True | _ \<Rightarrow> False"
      for w' f' d'
      by (rule frame_step [OF ok, where r = r and q' = "?h (req w r)" and es = "[]"])
        (use that new h in \<open>auto simp: req_def\<close>)
    show ?thesis
      unfolding enter_done_def Let_def if_not_P [OF False]
      by (simp add: step)
  qed
qed

lemma done_step_ok:
  assumes ok: "ajax_ok (w, DoneCall r f d # fs)"
  shows "ajax_ok (done_step P r f d w fs)"
proof -
  let ?m = "count_of (Trigger ''ajaxComplete'' r) w" and ?gs = "own_frames r fs"
  have r: "r < length (requests w)" and q: "request_ok (req w r) ?m (DoneCall r f d # ?gs)"
    using ajax_ok_request [OF ok, of r] by simp_all
  have stay: "requests w = (requests w)[r := req w r]" by (simp add: req_def)
  show ?thesis
  proof (cases d)
    case Enter
    then show ?thesis using enter_done_ok ok by simp
  next
    case Converting
    show ?thesis unfolding Converting done_step.simps
      by (rule done_move [OF ok _ _ _ stay, where d' = "Settle True ''success''" and es = "[]"])
        (simp_all add: Converting)
  next
    case (Settle b t)
    let ?g = "\<lambda>q. q\<lparr>status := o_status f, statusText := (if o_text f \<noteq> [] then o_text f else t)\<rparr>"
    let ?d = "if b then Resolved else Rejected"
    have "ajax_ok (upd r ?g w, DoneCall r f (Codes b t) # fs)"
      by (rule done_move [OF ok, where d' = "Codes b t" and es = "[]" and q' = "?g (req w r)"])
        (simp_all add: Settle same_phase_def req_def)
    moreover have "ajax_ok (say (Settled r ?d t) (upd r (\<lambda>q. q\<lparr>deferred := ?d\<rparr>) (upd r ?g w)),
        PageCode # DoneCall r f (Codes b t) # fs)"
      by (rule done_move [OF ok, where d' = "Codes b t" and es = "[Settled r ?d t]"
            and q' = "(?g (req w r))\<lparr>deferred := ?d\<rparr>"])
        (use r in \<open>simp_all add: Settle same_phase_def req_def plain_event_def\<close>)
    ultimately show ?thesis unfolding Settle done_step.simps Let_def by simp
  next
    case (Codes b t)
    show ?thesis unfolding Codes done_step.simps
      by (rule done_move [OF ok _ _ _ stay, where d' = "Announce b t" and es = "[]"])
        (simp_all add: Codes)
  next
    case (Announce b t)
    let ?w = "upd r (\<lambda>q. q\<lparr>statusCode := False\<rparr>) w" and ?ev = "if b then ''ajaxSuccess'' else ''ajaxError''"
    have "ajax_ok (?w, DoneCall r f (Complete t) # fs)"
      by (rule done_move [OF ok, where d' = "Complete t" and es = "[]" and q' = "(req w r)\<lparr>statusCode := False\<rparr>"])
        (simp_all add: Announce same_phase_def req_def)
    moreover have "ajax_ok (say (Trigger ?ev r) ?w, PageCode # DoneCall r f (Complete t) # fs)"
      by (rule done_move [OF ok, where d' = "Complete t" and es = "[Trigger ?ev r]"
            and q' = "(req w r)\<lparr>statusCode := False\<rparr>"])
        (simp_all add: Announce same_phase_def req_def plain_event_def)
    ultimately show ?thesis unfolding Announce done_step.simps Let_def trigger_def by simp
  next
    case (Complete t)
    have "ajax_ok (w, DoneCall r f Global # fs)"
      by (rule done_move [OF ok _ _ _ stay, where d' = Global and es = "[]"]) (simp_all add: Complete)
    moreover have "ajax_ok (say (Completed r t) (upd r (\<lambda>q. q\<lparr>completed := True\<rparr>) w),
        PageCode # DoneCall r f Global # fs)"
      by (rule done_move [OF ok, where d' = Global and es = "[Completed r t]"
            and q' = "(req w r)\<lparr>completed := True\<rparr>"])
        (simp_all add: Complete same_phase_def req_def plain_event_def)
    ultimately show ?thesis unfolding Complete done_step.simps by simp
  next
    case Global
    have "ajax_ok (w, fs)"
      by (rule frame_step [OF ok, where r = r and q' = "req w r" and es = "[]"])
        (use frames_ok_pop [OF q] in \<open>auto simp: req_def\<close>)
    moreover have "ajax_ok (say (Trigger ''ajaxComplete'' r) w, DoneCall r f Count # fs)"
      if fg: "fireGlobals (req w r)"
    proof (rule ajax_ok_step [OF ok r, where q' = "req w r" and es = "[Trigger ''ajaxComplete'' r]"])
      have "list_all (frame_ok (req w r) (Suc (length ?gs)) True) ?gs"
        by (rule frames_ok_below [OF done_view(3) [OF q] done_view(4) [OF q]]) (simp_all add: Global)
      then show "request_ok (req w r) (?m + length (filter (\<lambda>x. x = Trigger ''ajaxComplete'' r)
          [Trigger ''ajaxComplete'' r])) (own_frames r (DoneCall r f Count # fs))"
        using done_view [OF q] fg Global by (auto simp: request_ok_def)
    qed (use stay in auto)
    ultimately show ?thesis unfolding Global done_step.simps trigger_def by simp
  next
    case Count
    let ?q = "(req w r)\<lparr>counted := False\<rparr>"
    let ?w = "upd r (\<lambda>q. q\<lparr>counted := False\<rparr>) (w\<lparr>active := active w - 1\<rparr>)"
    have c: "counted (req w r)" using done_view(2) [OF q] Count by simp
    have "list_all (frame_ok ?q (length ?gs) (0 < ?m)) ?gs"
      by (rule frames_ok_below [OF done_view(3) [OF q] done_view(4) [OF q]]) (simp_all add: Count)
    then have new: "request_ok ?q ?m ?gs"
      using done_view [OF q] Count by (auto simp: request_ok_def)
    have pos: "0 < active w"
    proof -
      have "active w = int (length (filter counted (requests w)))" using ok by (simp add: ajax_ok_def)
      moreover have "filter counted (requests w) \<noteq> []"
        using nth_mem [OF r] c by (auto simp: filter_empty_conv req_def)
      ultimately show ?thesis by simp
    qed
    have "ajax_ok (say (Trigger ''ajaxStop'' r) ?w, fs)" if "active w = 1"
      by (rule ajax_ok_step [OF ok r, where q' = ?q and es = "[Trigger ''ajaxStop'' r]"])
        (use that new c pos in \<open>auto simp: req_def\<close>)
    moreover have "ajax_ok (?w, fs)" if "active w \<noteq> 1"
      by (rule ajax_ok_step [OF ok r, where q' = ?q and es = "[]"])
        (use that new c pos in \<open>auto simp: req_def\<close>)
    ultimately show ?thesis unfolding Count done_step.simps trigger_def Let_def by simp
  qed
qed

lemma tick_ok:
  assumes "ajax_ok c"
  shows "ajax_ok (tick P c)"
proof (cases "(P, c)" rule: tick.cases)
  case (3 P w r t fs)
  have "ajax_ok (w, call_done r 0 t fs)"
    by (rule frame_step [where f = "AbortCall r t" and fs = fs and w = w and q' = "req w r" and es = "[]"])
      (use assms 3 in \<open>auto simp: req_def call_done_def request_ok_def\<close>)
  then show ?thesis using 3 by simp
qed (use assms ajax_step_ok done_step_ok in auto)

subsection \<open>A considerate page keeps it\<close>

lemma pop_ok:
  assumes ok: "ajax_ok (w, f # fs)"
  shows "ajax_ok (w, fs)"
proof -
  have pop: "ajax_ok (w, fs)" if f: "about r f" "\<forall>k p. f \<noteq> AjaxCall k p" for r
    by (rule frame_step [OF ok f(1), where q' = "req w r" and es = "[]"])
      (use frames_ok_pop f in \<open>auto simp: req_def\<close>)
  show ?thesis
  proof (cases f)
    case (AjaxCall r p)
    have ok': "ajax_ok (w, AjaxCall r p # fs)" using ok AjaxCall by simp
    show ?thesis
      by (rule ajax_frame_step [OF ok', where q' = "req w r" and es = "[]"])
        (use ajax_alone(1) [OF ok'] in \<open>auto simp: req_def request_ok_single request_ok_empty\<close>)
  next
    case PageCode
    then show ?thesis using ok by simp
  qed (use pop in auto)
qed

lemma unwind_ok: "ajax_ok (w, fs) \<Longrightarrow> ajax_ok (w, unwind w fs)"
proof (induction w fs rule: unwind.induct)
  case (3 w r p fs)
  have "ajax_ok (w, call_done r (-1) ''exception'' fs)"
    by (rule ajax_frame_step [OF 3(2), where q' = "req w r" and es = "[]"])
      (use ajax_alone(1) [OF 3(2)] in \<open>auto simp: req_def request_ok_done request_ok_single request_ok_empty\<close>)
  then show ?case using 3 pop_ok by simp
next
  case (4 w r f d fs)
  have "ajax_ok (w, DoneCall r f (Settle False ''parsererror'') # fs)" if "d = Converting"
    by (rule done_move [OF 4(2), where q' = "req w r" and es = "[]" and d' = "Settle False ''parsererror''"])
      (simp_all add: that req_def)
  then show ?case using 4 pop_ok by simp
qed (use pop_ok in auto)

lemma deliver_ok:
  assumes ok: "ajax_ok (w, fs)"
  shows "ajax_ok (w, deliver b fs)"
proof -
  have stay: "requests w = (requests w)[r := req w r]" for r by (simp add: req_def)
  consider r gs where "fs = AjaxCall r AskedBefore # gs" | r gs where "fs = AjaxCall r AskedTransport # gs"
    | "deliver b fs = fs"
    by (cases "(b, fs)" rule: deliver.cases) auto
  then show ?thesis
  proof cases
    case (1 r gs)
    have "ajax_ok (w, AjaxCall r (BeforeAnswer b) # gs)"
      by (rule ajax_move [where p = AskedBefore and p' = "BeforeAnswer b", OF _ _ stay]) (use ok 1 in auto)
    then show ?thesis using 1 by simp
  next
    case (2 r gs)
    have "ajax_ok (w, AjaxCall r (TransportAnswer b) # gs)"
      by (rule ajax_move [where p = AskedTransport and p' = "TransportAnswer b", OF _ _ stay]) (use ok 2 in auto)
    then show ?thesis using 2 by simp
  qed (use ok in simp)
qed

lemma new_request_ok:
  assumes ok: "ajax_ok (w, fs)"
  shows "ajax_ok (w\<lparr>requests := requests w @ [new_request P s]\<rparr>, AjaxCall (length (requests w)) Prefilters # fs)"
proof -
  let ?n = "length (requests w)" and ?c = "\<lambda>r. count_of (Trigger ''ajaxComplete'' r)"
  have old: "\<And>k. own_frames k fs \<noteq> [] \<Longrightarrow> k < ?n"
    "\<And>k. k < ?n \<Longrightarrow> request_ok (req w k) (?c k w) (own_frames k fs)"
    "\<And>k. ?n \<le> k \<Longrightarrow> ?c k w = 0"
    "active w = int (length (filter counted (requests w)))"
    "in_turn False (log w) (0 < active w)"
    using ok by (auto simp: ajax_ok_def)
  have e: "own_frames ?n fs = []" using old(1) [of ?n] by auto
  have c: "?c k (w\<lparr>requests := rs\<rparr>) = ?c k w" for k rs by (simp add: count_of_def)
  have "request_ok (new_request P s) 0 [AjaxCall ?n Prefilters]"
    by (simp add: request_ok_single new_request_def)
  then have new: "request_ok (req (w\<lparr>requests := requests w @ [new_request P s]\<rparr>) k) (?c k w)
      (own_frames k (AjaxCall ?n Prefilters # fs))" if "k < Suc ?n" for k
    using that old(2) [of k] old(3) [of ?n] e by (cases "k = ?n") (auto simp: req_def nth_append)
  have "own_frames k (AjaxCall ?n Prefilters # fs) \<noteq> [] \<Longrightarrow> k < Suc ?n" for k
    using old(1) [of k] by (auto split: if_splits)
  moreover have "?c k w = 0" if "Suc ?n \<le> k" for k using old(3) [of k] that by simp
  ultimately show ?thesis
    using new old(4,5) unfolding ajax_ok_def Let_def case_prod_conv c
    by (simp add: new_request_def)
qed

lemma frame_starts_about: "frame_starts r f \<Longrightarrow> about r f"
  by (cases f) simp_all

lemma sent_not_starting:
  assumes "request_ok q m (own_frames r fs)" "sent q"
  shows "\<not> starting r fs"
proof
  assume "starting r fs"
  then obtain f where f: "f \<in> set (own_frames r fs)" "frame_starts r f"
    unfolding starting_def list_ex_iff own_frames_def using frame_starts_about by auto
  from f(2) obtain p where p: "f = AjaxCall r p" "critical p" by (cases f) auto
  then show False using assms f by (cases p) (auto simp: request_ok_def list_all_iff)
qed

lemma act_ok:
  assumes ok: "ajax_ok (w, fs)" and page: "page_runs (w, fs)" and c: "considerate (w, fs) a"
  shows "ajax_ok (act P a (w, fs))"
proof -
  have q: "request_ok (req w r) (count_of (Trigger ''ajaxComplete'' r) w) (own_frames r fs)"
    if "exists w r" for r using ajax_ok_exists [OF ok that] .
  have change: "ajax_ok (upd r g w, fs)" if "exists w r" "\<And>q. same_phase (g q) q" for r g
    by (rule ajax_ok_silent [OF ok, where r = r and q' = "g (req w r)"])
      (use that q [OF that(1)] in \<open>auto simp: exists_def req_def same_phase_def request_ok_same [OF that(2)]\<close>)
  have abort: "ajax_ok (call_abort r t w fs)" if "exists w r" "\<not> starting r fs" for r t
    by (rule call_abort_ok [OF ok]) (use that q in \<open>auto simp: exists_def\<close>)
  show ?thesis
  proof (cases a)
    case (Return b)
    show ?thesis using ok deliver_ok by (cases "(w, fs)" rule: page_runs.cases) (simp_all add: Return)
  next
    case Throw
    show ?thesis using ok unwind_ok by (cases "(w, fs)" rule: page_runs.cases) (simp_all add: Throw)
  next
    case (NewRequest s)
    then show ?thesis using new_request_ok [OF ok] by simp
  next
    case (Abort r t)
    then show ?thesis using abort c ok by simp
  next
    case (SetHeader r n v)
    then show ?thesis using change [of r "set_header P n v"] ok by simp
  next
    case (OverrideMimeType r t)
    then show ?thesis using change [of r "change_settings (\<lambda>s. s\<lparr>s_mimeType := t\<rparr>)"] ok by simp
  next
    case (ChangeSettings r s')
    then show ?thesis using change [of r "change_settings (\<lambda>_. s')"] ok by simp
  next
    case (Answer r f)
    have "ajax_ok (w, DoneCall r f Enter # fs)" if e: "exists w r" "sent (req w r)"
    proof (rule ajax_ok_frames [OF ok])
      show "request_ok (req w r) (count_of (Trigger ''ajaxComplete'' r) w) (own_frames r (DoneCall r f Enter # fs))"
        using request_ok_waiting [OF q [OF e(1)] own_not_starting [OF sent_not_starting [OF q [OF e(1)] e(2)]]]
        by (simp add: own_frames_def)
    qed (use e in \<open>auto simp: exists_def\<close>)
    then show ?thesis using ok by (simp add: Answer)
  next
    case (Timeout r)
    let ?w = "upd r (\<lambda>q. q\<lparr>timer_runs := False\<rparr>) w"
    have "ajax_ok (call_abort r ''timeout'' ?w fs)" if e: "exists w r" "fs = []"
    proof -
      have ok': "ajax_ok (?w, fs)" by (rule change [OF e(1)]) (simp add: same_phase_def)
      have e': "exists ?w r" using e(1) by (simp add: exists_def)
      show ?thesis
        by (rule call_abort_ok [OF ok'])
          (use ajax_ok_exists [OF ok' e'] e' e(2) in \<open>auto simp: exists_def starting_def\<close>)
    qed
    then show ?thesis using ok by (simp add: Timeout)
  qed
qed

interpretation ajax_run: preserved_invariant "step P considerate" ajax_ok
proof
  fix c d assume "step P considerate c d" "ajax_ok c"
  then show "ajax_ok d"
    by (cases c, cases rule: step.cases) (auto simp: tick_ok act_ok)
qed

section \<open>What holds of every execution with a considerate page\<close>

text \<open>A request that takes part in the global events and is not done.\<close>

definition open_request :: "request \<Rightarrow> bool" where
  "open_request q \<longleftrightarrow> fireGlobals q \<and> xstate q < 2"

lemma filter_mono_length: "(\<And>x. x \<in> set xs \<Longrightarrow> P x \<Longrightarrow> Q x) \<Longrightarrow> length (filter P xs) \<le> length (filter Q xs)"
  by (induction xs) auto

text \<open>
  C6: Whatever requests the page starts, answers, aborts or lets time out, from whatever callbacks,
  \<open>jQuery.active\<close> is never negative and never less than the number of open requests, the events
  \<open>ajaxStart\<close> and \<open>ajaxStop\<close> come in turn with a request counted exactly in between, and
  \<open>ajaxComplete\<close> comes at most once for each request. It is assumed that no request is aborted while
  it is starting.
\<close>

theorem ajax_reachable_ok:
  assumes "reachable P considerate (w, fs)"
  shows "int (length (filter open_request (requests w))) \<le> active w \<and>
    in_turn False (log w) (0 < active w) \<and> count_of (Trigger ''ajaxComplete'' r) w \<le> 1"
proof -
  have ok: "ajax_ok (w, fs)"
    using ajax_run.reachable assms ajax_ok_initial unfolding reachable_def by blast
  have q: "request_ok (req w k) (count_of (Trigger ''ajaxComplete'' k) w) (own_frames k fs)"
    if "k < length (requests w)" for k
    using ajax_ok_exists [OF ok] that by (simp add: exists_def)
  have "counted x" if "x \<in> set (requests w)" "open_request x" for x
  proof -
    from that(1) obtain k where k: "k < length (requests w)" "requests w ! k = x"
      unfolding in_set_conv_nth by blast
    from q [OF k(1)] that(2) show ?thesis by (simp add: k(2) req_def open_request_def request_ok_def)
  qed
  then have "length (filter open_request (requests w)) \<le> length (filter counted (requests w))"
    by (rule filter_mono_length)
  moreover have "active w = int (length (filter counted (requests w)))" "in_turn False (log w) (0 < active w)"
    using ok unfolding ajax_ok_def Let_def case_prod_conv by blast+
  moreover have "count_of (Trigger ''ajaxComplete'' r) w \<le> 1"
    using ok q [of r] by (cases "r < length (requests w)") (simp_all add: ajax_ok_def request_ok_def)
  ultimately show ?thesis by simp
qed

text \<open>The second of two requests is answered first; the first one runs into its timeout.\<close>

definition two_requests :: "choice list" where
  "two_requests = [NewRequest (demo_settings\<lparr>s_timeout := 9\<rparr>), Return True, Return True, Return True, Return True,
     Return True] @ [NewRequest demo_settings, Return True, Return True, Return True, Return True,
     Answer 1 fine] @ replicate 6 (Return True) @ [Timeout 0] @ replicate 7 (Return True)"

lemma ajax_reachable_ok_witness:
  "plays demo_page considerate 20 two_requests initial \<and>
   log (fst (run demo_page 20 two_requests initial)) =
     [Trigger ''ajaxStart'' 0, Trigger ''ajaxSend'' 0, Sent 0 ''/x'' [(''Accept'', ''*/*'')],
      Trigger ''ajaxSend'' 1, Sent 1 ''/x'' [(''Accept'', ''*/*'')], Settled 1 Resolved ''success'',
      Trigger ''ajaxSuccess'' 1, Completed 1 ''success'', Trigger ''ajaxComplete'' 1,
      TransportAbort 0 ''timeout'', Settled 0 Rejected ''timeout'', Trigger ''ajaxError'' 0,
      Completed 0 ''timeout'', Trigger ''ajaxComplete'' 0, Trigger ''ajaxStop'' 0] \<and>
   in_turn False (log (fst (run demo_page 20 two_requests initial)))
     (0 < active (fst (run demo_page 20 two_requests initial)))"
proof -
  have p: "plays demo_page considerate 20 two_requests initial" by code_simp
  have "reachable demo_page considerate initial" by (simp add: reachable_def)
  from reachable_run [OF this p]
  have "reachable demo_page considerate (fst (run demo_page 20 two_requests initial),
      snd (run demo_page 20 two_requests initial))" by simp
  from ajax_reachable_ok [OF this, of 0] p show ?thesis
    by (intro conjI) (simp, code_simp, simp)
qed

section \<open>A page that is not considerate\<close>

definition abort_in_ajaxSend :: "choice list" where
  "abort_in_ajaxSend = [NewRequest demo_settings, Return True, Return True, Return True, Abort 0 []] @
     replicate 10 (Return True)"

definition observed :: "config \<Rightarrow> event list \<times> int \<times> frame list" where
  "observed c = (log (fst c), active (fst c), snd c)"

definition double_log :: "event list" where
  "double_log =
     [Trigger ''ajaxStart'' 0, Trigger ''ajaxSend'' 0, TransportAbort 0 ''abort'', Settled 0 Rejected ''abort'',
      Trigger ''ajaxError'' 0, Completed 0 ''abort'', Trigger ''ajaxComplete'' 0, Trigger ''ajaxStop'' 0,
      Trigger ''ajaxError'' 0, Trigger ''ajaxComplete'' 0]"

text \<open>
  A handler of \<open>ajaxSend\<close> that aborts the request makes \<open>done\<close> run twice for it: \<open>ajaxError\<close> and
  \<open>ajaxComplete\<close> are triggered a second time, after \<open>ajaxStop\<close>, and \<open>jQuery.active\<close> ends at \<open>-1\<close>. From
  then on a request that runs undisturbed triggers neither \<open>ajaxStart\<close> nor \<open>ajaxStop\<close>.
\<close>

theorem abort_in_ajaxSend_counts_twice:
  "observed (run demo_page 20 abort_in_ajaxSend initial) = (double_log, -1, []) \<and>
   observed (run demo_page 20 (abort_in_ajaxSend @ undisturbed 1) initial) =
     (double_log @ [Trigger ''ajaxSend'' 1, Sent 1 ''/x'' [(''Accept'', ''*/*'')], Settled 1 Resolved ''success'',
        Trigger ''ajaxSuccess'' 1, Completed 1 ''success'', Trigger ''ajaxComplete'' 1], -1, [])"
  by (intro conjI; code_simp)

end
