(* ===== verification/JQ_Ajax_Done.thy ===== *)
theory JQ_Ajax_Done
  imports JQ_Ajax
begin

text \<open>
  What the function \<open>done\<close> of a request reports, and in which order.
\<close>

section \<open>What \<open>done\<close> does\<close>

text \<open>A page whose code returns at once wherever it is called.\<close>

fun quiet_step :: "'f page \<Rightarrow> config \<Rightarrow> config" where
  "quiet_step P (w, PageCode # fs) = act P (Return True) (w, PageCode # fs)"
| "quiet_step P (w, fs) = tick P (w, fs)"

definition leads_to :: "'f page \<Rightarrow> config \<Rightarrow> config \<Rightarrow> bool" where
  "leads_to P c d \<longleftrightarrow> (\<exists>n. (quiet_step P ^^ n) c = d)"

lemma leads_to_refl: "leads_to P c c"
  unfolding leads_to_def by (rule exI [of _ 0]) simp

lemma leads_to_step: "leads_to P (quiet_step P c) d \<Longrightarrow> leads_to P c d"
  unfolding leads_to_def by (metis funpow_simps_right(2) o_apply)

text \<open>Code that called \<open>done\<close> is code of the page, or the browser.\<close>

definition page_below :: "frame list \<Rightarrow> bool" where
  "page_below fs \<longleftrightarrow> fs = [] \<or> hd fs = PageCode"

lemma deliver_page_below: "page_below fs \<Longrightarrow> deliver b fs = fs"
  by (cases "(b, fs)" rule: deliver.cases) (auto simp: page_below_def)

lemma leads_to_done:
  "leads_to P (done_step P r f d w fs) c \<Longrightarrow> leads_to P (w, DoneCall r f d # fs) c"
  by (rule leads_to_step) simp

lemma leads_to_return:
  "leads_to P (w, DoneCall r f d # fs) c \<Longrightarrow> leads_to P (w, PageCode # DoneCall r f d # fs) c"
  "page_below fs \<Longrightarrow> leads_to P (w, fs) c \<Longrightarrow> leads_to P (w, PageCode # fs) c"
  by (rule leads_to_step, simp)+ (simp add: deliver_page_below leads_to_step)

text \<open>The state and the announcements of a request that ends with \<open>d\<close> and the text \<open>t\<close>.\<close>

definition report :: "nat \<Rightarrow> bool \<Rightarrow> int \<Rightarrow> bool \<Rightarrow> string \<Rightarrow> event list" where
  "report r globals n isSuccess t =
     [Settled r (if isSuccess then Resolved else Rejected) t] @
     (if globals then [Trigger (if isSuccess then ''ajaxSuccess'' else ''ajaxError'') r] else []) @
     [Completed r t] @
     (if globals then Trigger ''ajaxComplete'' r # (if n = 1 then [Trigger ''ajaxStop'' r] else []) else [])"

lemma settle_leads_to:
  assumes r: "r < length (requests w)" and d: "deferred (req w r) = Pending" "\<not> completed (req w r)"
    and below: "page_below fs"
  shows "\<exists>w'. leads_to P (w, DoneCall r f (Settle isSuccess t) # fs) (w', fs) \<and>
    log w' = log w @ report r (fireGlobals (req w r)) (active w) isSuccess t \<and>
    active w' = active w - of_bool (fireGlobals (req w r)) \<and>
    deferred (req w' r) = (if isSuccess then Resolved else Rejected) \<and> status (req w' r) = o_status f"
proof -
  let ?d = "if isSuccess then Resolved else Rejected"
  let ?a = "upd r (\<lambda>q. q\<lparr>status := o_status f, statusText := (if o_text f \<noteq> [] then o_text f else t)\<rparr>) w"
  let ?b = "say (Settled r ?d t) (upd r (\<lambda>q. q\<lparr>deferred := ?d\<rparr>) ?a)"
  let ?c = "upd r (\<lambda>q. q\<lparr>statusCode := False\<rparr>) ?b"
  let ?e = "if fireGlobals (req w r) then say (Trigger (if isSuccess then ''ajaxSuccess'' else ''ajaxError'') r) ?c else ?c"
  let ?f = "say (Completed r t) (upd r (\<lambda>q. q\<lparr>completed := True\<rparr>) ?e)"
  let ?g = "say (Trigger ''ajaxComplete'' r) ?f"
  let ?h = "upd r (\<lambda>q. q\<lparr>counted := False\<rparr>) (?g\<lparr>active := active ?g - 1\<rparr>)"
  let ?i = "if active w = 1 then say (Trigger ''ajaxStop'' r) ?h else ?h"
  let ?z = "if fireGlobals (req w r) then ?i else ?f"
  note below' = leads_to_return(2) [OF below] 
  have count: "leads_to P (?g, DoneCall r f Count # fs) (?i, fs)"
    by (rule leads_to_done) (auto simp: Let_def trigger_def intro: below' leads_to_refl)
  have "leads_to P (?f, DoneCall r f Global # fs) (?z, fs)"
    by (rule leads_to_done) (use r count in \<open>auto simp: trigger_def intro: leads_to_return leads_to_refl\<close>)
  then have "leads_to P (?e, DoneCall r f (Complete t) # fs) (?z, fs)"
    by (intro leads_to_done) (use r d in \<open>auto simp: intro: leads_to_return\<close>)
  then have "leads_to P (?b, DoneCall r f (Announce isSuccess t) # fs) (?z, fs)"
    by (intro leads_to_done) (use r in \<open>auto simp: Let_def trigger_def intro: leads_to_return\<close>)
  then have "leads_to P (?b, DoneCall r f (Codes isSuccess t) # fs) (?z, fs)"
    by (intro leads_to_done) (auto intro: leads_to_return)
  then have "leads_to P (w, DoneCall r f (Settle isSuccess t) # fs) (?z, fs)"
    by (intro leads_to_done) (use r d in \<open>auto simp: Let_def intro: leads_to_return\<close>)
  then show ?thesis
    by (rule exI [of _ ?z, OF conjI]) (use r in \<open>auto simp: report_def\<close>)
qed

text \<open>The text \<open>done\<close> reports: the one it was given, or the one that stands for the outcome.\<close>

definition reported :: "outcome \<Rightarrow> string" where
  "reported f =
     (if is_ok (o_status f) then (if o_status f = 304 then ''notmodified'' else ''success'')
      else if o_text f = [] \<or> o_status f \<noteq> 0 then ''error'' else o_text f)"

text \<open>
  C10: When \<open>done\<close> is called for a request that is not done, it runs to its end as long as the callbacks
  return, and settles the request: first the success or error callbacks run, then the global event
  for them, then the complete callbacks, then \<open>ajaxComplete\<close> and, after the last request that is
  counted, \<open>ajaxStop\<close>. Nothing else is reported, and the counter goes down by one if the request
  takes part in the global events.
\<close>

theorem done_reports_in_order:
  assumes "r < length (requests w)" "xstate (req w r) < 2" "deferred (req w r) = Pending"
    "\<not> completed (req w r)" "page_below fs"
  shows "\<exists>w'. leads_to P (w, DoneCall r f Enter # fs) (w', fs) \<and>
    log w' = log w @ report r (fireGlobals (req w r)) (active w) (is_ok (o_status f)) (reported f) \<and>
    active w' = active w - of_bool (fireGlobals (req w r)) \<and>
    deferred (req w' r) = (if is_ok (o_status f) then Resolved else Rejected)"
proof -
  let ?m = "upd r (mark_done f) w"
  have m: "deferred (mark_done f q) = deferred q" "completed (mark_done f q) = completed q"
    "fireGlobals (mark_done f q) = fireGlobals q" for q
    by (simp_all add: mark_done_def)
  have settle: "\<exists>w'. leads_to P (v, DoneCall r g (Settle b t) # fs) (w', fs) \<and>
      log w' = log w @ report r (fireGlobals (req w r)) (active w) b t \<and>
      active w' = active w - of_bool (fireGlobals (req w r)) \<and>
      deferred (req w' r) = (if b then Resolved else Rejected)"
    if "v = ?m \<or> v = note_modified P r ?m" for v g b t
    using settle_leads_to [of r v fs P g b t] that assms m by auto
  have "xstate (req w r) \<noteq> 2" using assms(2) by simp
  then have "leads_to P (done_step P r f Enter w fs) (w', fs) \<Longrightarrow> leads_to P (w, DoneCall r f Enter # fs) (w', fs)" for w'
    by (intro leads_to_done)
  moreover have "\<exists>w'. leads_to P (done_step P r f Enter w fs) (w', fs) \<and>
      log w' = log w @ report r (fireGlobals (req w r)) (active w) (is_ok (o_status f)) (reported f) \<and>
      active w' = active w - of_bool (fireGlobals (req w r)) \<and>
      deferred (req w' r) = (if is_ok (o_status f) then Resolved else Rejected)"
  proof (cases "is_ok (o_status f) \<and> o_status f \<noteq> 304")
    case True
    from settle [of "note_modified P r ?m" f True "''success''"]
    obtain w' where w': "leads_to P (note_modified P r ?m, DoneCall r f (Settle True ''success'') # fs) (w', fs)"
      "log w' = log w @ report r (fireGlobals (req w r)) (active w) True ''success''"
      "active w' = active w - of_bool (fireGlobals (req w r))" "deferred (req w' r) = Resolved"
      by auto
    have "leads_to P (note_modified P r ?m, PageCode # DoneCall r f Converting # fs) (w', fs)"
      by (intro leads_to_return leads_to_done) (simp add: w'(1))
    then show ?thesis
      using True w'(2-4) assms(2) by (intro exI [of _ w']) (simp add: enter_done_def Let_def reported_def)
  next
    case False
    then have "done_step P r f Enter w fs =
        (if is_ok (o_status f) then note_modified P r ?m else ?m,
         DoneCall r (if is_ok (o_status f) \<or> o_text f \<noteq> [] \<and> o_status f = 0 then f
           else f\<lparr>o_status := max 0 (o_status f)\<rparr>) (Settle (is_ok (o_status f)) (reported f)) # fs)"
      using assms(2) by (simp add: enter_done_def Let_def reported_def)
    then show ?thesis using settle by simp
  qed
  ultimately show ?thesis by blast
qed

definition demo_world :: world where
  "demo_world = \<lparr>active = 1, lastModified = Map.empty, etag = Map.empty,
     requests = [(new_request demo_page demo_settings)\<lparr>xstate := 1, sent := True, fireGlobals := True\<rparr>], log = []\<rparr>"

lemma done_reports_in_order_witness:
  "\<exists>w'. leads_to demo_page (demo_world, DoneCall 0 fine Enter # [PageCode]) (w', [PageCode]) \<and>
     log w' = [Settled 0 Resolved ''success'', Trigger ''ajaxSuccess'' 0, Completed 0 ''success'',
       Trigger ''ajaxComplete'' 0, Trigger ''ajaxStop'' 0] \<and> active w' = 0"
proof -
  have r: "is_ok (o_status fine)" "reported fine = ''success''" by (simp_all add: is_ok_def fine_def reported_def)
  show ?thesis
    using done_reports_in_order [of 0 demo_world "[PageCode]" demo_page fine]
    by (auto simp: r demo_world_def req_def new_request_def page_below_def report_def)
qed

end
